(* ===== verification/Prelude.thy ===== *)
theory Prelude
  imports Main "HOL-Library.AList" "HOL-Library.Sublist"
begin

text \<open>
  Shared vocabulary of the development.

  A JavaScript string is a list of UTF-16 code units, \<open>jstr\<close>; a string literal of the
  source is written \<open>js ''...''\<close>.  A JavaScript \<open>Map\<close> (and an object used as a
  dictionary) iterates in insertion order and overwrites in place, which is exactly an
  association list with the library's \<open>map_of\<close> (get), \<open>AList.update\<close> (set: in place,
  or appended) and \<open>AList.delete\<close>; \<open>assoc\<close> abbreviates that type.  An error is a
  value: a function that may throw returns \<open>'e + 'a\<close>, \<open>Inl\<close> for the exception.

  The collections: \<open>assoc_laws\<close> holds the rewrite rules of association lists, \<open>eval\<close> the
  definitions that evaluate closed terms by \<open>simp add: eval\<close>.
\<close>

named_theorems assoc_laws
named_theorems eval

type_synonym jstr = "nat list"
type_synonym ('k, 'v) assoc = "('k \<times> 'v) list"

abbreviation keys :: "('k, 'v) assoc \<Rightarrow> 'k set" where
  "keys m \<equiv> fst ` set m"

abbreviation wf_assoc :: "('k, 'v) assoc \<Rightarrow> bool" where
  "wf_assoc m \<equiv> distinct (map fst m)"

section \<open>String literals\<close>

definition js :: "string \<Rightarrow> jstr" where
  "js s = map of_char s"

lemma js_simps [simp]:
  "js [] = []"
  "js (c # s) = of_char c # js s"
  by (simp_all add: js_def)

lemma length_js [simp]: "length (js s) = length s"
  by (simp add: js_def)

section \<open>Association lists as insertion-ordered maps\<close>

lemmas [assoc_laws] = update_conv' delete_conv' distinct_update distinct_delete

lemma update_fresh [assoc_laws]: "k \<notin> keys m \<Longrightarrow> AList.update k v m = m @ [(k, v)]"
  by (induction m) auto

lemma delete_fresh [assoc_laws]: "k \<notin> keys m \<Longrightarrow> AList.delete k m = m"
  by (induction m) (auto simp: AList.delete_eq)

lemma delete_update_fresh [assoc_laws]: "k \<notin> keys m \<Longrightarrow> AList.delete k (AList.update k v m) = m"
  by (simp add: update_fresh AList.delete_eq) (induction m; auto)

lemma keys_update [assoc_laws]: "keys (AList.update k v m) = insert k (keys m)"
  by (simp add: dom_update)

lemma keys_delete [assoc_laws]: "keys (AList.delete k m) = keys m - {k}"
  by (auto simp: AList.delete_eq)

lemma map_of_None_keys: "map_of m k = None \<longleftrightarrow> k \<notin> keys m"
  by (simp add: map_of_eq_None_iff)

lemma map_of_Some_keys: "map_of m k = Some v \<Longrightarrow> k \<in> keys m"
  by (metis map_of_None_keys option.distinct(1))

lemma update_same [assoc_laws]: "map_of m k = Some v \<Longrightarrow> AList.update k v m = m"
  by (induction m) (auto split: if_splits)

lemma length_update_present: "k \<in> keys m \<Longrightarrow> length (AList.update k v m) = length m"
  by (induction m) auto

lemma length_update_le: "length (AList.update k v m) \<le> Suc (length m)"
  by (induction m) auto

lemma length_delete_le: "length (AList.delete k m) \<le> length m"
  by (simp add: AList.delete_eq)

lemma map_of_filter_wf:
  "wf_assoc m \<Longrightarrow> map_of (filter (\<lambda>(k, v). P v) m) k = (case map_of m k of None \<Rightarrow> None | Some v \<Rightarrow> if P v then Some v else None)"
  by (induction m) (auto simp: map_of_eq_None_iff split: option.splits)

section \<open>Splitting and joining\<close>

text \<open>\<open>String.prototype.split\<close> on a one-character separator: always at least one part.\<close>

fun split_on :: "nat \<Rightarrow> jstr \<Rightarrow> jstr list" where
  "split_on c [] = [[]]"
| "split_on c (x # xs) =
     (if x = c then [] # split_on c xs
      else (case split_on c xs of [] \<Rightarrow> [[x]] | p # ps \<Rightarrow> (x # p) # ps))"

fun join_on :: "nat \<Rightarrow> jstr list \<Rightarrow> jstr" where
  "join_on c [] = []"
| "join_on c [p] = p"
| "join_on c (p # q # ps) = p @ c # join_on c (q # ps)"

lemma split_on_nonempty [simp]: "split_on c s \<noteq> []"
  by (induction s) (auto split: list.splits)

lemma join_on_Cons: "ps \<noteq> [] \<Longrightarrow> join_on c (p # ps) = p @ c # join_on c ps"
  by (cases ps) auto

lemma join_split [simp]: "join_on c (split_on c s) = s"
proof (induction s)
  case Nil
  then show ?case by simp
next
  case (Cons x xs)
  obtain p ps where sp: "split_on c xs = p # ps"
    by (cases "split_on c xs") auto
  with Cons.IH show ?case
    by (cases ps) (auto simp: join_on_Cons)
qed

lemma split_on_no_sep: "p \<in> set (split_on c s) \<Longrightarrow> c \<notin> set p"
  by (induction s arbitrary: p) (auto split: if_splits list.splits)

lemma split_on_chars: "p \<in> set (split_on c s) \<Longrightarrow> set p \<subseteq> set s"
proof (induction s arbitrary: p)
  case (Cons x xs)
  obtain q qs where "split_on c xs = q # qs"
    by (cases "split_on c xs") auto
  with Cons show ?case
    by (fastforce split: if_splits)
qed simp

lemma split_on_app: "split_on c (a @ c # b) = split_on c a @ split_on c b"
  by (induction a) (auto split: list.splits)

lemma split_on_append: "c \<notin> set p \<Longrightarrow> split_on c (p @ c # s) = p # split_on c s"
  by (induction p) (auto split: list.splits)

lemma split_on_plain: "c \<notin> set p \<Longrightarrow> split_on c p = [p]"
  by (induction p) auto

lemma split_join:
  assumes "ps \<noteq> []" and "\<forall>p \<in> set ps. c \<notin> set p"
  shows "split_on c (join_on c ps) = ps"
  using assms
proof (induction ps)
  case (Cons p ps)
  then show ?case
    by (cases ps) (auto simp: split_on_plain split_on_append)
qed simp

lemma set_join_on: "set (join_on c ps) \<subseteq> insert c (\<Union> (set ` set ps))"
proof (induction ps)
  case (Cons p ps)
  then show ?case by (cases ps) auto
qed simp

end
