(* ===== verification/JsText.thy ===== *)
theory JsText
  imports Prelude
begin

text \<open>
  The parts of the JavaScript standard library that the modelled code calls on strings:
  trimming, ASCII case mapping, decimal and hexadecimal conversion, UTF-8
  (\<open>TextEncoder\<close>, \<open>TextDecoder\<close> with \<open>fatal: true\<close>) and
  \<open>encodeURIComponent\<close> / \<open>decodeURIComponent\<close> (ECMA-262, Encode and Decode).
  Bytes are numbers below 256.  The round-trip lemmas are what the cookie and WebSocket
  components rest on.
\<close>

section \<open>Trimming, case, digits\<close>

definition is_js_space :: "nat \<Rightarrow> bool" where
  "is_js_space c \<longleftrightarrow> (9 \<le> c \<and> c \<le> 13) \<or> c = 32 \<or> c = 160 \<or> c = 5760 \<or> (8192 \<le> c \<and> c \<le> 8202)
     \<or> c = 8232 \<or> c = 8233 \<or> c = 8239 \<or> c = 8287 \<or> c = 12288 \<or> c = 65279"

definition js_trim :: "jstr \<Rightarrow> jstr" where
  "js_trim s = rev (dropWhile is_js_space (rev (dropWhile is_js_space s)))"

definition lower_unit :: "nat \<Rightarrow> nat" where
  "lower_unit c = (if 65 \<le> c \<and> c \<le> 90 then c + 32 else c)"

definition to_lower :: "jstr \<Rightarrow> jstr" where
  "to_lower s = map lower_unit s"

definition upper_unit :: "nat \<Rightarrow> nat" where
  "upper_unit c = (if 97 \<le> c \<and> c \<le> 122 then c - 32 else c)"

definition to_upper :: "jstr \<Rightarrow> jstr" where
  "to_upper s = map upper_unit s"

definition is_digit :: "nat \<Rightarrow> bool" where
  "is_digit c \<longleftrightarrow> 48 \<le> c \<and> c \<le> 57"

definition hex_val :: "nat \<Rightarrow> nat option" where
  "hex_val c = (if 48 \<le> c \<and> c \<le> 57 then Some (c - 48)
     else if 97 \<le> c \<and> c \<le> 102 then Some (c - 87)
     else if 65 \<le> c \<and> c \<le> 70 then Some (c - 55) else None)"

definition is_hex :: "nat \<Rightarrow> bool" where
  "is_hex c \<longleftrightarrow> hex_val c \<noteq> None"

definition dec_val :: "jstr \<Rightarrow> nat" where
  "dec_val s = foldl (\<lambda>n c. n * 10 + (c - 48)) 0 s"

definition hexs_val :: "jstr \<Rightarrow> nat" where
  "hexs_val s = foldl (\<lambda>n c. n * 16 + the (hex_val c)) 0 s"

fun dec_str :: "nat \<Rightarrow> jstr" where
  "dec_str n = (if n < 10 then [48 + n] else dec_str (n div 10) @ [48 + n mod 10])"

definition hex_digit :: "nat \<Rightarrow> nat" where
  "hex_digit d = (if d < 10 then 48 + d else 87 + d)"

definition hex_digit_upper :: "nat \<Rightarrow> nat" where
  "hex_digit_upper d = (if d < 10 then 48 + d else 55 + d)"

fun hex_str :: "nat \<Rightarrow> jstr" where
  "hex_str n = (if n < 16 then [hex_digit n] else hex_str (n div 16) @ [hex_digit (n mod 16)])"

declare dec_str.simps [simp del] hex_str.simps [simp del]

lemma hex_val_bound: "hex_val c = Some v \<Longrightarrow> v < 16"
  by (auto simp: hex_val_def split: if_splits)

lemma hex_val_digit [simp]: "d < 16 \<Longrightarrow> hex_val (hex_digit d) = Some d"
  by (auto simp: hex_val_def hex_digit_def)

lemma hex_val_digit_upper [simp]: "d < 16 \<Longrightarrow> hex_val (hex_digit_upper d) = Some d"
  by (auto simp: hex_val_def hex_digit_upper_def)

lemma dec_str_digits: "\<forall>c \<in> set (dec_str n). is_digit c"
proof (induction n rule: dec_str.induct)
  case (1 n)
  show ?case
    using "1.IH" by (subst dec_str.simps) (auto simp: is_digit_def)
qed

lemma dec_str_nonempty [simp]: "dec_str n \<noteq> []"
  by (subst dec_str.simps) simp

lemma dec_val_snoc: "dec_val (s @ [c]) = dec_val s * 10 + (c - 48)"
  by (simp add: dec_val_def)

lemma dec_val_str [simp]: "dec_val (dec_str n) = n"
proof (induction n rule: dec_str.induct)
  case (1 n)
  show ?case
  proof (cases "n < 10")
    case True
    then show ?thesis by (subst dec_str.simps) (simp add: dec_val_def)
  next
    case False
    with "1.IH" show ?thesis by (subst dec_str.simps) (simp add: dec_val_snoc)
  qed
qed

lemma dec_str_digit: "d < 10 \<Longrightarrow> dec_str d = [48 + d]"
  by (subst dec_str.simps) simp

lemma dec_str_snoc: "n \<noteq> 0 \<Longrightarrow> d < 10 \<Longrightarrow> dec_str (n * 10 + d) = dec_str n @ [48 + d]"
  by (subst dec_str.simps) simp

lemma dec_str_length: "n < 10 ^ k \<Longrightarrow> 0 < k \<Longrightarrow> length (dec_str n) \<le> k"
proof (induction k arbitrary: n)
  case (Suc k)
  show ?case
  proof (cases "n < 10")
    case False
    then have "k \<noteq> 0" using Suc.prems by (cases k) auto
    moreover have "n div 10 < 10 ^ k" using Suc.prems by (simp add: less_mult_imp_div_less mult.commute)
    ultimately show ?thesis using Suc.IH [of "n div 10"] False by (simp add: dec_str.simps [of n])
  qed (simp add: dec_str.simps [of n])
qed simp

lemma hex_str_length: "n < 16 ^ k \<Longrightarrow> 0 < k \<Longrightarrow> length (hex_str n) \<le> k"
proof (induction k arbitrary: n)
  case (Suc k)
  show ?case
  proof (cases "n < 16")
    case False
    then have "k \<noteq> 0" using Suc.prems by (cases k) auto
    moreover have "n div 16 < 16 ^ k" using Suc.prems by (simp add: less_mult_imp_div_less mult.commute)
    ultimately show ?thesis using Suc.IH [of "n div 16"] False by (simp add: hex_str.simps [of n])
  qed (simp add: hex_str.simps [of n])
qed simp

lemma hex_str_digits: "\<forall>c \<in> set (hex_str n). is_hex c \<and> c \<noteq> 58"
proof (induction n rule: hex_str.induct)
  case (1 n)
  show ?case
    using "1.IH" by (subst hex_str.simps) (auto simp: is_hex_def hex_digit_def hex_val_def)
qed

lemma hex_str_nonempty [simp]: "hex_str n \<noteq> []"
  by (subst hex_str.simps) simp

lemma dropWhile_id: "\<forall>c \<in> set s. \<not> P c \<Longrightarrow> dropWhile P s = s"
  by (cases s) auto

lemma js_trim_id: "\<forall>c \<in> set s. \<not> is_js_space c \<Longrightarrow> js_trim s = s"
  by (simp add: js_trim_def dropWhile_id)

lemma hexs_val_snoc: "hexs_val (s @ [c]) = hexs_val s * 16 + the (hex_val c)"
  by (simp add: hexs_val_def)

lemma hexs_val_str [simp]: "hexs_val (hex_str n) = n"
proof (induction n rule: hex_str.induct)
  case (1 n)
  show ?case
  proof (cases "n < 16")
    case True
    then show ?thesis by (subst hex_str.simps) (simp add: hexs_val_def)
  next
    case False
    with "1.IH" show ?thesis by (subst hex_str.simps) (simp add: hexs_val_snoc)
  qed
qed

lemmas [eval] = is_js_space_def js_trim_def lower_unit_def to_lower_def upper_unit_def to_upper_def
  is_digit_def hex_val_def is_hex_def dec_val_def hexs_val_def hex_digit_def hex_digit_upper_def
  dec_str.simps hex_str.simps

section \<open>Code points, UTF-16 and UTF-8\<close>

definition is_high :: "nat \<Rightarrow> bool" where "is_high c \<longleftrightarrow> 55296 \<le> c \<and> c \<le> 56319"
definition is_low :: "nat \<Rightarrow> bool" where "is_low c \<longleftrightarrow> 56320 \<le> c \<and> c \<le> 57343"
definition is_scalar :: "nat \<Rightarrow> bool" where
  "is_scalar cp \<longleftrightarrow> cp < 55296 \<or> (57343 < cp \<and> cp < 1114112)"

definition utf16 :: "nat \<Rightarrow> jstr" where
  "utf16 cp = (if cp < 65536 then [cp]
     else [55296 + (cp - 65536) div 1024, 56320 + (cp - 65536) mod 1024])"

text \<open>The code points of a string; a lone surrogate is an error (\<open>None\<close>).\<close>

fun code_points :: "jstr \<Rightarrow> nat list option" where
  "code_points [] = Some []"
| "code_points [c] = (if is_high c \<or> is_low c then None else Some [c])"
| "code_points (c # d # s) =
     (if is_high c then
        (if is_low d then map_option (Cons (65536 + (c - 55296) * 1024 + (d - 56320))) (code_points s)
         else None)
      else if is_low c then None
      else map_option (Cons c) (code_points (d # s)))"

text \<open>As \<open>TextEncoder\<close> reads a string: a lone surrogate becomes U+FFFD.\<close>

fun code_points_lossy :: "jstr \<Rightarrow> nat list" where
  "code_points_lossy [] = []"
| "code_points_lossy [c] = [if is_high c \<or> is_low c then 65533 else c]"
| "code_points_lossy (c # d # s) =
     (if is_high c then
        (if is_low d then (65536 + (c - 55296) * 1024 + (d - 56320)) # code_points_lossy s
         else 65533 # code_points_lossy (d # s))
      else if is_low c then 65533 # code_points_lossy (d # s)
      else c # code_points_lossy (d # s))"

definition utf8_cp :: "nat \<Rightarrow> nat list" where
  "utf8_cp cp =
     (if cp < 128 then [cp]
      else if cp < 2048 then [192 + cp div 64, 128 + cp mod 64]
      else if cp < 65536 then [224 + cp div 4096, 128 + cp div 64 mod 64, 128 + cp mod 64]
      else [240 + cp div 262144, 128 + cp div 4096 mod 64, 128 + cp div 64 mod 64, 128 + cp mod 64])"

definition utf8_encode :: "jstr \<Rightarrow> nat list" where
  "utf8_encode s = concat (map utf8_cp (code_points_lossy s))"

definition is_cont :: "nat \<Rightarrow> bool" where "is_cont b \<longleftrightarrow> 128 \<le> b \<and> b \<le> 191"

text \<open>One well-formed UTF-8 sequence off the front: no overlong form, no surrogate.\<close>

fun utf8_step :: "nat list \<Rightarrow> (nat \<times> nat list) option" where
  "utf8_step [] = None"
| "utf8_step (b # bs) =
     (if b < 128 then Some (b, bs)
      else if 192 \<le> b \<and> b \<le> 223 then
        (case bs of c1 # r \<Rightarrow>
           (let cp = (b - 192) * 64 + (c1 - 128)
            in if is_cont c1 \<and> 128 \<le> cp then Some (cp, r) else None)
         | _ \<Rightarrow> None)
      else if 224 \<le> b \<and> b \<le> 239 then
        (case bs of c1 # c2 # r \<Rightarrow>
           (let cp = (b - 224) * 4096 + (c1 - 128) * 64 + (c2 - 128)
            in if is_cont c1 \<and> is_cont c2 \<and> 2048 \<le> cp \<and> is_scalar cp then Some (cp, r) else None)
         | _ \<Rightarrow> None)
      else if 240 \<le> b \<and> b \<le> 247 then
        (case bs of c1 # c2 # c3 # r \<Rightarrow>
           (let cp = (b - 240) * 262144 + (c1 - 128) * 4096 + (c2 - 128) * 64 + (c3 - 128)
            in if is_cont c1 \<and> is_cont c2 \<and> is_cont c3 \<and> 65536 \<le> cp \<and> is_scalar cp
               then Some (cp, r) else None)
         | _ \<Rightarrow> None)
      else None)"

lemma utf8_step_shorter: "utf8_step bs = Some (cp, r) \<Longrightarrow> length r < length bs"
  by (cases bs) (auto simp: Let_def split: if_splits list.splits)

function utf8_decode_raw :: "nat list \<Rightarrow> jstr option" where
  "utf8_decode_raw [] = Some []"
| "utf8_decode_raw (b # bs) =
     (case utf8_step (b # bs) of None \<Rightarrow> None
      | Some (cp, r) \<Rightarrow> map_option ((@) (utf16 cp)) (utf8_decode_raw r))"
  by pat_completeness auto
termination
  by (relation "measure length") (auto dest: utf8_step_shorter simp del: utf8_step.simps)

text \<open>
  \<open>new TextDecoder("utf-8", \<lbrace> fatal: true \<rbrace>).decode(bytes)\<close>: throws (\<open>None\<close>) on
  ill-formed input, and strips one leading byte-order mark, the default of
  \<open>ignoreBOM: false\<close>.
\<close>

definition utf8_decode :: "nat list \<Rightarrow> jstr option" where
  "utf8_decode bs = utf8_decode_raw (if take 3 bs = [239, 187, 191] then drop 3 bs else bs)"

lemma is_scalar_cases:
  assumes "is_scalar cp"
  obtains "cp < 128" | "128 \<le> cp" "cp < 2048" | "2048 \<le> cp" "cp < 65536" | "65536 \<le> cp" "cp < 1114112"
  using assms unfolding is_scalar_def by linarith

lemma mod_64_le [simp]: "n mod 64 \<le> (63::nat)"
  using mod_less_divisor [of 64 n] by linarith

lemma split_64: "(n::nat) div 64 * 64 + n mod 64 = n"
  by simp

lemma div_64_64: "(n::nat) div 64 div 64 = n div 4096" "(n::nat) div 4096 div 64 = n div 262144"
  by (simp_all add: div_mult2_eq [symmetric])

lemma split_4096: "(n::nat) div 4096 * 4096 + (n div 64 mod 64) * 64 + n mod 64 = n"
  using split_64 [of n] split_64 [of "n div 64"] unfolding div_64_64 by linarith

lemma split_262144:
  "(n::nat) div 262144 * 262144 + (n div 4096 mod 64) * 4096 + (n div 64 mod 64) * 64 + n mod 64 = n"
  using split_4096 [of n] split_64 [of "n div 4096"] unfolding div_64_64 by linarith

lemma utf8_step_2:
  "2 \<le> a \<Longrightarrow> a \<le> 31 \<Longrightarrow> b \<le> 63 \<Longrightarrow> utf8_step ((192 + a) # (128 + b) # r) = Some (a * 64 + b, r)"
  by (simp add: is_cont_def Let_def)

lemma utf8_step_3:
  "a \<le> 15 \<Longrightarrow> b \<le> 63 \<Longrightarrow> c \<le> 63 \<Longrightarrow> 2048 \<le> a * 4096 + b * 64 + c \<Longrightarrow> is_scalar (a * 4096 + b * 64 + c) \<Longrightarrow>
   utf8_step ((224 + a) # (128 + b) # (128 + c) # r) = Some (a * 4096 + b * 64 + c, r)"
  by (simp add: is_cont_def Let_def)

lemma utf8_step_4:
  assumes "a \<le> 7" "b \<le> 63" "c \<le> 63" "d \<le> 63"
    and "65536 \<le> a * 262144 + b * 4096 + c * 64 + d" "is_scalar (a * 262144 + b * 4096 + c * 64 + d)"
  shows "utf8_step ((240 + a) # (128 + b) # (128 + c) # (128 + d) # r)
    = Some (a * 262144 + b * 4096 + c * 64 + d, r)"
proof -
  have "\<not> 240 + a < 128" "\<not> 240 + a \<le> 223" "\<not> 240 + a \<le> 239" "240 \<le> 240 + a" "240 + a \<le> 247"
    and sub: "240 + a - 240 = a" "128 + b - 128 = b" "128 + c - 128 = c" "128 + d - 128 = d"
    and "is_cont (128 + b)" "is_cont (128 + c)" "is_cont (128 + d)"
    using assms(1-4) by (auto simp: is_cont_def)
  then show ?thesis
    unfolding utf8_step.simps Let_def list.case sub using assms(5,6) by presburger
qed

lemma utf8_cp_forms:
  "128 \<le> cp \<Longrightarrow> cp < 2048 \<Longrightarrow> utf8_cp cp = [192 + cp div 64, 128 + cp mod 64]"
  "2048 \<le> cp \<Longrightarrow> cp < 65536 \<Longrightarrow>
     utf8_cp cp = [224 + cp div 4096, 128 + cp div 64 mod 64, 128 + cp mod 64]"
  "65536 \<le> cp \<Longrightarrow>
     utf8_cp cp = [240 + cp div 262144, 128 + cp div 4096 mod 64, 128 + cp div 64 mod 64, 128 + cp mod 64]"
  unfolding utf8_cp_def by auto

lemma utf8_step_cp:
  assumes sc: "is_scalar cp"
  shows "utf8_step (utf8_cp cp @ r) = Some (cp, r)"
proof (cases rule: is_scalar_cases [OF sc])
  case 1
  then show ?thesis by (simp add: utf8_cp_def)
next
  case 2
  have "2 \<le> cp div 64" using div_le_mono [OF 2(1), of 64] by simp
  moreover have "cp div 64 \<le> 31"
    using 2(2) by (simp add: less_Suc_eq_le [symmetric] div_less_iff_less_mult)
  ultimately have h: "2 \<le> cp div 64" "cp div 64 \<le> 31" .
  from utf8_step_2 [OF h mod_64_le, of cp r, unfolded split_64]
  show ?thesis unfolding utf8_cp_forms(1) [OF 2] append.simps .
next
  case 3
  have "cp div 4096 \<le> 15" using 3(2) by (simp add: less_Suc_eq_le [symmetric] div_less_iff_less_mult)
  from utf8_step_3 [OF this mod_64_le mod_64_le, of "cp div 64" cp r, unfolded split_4096, OF 3(1) sc]
  show ?thesis unfolding utf8_cp_forms(2) [OF 3] append.simps .
next
  case 4
  have "cp div 262144 \<le> 7" using 4(2) by (simp add: less_Suc_eq_le [symmetric] div_less_iff_less_mult)
  from utf8_step_4 [OF this mod_64_le mod_64_le mod_64_le, of "cp div 4096" "cp div 64" cp r,
      unfolded split_262144, OF 4(1) sc]
  show ?thesis unfolding utf8_cp_forms(3) [OF 4(1)] append.simps .
qed

text \<open>A string is well formed when it has no lone surrogate.\<close>

definition well_formed :: "jstr \<Rightarrow> bool" where
  "well_formed s \<longleftrightarrow> (\<forall>c \<in> set s. c < 65536) \<and> code_points s \<noteq> None"

lemma code_points_Cons2:
  assumes "code_points (c # d # s) = Some cps"
  obtains (pair) cps' where "is_high c" "is_low d" "code_points s = Some cps'"
      "cps = (65536 + (c - 55296) * 1024 + (d - 56320)) # cps'"
  | (single) cps' where "\<not> is_high c" "\<not> is_low c" "code_points (d # s) = Some cps'" "cps = c # cps'"
  using assms by (auto split: if_splits)

lemma scalar_of_pair: "is_high c \<Longrightarrow> is_low d \<Longrightarrow> is_scalar (65536 + (c - 55296) * 1024 + (d - 56320))"
  unfolding is_high_def is_low_def is_scalar_def by arith

lemma utf16_of_pair: "is_high c \<Longrightarrow> is_low d \<Longrightarrow> utf16 (65536 + (c - 55296) * 1024 + (d - 56320)) = [c, d]"
proof -
  assume h: "is_high c" "is_low d"
  then have lt: "d - 56320 < 1024" unfolding is_low_def by linarith
  then have "((c - 55296) * 1024 + (d - 56320)) div 1024 = c - 55296"
    "((c - 55296) * 1024 + (d - 56320)) mod 1024 = d - 56320" by simp_all
  with h show ?thesis by (simp add: utf16_def is_high_def is_low_def)
qed

lemma scalar_of_unit: "\<not> is_high c \<Longrightarrow> \<not> is_low c \<Longrightarrow> c < 65536 \<Longrightarrow> is_scalar c"
  unfolding is_high_def is_low_def is_scalar_def by arith

lemma code_points_scalar:
  "code_points s = Some cps \<Longrightarrow> \<forall>c \<in> set s. c < 65536 \<Longrightarrow> \<forall>cp \<in> set cps. is_scalar cp"
proof (induction s arbitrary: cps rule: code_points.induct)
  case (3 c d s)
  from "3.prems"(1) show ?case
  proof (cases rule: code_points_Cons2)
    case (pair cps')
    with 3 show ?thesis by (simp add: scalar_of_pair)
  next
    case (single cps')
    with 3 show ?thesis by (simp add: scalar_of_unit)
  qed
qed (auto simp: scalar_of_unit split: if_splits)

lemma code_points_utf16:
  "code_points s = Some cps \<Longrightarrow> \<forall>c \<in> set s. c < 65536 \<Longrightarrow> concat (map utf16 cps) = s"
proof (induction s arbitrary: cps rule: code_points.induct)
  case (3 c d s)
  from "3.prems"(1) show ?case
  proof (cases rule: code_points_Cons2)
    case (pair cps')
    with 3 show ?thesis by (simp add: utf16_of_pair)
  next
    case (single cps')
    with 3 show ?thesis by (simp add: utf16_def)
  qed
qed (auto simp: utf16_def split: if_splits)

lemma code_points_lossy_eq: "code_points s = Some cps \<Longrightarrow> code_points_lossy s = cps"
  by (induction s arbitrary: cps rule: code_points.induct) (auto split: if_splits)

lemma utf8_cp_nonempty [simp]: "utf8_cp cp \<noteq> []"
  by (simp add: utf8_cp_def)

lemma utf8_decode_raw_cp:
  assumes "is_scalar cp"
  shows "utf8_decode_raw (utf8_cp cp @ r) = map_option ((@) (utf16 cp)) (utf8_decode_raw r)"
proof -
  obtain b bs where "utf8_cp cp @ r = b # bs"
    by (cases "utf8_cp cp @ r") auto
  then show ?thesis
    using utf8_step_cp [OF assms, of r] by (simp del: utf8_step.simps)
qed

lemma utf8_decode_raw_cps:
  "\<forall>cp \<in> set cps. is_scalar cp \<Longrightarrow>
   utf8_decode_raw (concat (map utf8_cp cps)) = Some (concat (map utf16 cps))"
  by (induction cps) (simp_all add: utf8_decode_raw_cp)

lemma utf8_raw_roundtrip:
  assumes "well_formed s"
  shows "utf8_decode_raw (utf8_encode s) = Some s"
proof -
  from assms obtain cps where cps: "code_points s = Some cps" and b: "\<forall>c \<in> set s. c < 65536"
    by (auto simp: well_formed_def)
  from cps b have "\<forall>cp \<in> set cps. is_scalar cp" by (rule code_points_scalar)
  then show ?thesis
    by (simp add: utf8_encode_def code_points_lossy_eq [OF cps] utf8_decode_raw_cps
        code_points_utf16 [OF cps b])
qed

lemma utf8_roundtrip:
  assumes "well_formed s" and "\<not> prefix [65279] s"
  shows "utf8_decode (utf8_encode s) = Some s"
proof -
  have "take 3 (utf8_encode s) \<noteq> [239, 187, 191]"
  proof
    assume "take 3 (utf8_encode s) = [239, 187, 191]"
    then obtain r where r: "utf8_encode s = 239 # 187 # 191 # r"
      by (metis append_Cons append_Nil append_take_drop_id)
    have "utf8_step (239 # 187 # 191 # r) = Some (65279, r)"
      by (simp add: is_cont_def is_scalar_def)
    with r utf8_raw_roundtrip [OF assms(1)] have "map_option ((@) (utf16 65279)) (utf8_decode_raw r) = Some s"
      by simp
    with assms(2) show False by (auto simp: utf16_def)
  qed
  with utf8_raw_roundtrip [OF assms(1)] show ?thesis by (simp add: utf8_decode_def)
qed

lemma scalar_replacement: "is_scalar 65533"
  by (simp add: is_scalar_def)

lemma code_points_lossy_bytes:
  "\<forall>c \<in> set s. c < 65536 \<Longrightarrow> \<forall>cp \<in> set (code_points_lossy s). is_scalar cp"
  by (induction s rule: code_points_lossy.induct) (auto simp: scalar_of_pair scalar_of_unit scalar_replacement)

section \<open>Percent encoding\<close>

fun pct_byte :: "jstr \<Rightarrow> (nat \<times> jstr) option" where
  "pct_byte (p # a # b # r) =
     (case (hex_val a, hex_val b) of
        (Some h, Some l) \<Rightarrow> if p = 37 then Some (h * 16 + l, r) else None
      | _ \<Rightarrow> None)"
| "pct_byte _ = None"

fun pct_bytes :: "nat \<Rightarrow> jstr \<Rightarrow> (nat list \<times> jstr) option" where
  "pct_bytes 0 s = Some ([], s)"
| "pct_bytes (Suc n) s =
     (case pct_byte s of None \<Rightarrow> None
      | Some (b, r) \<Rightarrow> (case pct_bytes n r of None \<Rightarrow> None | Some (bs, r') \<Rightarrow> Some (b # bs, r')))"

text \<open>Number of bytes of the UTF-8 sequence that starts with \<open>b\<close>; 0 when \<open>b\<close> cannot start one.\<close>

definition utf8_len :: "nat \<Rightarrow> nat" where
  "utf8_len b = (if b < 128 then 1 else if 192 \<le> b \<and> b \<le> 223 then 2
     else if 224 \<le> b \<and> b \<le> 239 then 3 else if 240 \<le> b \<and> b \<le> 247 then 4 else 0)"

lemma replicate_num [eval]: "replicate (numeral k) x = x # replicate (pred_numeral k) x"
  by (simp add: numeral_eq_Suc)

lemma pct_bytes_numeral [eval]:
  "pct_bytes (numeral k) s =
     (case pct_byte s of None \<Rightarrow> None
      | Some (b, r) \<Rightarrow> (case pct_bytes (pred_numeral k) r of None \<Rightarrow> None | Some (bs, r') \<Rightarrow> Some (b # bs, r')))"
  by (simp add: numeral_eq_Suc)

lemma pct_byte_shorter: "pct_byte s = Some (b, r) \<Longrightarrow> length r < length s"
  by (induction s rule: pct_byte.induct) (auto split: option.splits if_splits)

lemma pct_bytes_shorter: "pct_bytes n s = Some (bs, r) \<Longrightarrow> length r \<le> length s"
proof (induction n arbitrary: s bs r)
  case (Suc n)
  then show ?case
    by (fastforce split: option.splits prod.splits dest: pct_byte_shorter)
qed simp

text \<open>One escape sequence off the front: the UTF-16 units it stands for, and the rest.\<close>

definition decode_escape :: "jstr \<Rightarrow> (jstr \<times> jstr) option" where
  "decode_escape s =
     (case pct_byte s of None \<Rightarrow> None
      | Some (b, _) \<Rightarrow>
          (if utf8_len b = 0 then None
           else (case pct_bytes (utf8_len b) s of None \<Rightarrow> None
             | Some (bs, r) \<Rightarrow>
                 (case utf8_step bs of
                    Some (cp, []) \<Rightarrow> Some (utf16 cp, r)
                  | _ \<Rightarrow> None))))"

lemma decode_escape_ascii [code]:
  "decode_escape s =
     (case pct_byte s of None \<Rightarrow> None
      | Some (b, r) \<Rightarrow>
          (if b < 128 then Some ([b], r)
           else if utf8_len b = 0 then None
           else (case pct_bytes (utf8_len b) s of None \<Rightarrow> None
             | Some (bs, r) \<Rightarrow>
                 (case utf8_step bs of
                    Some (cp, []) \<Rightarrow> Some (utf16 cp, r)
                  | _ \<Rightarrow> None))))"
proof (cases "pct_byte s")
  case (Some p)
  then show ?thesis
    by (cases p) (auto simp: decode_escape_def utf8_len_def utf16_def)
qed (simp add: decode_escape_def)

lemma pct_bytes_Suc_shorter: "pct_bytes (Suc n) s = Some (bs, r) \<Longrightarrow> length r < length s"
  using pct_bytes_shorter [of n]
  by (fastforce split: option.splits prod.splits dest: pct_byte_shorter)

lemma decode_escape_shorter: "decode_escape s = Some (u, r) \<Longrightarrow> length r < length s"
proof -
  assume "decode_escape s = Some (u, r)"
  then obtain b bs where "utf8_len b \<noteq> 0" "pct_bytes (utf8_len b) s = Some (bs, r)"
    by (auto simp: decode_escape_def split: option.splits prod.splits if_splits list.splits)
  then show ?thesis by (cases "utf8_len b") (auto dest: pct_bytes_Suc_shorter simp del: pct_bytes.simps(2))
qed

function decodeURIComponent :: "jstr \<Rightarrow> jstr option" where
  "decodeURIComponent [] = Some []"
| "decodeURIComponent (c # s) =
     (if c \<noteq> 37 then map_option (Cons c) (decodeURIComponent s)
      else (case decode_escape (c # s) of None \<Rightarrow> None
        | Some (u, r) \<Rightarrow> map_option ((@) u) (decodeURIComponent r)))"
  by pat_completeness auto
termination
  by (relation "measure length") (auto dest: decode_escape_shorter)

definition uri_unreserved :: "nat \<Rightarrow> bool" where
  "uri_unreserved c \<longleftrightarrow> is_digit c \<or> (65 \<le> c \<and> c \<le> 90) \<or> (97 \<le> c \<and> c \<le> 122)
     \<or> c \<in> {45, 95, 46, 33, 126, 42, 39, 40, 41}"

definition pct :: "nat \<Rightarrow> jstr" where
  "pct b = [37, hex_digit_upper (b div 16), hex_digit_upper (b mod 16)]"

definition encode_cp :: "nat \<Rightarrow> jstr" where
  "encode_cp cp = (if uri_unreserved cp then [cp] else concat (map pct (utf8_cp cp)))"

text \<open>Throws a \<open>URIError\<close> (\<open>None\<close>) on a lone surrogate.\<close>

definition encodeURIComponent :: "jstr \<Rightarrow> jstr option" where
  "encodeURIComponent s = map_option (\<lambda>cps. concat (map encode_cp cps)) (code_points s)"

lemma pct_byte_pct: "b < 256 \<Longrightarrow> pct_byte (pct b @ r) = Some (b, r)"
  by (simp add: pct_def)

lemma pct_bytes_pct: "\<forall>b \<in> set bs. b < 256 \<Longrightarrow> pct_bytes (length bs) (concat (map pct bs) @ r) = Some (bs, r)"
  by (induction bs) (simp_all add: pct_byte_pct del: pct_byte.simps)

lemma utf8_cp_bytes:
  assumes "is_scalar cp" shows "\<forall>b \<in> set (utf8_cp cp). b < 256"
proof (cases rule: is_scalar_cases [OF assms])
  case 1 then show ?thesis by (simp add: utf8_cp_def)
next
  case 2
  have "cp div 64 < 32" using 2(2) by (simp add: div_less_iff_less_mult)
  then show ?thesis using mod_64_le [of cp] by (simp add: utf8_cp_forms(1) [OF 2] del: mod_64_le)
next
  case 3
  have "cp div 4096 < 16" using 3(2) by (simp add: div_less_iff_less_mult)
  then show ?thesis using mod_64_le [of cp] mod_64_le [of "cp div 64"]
    by (simp add: utf8_cp_forms(2) [OF 3] del: mod_64_le)
next
  case 4
  have "cp div 262144 < 8" using 4(2) by (simp add: div_less_iff_less_mult)
  then show ?thesis
    using mod_64_le [of cp] mod_64_le [of "cp div 64"] mod_64_le [of "cp div 4096"]
    by (simp add: utf8_cp_forms(3) [OF 4(1)] del: mod_64_le)
qed

lemma utf8_encode_bytes: "\<forall>c \<in> set s. c < 65536 \<Longrightarrow> \<forall>b \<in> set (utf8_encode s). b < 256"
  using code_points_lossy_bytes utf8_cp_bytes by (fastforce simp: utf8_encode_def)


lemma utf8_len_cp:
  assumes "is_scalar cp" shows "utf8_len (hd (utf8_cp cp)) = length (utf8_cp cp)"
proof (cases rule: is_scalar_cases [OF assms])
  case 1 then show ?thesis by (simp add: utf8_cp_def utf8_len_def)
next
  case 2
  have "cp div 64 < 32" using 2(2) by (simp add: div_less_iff_less_mult)
  then show ?thesis by (simp add: utf8_cp_forms(1) [OF 2] utf8_len_def)
next
  case 3
  have "cp div 4096 < 16" using 3(2) by (simp add: div_less_iff_less_mult)
  then show ?thesis by (simp add: utf8_cp_forms(2) [OF 3] utf8_len_def)
next
  case 4
  have "cp div 262144 < 8" using 4(2) by (simp add: div_less_iff_less_mult)
  then show ?thesis by (simp add: utf8_cp_forms(3) [OF 4(1)] utf8_len_def)
qed

lemma decode_escape_cp:
  assumes sc: "is_scalar cp"
  shows "decode_escape (concat (map pct (utf8_cp cp)) @ r) = Some (utf16 cp, r)"
proof -
  obtain b bs where u: "utf8_cp cp = b # bs" by (cases "utf8_cp cp") auto
  from utf8_cp_bytes [OF sc] u have b: "b < 256" by auto
  from utf8_len_cp [OF sc] u have len: "utf8_len b = length (utf8_cp cp)" by simp
  have "pct_byte (concat (map pct (utf8_cp cp)) @ r) = Some (b, concat (map pct bs) @ r)"
    using pct_byte_pct [OF b] by (simp add: u del: pct_byte.simps)
  then show ?thesis
    unfolding decode_escape_def
    by (simp add: len pct_bytes_pct [OF utf8_cp_bytes [OF sc]]
        utf8_step_cp [OF sc, of "[]", simplified] del: pct_byte.simps utf8_step.simps)
qed

lemma decode_pct_cp:
  assumes sc: "is_scalar cp"
  shows "decodeURIComponent (concat (map pct (utf8_cp cp)) @ r)
    = map_option ((@) (utf16 cp)) (decodeURIComponent r)"
proof -
  obtain t where t: "concat (map pct (utf8_cp cp)) @ r = 37 # t"
    by (cases "utf8_cp cp") (auto simp: pct_def)
  show ?thesis using decode_escape_cp [OF sc, of r] unfolding t by simp
qed

lemma decode_encode_cps:
  "\<forall>cp \<in> set cps. is_scalar cp \<Longrightarrow>
   decodeURIComponent (concat (map encode_cp cps)) = Some (concat (map utf16 cps))"
proof (induction cps)
  case (Cons cp cps)
  show ?case
  proof (cases "uri_unreserved cp")
    case True
    then have "cp \<noteq> 37" "cp < 65536" by (auto simp: uri_unreserved_def is_digit_def)
    with True Cons show ?thesis by (simp add: encode_cp_def utf16_def)
  next
    case False
    with Cons show ?thesis by (simp add: encode_cp_def decode_pct_cp)
  qed
qed simp

lemma uri_roundtrip:
  assumes "well_formed s"
  obtains e where "encodeURIComponent s = Some e" "decodeURIComponent e = Some s"
proof -
  from assms obtain cps where cps: "code_points s = Some cps" and b: "\<forall>c \<in> set s. c < 65536"
    by (auto simp: well_formed_def)
  have "decodeURIComponent (concat (map encode_cp cps)) = Some s"
    using decode_encode_cps [OF code_points_scalar [OF cps b]] code_points_utf16 [OF cps b] by simp
  with cps that show ?thesis by (simp add: encodeURIComponent_def)
qed

text \<open>What an encoded string is made of: unreserved characters, percent signs, hex digits.\<close>

definition uri_char :: "nat \<Rightarrow> bool" where
  "uri_char c \<longleftrightarrow> uri_unreserved c \<or> c = 37 \<or> is_hex c"

lemma uri_char_hex_digit_upper: "d < 16 \<Longrightarrow> uri_char (hex_digit_upper d)"
  by (simp add: uri_char_def is_hex_def)

lemmas [eval] = is_high_def is_low_def is_scalar_def utf16_def utf8_cp_def utf8_encode_def is_cont_def
  utf8_decode_def utf8_len_def decode_escape_def pct_def encode_cp_def encodeURIComponent_def
  uri_unreserved_def

lemma encode_cp_chars:
  assumes "is_scalar cp" shows "\<forall>c \<in> set (encode_cp cp). uri_char c"
proof (cases "uri_unreserved cp")
  case True
  then show ?thesis by (simp add: encode_cp_def uri_char_def)
next
  case False
  then show ?thesis
    using utf8_cp_bytes [OF assms]
    by (auto simp: encode_cp_def pct_def uri_char_def is_hex_def div_less_iff_less_mult)
qed

lemma encodeURIComponent_chars:
  assumes "well_formed s" and "encodeURIComponent s = Some e"
  shows "\<forall>c \<in> set e. uri_char c"
proof -
  from assms obtain cps where cps: "code_points s = Some cps" and b: "\<forall>c \<in> set s. c < 65536"
    and e: "e = concat (map encode_cp cps)"
    by (auto simp: well_formed_def encodeURIComponent_def)
  from code_points_scalar [OF cps b] e show ?thesis
    using encode_cp_chars by auto
qed

end
