(* ===== verification/Security.thy ===== *)
theory Security
  imports JsText
begin

text \<open>
  \<open>src/security.ts\<close>: the names a request may never bind as an object property.
\<close>

definition isForbiddenObjectKey :: "jstr \<Rightarrow> bool" where
  "isForbiddenObjectKey key \<longleftrightarrow> key \<in> {js ''__proto__'', js ''constructor'', js ''prototype''}"

lemmas [eval] = isForbiddenObjectKey_def

end
