(* ===== verification/Router.thy ===== *)
theory Router
  imports Security "HOL-Library.List_Lexorder"
begin

text \<open>
  \<open>src/router.ts\<close>: the segment trie with its static fast path.

  A \<open>node\<close> is the source's \<open>Node<T>\<close>; its \<open>Map\<close> of children and its handler
  table are association lists.  The source mutates nodes in place along the registered
  path; \<open>insert_route\<close> returns the mutated trie together with the exception that
  \<open>add\<close> throws, if any, so that a half-done registration would be visible.  The walk
  threads what it mutates: the capture record and the module flag \<open>sawEncodedSeparator\<close>.
  The position \<open>i\<close> of the source's walk is the remaining segment list here.

  The abstract contract is \<open>routes_at\<close>: which handler table stands at which pattern.
\<close>

section \<open>Data\<close>

datatype 'h node = Node
  (children: "(jstr \<times> 'h node) list")
  (paramChild: "(jstr \<times> 'h node) option")
  (wildcardChild: "(jstr \<times> 'h node) option")
  (handlers: "(jstr, 'h) assoc option")

definition createNode :: "'h node" where
  "createNode = Node [] None None None"

record 'h router =
  root :: "'h node"
  operationIds :: "jstr list"
  hasDynamicRoutes :: bool
  revision :: nat
  staticMethods :: "(jstr, nat \<times> jstr list) assoc"
  staticTable :: "(jstr, (jstr, 'h) assoc) assoc"

definition new_router :: "'h router" where
  "new_router = \<lparr> root = createNode, operationIds = [], hasDynamicRoutes = False, revision = 0,
     staticMethods = [], staticTable = [] \<rparr>"

record 'h route_match =
  handler :: 'h
  params :: "(jstr, jstr) assoc"
  encodedSeparator :: bool

datatype route_error =
    DuplicateOperationId jstr
  | WildcardNotTerminal
  | InvalidCaptureName jstr
  | DuplicateRoute jstr
  | ConflictingParam jstr jstr
  | ConflictingWildcard jstr jstr

section \<open>Paths\<close>

function trim_end :: "jstr \<Rightarrow> nat \<Rightarrow> nat" where
  "trim_end path e = (if 1 < e \<and> path ! (e - 1) = 47 then trim_end path (e - 1) else e)"
  by pat_completeness auto
termination by (relation "measure snd") auto

declare trim_end.simps [simp del]

definition trimTrailingSlashes :: "jstr \<Rightarrow> jstr" where
  "trimTrailingSlashes path = (if path = [] then [47] else take (trim_end path (length path)) path)"

definition splitPath :: "jstr \<Rightarrow> jstr list" where
  "splitPath path = (let clean = trimTrailingSlashes path in
     if clean = [47] then []
     else split_on 47 (if hd clean = 47 then tl clean else clean))"

definition rejected_path :: "jstr \<Rightarrow> bool" where
  "rejected_path path \<longleftrightarrow>
     sublist (js ''/../'') path \<or> suffix (js ''/..'') path \<or> sublist (js ''//'') path"

section \<open>Decoding captures\<close>

definition isDotSegment :: "jstr \<Rightarrow> bool" where
  "isDotSegment seg \<longleftrightarrow> seg = js ''.'' \<or> seg = js ''..''"

text \<open>
  \<open>hasUnsafeDecodedContent\<close>: \<open>cur\<close> is the component since the last separator
  (\<open>decoded\<close> from \<open>start\<close> to \<open>i\<close>); the end of the text counts as a slash.
  Second result: the flag \<open>sawEncodedSeparator\<close>.
\<close>

fun unsafe_scan :: "jstr \<Rightarrow> jstr \<Rightarrow> bool \<Rightarrow> bool \<times> bool" where
  "unsafe_scan cur [] saw = (isDotSegment cur, saw)"
| "unsafe_scan cur (c # cs) saw =
     (if c < 32 \<or> c = 127 then (True, saw)
      else if c = 47 \<or> c = 92 then
        (if isDotSegment cur then (True, True) else unsafe_scan [] cs True)
      else unsafe_scan (cur @ [c]) cs saw)"

definition hasUnsafeDecodedContent :: "jstr \<Rightarrow> bool \<Rightarrow> bool \<times> bool" where
  "hasUnsafeDecodedContent decoded saw = unsafe_scan [] decoded saw"

definition safeDecodeURIComponent :: "jstr \<Rightarrow> bool \<Rightarrow> jstr option \<times> bool" where
  "safeDecodeURIComponent segment saw =
     (if 37 \<notin> set segment then (if isDotSegment segment then None else Some segment, saw)
      else (case decodeURIComponent segment of None \<Rightarrow> (None, saw)
        | Some decoded \<Rightarrow>
            (if isDotSegment decoded then (None, saw)
             else (case hasUnsafeDecodedContent decoded saw of
                 (True, saw') \<Rightarrow> (None, saw')
               | (False, saw') \<Rightarrow> (Some decoded, saw')))))"

fun decode_parts :: "jstr list \<Rightarrow> bool \<Rightarrow> jstr list option \<times> bool" where
  "decode_parts [] saw = (Some [], saw)"
| "decode_parts (s # ss) saw =
     (case safeDecodeURIComponent s saw of
        (None, saw') \<Rightarrow> (None, saw')
      | (Some d, saw') \<Rightarrow>
          (case decode_parts ss saw' of
             (None, saw'') \<Rightarrow> (None, saw'')
           | (Some ds, saw'') \<Rightarrow> (Some (d # ds), saw'')))"

definition decodeSegments :: "jstr list \<Rightarrow> bool \<Rightarrow> jstr option \<times> bool" where
  "decodeSegments segs saw =
     (case decode_parts segs saw of (None, s) \<Rightarrow> (None, s) | (Some ds, s) \<Rightarrow> (Some (join_on 47 ds), s))"

section \<open>Registration\<close>

fun check_captures :: "jstr list \<Rightarrow> jstr list \<Rightarrow> route_error + jstr list" where
  "check_captures [] names = Inr names"
| "check_captures (seg # rest) names =
     (let wildcard = prefix (js ''*'') seg in
      if wildcard \<and> rest \<noteq> [] then Inl WildcardNotTerminal
      else if wildcard \<or> prefix (js '':'') seg then
        (let name = (if wildcard \<and> length seg = 1 then js ''wildcard'' else drop 1 seg) in
         if name = [] \<or> isForbiddenObjectKey name \<or> name \<in> set names
         then Inl (InvalidCaptureName name)
         else check_captures rest (names @ [name]))
      else check_captures rest names)"

fun insert_route :: "'h node \<Rightarrow> jstr list \<Rightarrow> jstr \<Rightarrow> 'h \<Rightarrow> route_error option \<times> 'h node" where
  "insert_route (Node ch pc wc hs) [] m h =
     (let t = (case hs of None \<Rightarrow> [] | Some t \<Rightarrow> t) in
      if map_of t m \<noteq> None then (Some (DuplicateRoute m), Node ch pc wc (Some t))
      else (None, Node ch pc wc (Some (AList.update m h t))))"
| "insert_route (Node ch pc wc hs) (seg # rest) m h =
     (if prefix (js '':'') seg then
        (let name = drop 1 seg in
         case pc of
           None \<Rightarrow> (case insert_route createNode rest m h of
                     (e, n) \<Rightarrow> (e, Node ch (Some (name, n)) wc hs))
         | Some (nm, n0) \<Rightarrow>
             (if nm \<noteq> name then (Some (ConflictingParam nm name), Node ch pc wc hs)
              else (case insert_route n0 rest m h of
                     (e, n) \<Rightarrow> (e, Node ch (Some (nm, n)) wc hs))))
      else if prefix (js ''*'') seg then
        (let name = (if 1 < length seg then drop 1 seg else js ''wildcard'') in
         case wc of
           None \<Rightarrow> (case insert_route createNode [] m h of
                     (e, n) \<Rightarrow> (e, Node ch pc (Some (name, n)) hs))
         | Some (nm, n0) \<Rightarrow>
             (if nm \<noteq> name then (Some (ConflictingWildcard nm name), Node ch pc wc hs)
              else (case insert_route n0 [] m h of
                     (e, n) \<Rightarrow> (e, Node ch pc (Some (nm, n)) hs))))
      else
        (case insert_route (case map_of ch seg of None \<Rightarrow> createNode | Some n0 \<Rightarrow> n0) rest m h of
           (e, n) \<Rightarrow> (e, Node (AList.update seg n ch) pc wc hs)))"

definition reserve_id :: "jstr option \<Rightarrow> jstr list \<Rightarrow> jstr list" where
  "reserve_id oid ids = (case oid of Some i \<Rightarrow> if i \<noteq> [] then ids @ [i] else ids | None \<Rightarrow> ids)"

definition id_taken :: "jstr option \<Rightarrow> jstr list \<Rightarrow> bool" where
  "id_taken oid ids \<longleftrightarrow> (case oid of Some i \<Rightarrow> i \<noteq> [] \<and> i \<in> set ids | None \<Rightarrow> False)"

definition add_route :: "'h router \<Rightarrow> jstr \<Rightarrow> jstr \<Rightarrow> 'h \<Rightarrow> jstr option \<Rightarrow> route_error option \<times> 'h router" where
  "add_route r m path h oid =
     (let segments = splitPath path in
      if id_taken oid (operationIds r) then (Some (DuplicateOperationId (the oid)), r)
      else case check_captures segments [] of
        Inl e \<Rightarrow> (Some e, r)
      | Inr names \<Rightarrow>
          (if names = [] then
             (let normalized = 47 # join_on 47 segments;
                  entry = (case map_of (staticTable r) normalized of None \<Rightarrow> [] | Some t \<Rightarrow> t);
                  r1 = r\<lparr>staticTable := AList.update normalized entry (staticTable r)\<rparr>
              in if map_of entry m \<noteq> None then (Some (DuplicateRoute m), r1)
                 else (None, r1\<lparr>staticTable := AList.update normalized (AList.update m h entry) (staticTable r1),
                                revision := Suc (revision r),
                                operationIds := reserve_id oid (operationIds r)\<rparr>))
           else
             (case insert_route (root r) segments m h of
                (Some e, n) \<Rightarrow> (Some e, r\<lparr>root := n\<rparr>)
              | (None, n) \<Rightarrow> (None, r\<lparr>root := n, hasDynamicRoutes := True, revision := Suc (revision r),
                                       operationIds := reserve_id oid (operationIds r)\<rparr>))))"

section \<open>Lookup\<close>

type_synonym 'h walk_result = "'h node option \<times> (jstr, jstr) assoc \<times> bool"

fun walk :: "'h node \<Rightarrow> jstr list \<Rightarrow> (jstr, jstr) assoc \<Rightarrow> bool \<Rightarrow> 'h walk_result" where
  "walk nd [] ps saw = (if handlers nd \<noteq> None then Some nd else None, ps, saw)"
| "walk nd (seg # segs) ps saw =
     (case (case map_of (children nd) seg of
              None \<Rightarrow> (None, ps, saw)
            | Some nx \<Rightarrow> walk nx segs ps saw) of
        (Some r, ps1, saw1) \<Rightarrow> (Some r, ps1, saw1)
      | (None, ps1, saw1) \<Rightarrow>
     (case (case paramChild nd of
              None \<Rightarrow> (None, ps1, saw1)
            | Some (name, nx) \<Rightarrow>
                (case safeDecodeURIComponent seg saw1 of
                   (None, s) \<Rightarrow> (None, ps1, s)
                 | (Some d, s) \<Rightarrow>
                     (case walk nx segs (AList.update name d ps1) s of
                        (Some r, p, s') \<Rightarrow> (Some r, p, s')
                      | (None, p, s') \<Rightarrow> (None, AList.delete name p, s')))) of
        (Some r, ps2, saw2) \<Rightarrow> (Some r, ps2, saw2)
      | (None, ps2, saw2) \<Rightarrow>
     (case wildcardChild nd of
        None \<Rightarrow> (None, ps2, saw2)
      | Some (name, nx) \<Rightarrow>
          (case decodeSegments (seg # segs) saw2 of
             (None, s) \<Rightarrow> (None, ps2, s)
           | (Some rest, s) \<Rightarrow> (Some nx, AList.update name rest ps2, s)))))"

definition static_entry :: "'h router \<Rightarrow> jstr \<Rightarrow> (jstr, 'h) assoc option" where
  "static_entry r path =
     (case map_of (staticTable r) path of
        Some t \<Rightarrow> Some t
      | None \<Rightarrow> (if suffix (js ''/'') path then map_of (staticTable r) (trimTrailingSlashes path) else None))"

definition find_dynamic :: "'h router \<Rightarrow> jstr \<Rightarrow> jstr \<Rightarrow> 'h route_match option" where
  "find_dynamic r m path =
     (case walk (root r) (splitPath path) [] False of
        (None, _, _) \<Rightarrow> None
      | (Some n, ps, saw) \<Rightarrow>
          (case map_of (the (handlers n)) m of
             None \<Rightarrow> None
           | Some h \<Rightarrow> Some \<lparr> handler = h, params = ps, encodedSeparator = saw \<rparr>))"

definition find_route :: "'h router \<Rightarrow> jstr \<Rightarrow> jstr \<Rightarrow> 'h route_match option" where
  "find_route r m path =
     (if rejected_path path then None
      else (case static_entry r path of
          Some t \<Rightarrow> (case map_of t m of
              Some h \<Rightarrow> Some \<lparr> handler = h, params = [], encodedSeparator = False \<rparr>
            | None \<Rightarrow> find_dynamic r m path)
        | None \<Rightarrow> find_dynamic r m path))"

text \<open>\<open>allowedMethods\<close> without its cache, then with it: the second result is the new router state.\<close>

definition compute_methods :: "'h router \<Rightarrow> jstr \<Rightarrow> jstr list" where
  "compute_methods r path =
     (let found = (if hasDynamicRoutes r then fst (walk (root r) (splitPath path) [] False) else None)
      in case static_entry r path of
        None \<Rightarrow> (case found of None \<Rightarrow> [] | Some n \<Rightarrow> map fst (the (handlers n)))
      | Some t \<Rightarrow>
          (case found of None \<Rightarrow> map fst t
           | Some n \<Rightarrow> map fst t @ filter (\<lambda>m. map_of t m = None) (map fst (the (handlers n)))))"

definition allowedMethods :: "'h router \<Rightarrow> jstr \<Rightarrow> jstr list \<times> 'h router" where
  "allowedMethods r path =
     (case map_of (staticMethods r) path of
        Some (rv, ms) \<Rightarrow>
          (if rv = revision r then (ms, r)
           else if rejected_path path then ([], r)
           else if static_entry r path = None then (compute_methods r path, r)
           else (compute_methods r path,
                 r\<lparr>staticMethods := AList.update (trimTrailingSlashes path)
                     (revision r, compute_methods r path) (staticMethods r)\<rparr>))
      | None \<Rightarrow>
          (if rejected_path path then ([], r)
           else if static_entry r path = None then (compute_methods r path, r)
           else (compute_methods r path,
                 r\<lparr>staticMethods := AList.update (trimTrailingSlashes path)
                     (revision r, compute_methods r path) (staticMethods r)\<rparr>)))"

lemmas [eval] = createNode_def new_router_def trim_end.simps trimTrailingSlashes_def splitPath_def
  rejected_path_def isDotSegment_def hasUnsafeDecodedContent_def safeDecodeURIComponent_def
  decodeSegments_def reserve_id_def id_taken_def add_route_def static_entry_def find_dynamic_def
  find_route_def compute_methods_def allowedMethods_def Let_def

section \<open>Abstract contract: the handler table at each pattern\<close>

datatype pseg = Lit jstr | Par jstr | Wild jstr

fun to_pat :: "jstr list \<Rightarrow> pseg list" where
  "to_pat [] = []"
| "to_pat (seg # rest) =
     (if prefix (js '':'') seg then Par (drop 1 seg) # to_pat rest
      else if prefix (js ''*'') seg then [Wild (if 1 < length seg then drop 1 seg else js ''wildcard'')]
      else Lit seg # to_pat rest)"

fun node_at :: "'h node \<Rightarrow> pseg list \<Rightarrow> 'h node option" where
  "node_at nd [] = Some nd"
| "node_at nd (Lit s # pat) =
     (case map_of (children nd) s of None \<Rightarrow> None | Some n \<Rightarrow> node_at n pat)"
| "node_at nd (Par x # pat) =
     (case paramChild nd of None \<Rightarrow> None | Some (y, n) \<Rightarrow> if x = y then node_at n pat else None)"
| "node_at nd (Wild x # pat) =
     (case wildcardChild nd of None \<Rightarrow> None | Some (y, n) \<Rightarrow> if x = y then node_at n pat else None)"

definition routes_at :: "'h node \<Rightarrow> pseg list \<Rightarrow> (jstr, 'h) assoc option" where
  "routes_at nd pat = (case node_at nd pat of None \<Rightarrow> None | Some n \<Rightarrow> handlers n)"

fun cap_names :: "pseg list \<Rightarrow> jstr list" where
  "cap_names [] = []"
| "cap_names (Lit s # pat) = cap_names pat"
| "cap_names (Par x # pat) = x # cap_names pat"
| "cap_names (Wild x # pat) = x # cap_names pat"

fun seg_rank :: "pseg \<Rightarrow> nat" where
  "seg_rank (Lit s) = 0"
| "seg_rank (Par x) = 1"
| "seg_rank (Wild x) = 2"

text \<open>What a capture decodes to, and what a pattern captures from a segment list.\<close>

definition decode_seg :: "jstr \<Rightarrow> jstr option" where
  "decode_seg seg = fst (safeDecodeURIComponent seg False)"

fun match_pat :: "pseg list \<Rightarrow> jstr list \<Rightarrow> (jstr, jstr) assoc option" where
  "match_pat [] [] = Some []"
| "match_pat (Lit s # pat) (g # gs) = (if s = g then match_pat pat gs else None)"
| "match_pat (Par x # pat) (g # gs) =
     (case decode_seg g of None \<Rightarrow> None
      | Some d \<Rightarrow> map_option (Cons (x, d)) (match_pat pat gs))"
| "match_pat [Wild x] (g # gs) =
     (if \<forall>s \<in> set (g # gs). decode_seg s \<noteq> None
      then Some [(x, join_on 47 (map (the \<circ> decode_seg) (g # gs)))] else None)"
| "match_pat _ _ = None"

subsection \<open>Registration refines an update of the abstract table\<close>

lemma pat_cases [case_names Nil Lit Par Wild]:
  obtains "pat = []" | x q where "pat = Lit x # q" | x q where "pat = Par x # q"
  | x q where "pat = Wild x # q"
  by (metis list.exhaust pseg.exhaust)

lemma routes_at_simps [simp]:
  "routes_at nd [] = handlers nd"
  "routes_at nd (Lit x # q) =
     (case map_of (children nd) x of None \<Rightarrow> None | Some n \<Rightarrow> routes_at n q)"
  "routes_at nd (Par x # q) =
     (case paramChild nd of None \<Rightarrow> None | Some (y, n) \<Rightarrow> if x = y then routes_at n q else None)"
  "routes_at nd (Wild x # q) =
     (case wildcardChild nd of None \<Rightarrow> None | Some (y, n) \<Rightarrow> if x = y then routes_at n q else None)"
  by (auto simp: routes_at_def split: option.splits)

lemma routes_at_createNode [simp]: "routes_at createNode pat = None"
  by (cases pat rule: pat_cases) (simp_all add: createNode_def)

lemma handlers_createNode [simp]: "handlers createNode = None"
  by (simp add: createNode_def)

text \<open>The three shapes of a step of \<open>insert_route\<close>.\<close>

definition wild_name :: "jstr \<Rightarrow> jstr" where
  "wild_name seg = (if 1 < length seg then drop 1 seg else js ''wildcard'')"

lemma insert_par:
  assumes "prefix (js '':'') seg"
  shows "insert_route (Node ch pc wc hs) (seg # rest) m h =
    (case pc of
       None \<Rightarrow> (let r = insert_route createNode rest m h in (fst r, Node ch (Some (drop 1 seg, snd r)) wc hs))
     | Some p \<Rightarrow> (if fst p \<noteq> drop 1 seg then (Some (ConflictingParam (fst p) (drop 1 seg)), Node ch pc wc hs)
         else (let r = insert_route (snd p) rest m h in (fst r, Node ch (Some (fst p, snd r)) wc hs))))"
  using assms by (auto simp: Let_def split: option.splits prod.splits)

lemma insert_wild:
  assumes "\<not> prefix (js '':'') seg" "prefix (js ''*'') seg"
  shows "insert_route (Node ch pc wc hs) (seg # rest) m h =
    (case wc of
       None \<Rightarrow> (let r = insert_route createNode [] m h in (fst r, Node ch pc (Some (wild_name seg, snd r)) hs))
     | Some p \<Rightarrow> (if fst p \<noteq> wild_name seg then (Some (ConflictingWildcard (fst p) (wild_name seg)), Node ch pc wc hs)
         else (let r = insert_route (snd p) [] m h in (fst r, Node ch pc (Some (fst p, snd r)) hs))))"
  using assms by (auto simp: Let_def wild_name_def split: option.splits prod.splits)

lemma insert_lit:
  assumes "\<not> prefix (js '':'') seg" "\<not> prefix (js ''*'') seg"
  shows "insert_route (Node ch pc wc hs) (seg # rest) m h =
    (let r = insert_route (case map_of ch seg of None \<Rightarrow> createNode | Some n0 \<Rightarrow> n0) rest m h
     in (fst r, Node (AList.update seg (snd r) ch) pc wc hs))"
  using assms by (auto simp: Let_def split: prod.splits)

lemma to_pat_Cons:
  "prefix (js '':'') seg \<Longrightarrow> to_pat (seg # rest) = Par (drop 1 seg) # to_pat rest"
  "\<not> prefix (js '':'') seg \<Longrightarrow> prefix (js ''*'') seg \<Longrightarrow> to_pat (seg # rest) = [Wild (wild_name seg)]"
  "\<not> prefix (js '':'') seg \<Longrightarrow> \<not> prefix (js ''*'') seg \<Longrightarrow> to_pat (seg # rest) = Lit seg # to_pat rest"
  by (simp_all add: wild_name_def)

declare insert_route.simps(2) [simp del] to_pat.simps(2) [simp del]

text \<open>One induction principle for facts about \<open>insert_route\<close>.\<close>

lemma insert_induct [case_names Nil Par Wild Lit]:
  assumes "\<And>nd. P nd []"
    and "\<And>nd seg rest. prefix (js '':'') seg \<Longrightarrow> (\<And>n. P n rest) \<Longrightarrow> P nd (seg # rest)"
    and "\<And>nd seg rest. \<not> prefix (js '':'') seg \<Longrightarrow> prefix (js ''*'') seg \<Longrightarrow> (\<And>n. P n []) \<Longrightarrow> P nd (seg # rest)"
    and "\<And>nd seg rest. \<not> prefix (js '':'') seg \<Longrightarrow> \<not> prefix (js ''*'') seg \<Longrightarrow> (\<And>n. P n rest) \<Longrightarrow>
           P nd (seg # rest)"
  shows "P nd segs"
proof (induction segs arbitrary: nd)
  case (Cons seg rest)
  then show ?case using assms by blast
qed (rule assms(1))

lemma insert_createNode_ok [simp]: "fst (insert_route createNode segs m h) = None"
proof -
  have "nd = createNode \<Longrightarrow> fst (insert_route nd segs m h) = None" for nd :: "'a node"
    by (induction nd segs rule: insert_induct)
      (simp_all add: createNode_def insert_par insert_wild insert_lit Let_def)
  then show ?thesis by blast
qed

lemma insert_fail_same: "fst (insert_route nd segs m h) \<noteq> None \<Longrightarrow> snd (insert_route nd segs m h) = nd"
proof (induction nd segs rule: insert_induct)
  case (Nil nd)
  then show ?case by (cases nd) (auto simp: Let_def split: option.splits if_splits)
next
  case (Par nd seg rest)
  then show ?case by (cases nd) (auto simp: insert_par Let_def split: option.splits if_splits)
next
  case (Wild nd seg rest)
  then show ?case by (cases nd) (auto simp: insert_wild Let_def split: option.splits if_splits)
next
  case (Lit nd seg rest)
  then show ?case by (cases nd) (auto simp: insert_lit Let_def assoc_laws split: option.splits)
qed

lemma insert_nil_handlers:
  "fst (insert_route nd [] m h) = None \<Longrightarrow>
   handlers (snd (insert_route nd [] m h))
     = Some (AList.update m h (case handlers nd of None \<Rightarrow> [] | Some t \<Rightarrow> t))"
  by (cases nd) (auto simp: Let_def split: option.splits if_splits)

lemma insert_routes_at:
  "fst (insert_route nd segs m h) = None \<Longrightarrow>
   routes_at (snd (insert_route nd segs m h)) pat =
     (if pat = to_pat segs
      then Some (AList.update m h (case routes_at nd pat of None \<Rightarrow> [] | Some t \<Rightarrow> t))
      else routes_at nd pat)"
proof (induction nd segs arbitrary: pat rule: insert_induct)
  case (Nil nd)
  then show ?case
    by (cases nd; cases pat rule: pat_cases) (auto simp: Let_def split: option.splits if_splits)
next
  case (Par nd seg rest)
  then show ?case
    by (cases nd; cases pat rule: pat_cases)
      (auto simp: insert_par to_pat_Cons Let_def split: option.splits if_splits)
next
  case (Wild nd seg rest)
  then show ?case
    by (cases nd; cases pat rule: pat_cases)
      (auto simp: insert_wild to_pat_Cons Let_def insert_nil_handlers split: option.splits if_splits)
next
  case (Lit nd seg rest)
  obtain ch pc wc hs where nd: "nd = Node ch pc wc hs" by (cases nd)
  define n0 where "n0 = (case map_of ch seg of None \<Rightarrow> createNode | Some n0 \<Rightarrow> n0)"
  have old: "routes_at nd (Lit seg # q) = routes_at n0 q" for q
    by (auto simp: nd n0_def split: option.splits)
  from Lit nd show ?case
    by (cases pat rule: pat_cases)
      (auto simp: insert_lit to_pat_Cons Let_def assoc_laws old [symmetric] n0_def [symmetric])
qed

subsection \<open>Captures decode to safe text\<close>

text \<open>The path components of a text, split at both separators.\<close>

definition path_fields :: "jstr \<Rightarrow> jstr list" where
  "path_fields s = concat (map (split_on 92) (split_on 47 s))"

definition is_control :: "nat \<Rightarrow> bool" where
  "is_control c \<longleftrightarrow> c < 32 \<or> c = 127"

definition safe_capture :: "jstr \<Rightarrow> bool" where
  "safe_capture v \<longleftrightarrow> (\<forall>c \<in> set v. \<not> is_control c) \<and> (\<forall>q \<in> set (path_fields v). \<not> isDotSegment q)"

text \<open>What a URL parser never leaves in a path name: control characters and backslashes.\<close>

definition parsed_path :: "jstr \<Rightarrow> bool" where
  "parsed_path p \<longleftrightarrow> (\<forall>c \<in> set p. \<not> is_control c \<and> c \<noteq> 92)"

lemma fields_Nil [simp]: "path_fields [] = [[]]"
  by (simp add: path_fields_def)

lemma fields_nonempty [simp]: "path_fields s \<noteq> []"
proof -
  obtain p ps where "split_on 47 s = p # ps" by (cases "split_on 47 s") auto
  then show ?thesis by (simp add: path_fields_def)
qed

lemma fields_Cons:
  "path_fields (c # s) = (if c = 47 \<or> c = 92 then [] # path_fields s else (c # hd (path_fields s)) # tl (path_fields s))"
proof -
  obtain p ps where p: "split_on 47 s = p # ps" by (cases "split_on 47 s") auto
  obtain q qs where q: "split_on 92 p = q # qs" by (cases "split_on 92 p") auto
  show ?thesis by (auto simp: path_fields_def p q)
qed

lemma fields_app_slash: "path_fields (a @ 47 # b) = path_fields a @ path_fields b"
  by (simp add: path_fields_def split_on_app)

lemma fields_join: "ds \<noteq> [] \<Longrightarrow> path_fields (join_on 47 ds) = concat (map path_fields ds)"
proof (induction ds)
  case (Cons d ds)
  then show ?case by (cases ds) (simp_all add: fields_app_slash)
qed simp

lemma unsafe_scan_flag: "unsafe_scan cur s saw = (fst (unsafe_scan cur s False), saw \<or> snd (unsafe_scan cur s False))"
proof (induction cur s saw rule: unsafe_scan.induct)
  case (2 cur c cs saw)
  then show ?case
    by (cases "unsafe_scan [] cs True"; cases "unsafe_scan (cur @ [c]) cs False") auto
qed simp

lemma unsafe_scan_safe:
  "\<not> fst (unsafe_scan cur s saw) \<longleftrightarrow>
   (\<forall>c \<in> set s. \<not> is_control c) \<and> \<not> isDotSegment (cur @ hd (path_fields s))
     \<and> (\<forall>q \<in> set (tl (path_fields s)). \<not> isDotSegment q)"
proof (induction cur s saw rule: unsafe_scan.induct)
  case (2 cur c cs saw)
  have sp: "set (path_fields cs) = insert (hd (path_fields cs)) (set (tl (path_fields cs)))"
    by (metis fields_nonempty list.collapse list.simps(15))
  show ?case
  proof (cases "is_control c")
    case True
    then show ?thesis by (auto simp: is_control_def)
  next
    case False
    then show ?thesis using 2 by (auto simp: is_control_def fields_Cons sp)
  qed
qed simp

lemma unsafe_scan_saw:
  "\<not> fst (unsafe_scan cur s saw) \<Longrightarrow> 47 \<in> set s \<or> 92 \<in> set s \<Longrightarrow> snd (unsafe_scan cur s saw)"
proof (induction cur s saw rule: unsafe_scan.induct)
  case (2 cur c cs saw)
  then show ?case
    using unsafe_scan_flag [of "[]" cs True] by (auto split: if_splits)
qed simp

lemma safe_capture_iff: "safe_capture v \<longleftrightarrow> \<not> fst (hasUnsafeDecodedContent v saw)"
proof -
  have "set (path_fields v) = insert (hd (path_fields v)) (set (tl (path_fields v)))"
    by (metis fields_nonempty list.collapse list.simps(15))
  then show ?thesis
    by (auto simp: safe_capture_def hasUnsafeDecodedContent_def unsafe_scan_safe)
qed

lemma safeDecode_flag:
  "safeDecodeURIComponent seg saw = (decode_seg seg, saw \<or> snd (safeDecodeURIComponent seg False))"
proof -
  have "unsafe_scan [] d saw = (fst (unsafe_scan [] d False), saw \<or> snd (unsafe_scan [] d False))" for d
    by (rule unsafe_scan_flag)
  then show ?thesis
    by (cases "decodeURIComponent seg")
      (auto simp: safeDecodeURIComponent_def decode_seg_def hasUnsafeDecodedContent_def
        split: prod.splits bool.splits)
qed

lemma fields_plain: "47 \<notin> set s \<Longrightarrow> 92 \<notin> set s \<Longrightarrow> path_fields s = [s]"
  by (simp add: path_fields_def split_on_plain)

lemma decode_seg_safe:
  assumes "decode_seg seg = Some d" and "parsed_path seg" and "47 \<notin> set seg"
  shows "safe_capture d"
proof (cases "37 \<in> set seg")
  case True
  with assms(1) have "\<not> fst (hasUnsafeDecodedContent d False)"
    by (auto simp: decode_seg_def safeDecodeURIComponent_def split: option.splits if_splits prod.splits bool.splits)
  then show ?thesis by (simp add: safe_capture_iff [of d False])
next
  case False
  with assms(1) have "d = seg" "\<not> isDotSegment seg"
    by (auto simp: decode_seg_def safeDecodeURIComponent_def split: if_splits)
  with assms show ?thesis
    by (auto simp: safe_capture_def parsed_path_def fields_plain)
qed

lemma decode_seg_saw:
  assumes "decode_seg seg = Some d" and "parsed_path seg" and "47 \<notin> set seg"
    and "47 \<in> set d \<or> 92 \<in> set d"
  shows "snd (safeDecodeURIComponent seg False)"
proof (cases "37 \<in> set seg")
  case True
  with assms(1,4) show ?thesis
    using unsafe_scan_saw [of "[]" d False]
    by (auto simp: decode_seg_def safeDecodeURIComponent_def hasUnsafeDecodedContent_def
        split: option.splits if_splits prod.splits bool.splits)
next
  case False
  with assms show ?thesis
    by (auto simp: decode_seg_def safeDecodeURIComponent_def parsed_path_def split: if_splits)
qed

subsection \<open>The walk finds the least matching pattern\<close>

abbreviation seg_flag :: "jstr \<Rightarrow> bool" where
  "seg_flag seg \<equiv> snd (safeDecodeURIComponent seg False)"

fun captured :: "pseg list \<Rightarrow> jstr list \<Rightarrow> jstr list" where
  "captured (Lit s # pat) (g # gs) = captured pat gs"
| "captured (Par x # pat) (g # gs) = g # captured pat gs"
| "captured (Wild x # pat) gs = gs"
| "captured _ _ = []"

definition fresh_names :: "'h node \<Rightarrow> (jstr, jstr) assoc \<Rightarrow> bool" where
  "fresh_names nd ps \<longleftrightarrow> (\<forall>pat n. node_at nd pat = Some n \<longrightarrow>
     distinct (cap_names pat) \<and> set (cap_names pat) \<inter> keys ps = {})"

definition wild_ok :: "'h node \<Rightarrow> bool" where
  "wild_ok nd \<longleftrightarrow> (\<forall>pat x n. node_at nd (pat @ [Wild x]) = Some n \<longrightarrow> handlers n \<noteq> None)"

definition live :: "'h node \<Rightarrow> pseg list \<Rightarrow> jstr list \<Rightarrow> bool" where
  "live nd pat segs \<longleftrightarrow> routes_at nd pat \<noteq> None \<and> match_pat pat segs \<noteq> None"

definition walk_hit :: "'h node \<Rightarrow> jstr list \<Rightarrow> (jstr, jstr) assoc \<Rightarrow> bool \<Rightarrow>
    pseg list \<Rightarrow> 'h node \<Rightarrow> (jstr, jstr) assoc \<Rightarrow> bool \<Rightarrow> bool" where
  "walk_hit nd segs ps saw pat n ps' saw' \<longleftrightarrow>
     node_at nd pat = Some n \<and> handlers n \<noteq> None
     \<and> (\<exists>caps. match_pat pat segs = Some caps \<and> ps' = ps @ caps)
     \<and> (saw \<longrightarrow> saw') \<and> (\<forall>g \<in> set (captured pat segs). seg_flag g \<longrightarrow> saw')"

definition walk_spec :: "'h node \<Rightarrow> jstr list \<Rightarrow> (jstr, jstr) assoc \<Rightarrow> bool \<Rightarrow> 'h walk_result \<Rightarrow> bool" where
  "walk_spec nd segs ps saw r \<longleftrightarrow>
     (case r of
        (None, ps', saw') \<Rightarrow> ps' = ps \<and> (saw \<longrightarrow> saw') \<and> (\<forall>pat. \<not> live nd pat segs)
      | (Some n, ps', saw') \<Rightarrow>
          (\<exists>pat. walk_hit nd segs ps saw pat n ps' saw'
             \<and> (\<forall>pat'. live nd pat' segs \<longrightarrow> map seg_rank pat \<le> map seg_rank pat')))"

lemma match_wild_Cons: "match_pat (Wild x # q) (g # gs) =
   (if q = [] \<and> (\<forall>s \<in> set (g # gs). decode_seg s \<noteq> None)
    then Some [(x, join_on 47 (map (the \<circ> decode_seg) (g # gs)))] else None)"
  by (cases q) auto

lemma live_simps [simp]:
  "live nd [] [] \<longleftrightarrow> handlers nd \<noteq> None"
  "live nd [] (g # gs) \<longleftrightarrow> False"
  "live nd (y # q) [] \<longleftrightarrow> False"
  "live nd (Lit s # q) (g # gs) \<longleftrightarrow> s = g \<and> (\<exists>nx. map_of (children nd) g = Some nx \<and> live nx q gs)"
  "live nd (Par x # q) (g # gs) \<longleftrightarrow>
     decode_seg g \<noteq> None \<and> (\<exists>nx. paramChild nd = Some (x, nx) \<and> live nx q gs)"
  "live nd (Wild x # q) (g # gs) \<longleftrightarrow> q = [] \<and> (\<forall>s \<in> set (g # gs). decode_seg s \<noteq> None)
     \<and> (\<exists>nx. wildcardChild nd = Some (x, nx) \<and> handlers nx \<noteq> None)"
  by (auto simp: live_def match_wild_Cons split: option.splits if_splits)

lemma live_nil: "live nd pat [] \<longleftrightarrow> pat = [] \<and> handlers nd \<noteq> None"
  by (cases pat) auto

lemma fresh_children:
  assumes "fresh_names nd ps"
  shows "map_of (children nd) g = Some nx \<Longrightarrow> fresh_names nx ps"
    and "paramChild nd = Some (x, nx) \<Longrightarrow> x \<notin> keys ps \<and> fresh_names nx (ps @ [(x, d)])"
    and "wildcardChild nd = Some (x, nx) \<Longrightarrow> x \<notin> keys ps"
proof -
  have a: "distinct (cap_names pat) \<and> set (cap_names pat) \<inter> keys ps = {}"
    if "node_at nd pat = Some n" for pat n
    using assms that by (simp add: fresh_names_def)
  show "fresh_names nx ps" if "map_of (children nd) g = Some nx"
    unfolding fresh_names_def using a [of "Lit g # pat" for pat] that by auto
  show "x \<notin> keys ps \<and> fresh_names nx (ps @ [(x, d)])" if "paramChild nd = Some (x, nx)"
    unfolding fresh_names_def using a [of "Par x # pat" for pat] a [of "[Par x]"] that by auto
  show "x \<notin> keys ps" if "wildcardChild nd = Some (x, nx)"
    using a [of "[Wild x]"] that by auto
qed

lemma wild_children:
  assumes "wild_ok nd"
  shows "map_of (children nd) g = Some nx \<Longrightarrow> wild_ok nx"
    and "paramChild nd = Some (x, nx) \<Longrightarrow> wild_ok nx"
    and "wildcardChild nd = Some (x, nx) \<Longrightarrow> handlers nx \<noteq> None"
proof -
  have a: "handlers n \<noteq> None" if "node_at nd (pat @ [Wild x]) = Some n" for pat x n
    using assms that unfolding wild_ok_def by blast
  show "wild_ok nx" if "map_of (children nd) g = Some nx"
    unfolding wild_ok_def using a [of "Lit g # pat" for pat] that by auto
  show "wild_ok nx" if "paramChild nd = Some (x, nx)"
    unfolding wild_ok_def using a [of "Par x # pat" for pat] that by auto
  show "handlers nx \<noteq> None" if "wildcardChild nd = Some (x, nx)"
    using a [of "[]"] that by auto
qed

lemma decode_parts_spec:
  obtains saw' where
    "decode_parts ss saw =
       (if \<forall>s \<in> set ss. decode_seg s \<noteq> None then Some (map (the \<circ> decode_seg) ss) else None, saw')"
    and "saw \<longrightarrow> saw'"
    and "(\<forall>s \<in> set ss. decode_seg s \<noteq> None) \<longrightarrow> (\<forall>s \<in> set ss. seg_flag s \<longrightarrow> saw')"
proof (induction ss arbitrary: saw thesis)
  case Nil
  then show ?case by simp
next
  case (Cons s ss)
  obtain sw where sw: "decode_parts ss (saw \<or> seg_flag s) =
       (if \<forall>s \<in> set ss. decode_seg s \<noteq> None then Some (map (the \<circ> decode_seg) ss) else None, sw)"
    "saw \<or> seg_flag s \<longrightarrow> sw"
    "(\<forall>s \<in> set ss. decode_seg s \<noteq> None) \<longrightarrow> (\<forall>s \<in> set ss. seg_flag s \<longrightarrow> sw)"
    using Cons.IH by blast
  show ?case
  proof (cases "decode_seg s")
    case None
    then show ?thesis
      by (intro Cons.prems [of "saw \<or> seg_flag s"]) (simp_all add: safeDecode_flag [of s saw])
  next
    case (Some d)
    with sw show ?thesis
      by (intro Cons.prems [of sw]) (auto simp: safeDecode_flag [of s saw])
  qed
qed

text \<open>The three attempts of a step, each with what it contributes to the specification.\<close>

definition try_static :: "'h node \<Rightarrow> jstr \<Rightarrow> jstr list \<Rightarrow> (jstr, jstr) assoc \<Rightarrow> bool \<Rightarrow> 'h walk_result" where
  "try_static nd seg segs ps saw =
     (case map_of (children nd) seg of None \<Rightarrow> (None, ps, saw) | Some nx \<Rightarrow> walk nx segs ps saw)"

definition try_param :: "'h node \<Rightarrow> jstr \<Rightarrow> jstr list \<Rightarrow> (jstr, jstr) assoc \<Rightarrow> bool \<Rightarrow> 'h walk_result" where
  "try_param nd seg segs ps saw =
     (case paramChild nd of
        None \<Rightarrow> (None, ps, saw)
      | Some (name, nx) \<Rightarrow>
          (case safeDecodeURIComponent seg saw of
             (None, s) \<Rightarrow> (None, ps, s)
           | (Some d, s) \<Rightarrow>
               (case walk nx segs (AList.update name d ps) s of
                  (Some r, p, s') \<Rightarrow> (Some r, p, s')
                | (None, p, s') \<Rightarrow> (None, AList.delete name p, s'))))"

definition try_wild :: "'h node \<Rightarrow> jstr \<Rightarrow> jstr list \<Rightarrow> (jstr, jstr) assoc \<Rightarrow> bool \<Rightarrow> 'h walk_result" where
  "try_wild nd seg segs ps saw =
     (case wildcardChild nd of
        None \<Rightarrow> (None, ps, saw)
      | Some (name, nx) \<Rightarrow>
          (case decodeSegments (seg # segs) saw of
             (None, s) \<Rightarrow> (None, ps, s)
           | (Some rest, s) \<Rightarrow> (Some nx, AList.update name rest ps, s)))"

lemma walk_stages:
  "walk nd (seg # segs) ps saw =
     (case try_static nd seg segs ps saw of
        (Some r, x) \<Rightarrow> (Some r, x)
      | (None, ps1, saw1) \<Rightarrow>
          (case try_param nd seg segs ps1 saw1 of
             (Some r, x) \<Rightarrow> (Some r, x)
           | (None, ps2, saw2) \<Rightarrow> try_wild nd seg segs ps2 saw2))"
  by (simp add: try_static_def try_param_def try_wild_def split: option.splits prod.splits)

text \<open>A result correct for one kind of child only.\<close>

definition stage_spec :: "(pseg \<Rightarrow> bool) \<Rightarrow> 'h node \<Rightarrow> jstr list \<Rightarrow> (jstr, jstr) assoc \<Rightarrow> bool
    \<Rightarrow> 'h walk_result \<Rightarrow> bool" where
  "stage_spec K nd segs ps saw r \<longleftrightarrow>
     (case r of
        (None, ps', saw') \<Rightarrow> ps' = ps \<and> (saw \<longrightarrow> saw') \<and> (\<forall>y q. K y \<longrightarrow> \<not> live nd (y # q) segs)
      | (Some n, ps', saw') \<Rightarrow>
          (\<exists>y q. K y \<and> walk_hit nd segs ps saw (y # q) n ps' saw'
             \<and> (\<forall>y' q'. K y' \<longrightarrow> live nd (y' # q') segs \<longrightarrow> map seg_rank (y # q) \<le> map seg_rank (y' # q'))))"

lemma try_static_spec:
  assumes "\<And>nx. map_of (children nd) seg = Some nx \<Longrightarrow> walk_spec nx segs ps saw (walk nx segs ps saw)"
  shows "stage_spec (\<lambda>y. seg_rank y = 0) nd (seg # segs) ps saw (try_static nd seg segs ps saw)"
proof -
  have k: "seg_rank y = 0 \<longleftrightarrow> (\<exists>s. y = Lit s)" for y by (cases y) auto
  show ?thesis
  proof (cases "map_of (children nd) seg")
    case None
    then show ?thesis by (auto simp: stage_spec_def try_static_def k)
  next
    case (Some nx)
    obtain o1 p1 s1 where w: "walk nx segs ps saw = (o1, p1, s1)" by (cases "walk nx segs ps saw")
    from assms [OF Some] w have sp: "walk_spec nx segs ps saw (o1, p1, s1)" by simp
    show ?thesis
    proof (cases o1)
      case None
      with sp w Some show ?thesis by (auto simp: stage_spec_def walk_spec_def try_static_def k)
    next
      case (Some n)
      with sp obtain pat where hit: "walk_hit nx segs ps saw pat n p1 s1"
        and least: "\<forall>pat'. live nx pat' segs \<longrightarrow> map seg_rank pat \<le> map seg_rank pat'"
        by (auto simp: walk_spec_def)
      from hit \<open>map_of (children nd) seg = Some nx\<close>
      have "walk_hit nd (seg # segs) ps saw (Lit seg # pat) n p1 s1"
        by (simp add: walk_hit_def)
      with least \<open>map_of (children nd) seg = Some nx\<close> w Some show ?thesis
        unfolding stage_spec_def try_static_def k
        by (auto intro!: exI [of _ "Lit seg"] exI [of _ pat])
    qed
  qed
qed

lemma try_param_spec:
  assumes fr: "fresh_names nd ps"
    and IH: "\<And>nx x d s. paramChild nd = Some (x, nx) \<Longrightarrow>
      walk_spec nx segs (ps @ [(x, d)]) s (walk nx segs (ps @ [(x, d)]) s)"
  shows "stage_spec (\<lambda>y. seg_rank y = Suc 0) nd (seg # segs) ps saw (try_param nd seg segs ps saw)"
proof -
  have k: "seg_rank y = Suc 0 \<longleftrightarrow> (\<exists>x. y = Par x)" for y by (cases y) auto
  show ?thesis
  proof (cases "paramChild nd")
    case None
    then show ?thesis by (auto simp: stage_spec_def try_param_def k)
  next
    case (Some xn)
    obtain x nx where xn: "xn = (x, nx)" by (cases xn)
    note pc = Some [unfolded xn]
    from fresh_children(2) [OF fr pc] have x: "x \<notin> keys ps" by blast
    show ?thesis
    proof (cases "decode_seg seg")
      case None
      with pc show ?thesis
        by (auto simp: stage_spec_def try_param_def k safeDecode_flag [of seg saw])
    next
      case (Some d)
      define sw where "sw = (saw \<or> seg_flag seg)"
      obtain o1 p1 s1 where w: "walk nx segs (ps @ [(x, d)]) sw = (o1, p1, s1)"
        by (cases "walk nx segs (ps @ [(x, d)]) sw")
      from IH [OF pc, of d sw] w have sp: "walk_spec nx segs (ps @ [(x, d)]) sw (o1, p1, s1)" by simp
      have t: "try_param nd seg segs ps saw =
          (case o1 of Some r \<Rightarrow> (Some r, p1, s1) | None \<Rightarrow> (None, AList.delete x p1, s1))"
        using pc Some w x by (simp add: try_param_def safeDecode_flag [of seg saw] sw_def [symmetric] update_fresh split: option.split)
      show ?thesis
      proof (cases o1)
        case None
        with sp have p1: "p1 = ps @ [(x, d)]" and "sw \<longrightarrow> s1" and dead: "\<forall>pat. \<not> live nx pat segs"
          by (auto simp: walk_spec_def)
        from x have "AList.delete x p1 = ps"
          using delete_update_fresh [OF x, of d] by (simp add: p1 update_fresh [OF x])
        with None \<open>sw \<longrightarrow> s1\<close> dead pc show ?thesis
          unfolding t stage_spec_def k by (auto simp: sw_def)
      next
        case (Some n)
        with sp obtain pat where hit: "walk_hit nx segs (ps @ [(x, d)]) sw pat n p1 s1"
          and least: "\<forall>pat'. live nx pat' segs \<longrightarrow> map seg_rank pat \<le> map seg_rank pat'"
          by (auto simp: walk_spec_def)
        from hit pc \<open>decode_seg seg = Some d\<close>
        have "walk_hit nd (seg # segs) ps saw (Par x # pat) n p1 s1"
          by (auto simp: walk_hit_def sw_def)
        with least pc Some show ?thesis
          unfolding t stage_spec_def k
          by (auto intro!: exI [of _ "Par x"] exI [of _ pat])
      qed
    qed
  qed
qed

lemma try_wild_spec:
  assumes fr: "fresh_names nd ps" and wk: "wild_ok nd"
  shows "stage_spec (\<lambda>y. seg_rank y = 2) nd (seg # segs) ps saw (try_wild nd seg segs ps saw)"
proof -
  have k: "seg_rank y = 2 \<longleftrightarrow> (\<exists>x. y = Wild x)" for y by (cases y) auto
  show ?thesis
  proof (cases "wildcardChild nd")
    case None
    then show ?thesis by (auto simp: stage_spec_def try_wild_def k)
  next
    case (Some xn)
    obtain x nx where xn: "xn = (x, nx)" by (cases xn)
    note wc = Some [unfolded xn]
    from fresh_children(3) [OF fr wc] have x: "x \<notin> keys ps" .
    from wild_children(3) [OF wk wc] have h: "handlers nx \<noteq> None" .
    obtain sw where dp: "decode_parts (seg # segs) saw =
         (if \<forall>s \<in> set (seg # segs). decode_seg s \<noteq> None
          then Some (map (the \<circ> decode_seg) (seg # segs)) else None, sw)"
      and m: "saw \<longrightarrow> sw"
      and fl: "(\<forall>s \<in> set (seg # segs). decode_seg s \<noteq> None) \<longrightarrow> (\<forall>s \<in> set (seg # segs). seg_flag s \<longrightarrow> sw)"
      by (rule decode_parts_spec [of "seg # segs" saw])
    show ?thesis
    proof (cases "\<forall>s \<in> set (seg # segs). decode_seg s \<noteq> None")
      case False
      have "decode_parts (seg # segs) saw = (None, sw)"
        unfolding dp by (simp only: False if_False)
      then have "try_wild nd seg segs ps saw = (None, ps, sw)"
        using wc by (simp add: try_wild_def decodeSegments_def del: decode_parts.simps)
      moreover have "\<not> live nd (Wild y # q) (seg # segs)" for y q
        unfolding live_simps using False by blast
      ultimately show ?thesis
        using m unfolding stage_spec_def k by (auto simp del: live_simps)
    next
      case True
      define v where "v = join_on 47 (map (the \<circ> decode_seg) (seg # segs))"
      from True wc x have "try_wild nd seg segs ps saw = (Some nx, ps @ [(x, v)], sw)"
        by (simp add: try_wild_def decodeSegments_def dp update_fresh v_def del: decode_parts.simps)
      moreover from True fl m wc h have "walk_hit nd (seg # segs) ps saw [Wild x] nx (ps @ [(x, v)]) sw"
        by (simp add: walk_hit_def v_def)
      ultimately show ?thesis
        using wc unfolding stage_spec_def k by (auto intro!: exI [of _ "Wild x"])
    qed
  qed
qed

lemma live_Cons_head: "live nd pat (g # gs) \<Longrightarrow> \<exists>y q. pat = y # q \<and> seg_rank y \<le> 2"
  by (cases pat rule: pat_cases) auto

lemma walk_correct: "fresh_names nd ps \<Longrightarrow> wild_ok nd \<Longrightarrow> walk_spec nd segs ps saw (walk nd segs ps saw)"
proof (induction segs arbitrary: nd ps saw)
  case Nil
  then show ?case
    by (auto simp: walk_spec_def walk_hit_def live_nil intro!: exI [of _ "[]"])
next
  case (Cons seg segs)
  note fr = Cons.prems(1) and wk = Cons.prems(2)
  obtain o1 p1 s1 where t1: "try_static nd seg segs ps saw = (o1, p1, s1)"
    by (cases "try_static nd seg segs ps saw")
  have a1: "stage_spec (\<lambda>y. seg_rank y = 0) nd (seg # segs) ps saw (o1, p1, s1)"
    using try_static_spec [of nd seg segs ps saw]
      Cons.IH fresh_children(1) [OF fr] wild_children(1) [OF wk] t1 by simp
  show ?case
  proof (cases o1)
    case (Some n)
    then have w: "walk nd (seg # segs) ps saw = (Some n, p1, s1)"
      by (simp add: walk_stages t1 del: walk.simps)
    from a1 Some obtain y q where y: "seg_rank y = 0" "walk_hit nd (seg # segs) ps saw (y # q) n p1 s1"
      "\<forall>y' q'. seg_rank y' = 0 \<longrightarrow> live nd (y' # q') (seg # segs)
         \<longrightarrow> map seg_rank (y # q) \<le> map seg_rank (y' # q')"
      by (auto simp: stage_spec_def)
    have "map seg_rank (y # q) \<le> map seg_rank pat'" if "live nd pat' (seg # segs)" for pat'
      using live_Cons_head [OF that] y that by (cases pat') (auto simp: neq0_conv)
    with y(2) show ?thesis unfolding w walk_spec_def by auto
  next
    case None
    with a1 have d1: "p1 = ps" "saw \<longrightarrow> s1" "seg_rank y = 0 \<Longrightarrow> \<not> live nd (y # q) (seg # segs)" for y q
      by (auto simp: stage_spec_def)
    obtain o2 p2 s2 where t2: "try_param nd seg segs ps s1 = (o2, p2, s2)"
      by (cases "try_param nd seg segs ps s1")
    have a2: "stage_spec (\<lambda>y. seg_rank y = Suc 0) nd (seg # segs) ps s1 (o2, p2, s2)"
      unfolding t2 [symmetric]
      by (rule try_param_spec [OF fr]) (use Cons.IH fresh_children(2) [OF fr] wild_children(2) [OF wk] in blast)
    show ?thesis
    proof (cases o2)
      case (Some n)
      with None d1 have w: "walk nd (seg # segs) ps saw = (Some n, p2, s2)"
        by (simp add: walk_stages t1 t2 del: walk.simps)
      from a2 Some obtain y q where y: "seg_rank y = Suc 0" "walk_hit nd (seg # segs) ps s1 (y # q) n p2 s2"
        "\<forall>y' q'. seg_rank y' = Suc 0 \<longrightarrow> live nd (y' # q') (seg # segs)
           \<longrightarrow> map seg_rank (y # q) \<le> map seg_rank (y' # q')"
        by (auto simp: stage_spec_def)
      have "map seg_rank (y # q) \<le> map seg_rank pat'" if l: "live nd pat' (seg # segs)" for pat'
      proof -
        from live_Cons_head [OF l] obtain y' q' where p: "pat' = y' # q'" by blast
        with d1(3) l have nz: "seg_rank y' \<noteq> 0" by blast
        show ?thesis
        proof (cases "seg_rank y' = Suc 0")
          case True
          with y(3) l p show ?thesis by blast
        next
          case False
          with nz y(1) p show ?thesis by simp
        qed
      qed
      moreover from y(2) d1(2) have "walk_hit nd (seg # segs) ps saw (y # q) n p2 s2"
        by (simp add: walk_hit_def)
      ultimately show ?thesis unfolding w walk_spec_def by auto
    next
      case None
      with a2 have d2: "p2 = ps" "s1 \<longrightarrow> s2" "seg_rank y = Suc 0 \<Longrightarrow> \<not> live nd (y # q) (seg # segs)" for y q
        by (auto simp: stage_spec_def)
      obtain o3 p3 s3 where t3: "try_wild nd seg segs ps s2 = (o3, p3, s3)"
        by (cases "try_wild nd seg segs ps s2")
      have a3: "stage_spec (\<lambda>y. seg_rank y = 2) nd (seg # segs) ps s2 (o3, p3, s3)"
        unfolding t3 [symmetric] by (rule try_wild_spec [OF fr wk])
      from \<open>o1 = None\<close> None d1 d2 have w: "walk nd (seg # segs) ps saw = (o3, p3, s3)"
        by (simp add: walk_stages t1 t2 t3 del: walk.simps)
      have two: "\<exists>y q. pat' = y # q \<and> seg_rank y = 2" if l: "live nd pat' (seg # segs)" for pat'
      proof -
        from live_Cons_head [OF l] obtain y q where p: "pat' = y # q" "seg_rank y \<le> 2" by blast
        with d1(3) [of y q] d2(3) [of y q] l have "seg_rank y \<noteq> 0" "seg_rank y \<noteq> Suc 0" by auto
        with p show ?thesis by auto
      qed
      show ?thesis
      proof (cases o3)
        case None
        with a3 d1 d2 two show ?thesis
          unfolding w stage_spec_def walk_spec_def by fastforce
      next
        case (Some n)
        with a3 obtain y q where y: "seg_rank y = 2" "walk_hit nd (seg # segs) ps s2 (y # q) n p3 s3"
          "\<forall>y' q'. seg_rank y' = 2 \<longrightarrow> live nd (y' # q') (seg # segs)
             \<longrightarrow> map seg_rank (y # q) \<le> map seg_rank (y' # q')"
          by (auto simp: stage_spec_def)
        from y(2) d1(2) d2(2) have "walk_hit nd (seg # segs) ps saw (y # q) n p3 s3"
          by (simp add: walk_hit_def)
        with y two Some show ?thesis unfolding w walk_spec_def by fastforce
      qed
    qed
  qed
qed

subsection \<open>Paths\<close>

lemma trim_end_spec:
  "e \<le> length p \<Longrightarrow>
   trim_end p e \<le> e \<and> (0 < e \<longrightarrow> 0 < trim_end p e)
   \<and> (\<forall>j. trim_end p e \<le> j \<and> j < e \<longrightarrow> p ! j = 47)
   \<and> (trim_end p e \<le> 1 \<or> p ! (trim_end p e - 1) \<noteq> 47)"
proof (induction p e rule: trim_end.induct)
  case (1 p e)
  show ?case
  proof (cases "1 < e \<and> p ! (e - 1) = 47")
    case True
    with 1 have IH: "trim_end p (e - 1) \<le> e - 1" "0 < trim_end p (e - 1)"
      "\<forall>j. trim_end p (e - 1) \<le> j \<and> j < e - 1 \<longrightarrow> p ! j = 47"
      "trim_end p (e - 1) \<le> 1 \<or> p ! (trim_end p (e - 1) - 1) \<noteq> 47" by auto
    have eq: "trim_end p e = trim_end p (e - 1)" using True by (subst trim_end.simps) simp
    have "p ! j = 47" if "trim_end p (e - 1) \<le> j" "j < e" for j
      using IH(3) that True by (cases "j = e - 1") auto
    with IH show ?thesis unfolding eq by auto
  next
    case False
    then have "trim_end p e = e" by (subst trim_end.simps) auto
    with False show ?thesis by auto
  qed
qed

lemma trim_shape:
  assumes "path \<noteq> []"
  obtains k where "path = trimTrailingSlashes path @ replicate k 47" "trimTrailingSlashes path \<noteq> []"
    "length (trimTrailingSlashes path) = 1 \<or> last (trimTrailingSlashes path) \<noteq> 47"
proof -
  define e where "e = trim_end path (length path)"
  from trim_end_spec [of "length path" path] assms have e: "e \<le> length path" "0 < e"
    "\<forall>j. e \<le> j \<and> j < length path \<longrightarrow> path ! j = 47" "e \<le> 1 \<or> path ! (e - 1) \<noteq> 47"
    by (auto simp: e_def)
  have t: "trimTrailingSlashes path = take e path"
    using assms by (simp add: trimTrailingSlashes_def e_def)
  have "drop e path = replicate (length path - e) 47"
    by (rule nth_equalityI) (use e in auto)
  then have "path = take e path @ replicate (length path - e) 47"
    by (metis append_take_drop_id)
  moreover have "take e path \<noteq> []" using e by (cases path) auto
  moreover have "length (take e path) = 1 \<or> last (take e path) \<noteq> 47"
    using e \<open>take e path \<noteq> []\<close> by (auto simp: last_conv_nth)
  ultimately show ?thesis using that t by metis
qed

definition trimmed :: "jstr \<Rightarrow> bool" where
  "trimmed p \<longleftrightarrow> p \<noteq> [] \<and> (length p = 1 \<or> last p \<noteq> 47)"

lemma trim_trimmed: "trimmed (trimTrailingSlashes path)"
proof (cases "path = []")
  case True
  then show ?thesis by (simp add: trimmed_def trimTrailingSlashes_def)
next
  case False
  then show ?thesis by (metis trim_shape trimmed_def)
qed

lemma trim_id: "trimmed p \<Longrightarrow> trimTrailingSlashes p = p"
  by (subst trimTrailingSlashes_def, subst trim_end.simps)
    (auto simp: trimmed_def last_conv_nth)

lemma trim_idem [simp]: "trimTrailingSlashes (trimTrailingSlashes p) = trimTrailingSlashes p"
  by (simp add: trim_id trim_trimmed)

lemma splitPath_trim [simp]: "splitPath (trimTrailingSlashes p) = splitPath p"
  by (simp add: splitPath_def)

lemma splitPath_seg:
  assumes "g \<in> set (splitPath path)"
  shows "47 \<notin> set g" and "parsed_path path \<Longrightarrow> parsed_path g"
proof -
  define clean where "clean = trimTrailingSlashes path"
  define body where "body = (if hd clean = 47 then tl clean else clean)"
  from assms have g: "g \<in> set (split_on 47 body)"
    by (auto simp: splitPath_def Let_def clean_def body_def split: if_splits)
  then show "47 \<notin> set g" by (rule split_on_no_sep)
  assume pp: "parsed_path path"
  have "clean \<noteq> []" using trim_trimmed [of path] by (simp add: clean_def trimmed_def)
  then have "set body \<subseteq> set clean" by (auto simp: body_def dest: list.set_sel(2))
  moreover have "set clean \<subseteq> insert 47 (set path)"
    by (auto simp: clean_def trimTrailingSlashes_def dest: in_set_takeD)
  ultimately have "set g \<subseteq> insert 47 (set path)" using split_on_chars [OF g] by blast
  with pp show "parsed_path g" by (auto simp: parsed_path_def is_control_def)
qed

abbreviation static_key :: "jstr \<Rightarrow> jstr" where
  "static_key path \<equiv> 47 # join_on 47 (splitPath path)"

lemma splitPath_cases:
  obtains (root) "trimTrailingSlashes path = [47]" "splitPath path = []"
  | (segs) body where "body \<noteq> []" "splitPath path = split_on 47 body" "trimmed (47 # body)"
      "trimTrailingSlashes path = 47 # body \<or> (trimTrailingSlashes path = body \<and> hd body \<noteq> 47)"
proof -
  define clean where "clean = trimTrailingSlashes path"
  have tr: "trimmed clean" by (simp add: clean_def trim_trimmed)
  show ?thesis
  proof (cases "clean = [47]")
    case True
    then show ?thesis using root by (simp add: splitPath_def clean_def)
  next
    case False
    define body where "body = (if hd clean = 47 then tl clean else clean)"
    from tr False have "body \<noteq> []" "trimmed (47 # body)"
      by (cases clean; auto simp: trimmed_def body_def split: if_splits)+
    moreover have "splitPath path = split_on 47 body"
      using False by (simp add: splitPath_def clean_def body_def Let_def)
    moreover have "clean = 47 # body \<or> (clean = body \<and> hd body \<noteq> 47)"
      using tr by (cases clean) (auto simp: trimmed_def body_def)
    ultimately show ?thesis using segs by (simp add: clean_def)
  qed
qed

lemma static_key_trimmed: "trimmed (static_key path)"
  by (cases rule: splitPath_cases [of path]) (auto simp: trimmed_def)

lemma static_key_slash: "hd path = 47 \<Longrightarrow> path \<noteq> [] \<Longrightarrow> static_key path = trimTrailingSlashes path"
proof -
  assume h: "hd path = 47" "path \<noteq> []"
  from h(2) obtain k where "path = trimTrailingSlashes path @ replicate k 47" "trimTrailingSlashes path \<noteq> []"
    by (rule trim_shape)
  with h(1) have "hd (trimTrailingSlashes path) = 47" by (metis hd_append2)
  then show ?thesis by (cases rule: splitPath_cases [of path]) auto
qed

lemma static_key_inj: "static_key p = static_key q \<longleftrightarrow> splitPath p = splitPath q"
proof
  assume eq: "static_key p = static_key q"
  have "splitPath r = (if static_key r = [47] then [] else split_on 47 (tl (static_key r)))" for r
    by (cases rule: splitPath_cases [of r]) auto
  with eq show "splitPath p = splitPath q" by metis
qed simp

subsection \<open>Registration keeps the trie well formed\<close>

lemma node_at_createNode: "node_at createNode pat = (if pat = [] then Some createNode else None)"
  by (cases pat rule: pat_cases) (simp_all add: createNode_def)

lemma insert_no_node:
  "fst (insert_route nd segs m h) = None \<Longrightarrow> (pat \<noteq> [] \<longrightarrow> node_at nd pat = None) \<Longrightarrow> \<not> prefix pat (to_pat segs) \<Longrightarrow>
   node_at (snd (insert_route nd segs m h)) pat = None"
proof (induction nd segs arbitrary: pat rule: insert_induct)
  case (Nil nd)
  then show ?case
    by (cases nd; cases pat rule: pat_cases) (auto simp: Let_def split: option.splits if_splits)
next
  case (Par nd seg rest)
  then show ?case
    by (cases nd; cases pat rule: pat_cases)
      (auto simp: insert_par to_pat_Cons Let_def node_at_createNode split: option.splits if_splits)
next
  case (Wild nd seg rest)
  have nil: "node_at n q = None \<Longrightarrow> q \<noteq> [] \<Longrightarrow> node_at (snd (insert_route n [] m h)) q = None" for n q
    by (cases n; cases q rule: pat_cases) (auto simp: Let_def split: option.splits if_splits)
  show ?case
    using Wild.prems Wild.hyps
    by (cases nd; cases pat rule: pat_cases)
      (auto simp: insert_wild to_pat_Cons Let_def node_at_createNode nil split: option.splits if_splits)
next
  case (Lit nd seg rest)
  then show ?case
    by (cases nd; cases pat rule: pat_cases)
      (auto simp: insert_lit to_pat_Cons Let_def assoc_laws node_at_createNode
        split: option.splits if_splits)
qed

lemma insert_nodes:
  "fst (insert_route nd segs m h) = None \<Longrightarrow>
   node_at (snd (insert_route nd segs m h)) pat \<noteq> None \<Longrightarrow>
   node_at nd pat \<noteq> None \<or> prefix pat (to_pat segs)"
  by (rule ccontr) (simp add: insert_no_node)

lemma to_pat_wild_last:
  assumes "prefix (pat @ [Wild x]) (to_pat segs)" shows "to_pat segs = pat @ [Wild x]"
  using assms
proof (induction segs arbitrary: pat)
  case (Cons seg rest)
  consider (par) "prefix (js '':'') seg" | (wild) "\<not> prefix (js '':'') seg" "prefix (js ''*'') seg"
    | (lit) "\<not> prefix (js '':'') seg" "\<not> prefix (js ''*'') seg" by blast
  then show ?case
    using Cons by cases (cases pat; simp add: to_pat_Cons)+
qed simp

lemma wild_ok_insert:
  assumes "wild_ok nd" and ok: "fst (insert_route nd segs m h) = None"
  shows "wild_ok (snd (insert_route nd segs m h))"
  unfolding wild_ok_def
proof (intro allI impI)
  fix pat x n
  assume n: "node_at (snd (insert_route nd segs m h)) (pat @ [Wild x]) = Some n"
  let ?q = "pat @ [Wild x]"
  have "routes_at (snd (insert_route nd segs m h)) ?q \<noteq> None"
  proof (cases "?q = to_pat segs")
    case True
    then show ?thesis by (simp add: insert_routes_at [OF ok])
  next
    case False
    then have "\<not> prefix ?q (to_pat segs)" using to_pat_wild_last by metis
    with insert_nodes [OF ok, of ?q] n obtain n0 where "node_at nd ?q = Some n0" by auto
    with assms(1) have "routes_at nd ?q \<noteq> None" by (auto simp: wild_ok_def routes_at_def)
    with False show ?thesis by (simp add: insert_routes_at [OF ok])
  qed
  with n show "handlers n \<noteq> None" by (simp add: routes_at_def)
qed

lemma cap_names_append: "cap_names (p @ q) = cap_names p @ cap_names q"
  by (induction p rule: cap_names.induct) auto

lemma fresh_insert:
  assumes "fresh_names nd []" and ok: "fst (insert_route nd segs m h) = None"
    and d: "distinct (cap_names (to_pat segs))"
  shows "fresh_names (snd (insert_route nd segs m h)) []"
  unfolding fresh_names_def
proof (intro allI impI)
  fix pat n assume "node_at (snd (insert_route nd segs m h)) pat = Some n"
  with insert_nodes [OF ok, of pat] consider n0 where "node_at nd pat = Some n0" | "prefix pat (to_pat segs)"
    by auto
  then show "distinct (cap_names pat) \<and> set (cap_names pat) \<inter> keys ([]::(jstr, jstr) assoc) = {}"
  proof cases
    case 1
    with assms(1) show ?thesis by (auto simp: fresh_names_def)
  next
    case 2
    with d show ?thesis by (auto simp: prefix_def cap_names_append)
  qed
qed

lemma check_captures_spec:
  "check_captures segs names = Inr names' \<Longrightarrow> distinct names \<Longrightarrow>
   names' = names @ cap_names (to_pat segs) \<and> distinct names'"
proof (induction segs arbitrary: names)
  case (Cons seg rest)
  have wn: "wild_name seg = (if length seg = 1 then js ''wildcard'' else drop 1 seg)"
    if "prefix (js ''*'') seg" using that by (cases seg) (auto simp: wild_name_def prefix_def)
  have np: "\<not> (prefix (js '':'') seg \<and> prefix (js ''*'') seg)"
    by (cases seg) (auto simp: prefix_def)
  consider (par) "prefix (js '':'') seg" "\<not> prefix (js ''*'') seg" | (wild) "\<not> prefix (js '':'') seg" "prefix (js ''*'') seg"
    | (lit) "\<not> prefix (js '':'') seg" "\<not> prefix (js ''*'') seg" using np by blast
  then show ?case
  proof cases
    case par
    with Cons.prems have "check_captures rest (names @ [drop 1 seg]) = Inr names'" "drop 1 seg \<notin> set names"
      by (auto simp: Let_def split: if_splits)
    with Cons.IH [OF this(1)] Cons.prems(2) par show ?thesis by (auto simp: to_pat_Cons)
  next
    case wild
    with Cons.prems wn show ?thesis by (auto simp: Let_def to_pat_Cons split: if_splits)
  next
    case lit
    with Cons.prems have "check_captures rest names = Inr names'" by (simp add: Let_def)
    with Cons.IH [OF this] Cons.prems(2) lit show ?thesis by (auto simp: to_pat_Cons)
  qed
qed simp

subsection \<open>Reachable routers\<close>

text \<open>The routers a program can build: registrations and method queries in any order.\<close>

inductive router_reach :: "'h router \<Rightarrow> bool" where
  init: "router_reach new_router"
| register: "router_reach r \<Longrightarrow> router_reach (snd (add_route r m path h oid))"
| query: "router_reach r \<Longrightarrow> router_reach (snd (allowedMethods r path))"

definition cache_ok :: "'h router \<Rightarrow> bool" where
  "cache_ok r \<longleftrightarrow> (\<forall>k rv ms. map_of (staticMethods r) k = Some (rv, ms) \<longrightarrow>
     rv \<le> revision r \<and> (rv = revision r \<longrightarrow> ms = compute_methods r k \<and> \<not> rejected_path k))"

definition router_inv :: "'h router \<Rightarrow> bool" where
  "router_inv r \<longleftrightarrow> fresh_names (root r) [] \<and> wild_ok (root r)
     \<and> (\<forall>k \<in> keys (staticTable r). trimmed k)
     \<and> (\<not> hasDynamicRoutes r \<longrightarrow> root r = createNode) \<and> cache_ok r"

text \<open>Everything \<open>add\<close> can do: nothing, or one static or one dynamic registration.\<close>

lemma add_route_cases:
  obtains (fail) e where "add_route r m path h oid = (Some e, r)"
  | (static) t where "add_route r m path h oid = (None, r\<lparr>
        staticTable := AList.update (static_key path) (AList.update m h t) (staticTable r),
        revision := Suc (revision r), operationIds := reserve_id oid (operationIds r)\<rparr>)"
      "t = (case map_of (staticTable r) (static_key path) of None \<Rightarrow> [] | Some t \<Rightarrow> t)" "map_of t m = None"
      "cap_names (to_pat (splitPath path)) = []"
  | (dynamic) "fst (insert_route (root r) (splitPath path) m h) = None"
      "add_route r m path h oid = (None, r\<lparr>
        root := snd (insert_route (root r) (splitPath path) m h), hasDynamicRoutes := True,
        revision := Suc (revision r), operationIds := reserve_id oid (operationIds r)\<rparr>)"
      "cap_names (to_pat (splitPath path)) \<noteq> []" "distinct (cap_names (to_pat (splitPath path)))"
proof (cases "id_taken oid (operationIds r)")
  case True
  then show ?thesis using fail by (simp add: add_route_def)
next
  case False
  show ?thesis
  proof (cases "check_captures (splitPath path) []")
    case (Inl e)
    with False show ?thesis using fail by (simp add: add_route_def)
  next
    case (Inr names)
    from check_captures_spec [OF this] have nm: "names = cap_names (to_pat (splitPath path))" "distinct names"
      by auto
    show ?thesis
    proof (cases "names = []")
      case True
      define t where "t = (case map_of (staticTable r) (static_key path) of None \<Rightarrow> [] | Some t \<Rightarrow> t)"
      have eq: "add_route r m path h oid =
          (let r1 = r\<lparr>staticTable := AList.update (static_key path) t (staticTable r)\<rparr>
           in if map_of t m \<noteq> None then (Some (DuplicateRoute m), r1)
              else (None, r1\<lparr>staticTable := AList.update (static_key path) (AList.update m h t) (staticTable r1),
                             revision := Suc (revision r),
                             operationIds := reserve_id oid (operationIds r)\<rparr>))"
        using False Inr True by (simp add: add_route_def t_def Let_def)
      show ?thesis
      proof (cases "map_of t m")
        case None
        with eq have "add_route r m path h oid = (None, r\<lparr>
          staticTable := AList.update (static_key path) (AList.update m h t) (staticTable r),
          revision := Suc (revision r), operationIds := reserve_id oid (operationIds r)\<rparr>)"
          by (simp add: Let_def)
        then show ?thesis using static t_def None nm True by blast
      next
        case (Some y)
        then have "map_of (staticTable r) (static_key path) = Some t"
          by (auto simp: t_def split: option.splits)
        then have "AList.update (static_key path) t (staticTable r) = staticTable r"
          by (rule update_same)
        with eq Some show ?thesis using fail by (simp add: Let_def)
      qed
    next
      case dyn: False
      show ?thesis
      proof (cases "fst (insert_route (root r) (splitPath path) m h)")
        case None
        then show ?thesis
          using dynamic nm dyn \<open>\<not> id_taken oid (operationIds r)\<close> Inr
          by (cases "insert_route (root r) (splitPath path) m h") (simp add: add_route_def)
      next
        case (Some e)
        with insert_fail_same [of "root r" "splitPath path" m h] show ?thesis
          using fail dyn \<open>\<not> id_taken oid (operationIds r)\<close> Inr
          by (cases "insert_route (root r) (splitPath path) m h") (simp add: add_route_def)
      qed
    qed
  qed
qed

subsection \<open>The invariant holds of every reachable router\<close>

lemma compute_methods_cong:
  assumes "staticTable r' = staticTable r" "root r' = root r" "hasDynamicRoutes r' = hasDynamicRoutes r"
  shows "compute_methods r' p = compute_methods r p"
  unfolding compute_methods_def static_entry_def assms ..

lemma static_entry_trim:
  assumes "\<forall>k \<in> keys (staticTable r). trimmed k" and "static_entry r path \<noteq> None"
  shows "static_entry r (trimTrailingSlashes path) = static_entry r path"
    and "map_of (staticTable r) (trimTrailingSlashes path) = static_entry r path"
proof -
  have "trimTrailingSlashes path = path" if "map_of (staticTable r) path \<noteq> None"
    using that assms(1) by (auto intro!: trim_id dest: map_of_Some_keys)
  with assms(2) show "map_of (staticTable r) (trimTrailingSlashes path) = static_entry r path"
    by (auto simp: static_entry_def split: option.splits if_splits)
  with assms(2) show "static_entry r (trimTrailingSlashes path) = static_entry r path"
    by (auto simp: static_entry_def split: option.splits)
qed

lemma rejected_trim:
  assumes "\<not> rejected_path path" and "path \<noteq> []"
  shows "\<not> rejected_path (trimTrailingSlashes path)"
proof -
  from assms(2) obtain k where k: "path = trimTrailingSlashes path @ replicate k 47" by (rule trim_shape)
  let ?t = "trimTrailingSlashes path"
  have "sublist ?t path" using k by (metis sublist_appendI append_Nil)
  then have "\<not> sublist (js ''/../'') ?t" "\<not> sublist (js ''//'') ?t"
    using assms(1) unfolding rejected_path_def by (meson sublist_order.order_trans)+
  moreover have "\<not> suffix (js ''/..'') ?t"
  proof
    assume sx: "suffix (js ''/..'') ?t"
    then obtain u where u: "?t = u @ js ''/..''" by (auto simp: suffix_def)
    show False
    proof (cases k)
      case 0
      with k sx assms(1) show False by (simp add: rejected_path_def)
    next
      case (Suc j)
      with k u have "path = u @ js ''/../'' @ replicate j 47" by simp
      then have "sublist (js ''/../'') path" by (metis sublist_appendI)
      with assms(1) show False by (simp add: rejected_path_def)
    qed
  qed
  ultimately show ?thesis by (simp add: rejected_path_def)
qed

lemma static_entry_nonempty:
  assumes "\<forall>k \<in> keys (staticTable r). trimmed k" and "static_entry r path \<noteq> None"
  shows "path \<noteq> []"
proof
  assume "path = []"
  with assms(2) obtain t where "map_of (staticTable r) [] = Some t"
    by (auto simp: static_entry_def suffix_def split: option.splits)
  with assms(1) show False by (auto simp: trimmed_def dest!: map_of_Some_keys)
qed

lemma router_inv_new: "router_inv new_router"
  by (auto simp: router_inv_def new_router_def fresh_names_def wild_ok_def node_at_createNode cache_ok_def)

lemma router_inv_add:
  assumes inv: "router_inv r" shows "router_inv (snd (add_route r m path h oid))"
proof (cases rule: add_route_cases [of r m path h oid])
  case (fail e)
  with inv show ?thesis by simp
next
  case (static t)
  from inv have "cache_ok r" by (simp add: router_inv_def)
  then have "cache_ok (snd (add_route r m path h oid))"
    unfolding static(1) cache_ok_def by fastforce
  with inv static(1) static_key_trimmed [of path] show ?thesis
    by (auto simp: router_inv_def assoc_laws)
next
  case dynamic
  from inv have "cache_ok r" by (simp add: router_inv_def)
  then have "cache_ok (snd (add_route r m path h oid))"
    unfolding dynamic(2) cache_ok_def by fastforce
  with inv dynamic show ?thesis
    by (auto simp: router_inv_def intro: wild_ok_insert fresh_insert)
qed

lemma allowedMethods_cases:
  obtains (hit) ms where "map_of (staticMethods r) path = Some (revision r, ms)"
      "allowedMethods r path = (ms, r)"
  | (rejected) "rejected_path path" "allowedMethods r path = ([], r)"
  | (uncached) "\<not> rejected_path path" "static_entry r path = None"
      "allowedMethods r path = (compute_methods r path, r)"
  | (store) "\<not> rejected_path path" "static_entry r path \<noteq> None"
      "allowedMethods r path = (compute_methods r path,
         r\<lparr>staticMethods := AList.update (trimTrailingSlashes path)
             (revision r, compute_methods r path) (staticMethods r)\<rparr>)"
proof (cases "\<exists>ms. map_of (staticMethods r) path = Some (revision r, ms)")
  case True
  then obtain ms where "map_of (staticMethods r) path = Some (revision r, ms)" ..
  then show ?thesis using hit by (simp add: allowedMethods_def)
next
  case False
  then have eq: "allowedMethods r path =
      (if rejected_path path then ([], r)
       else if static_entry r path = None then (compute_methods r path, r)
       else (compute_methods r path,
             r\<lparr>staticMethods := AList.update (trimTrailingSlashes path)
                 (revision r, compute_methods r path) (staticMethods r)\<rparr>))"
    by (auto simp: allowedMethods_def split: option.splits)
  show ?thesis
  proof (cases "rejected_path path")
    case True
    with eq show ?thesis using rejected by simp
  next
    case False
    with eq show ?thesis using uncached store by (cases "static_entry r path") simp_all
  qed
qed

lemma compute_methods_trim:
  assumes "\<forall>k \<in> keys (staticTable r). trimmed k" and "static_entry r path \<noteq> None"
  shows "compute_methods r (trimTrailingSlashes path) = compute_methods r path"
  by (simp add: compute_methods_def static_entry_trim [OF assms])

lemma router_inv_query:
  assumes inv: "router_inv r" shows "router_inv (snd (allowedMethods r path))"
proof (cases rule: allowedMethods_cases [of r path])
  case store
  from inv have tr: "\<forall>k \<in> keys (staticTable r). trimmed k" and c: "cache_ok r"
    by (simp_all add: router_inv_def)
  let ?r = "snd (allowedMethods r path)"
  have cm: "compute_methods ?r = compute_methods r"
    by (rule ext, rule compute_methods_cong) (simp_all add: store(3))
  have "cache_ok ?r"
    using c compute_methods_trim [OF tr store(2)]
      rejected_trim [OF store(1) static_entry_nonempty [OF tr store(2)]]
    unfolding cache_ok_def cm by (auto simp: store(3) assoc_laws)
  with inv show ?thesis by (simp add: router_inv_def store(3))
qed (use inv in auto)

lemma router_reach_inv: "router_reach r \<Longrightarrow> router_inv r"
  by (induction rule: router_reach.induct) (auto intro: router_inv_new router_inv_add router_inv_query)

section \<open>Properties\<close>

text \<open>
  C1. Registration is all or nothing: when \<open>add\<close> throws (duplicate route, duplicate
  operation id, conflicting, empty, repeated or forbidden capture name, misplaced
  wildcard) the router is unchanged, although the source creates trie nodes and table
  entries on the way.
\<close>

theorem add_route_atomic:
  assumes "add_route r m path h oid = (Some e, r')"
  shows "r' = r"
proof (cases rule: add_route_cases [of r m path h oid])
  case (fail e')
  have "(Some e, r') = (Some e', r)" by (rule trans [OF assms [symmetric] fail])
  then show ?thesis by blast
next
  case (static t)
  from assms [unfolded static(1)] show ?thesis by blast
next
  case dynamic
  from assms [unfolded dynamic(2)] show ?thesis by blast
qed

text \<open>
  The handler table registered for the pattern of a path: in the static table when the
  pattern has no capture, in the trie otherwise.
\<close>

definition route_table :: "'h router \<Rightarrow> jstr \<Rightarrow> (jstr, 'h) assoc option" where
  "route_table r p =
     (if cap_names (to_pat (splitPath p)) = [] then map_of (staticTable r) (static_key p)
      else routes_at (root r) (to_pat (splitPath p)))"

lemma to_pat_static: "cap_names (to_pat gs) = [] \<Longrightarrow> to_pat gs = map Lit gs"
proof (induction gs)
  case (Cons g gs)
  then show ?case by (auto simp: to_pat.simps split: if_splits)
qed simp

lemma to_pat_static_inj:
  "cap_names (to_pat gs) = [] \<Longrightarrow> cap_names (to_pat hs) = [] \<Longrightarrow> to_pat gs = to_pat hs \<longleftrightarrow> gs = hs"
  by (metis to_pat_static list.inj_map_strong pseg.inject(1))

text \<open>
  C2. A successful registration refines the update of one entry of the abstract route
  table: the method is added to the table of the path's own pattern (whose earlier
  methods stay), and the table of every other pattern is unchanged.
\<close>

theorem add_route_refines:
  assumes "add_route r m path h oid = (None, r')"
  shows "route_table r' p =
    (if to_pat (splitPath p) = to_pat (splitPath path)
     then Some (AList.update m h (case route_table r path of None \<Rightarrow> [] | Some t \<Rightarrow> t))
     else route_table r p)"
proof (cases rule: add_route_cases [of r m path h oid])
  case (fail e)
  from assms [unfolded fail] show ?thesis by blast
next
  case (static t)
  from assms [unfolded static(1)] have r': "r' = r\<lparr>
        staticTable := AList.update (static_key path) (AList.update m h t) (staticTable r),
        revision := Suc (revision r), operationIds := reserve_id oid (operationIds r)\<rparr>" by blast
  show ?thesis
  proof (cases "cap_names (to_pat (splitPath p)) = []")
    case True
    have "to_pat (splitPath p) = to_pat (splitPath path) \<longleftrightarrow> static_key p = static_key path"
      unfolding static_key_inj by (rule to_pat_static_inj [OF True static(4)])
    with True static(2,4) show ?thesis by (auto simp: route_table_def r' assoc_laws)
  next
    case False
    with static(4) show ?thesis by (auto simp: route_table_def r')
  qed
next
  case dynamic
  from assms [unfolded dynamic(2)] have r': "r' = r\<lparr>
        root := snd (insert_route (root r) (splitPath path) m h), hasDynamicRoutes := True,
        revision := Suc (revision r), operationIds := reserve_id oid (operationIds r)\<rparr>" by blast
  with dynamic show ?thesis by (auto simp: route_table_def r' insert_routes_at)
qed

text \<open>
  C3. Dynamic lookup meets its specification on every reachable router.  A hit is the
  handler of a registered pattern that matches the path, no other matching pattern comes
  before it (static segments before parameters before wildcards, segment by segment), and
  the captures are exactly that pattern's: an abandoned branch leaves none behind.  A miss
  means that no registered pattern matches, or that the first one lacks the method.
\<close>

theorem find_dynamic_spec:
  assumes "router_reach r"
  shows "case find_dynamic r m path of
      Some mt \<Rightarrow> \<exists>pat t. routes_at (root r) pat = Some t \<and> map_of t m = Some (handler mt)
        \<and> match_pat pat (splitPath path) = Some (params mt)
        \<and> (\<forall>g \<in> set (captured pat (splitPath path)). seg_flag g \<longrightarrow> encodedSeparator mt)
        \<and> (\<forall>pat'. live (root r) pat' (splitPath path) \<longrightarrow> map seg_rank pat \<le> map seg_rank pat')
    | None \<Rightarrow> (\<forall>pat. \<not> live (root r) pat (splitPath path))
        \<or> (\<exists>pat t. routes_at (root r) pat = Some t \<and> map_of t m = None
             \<and> match_pat pat (splitPath path) \<noteq> None
             \<and> (\<forall>pat'. live (root r) pat' (splitPath path) \<longrightarrow> map seg_rank pat \<le> map seg_rank pat'))"
proof -
  from router_reach_inv [OF assms] have "fresh_names (root r) []" "wild_ok (root r)"
    by (simp_all add: router_inv_def)
  from walk_correct [OF this, of "splitPath path" False]
  have sp: "walk_spec (root r) (splitPath path) [] False (walk (root r) (splitPath path) [] False)" .
  obtain o1 ps saw where w: "walk (root r) (splitPath path) [] False = (o1, ps, saw)"
    by (cases "walk (root r) (splitPath path) [] False")
  show ?thesis
  proof (cases o1)
    case None
    with sp w show ?thesis by (simp add: find_dynamic_def walk_spec_def)
  next
    case (Some n)
    with sp w obtain pat where hit: "walk_hit (root r) (splitPath path) [] False pat n ps saw"
      and least: "\<forall>pat'. live (root r) pat' (splitPath path) \<longrightarrow> map seg_rank pat \<le> map seg_rank pat'"
      by (auto simp: walk_spec_def)
    from hit obtain t where t: "handlers n = Some t" "routes_at (root r) pat = Some t"
      by (auto simp: walk_hit_def routes_at_def)
    with hit w Some least show ?thesis
      by (cases "map_of t m") (auto simp: find_dynamic_def walk_hit_def)
  qed
qed

text \<open>A closed router: one wildcard route and two routes that overlap for different methods.\<close>

definition sample_router :: "nat router" where
  "sample_router =
     snd (add_route
       (snd (add_route
         (snd (add_route new_router (js ''GET'') (js ''/files/*p'') 1 None))
         (js ''POST'') (js ''/:x/b'') 2 None))
       (js ''GET'') (js ''/a/:y'') 3 None)"

lemma sample_reach: "router_reach sample_router"
  unfolding sample_router_def by (intro router_reach.intros)

theorem add_route_atomic_witness:
  "snd (add_route sample_router (js ''GET'') (js ''/:x/b/*'') 7 (Some (js ''op''))) \<noteq> sample_router
   \<and> snd (add_route sample_router (js ''GET'') (js ''/:z/b/*'') 7 (Some (js ''op''))) = sample_router"
proof -
  have e: "add_route sample_router (js ''GET'') (js ''/:z/b/*'') 7 (Some (js ''op''))
      = (Some (ConflictingParam (js ''x'') (js ''z'')),
         snd (add_route sample_router (js ''GET'') (js ''/:z/b/*'') 7 (Some (js ''op''))))"
    by code_simp
  have "revision (snd (add_route sample_router (js ''GET'') (js ''/:x/b/*'') 7 (Some (js ''op'')))) = 4"
    and "revision sample_router = 3" by code_simp+
  with add_route_atomic [OF e] show ?thesis by auto
qed

theorem add_route_refines_witness:
  "route_table (snd (add_route sample_router (js ''GET'') (js ''/:x/b/'') 7 None)) (js ''/:x/b'')
     = Some [(js ''POST'', 2), (js ''GET'', 7)]"
proof -
  have e: "add_route sample_router (js ''GET'') (js ''/:x/b/'') 7 None
      = (None, snd (add_route sample_router (js ''GET'') (js ''/:x/b/'') 7 None))"
    by code_simp
  show ?thesis by (rule trans [OF add_route_refines [OF e]]) code_simp
qed

theorem find_dynamic_spec_witness:
  "\<exists>pat t. routes_at (root sample_router) pat = Some t \<and> map_of t (js ''GET'') = Some 3
     \<and> match_pat pat (splitPath (js ''/a/b'')) = Some [(js ''y'', js ''b'')]"
proof -
  have f: "find_dynamic sample_router (js ''GET'') (js ''/a/b'')
      = Some \<lparr> handler = 3, params = [(js ''y'', js ''b'')], encodedSeparator = False \<rparr>"
    by code_simp
  show ?thesis
    using find_dynamic_spec [OF sample_reach, where m = "js ''GET''" and path = "js ''/a/b''"] 
    unfolding f option.case route_match.select_convs by blast
qed

lemma match_pat_captures:
  assumes "match_pat pat gs = Some caps" and "\<forall>g \<in> set gs. parsed_path g \<and> 47 \<notin> set g"
  shows "\<forall>v \<in> snd ` set caps. safe_capture v"
  using assms
proof (induction pat gs arbitrary: caps rule: match_pat.induct)
  case (3 x pat g gs)
  then obtain d caps' where d: "decode_seg g = Some d" and c: "match_pat pat gs = Some caps'"
    "caps = (x, d) # caps'" by (auto split: option.splits)
  with 3 decode_seg_safe [OF d] show ?case by simp
next
  case (4 x g gs)
  then have v: "caps = [(x, join_on 47 (map (the \<circ> decode_seg) (g # gs)))]"
    and d: "\<forall>s \<in> set (g # gs). decode_seg s \<noteq> None" by (auto split: if_splits)
  have sc: "safe_capture (the (decode_seg s))" if s: "s \<in> set (g # gs)" for s
  proof -
    from d s obtain e where e: "decode_seg s = Some e" by blast
    from 4(2) s have "parsed_path s" "47 \<notin> set s" by blast+
    with decode_seg_safe [OF e] e show ?thesis by simp
  qed
  let ?ds = "map (the \<circ> decode_seg) (g # gs)"
  have "path_fields (join_on 47 ?ds) = concat (map path_fields ?ds)"
    by (rule fields_join) simp
  then have "\<forall>q \<in> set (path_fields (join_on 47 ?ds)). \<not> isDotSegment q"
    using sc by (auto simp: safe_capture_def)
  moreover have "\<forall>c \<in> set (join_on 47 ?ds). \<not> is_control c"
  proof
    fix c assume "c \<in> set (join_on 47 ?ds)"
    with set_join_on [of 47 ?ds] have "c = 47 \<or> (\<exists>s \<in> set (g # gs). c \<in> set (the (decode_seg s)))" by auto
    with sc show "\<not> is_control c" by (auto simp: safe_capture_def is_control_def)
  qed
  ultimately show ?case unfolding v by (simp add: safe_capture_def)
qed (auto split: if_splits)

lemma captured_segs: "set (captured pat gs) \<subseteq> set gs"
  by (induction pat gs rule: captured.induct) auto

lemma find_route_cases:
  assumes "find_route r m path = Some mt"
  obtains (static) "params mt = []" | (dynamic) "find_dynamic r m path = Some mt"
  using assms by (auto simp: find_route_def split: if_splits option.splits)

lemma find_captures:
  assumes "router_reach r" and "parsed_path path" and "find_route r m path = Some mt"
  shows "(\<forall>v \<in> snd ` set (params mt). safe_capture v)
    \<and> (encodedSeparator mt \<or> params mt = []
       \<or> (\<exists>pat. match_pat pat (splitPath path) = Some (params mt)
            \<and> (\<forall>g \<in> set (captured pat (splitPath path)).
                 \<forall>d. decode_seg g = Some d \<longrightarrow> 47 \<notin> set d \<and> 92 \<notin> set d)))"
  using assms(3)
proof (cases rule: find_route_cases)
  case static
  then show ?thesis by simp
next
  case dynamic
  have pp: "\<forall>g \<in> set (splitPath path). parsed_path g \<and> 47 \<notin> set g"
    using splitPath_seg assms(2) by blast
  from find_dynamic_spec [OF assms(1), where m = m and path = path] dynamic
  obtain pat where mp: "match_pat pat (splitPath path) = Some (params mt)"
    and fl: "\<forall>g \<in> set (captured pat (splitPath path)). seg_flag g \<longrightarrow> encodedSeparator mt"
    by auto
  have "47 \<notin> set d \<and> 92 \<notin> set d"
    if "\<not> encodedSeparator mt" "g \<in> set (captured pat (splitPath path))" "decode_seg g = Some d" for g d
    using that fl pp captured_segs decode_seg_saw [of g d] by blast
  with mp match_pat_captures [OF mp pp] show ?thesis by blast
qed

text \<open>
  C4. On a path name as a URL parser yields it (no raw backslash, no raw control
  character), every capture a lookup returns is free of control characters and of
  \<open>.\<close> or \<open>..\<close> components after decoding, split at \<open>/\<close> and at \<open>\\<close>; and when the match is
  not flagged as \<open>encodedSeparator\<close>, no captured segment decodes to text with a separator.
\<close>

theorem find_captures_safe:
  assumes "router_reach r" and "parsed_path path" and "find_route r m path = Some mt"
  shows "(\<forall>v \<in> snd ` set (params mt). safe_capture v)
    \<and> (encodedSeparator mt \<or> params mt = []
       \<or> (\<exists>pat. match_pat pat (splitPath path) = Some (params mt)
            \<and> (\<forall>g \<in> set (captured pat (splitPath path)).
                 \<forall>d. decode_seg g = Some d \<longrightarrow> 47 \<notin> set d \<and> 92 \<notin> set d)))"
  by (rule find_captures [OF assms])

theorem find_captures_safe_witness:
  "parsed_path (js ''/files/a%2Fb/c'')
   \<and> find_route sample_router (js ''GET'') (js ''/files/a%2Fb/c'')
       = Some \<lparr> handler = 1, params = [(js ''p'', js ''a/b/c'')], encodedSeparator = True \<rparr>
   \<and> safe_capture (js ''a/b/c'')"
proof -
  have p: "parsed_path (js ''/files/a%2Fb/c'')" by (simp add: parsed_path_def is_control_def)
  have f: "find_route sample_router (js ''GET'') (js ''/files/a%2Fb/c'')
       = Some \<lparr> handler = 1, params = [(js ''p'', js ''a/b/c'')], encodedSeparator = True \<rparr>"
    by code_simp
  from find_captures_safe [OF sample_reach p f] p f show ?thesis by simp
qed

text \<open>
  The cache of \<open>allowedMethods\<close> is invisible: on every reachable router the answer
  is the one computed from the current routes, however often routes were added since an
  entry was stored.
\<close>

lemma allowed_methods_cache_coherent:
  assumes "router_reach r"
  shows "fst (allowedMethods r path) = (if rejected_path path then [] else compute_methods r path)"
proof (cases rule: allowedMethods_cases [of r path])
  case (hit ms)
  from router_reach_inv [OF assms] have "cache_ok r" by (simp add: router_inv_def)
  with hit show ?thesis by (auto simp: cache_ok_def)
qed auto

lemma allowed_methods_cache_coherent_example:
  "fst (allowedMethods (snd (add_route
       (snd (allowedMethods (snd (add_route new_router (js ''GET'') (js ''/a'') (1::nat) None)) (js ''/a'')))
       (js ''PUT'') (js ''/a'') 2 None)) (js ''/a/'')) = [js ''GET'', js ''PUT'']"
proof -
  let ?r = "snd (add_route
       (snd (allowedMethods (snd (add_route new_router (js ''GET'') (js ''/a'') (1::nat) None)) (js ''/a'')))
       (js ''PUT'') (js ''/a'') 2 None)"
  have "router_reach ?r" by (intro router_reach.intros)
  from allowed_methods_cache_coherent [OF this, of "js ''/a/''"]
  show ?thesis by (rule trans) code_simp
qed

text \<open>
  A registered static path is found: after a successful registration of a path that
  starts with a slash, has no capture and is not a traversal, looking it up under its
  method returns its handler with no captures, whatever dynamic routes overlap it.
\<close>

lemma add_static_find:
  assumes "add_route r m path h oid = (None, r')" and "router_reach r"
    and "hd path = 47" "path \<noteq> []" and "cap_names (to_pat (splitPath path)) = []"
    and "\<not> rejected_path path"
  shows "find_route r' m path = Some \<lparr> handler = h, params = [], encodedSeparator = False \<rparr>"
proof -
  from router_reach.register [OF assms(2), of m path h oid] assms(1)
  have "router_inv r'" by (auto dest: router_reach_inv)
  then have tr: "\<forall>k \<in> keys (staticTable r'). trimmed k" by (simp add: router_inv_def)
  have key: "static_key path = trimTrailingSlashes path"
    by (rule static_key_slash [OF assms(3,4)])
  from add_route_refines [OF assms(1), of path] assms(5)
  obtain t where t: "map_of (staticTable r') (trimTrailingSlashes path) = Some t" "map_of t m = Some h"
    by (auto simp: route_table_def key assoc_laws)
  have "static_entry r' path = Some t"
  proof (cases "trimTrailingSlashes path = path")
    case True
    with t show ?thesis by (simp add: static_entry_def)
  next
    case False
    then have "map_of (staticTable r') path = None"
      using tr trim_id by (metis map_of_None_keys)
    moreover from assms(4) obtain k where k: "path = trimTrailingSlashes path @ replicate k 47"
      by (rule trim_shape)
    with False obtain j where "k = Suc j" by (cases k) auto
    with k have "path = (trimTrailingSlashes path @ replicate j 47) @ [47]"
      by (simp add: replicate_append_same)
    then have "suffix [47] path" by (rule suffixI)
    then have "suffix (js ''/'') path" by simp
    ultimately show ?thesis using t by (simp add: static_entry_def)
  qed
  with assms(6) t show ?thesis by (simp add: find_route_def)
qed

lemma add_static_find_example:
  "find_route (snd (add_route sample_router (js ''GET'') (js ''/a/b/'') 9 None)) (js ''GET'') (js ''/a/b/'')
     = Some \<lparr> handler = 9, params = [], encodedSeparator = False \<rparr>"
proof -
  let ?a = "add_route sample_router (js ''GET'') (js ''/a/b/'') 9 None"
  have e: "?a = (None, snd ?a)" by code_simp
  have c: "cap_names (to_pat (splitPath (js ''/a/b/''))) = []" by code_simp
  have j: "\<not> rejected_path (js ''/a/b/'')" by code_simp
  show ?thesis by (rule add_static_find [OF e sample_reach _ _ c j]) simp_all
qed

text \<open>
  Backtracking is blind to the method: with \<open>POST /:x/b\<close> and \<open>GET /a/:y\<close> registered,
  \<open>POST /a/b\<close> matches the first pattern, which has a handler for \<open>POST\<close>, but the lookup
  stops at the second pattern and reports no route; \<open>allowedMethods\<close> lists only \<open>GET\<close>.
\<close>

lemma find_method_blind:
  "match_pat [Par (js ''x''), Lit (js ''b'')] (splitPath (js ''/a/b'')) = Some [(js ''x'', js ''a'')]
   \<and> routes_at (root sample_router) [Par (js ''x''), Lit (js ''b'')] = Some [(js ''POST'', 2)]
   \<and> find_route sample_router (js ''POST'') (js ''/a/b'') = None
   \<and> fst (allowedMethods sample_router (js ''/a/b'')) = [js ''GET'']"
  by (intro conjI) code_simp+

end
