(* ===== verification/Bytes.thy ===== *)
theory Bytes
  imports JsText "HOL-Library.Word"
begin

unbundle bit_operations_syntax

text \<open>Bytes as \<open>8 word\<close>: extensional equality by the eight bits, and values as numbers.\<close>

type_synonym bytes = "8 word list"

definition byte_list :: "nat list \<Rightarrow> bytes" where
  "byte_list ns = map of_nat ns"

lemma all_below_8: "(\<forall>n < (8::nat). P n) \<longleftrightarrow> P 0 \<and> P 1 \<and> P 2 \<and> P 3 \<and> P 4 \<and> P 5 \<and> P 6 \<and> P 7"
  by (simp add: numeral_eq_Suc less_Suc_eq) blast

lemma byte_eq_iff: "x = y \<longleftrightarrow> (\<forall>n < 8. bit x n = bit (y :: 8 word) n)"
  by (auto intro: bit_word_eqI)

lemma byte_lt: "unat (b :: 8 word) < 256"
  using unsigned_less [of b] by simp

lemma unat_byte: "unat (of_nat n :: 8 word) = n mod 256"
  by (simp add: unsigned_of_nat take_bit_eq_mod)

lemma unat_byte_list: "\<forall>n \<in> set ns. n < 256 \<Longrightarrow> map unat (byte_list ns) = ns"
  by (induction ns) (simp_all add: byte_list_def unat_byte)

lemmas [eval] = byte_list_def

end
