(* ===== verification/IpMatch.thy ===== *)
theory IpMatch
  imports Bytes
begin

unbundle bit_operations_syntax

text \<open>
  \<open>ip-match.ts\<close> and the decision of \<open>ip-restriction.ts\<close>: parsing of addresses and CIDR
  patterns, prefix matching, the canonical rate-limit identity, and the allow/deny gate.

  An address byte is an \<open>8 word\<close>; the masks of the source are 32-bit integers of which
  only the low byte survives the \<open>&\<close> with a byte.  The specification side reads an
  address as its list of bits, most significant first (\<open>addr_bits\<close>).
\<close>

section \<open>Addresses and matchers\<close>

datatype family = V4 | V6

record parsed_ip =
  ip_bytes :: "8 word list"
  ip_family :: family

record ip_matcher =
  m_family :: family
  m_prefix :: nat
  m_bytes :: "8 word list"

datatype cidr_error = InvalidAddress jstr | InvalidPrefix jstr

definition normalizeFamily :: "parsed_ip \<Rightarrow> family \<Rightarrow> 8 word list option" where
  "normalizeFamily ip f =
     (if ip_family ip = f then Some (ip_bytes ip)
      else if ip_family ip = V6 \<and> f = V4 then
        (let b = ip_bytes ip in
         if list_all (\<lambda>x. x = 0) (take 10 b) \<and> b ! 10 = 255 \<and> b ! 11 = 255 then Some (drop 12 b) else None)
      else None)"

definition high_mask :: "nat \<Rightarrow> 8 word" where
  "high_mask r = push_bit (8 - r) 255"

definition matchesMatcher :: "parsed_ip \<Rightarrow> ip_matcher \<Rightarrow> bool" where
  "matchesMatcher ip m =
     (case normalizeFamily ip (m_family m) of
        None \<Rightarrow> False
      | Some candidate \<Rightarrow>
          (let expected = m_bytes m;
               plen = min (m_prefix m) (length candidate * 8);
               fullBytes = plen div 8;
               remaining = plen - fullBytes * 8
           in list_all (\<lambda>i. candidate ! i = expected ! i) [0..<fullBytes]
              \<and> (remaining = 0
                 \<or> ((candidate ! fullBytes) XOR (expected ! fullBytes)) AND high_mask remaining = 0)))"

definition applyPrefixMask :: "8 word list \<Rightarrow> nat \<Rightarrow> 8 word list" where
  "applyPrefixMask bytes plen =
     (let fullBytes = plen div 8;
          remaining = plen - fullBytes * 8;
          out = (if 0 < remaining \<and> fullBytes < length bytes
                 then bytes[fullBytes := bytes ! fullBytes AND high_mask remaining] else bytes);
          keep = fullBytes + (if 0 < remaining then 1 else 0)
      in take keep out @ replicate (length bytes - keep) 0)"

section \<open>Parsing\<close>

fun parse_octets :: "jstr list \<Rightarrow> 8 word list option" where
  "parse_octets [] = Some []"
| "parse_octets (part # ps) =
     (if \<not> (1 \<le> length part \<and> length part \<le> 3 \<and> list_all is_digit part) then None
      else if 255 < dec_val part then None
      else map_option (Cons (of_nat (dec_val part))) (parse_octets ps))"

definition parseIPv4 :: "jstr \<Rightarrow> parsed_ip option" where
  "parseIPv4 input =
     (let parts = split_on 46 input in
      if length parts \<noteq> 4 then None
      else map_option (\<lambda>bs. \<lparr> ip_bytes = bs, ip_family = V4 \<rparr>) (parse_octets parts))"

text \<open>\<open>working.split("::")\<close>: parts between non-overlapping occurrences, left to right.\<close>

fun split_dcolon :: "jstr \<Rightarrow> jstr list" where
  "split_dcolon [] = [[]]"
| "split_dcolon [x] = [[x]]"
| "split_dcolon (x # y # xs) =
     (if x = 58 \<and> y = 58 then [] # split_dcolon xs
      else (case split_dcolon (y # xs) of [] \<Rightarrow> [[x]] | p # ps \<Rightarrow> (x # p) # ps))"

fun parse_groups :: "jstr list \<Rightarrow> 8 word list option" where
  "parse_groups [] = Some []"
| "parse_groups (g # gs) =
     (if \<not> (1 \<le> length g \<and> length g \<le> 4 \<and> list_all is_hex g) then None
      else (let n = hexs_val g in
            map_option (\<lambda>bs. of_nat (n div 256) # of_nat n # bs) (parse_groups gs)))"

definition after_last_colon :: "jstr \<Rightarrow> jstr" where
  "after_last_colon s = rev (takeWhile (\<lambda>c. c \<noteq> 58) (rev s))"

definition upto_last_colon :: "jstr \<Rightarrow> jstr" where
  "upto_last_colon s = rev (dropWhile (\<lambda>c. c \<noteq> 58) (rev s))"

text \<open>A dotted tail is rewritten to two hexadecimal groups; a bad one rejects the address.\<close>

definition expand_v4_tail :: "jstr \<Rightarrow> jstr option" where
  "expand_v4_tail input =
     (if 58 \<in> set input \<and> 46 \<in> set (after_last_colon input) then
        (case parseIPv4 (after_last_colon input) of
           None \<Rightarrow> None
         | Some v4 \<Rightarrow>
             (let b = map unat (ip_bytes v4);
                  hi = b ! 0 * 256 + b ! 1;
                  lo = b ! 2 * 256 + b ! 3
              in Some (upto_last_colon input @ hex_str hi @ 58 # hex_str lo)))
      else Some input)"

definition ipv6_groups :: "jstr \<Rightarrow> jstr list option" where
  "ipv6_groups working =
     (let parts = split_dcolon working;
          headGroups = (if parts ! 0 = [] then [] else split_on 58 (parts ! 0));
          tailGroups = (if length parts = 2 \<and> parts ! 1 \<noteq> [] then split_on 58 (parts ! 1) else []);
          explicit = length headGroups + length tailGroups
      in if 2 < length parts then None
         else if 8 < explicit then None
         else if length parts = 1 \<and> explicit \<noteq> 8 then None
         else (let missing = (if length parts = 2 then 8 - explicit else 0);
                   groups = headGroups @ replicate missing (js ''0'') @ tailGroups
               in if length groups \<noteq> 8 then None else Some groups))"

definition parseIPv6 :: "jstr \<Rightarrow> parsed_ip option" where
  "parseIPv6 input =
     (case expand_v4_tail input of
        None \<Rightarrow> None
      | Some working \<Rightarrow>
          (case ipv6_groups working of
             None \<Rightarrow> None
           | Some groups \<Rightarrow> map_option (\<lambda>bs. \<lparr> ip_bytes = bs, ip_family = V6 \<rparr>) (parse_groups groups)))"

definition parseIp :: "jstr \<Rightarrow> parsed_ip option" where
  "parseIp input =
     (let trimmed = js_trim input in if 58 \<in> set trimmed then parseIPv6 trimmed else parseIPv4 trimmed)"

definition total_bits :: "family \<Rightarrow> nat" where
  "total_bits f = (if f = V4 then 32 else 128)"

definition compileCidrMatcher :: "jstr \<Rightarrow> cidr_error + ip_matcher" where
  "compileCidrMatcher input =
     (let addr = takeWhile (\<lambda>c. c \<noteq> 47) input;
          prefixStr = (if 47 \<in> set input then Some (tl (dropWhile (\<lambda>c. c \<noteq> 47) input)) else None)
      in case parseIp addr of
           None \<Rightarrow> Inl (InvalidAddress input)
         | Some parsed \<Rightarrow>
             (let totalBits = total_bits (ip_family parsed);
                  ok = (\<lambda>p. Inr \<lparr> m_family = ip_family parsed, m_prefix = p,
                                  m_bytes = applyPrefixMask (ip_bytes parsed) p \<rparr>)
              in case prefixStr of
                   None \<Rightarrow> ok totalBits
                 | Some ps \<Rightarrow>
                     (if \<not> (ps \<noteq> [] \<and> list_all is_digit ps) then Inl (InvalidPrefix input)
                      else if totalBits < dec_val ps then Inl (InvalidPrefix input)
                      else ok (dec_val ps))))"

section \<open>Rate-limit identity\<close>

fun canonical_scan :: "jstr \<Rightarrow> nat \<Rightarrow> nat \<Rightarrow> nat \<Rightarrow> bool" where
  "canonical_scan [] dots octet digits = (dots = 3 \<and> 0 < digits)"
| "canonical_scan (c # cs) dots octet digits =
     (if c = 46 then
        (if digits = 0 \<or> 3 < Suc dots then False else canonical_scan cs (Suc dots) 0 0)
      else if 48 \<le> c \<and> c \<le> 57 then
        (if 0 < digits \<and> octet = 0 then False
         else (let o' = octet * 10 + (c - 48) in
               if 3 < Suc digits \<or> 255 < o' then False else canonical_scan cs dots o' (Suc digits)))
      else False)"

definition isCanonicalDottedIPv4 :: "jstr \<Rightarrow> bool" where
  "isCanonicalDottedIPv4 s =
     (if length s < 7 \<or> 15 < length s then False else canonical_scan s 0 0 0)"

definition dotted :: "8 word list \<Rightarrow> jstr" where
  "dotted v4 = join_on 46 (map (\<lambda>b. dec_str (unat b)) v4)"

fun hex_groups :: "8 word list \<Rightarrow> jstr list" where
  "hex_groups (a # b # bs) = hex_str (unat a * 256 + unat b) # hex_groups bs"
| "hex_groups _ = []"

text \<open>The general path, after the two fast-path tests have failed.\<close>

definition identity_general :: "jstr \<Rightarrow> nat \<Rightarrow> jstr" where
  "identity_general ip ipv6Prefix =
     (let t = js_trim ip;
          txt = (if t \<noteq> [] \<and> hd t = 91 \<and> last t = 93 then butlast (tl t) else t)
      in case parseIp txt of
           None \<Rightarrow> txt
         | Some parsed \<Rightarrow>
             (case normalizeFamily parsed V4 of
                Some v4 \<Rightarrow> dotted v4
              | None \<Rightarrow> join_on 58 (hex_groups (applyPrefixMask (ip_bytes parsed) ipv6Prefix))
                          @ 47 # dec_str ipv6Prefix))"

definition ipRateLimitIdentity :: "jstr \<Rightarrow> nat \<Rightarrow> jstr" where
  "ipRateLimitIdentity ip ipv6Prefix =
     (if isCanonicalDottedIPv4 ip then ip
      else if 7 < length ip \<and> prefix (js ''::ffff:'') ip \<and> isCanonicalDottedIPv4 (drop 7 ip)
      then drop 7 ip
      else identity_general ip ipv6Prefix)"

section \<open>The allow/deny gate\<close>

fun compile_all :: "jstr list \<Rightarrow> cidr_error + ip_matcher list" where
  "compile_all [] = Inr []"
| "compile_all (p # ps) =
     (case compileCidrMatcher p of
        Inl e \<Rightarrow> Inl e
      | Inr m \<Rightarrow> (case compile_all ps of Inl e \<Rightarrow> Inl e | Inr ms \<Rightarrow> Inr (m # ms)))"

record ip_lists =
  allow :: "ip_matcher list"
  deny :: "ip_matcher list"

datatype restriction_error = NoLists | BadPattern cidr_error

definition ip_restriction_setup :: "jstr list \<Rightarrow> jstr list \<Rightarrow> restriction_error + ip_lists" where
  "ip_restriction_setup al dn =
     (if al = [] \<and> dn = [] then Inl NoLists
      else case compile_all al of
        Inl e \<Rightarrow> Inl (BadPattern e)
      | Inr a \<Rightarrow> (case compile_all dn of
            Inl e \<Rightarrow> Inl (BadPattern e)
          | Inr d \<Rightarrow> Inr \<lparr> allow = a, deny = d \<rparr>))"

text \<open>\<open>preBody\<close>: \<open>raw\<close> is what the configured resolver returned; True lets the request pass.\<close>

definition ip_restriction_preBody :: "ip_lists \<Rightarrow> jstr option \<Rightarrow> bool" where
  "ip_restriction_preBody ls raw =
     (case raw of
        None \<Rightarrow> False
      | Some r \<Rightarrow>
          (if r = [] then False
           else case parseIp r of
             None \<Rightarrow> False
           | Some parsed \<Rightarrow>
               (if list_ex (matchesMatcher parsed) (deny ls) then False
                else if allow ls \<noteq> [] \<and> \<not> list_ex (matchesMatcher parsed) (allow ls) then False
                else True)))"

lemmas [eval] = normalizeFamily_def high_mask_def matchesMatcher_def applyPrefixMask_def parseIPv4_def
  after_last_colon_def upto_last_colon_def expand_v4_tail_def ipv6_groups_def parseIPv6_def parseIp_def
  total_bits_def compileCidrMatcher_def isCanonicalDottedIPv4_def dotted_def identity_general_def
  ipRateLimitIdentity_def ip_restriction_setup_def ip_restriction_preBody_def


section \<open>Addresses as bits\<close>

definition byte_bits :: "8 word \<Rightarrow> bool list" where
  "byte_bits b = map (bit b) [7, 6, 5, 4, 3, 2, 1, 0]"

definition addr_bits :: "8 word list \<Rightarrow> bool list" where
  "addr_bits bs = concat (map byte_bits bs)"

lemma length_byte_bits [simp]: "length (byte_bits b) = 8"
  by (simp add: byte_bits_def)

lemma addr_bits_simps [simp]:
  "addr_bits [] = []" "addr_bits (b # bs) = byte_bits b @ addr_bits bs"
  by (simp_all add: addr_bits_def)

lemma length_addr_bits [simp]: "length (addr_bits bs) = 8 * length bs"
  by (induction bs) auto

lemma byte_bits_inj [simp]: "byte_bits x = byte_bits y \<longleftrightarrow> x = y"
  by (auto simp: byte_bits_def byte_eq_iff all_below_8)

lemma addr_bits_inj: "length bs = length cs \<Longrightarrow> addr_bits bs = addr_bits cs \<longleftrightarrow> bs = cs"
  by (induction bs cs rule: list_induct2) auto

lemma take_addr_bits:
  assumes "p \<le> 8 * length bs"
  shows "take p (addr_bits bs) = addr_bits (take (p div 8) bs)
    @ (if p mod 8 = 0 then [] else take (p mod 8) (byte_bits (bs ! (p div 8))))"
  using assms
proof (induction bs arbitrary: p)
  case (Cons b bs)
  show ?case
  proof (cases "p < 8")
    case True
    then show ?thesis by simp
  next
    case False
    then obtain q where q: "p = 8 + q" using le_Suc_ex by (metis not_less)
    with Cons.prems have "q \<le> 8 * length bs" by simp
    moreover have "(8 + q) div 8 = Suc (q div 8)" by simp
    ultimately show ?thesis using Cons.IH [of q] by (simp add: q)
  qed
qed simp

lemma high_mask_bits:
  assumes "0 < r" "r < 8"
  shows "(x XOR y) AND high_mask r = 0 \<longleftrightarrow> take r (byte_bits x) = take r (byte_bits y)"
proof -
  from assms consider "r = 1" | "r = 2" | "r = 3" | "r = 4" | "r = 5" | "r = 6" | "r = 7" by linarith
  then show ?thesis
    by cases (auto simp: high_mask_def byte_bits_def byte_eq_iff all_below_8 bit_simps)
qed

lemma and_mask_absorb: "(x XOR (y AND m)) AND m = (x XOR y) AND (m :: 8 word)"
  by (rule bit_word_eqI) (auto simp: bit_simps)

lemma length_applyPrefixMask [simp]: "length (applyPrefixMask bs p) = length bs"
  by (auto simp: applyPrefixMask_def Let_def)

lemma applyPrefixMask_nth:
  assumes "i < length bs"
  shows "applyPrefixMask bs p ! i =
    (if i < p div 8 then bs ! i
     else if i = p div 8 \<and> p mod 8 \<noteq> 0 then bs ! i AND high_mask (p mod 8) else 0)"
proof -
  have "p - p div 8 * 8 = p mod 8" by (simp add: modulo_nat_def)
  moreover have "i - Suc (p div 8) < length bs - Suc (p div 8)" if "p div 8 < i" using that assms by linarith
  moreover have "i - p div 8 < length bs - p div 8" if "p div 8 \<le> i" using that assms by linarith
  ultimately show ?thesis
    using assms by (auto simp: applyPrefixMask_def Let_def nth_append nth_list_update less_Suc_eq)
qed

definition ip_wf :: "parsed_ip \<Rightarrow> bool" where
  "ip_wf ip \<longleftrightarrow> 8 * length (ip_bytes ip) = total_bits (ip_family ip)"

lemma normalize_length:
  assumes "ip_wf ip" and "normalizeFamily ip f = Some c"
  shows "8 * length c = total_bits f"
  using assms by (auto simp: normalizeFamily_def ip_wf_def total_bits_def Let_def split: if_splits)

lemma parse_octets_length: "parse_octets ps = Some bs \<Longrightarrow> length bs = length ps"
  by (induction ps arbitrary: bs) (auto split: if_splits)

lemma parse_groups_length: "parse_groups gs = Some bs \<Longrightarrow> length bs = 2 * length gs"
  by (induction gs arbitrary: bs) (auto simp: Let_def split: if_splits)

lemma ipv6_groups_length: "ipv6_groups w = Some gs \<Longrightarrow> length gs = 8"
  by (auto simp: ipv6_groups_def Let_def split: if_splits)

lemma parseIp_wf: "parseIp s = Some ip \<Longrightarrow> ip_wf ip"
  by (auto simp: parseIp_def Let_def parseIPv4_def parseIPv6_def ip_wf_def total_bits_def
      dest!: parse_octets_length parse_groups_length ipv6_groups_length
      split: if_splits option.splits)

lemma compile_shape:
  assumes "compileCidrMatcher pat = Inr m" and "parseIp (takeWhile (\<lambda>c. c \<noteq> 47) pat) = Some a"
  shows "m_family m = ip_family a" "m_bytes m = applyPrefixMask (ip_bytes a) (m_prefix m)"
    "m_prefix m \<le> total_bits (ip_family a)"
  using assms by (auto simp: compileCidrMatcher_def Let_def split: option.splits if_splits)

lemma masked_match:
  assumes l: "length c = length a" and p: "p \<le> 8 * length a"
  shows "(list_all (\<lambda>i. c ! i = applyPrefixMask a p ! i) [0..<p div 8]
      \<and> (p mod 8 = 0 \<or> (c ! (p div 8) XOR applyPrefixMask a p ! (p div 8)) AND high_mask (p mod 8) = 0))
    \<longleftrightarrow> take p (addr_bits c) = take p (addr_bits a)"
proof -
  have full: "list_all (\<lambda>i. c ! i = applyPrefixMask a p ! i) [0..<p div 8]
      \<longleftrightarrow> take (p div 8) c = take (p div 8) a"
    using l p by (auto simp: list_all_iff list_eq_iff_nth_eq applyPrefixMask_nth)
  have part: "(c ! (p div 8) XOR applyPrefixMask a p ! (p div 8)) AND high_mask (p mod 8) = 0
      \<longleftrightarrow> take (p mod 8) (byte_bits (c ! (p div 8))) = take (p mod 8) (byte_bits (a ! (p div 8)))"
    if "p mod 8 \<noteq> 0"
  proof -
    have "p div 8 < length a" using that p by (metis div_mult_mod_eq le_neq_implies_less less_mult_imp_div_less mod_mult_self1_is_0 mult.commute)
    with that show ?thesis
      by (simp add: applyPrefixMask_nth and_mask_absorb high_mask_bits)
  qed
  have "take p (addr_bits c) = take p (addr_bits a) \<longleftrightarrow>
      addr_bits (take (p div 8) c) = addr_bits (take (p div 8) a)
      \<and> (p mod 8 = 0 \<or> take (p mod 8) (byte_bits (c ! (p div 8))) = take (p mod 8) (byte_bits (a ! (p div 8))))"
    using l p by (subst (1 2) take_addr_bits) auto
  also have "\<dots> \<longleftrightarrow> take (p div 8) c = take (p div 8) a
      \<and> (p mod 8 = 0 \<or> take (p mod 8) (byte_bits (c ! (p div 8))) = take (p mod 8) (byte_bits (a ! (p div 8))))"
    using l by (subst addr_bits_inj) auto
  finally show ?thesis using full part by (cases "p mod 8 = 0") auto
qed

text \<open>
  Prefix matching means what CIDR notation says: an address matches a compiled pattern
  exactly when it belongs to the pattern's family (an IPv4-mapped address counting as its
  IPv4 address) and its leading \<open>m_prefix\<close> bits are those of the pattern's address; bits
  behind the prefix, in either, do not matter.
\<close>

lemma matches_prefix_bits:
  assumes "compileCidrMatcher pat = Inr m" and "parseIp (takeWhile (\<lambda>c. c \<noteq> 47) pat) = Some a"
    and "parseIp s = Some ip"
  shows "matchesMatcher ip m =
    (case normalizeFamily ip (ip_family a) of None \<Rightarrow> False
     | Some c \<Rightarrow> take (m_prefix m) (addr_bits c) = take (m_prefix m) (addr_bits (ip_bytes a)))"
proof (cases "normalizeFamily ip (ip_family a)")
  case None
  with compile_shape [OF assms(1,2)] show ?thesis by (simp add: matchesMatcher_def)
next
  case (Some c)
  note sh = compile_shape [OF assms(1,2)]
  from parseIp_wf [OF assms(2)] have wa: "8 * length (ip_bytes a) = total_bits (ip_family a)"
    by (simp add: ip_wf_def)
  with normalize_length [OF parseIp_wf [OF assms(3)] Some] have l: "length c = length (ip_bytes a)" by simp
  with sh wa have "min (m_prefix m) (length c * 8) = m_prefix m" by simp
  moreover have "m_prefix m - m_prefix m div 8 * 8 = m_prefix m mod 8" by (simp add: modulo_nat_def)
  moreover from masked_match [OF l] sh wa have
    "(list_all (\<lambda>i. c ! i = m_bytes m ! i) [0..<m_prefix m div 8]
      \<and> (m_prefix m mod 8 = 0
         \<or> (c ! (m_prefix m div 8) XOR m_bytes m ! (m_prefix m div 8)) AND high_mask (m_prefix m mod 8) = 0))
    \<longleftrightarrow> take (m_prefix m) (addr_bits c) = take (m_prefix m) (addr_bits (ip_bytes a))" by simp
  ultimately show ?thesis
    unfolding matchesMatcher_def sh(1) Some Let_def by (simp only: option.case)
qed

lemma matches_prefix_bits_example:
  "\<exists>ip m. parseIp (js ''::ffff:10.200.3.4'') = Some ip \<and> compileCidrMatcher (js ''10.192.77.1/10'') = Inr m
     \<and> matchesMatcher ip m"
proof -
  have a: "parseIp (takeWhile (\<lambda>c. c \<noteq> 47) (js ''10.192.77.1/10''))
      = Some \<lparr> ip_bytes = [10, 192, 77, 1], ip_family = V4 \<rparr>" by (simp add: eval)
  have m: "compileCidrMatcher (js ''10.192.77.1/10'')
      = Inr \<lparr> m_family = V4, m_prefix = 10, m_bytes = [10, 192, 0, 0] \<rparr>" by (simp add: eval)
  have i: "parseIp (js ''::ffff:10.200.3.4'')
      = Some \<lparr> ip_bytes = [0, 0, 0, 0, 0, 0, 0, 0, 0, 0, 255, 255, 10, 200, 3, 4], ip_family = V6 \<rparr>"
    by (simp add: eval)
  from matches_prefix_bits [OF m a i]
  have "matchesMatcher \<lparr> ip_bytes = [0, 0, 0, 0, 0, 0, 0, 0, 0, 0, 255, 255, 10, 200, 3, 4], ip_family = V6 \<rparr>
     \<lparr> m_family = V4, m_prefix = 10, m_bytes = [10, 192, 0, 0] \<rparr>"
    by (simp add: normalizeFamily_def byte_bits_def bit_simps)
  with i m show ?thesis by blast
qed


section \<open>Printed addresses parse back\<close>

lemma dotted_parts:
  "\<forall>q \<in> set (map (\<lambda>b. dec_str (unat b)) bs). 46 \<notin> set q"
  using dec_str_digits by (fastforce simp: is_digit_def)

lemma parse_octets_printed:
  "parse_octets (map (\<lambda>b. dec_str (unat b)) bs) = Some bs"
proof (induction bs)
  case (Cons b bs)
  have "length (dec_str (unat b)) \<le> 3" by (rule dec_str_length) (use byte_lt [of b] in simp_all)
  moreover have "\<not> 255 < unat b" using byte_lt [of b] by simp
  moreover have "1 \<le> length (dec_str (unat b))" by (cases "dec_str (unat b)") auto
  moreover have "list_all is_digit (dec_str (unat b))" using dec_str_digits by (simp add: list_all_iff)
  ultimately show ?case using Cons by simp
qed simp

lemma parse_dotted:
  assumes "length bs = 4"
  shows "parseIPv4 (dotted bs) = Some \<lparr> ip_bytes = bs, ip_family = V4 \<rparr>"
proof -
  have "split_on 46 (dotted bs) = map (\<lambda>b. dec_str (unat b)) bs"
    unfolding dotted_def by (rule split_join [OF _ dotted_parts]) (use assms in auto)
  with assms show ?thesis by (simp add: parseIPv4_def parse_octets_printed)
qed

lemma dotted_chars: "c \<in> set (dotted bs) \<Longrightarrow> c = 46 \<or> is_digit c"
  unfolding dotted_def
  using set_join_on [of 46 "map (\<lambda>b. dec_str (unat b)) bs"] dec_str_digits by fastforce

lemma dotted_plain: "c \<in> set (dotted bs) \<Longrightarrow> \<not> is_js_space c \<and> c \<noteq> 58 \<and> c \<noteq> 91"
  by (drule dotted_chars) (auto simp: is_js_space_def is_digit_def)

lemma dotted_nonempty: "length bs = 4 \<Longrightarrow> dotted bs \<noteq> [] \<and> 46 \<in> set (dotted bs)"
  by (auto simp: dotted_def numeral_eq_Suc length_Suc_conv)

lemma split_dcolon_plain: "58 \<notin> set p \<Longrightarrow> split_dcolon p = [p]"
  by (induction p rule: split_dcolon.induct) auto

lemma split_dcolon_part:
  "58 \<notin> set p \<Longrightarrow> p \<noteq> [] \<Longrightarrow> s \<noteq> [] \<Longrightarrow> hd s \<noteq> 58 \<Longrightarrow> split_dcolon s = [s] \<Longrightarrow>
   split_dcolon (p @ 58 # s) = [p @ 58 # s]"
proof (induction p)
  case (Cons x p)
  then show ?case by (cases p; cases s) auto
qed simp

lemma hex_str_hd: "hd (hex_str n) \<noteq> 58" "58 \<notin> set (hex_str n)"
  using hex_str_digits [of n] by (auto simp: hd_in_set)

lemma parse_groups_hex:
  assumes "n < 65536"
  shows "parse_groups (hex_str n # gs) = map_option (\<lambda>bs. of_nat (n div 256) # of_nat n # bs) (parse_groups gs)"
proof -
  have "length (hex_str n) \<le> 4" by (rule hex_str_length) (use assms in simp_all)
  moreover have "1 \<le> length (hex_str n)" by (cases "hex_str n") auto
  moreover have "list_all is_hex (hex_str n)" using hex_str_digits by (simp add: list_all_iff)
  ultimately show ?thesis by simp
qed

lemma last_colon_append:
  assumes "58 \<notin> set w"
  shows "after_last_colon (p @ 58 # w) = w" "upto_last_colon (p @ 58 # w) = p @ [58]"
  unfolding after_last_colon_def upto_last_colon_def rev_append rev.simps append_assoc
  using assms by (subst takeWhile_append2 dropWhile_append2; auto)+

lemma word_pair_bytes:
  "of_nat ((unat a * 256 + unat b) div 256) = (a :: 8 word)"
  "of_nat (unat a * 256 + unat b) = (b :: 8 word)"
proof -
  have "of_nat (unat a * 256 + unat b) = (a * 256 + b :: 8 word)" by simp
  moreover have "(256 :: 8 word) = 0" by simp
  ultimately show "of_nat (unat a * 256 + unat b) = (b :: 8 word)" by (metis add_0 mult_zero_right)
  show "of_nat ((unat a * 256 + unat b) div 256) = (a :: 8 word)" using byte_lt [of b] by simp
qed

lemma parse_mapped:
  assumes "length bs = 4"
  shows "parseIPv6 (js ''::ffff:'' @ dotted bs)
    = Some \<lparr> ip_bytes = replicate 10 0 @ [255, 255] @ bs, ip_family = V6 \<rparr>"
proof -
  from assms obtain a b c d where bs: "bs = [a, b, c, d]"
    by (auto simp: numeral_eq_Suc length_Suc_conv)
  let ?hi = "unat a * 256 + unat b" and ?lo = "unat c * 256 + unat d"
  have b: "?hi < 65536" "?lo < 65536" using byte_lt [of a] byte_lt [of b] byte_lt [of c] byte_lt [of d]
    by linarith+
  have n: "58 \<notin> set (dotted bs)" using dotted_plain by blast
  have e: "js ''::ffff:'' @ dotted bs = js ''::ffff'' @ 58 # dotted bs" by simp
  have x: "expand_v4_tail (js ''::ffff:'' @ dotted bs)
      = Some (js ''::ffff:'' @ hex_str ?hi @ 58 # hex_str ?lo)"
    unfolding e expand_v4_tail_def last_colon_append [OF n]
    using dotted_nonempty [OF assms] parse_dotted [OF assms] by (simp add: bs Let_def)
  let ?t = "hex_str ?hi @ 58 # hex_str ?lo"
  have t: "split_dcolon ?t = [?t]"
    by (rule split_dcolon_part) (use hex_str_hd in \<open>auto simp: split_dcolon_plain\<close>)
  have f: "split_dcolon (js ''ffff'' @ 58 # ?t) = [js ''ffff'' @ 58 # ?t]"
    by (rule split_dcolon_part) (use hex_str_hd t in auto)
  have dc: "split_dcolon (js ''::ffff:'' @ ?t) = [[], js ''ffff'' @ 58 # ?t]"
    using f by simp
  have sp: "split_on 58 (js ''ffff'' @ 58 # ?t) = [js ''ffff'', hex_str ?hi, hex_str ?lo]"
    using hex_str_hd(2) by (subst split_on_append) (auto simp: split_on_append split_on_plain)
  have g: "ipv6_groups (js ''::ffff:'' @ ?t)
      = Some (replicate 5 (js ''0'') @ [js ''ffff'', hex_str ?hi, hex_str ?lo])"
    unfolding ipv6_groups_def dc Let_def using sp by simp
  have p: "parse_groups (replicate 5 (js ''0'') @ [js ''ffff'', hex_str ?hi, hex_str ?lo])
      = Some (replicate 10 0 @ [255, 255] @ bs)"
  proof -
    have z: "parse_groups (js ''0'' # gs) = map_option (\<lambda>bs. 0 # 0 # bs) (parse_groups gs)" for gs
      by (simp add: is_hex_def hex_val_def hexs_val_def)
    have w: "(65535 :: 8 word) = 255" by simp
    have f: "parse_groups (js ''ffff'' # gs) = map_option (\<lambda>bs. 255 # 255 # bs) (parse_groups gs)" for gs
      by (simp add: is_hex_def hex_val_def hexs_val_def) (simp only: w)
    have l: "parse_groups [js ''ffff'', hex_str ?hi, hex_str ?lo] = Some ([255, 255] @ bs)"
      unfolding f parse_groups_hex [OF b(1)] parse_groups_hex [OF b(2)] word_pair_bytes bs by simp
    show ?thesis unfolding replicate_num append_Cons z
      by (simp only: replicate_num append_Cons pred_numeral_simps numeral_One One_nat_def BitM.simps
          replicate.simps append_Nil z l option.map)
  qed
  show ?thesis
    unfolding parseIPv6_def x option.case g p by simp
qed

lemma canonical_scan_printed:
  assumes "canonical_scan s dots oct dig" "dots \<le> 3" "oct \<le> 255"
    and "dig = 0 \<longrightarrow> t = [] \<and> oct = 0" "0 < dig \<longrightarrow> t = dec_str oct"
  shows "\<exists>ns. t @ s = join_on 46 (map dec_str ns) \<and> length ns + dots = 4 \<and> (\<forall>n \<in> set ns. n \<le> 255)"
  using assms
proof (induction s dots oct dig arbitrary: t rule: canonical_scan.induct)
  case (1 dots oct dig)
  then show ?case by (intro exI [of _ "[oct]"]) auto
next
  case (2 c cs dots oct dig)
  show ?case
  proof (cases "c = 46")
    case True
    with 2 have d: "0 < dig" "Suc dots \<le> 3" "canonical_scan cs (Suc dots) 0 0" "t = dec_str oct"
      by (auto split: if_splits)
    with 2(1) [OF True, of "[]"] obtain ns where
      "cs = join_on 46 (map dec_str ns)" "length ns + Suc dots = 4" "\<forall>n \<in> set ns. n \<le> 255" by auto
    moreover from this d have "ns \<noteq> []" by auto
    ultimately show ?thesis using d True 2(5)
      by (intro exI [of _ "oct # ns"]) (simp add: join_on_Cons)
  next
    case False
    let ?o = "oct * 10 + (c - 48)"
    from 2(3) False have d: "48 \<le> c" "c \<le> 57" "\<not> (0 < dig \<and> oct = 0)" "\<not> (3 < Suc dig \<or> 255 < ?o)"
      "canonical_scan cs dots ?o (Suc dig)"
      by (auto simp: Let_def split: if_splits)
    have "t @ [c] = dec_str ?o"
    proof (cases "dig = 0")
      case True
      with 2 d show ?thesis by (simp add: dec_str_digit)
    next
      case False
      with 2 d have "dec_str ?o = dec_str oct @ [48 + (c - 48)]" by (intro dec_str_snoc) auto
      with False 2 d show ?thesis by simp
    qed
    with 2(2) [OF False _ d(3) refl d(4,5), of "t @ [c]"] d 2(4) obtain ns where
      "(t @ [c]) @ cs = join_on 46 (map dec_str ns)" "length ns + dots = 4" "\<forall>n \<in> set ns. n \<le> 255"
      by auto
    then show ?thesis by (intro exI [of _ ns]) simp
  qed
qed

lemma canonical_is_dotted:
  assumes "isCanonicalDottedIPv4 s"
  obtains bs where "length bs = 4" "s = dotted bs"
proof -
  from assms have "canonical_scan s 0 0 0" by (simp add: isCanonicalDottedIPv4_def split: if_splits)
  from canonical_scan_printed [OF this, of "[]"] obtain ns where
    ns: "s = join_on 46 (map dec_str ns)" "length ns = 4" "\<forall>n \<in> set ns. n \<le> 255" by auto
  have "map (\<lambda>b. dec_str (unat b)) (map of_nat ns :: 8 word list) = map dec_str ns"
    using ns(3) by (auto simp: unat_of_nat)
  with ns have "s = dotted (map of_nat ns)" by (simp only: dotted_def)
  with ns(2) show ?thesis by (intro that [of "map of_nat ns"]) simp_all
qed

lemma parseIp_dotted:
  assumes "length bs = 4"
  shows "parseIp (dotted bs) = Some \<lparr> ip_bytes = bs, ip_family = V4 \<rparr>"
    and "parseIp (js ''::ffff:'' @ dotted bs)
      = Some \<lparr> ip_bytes = replicate 10 0 @ [255, 255] @ bs, ip_family = V6 \<rparr>"
proof -
  have "js_trim (dotted bs) = dotted bs" by (rule js_trim_id) (use dotted_plain in blast)
  with dotted_plain [of 58 bs] parse_dotted [OF assms]
  show "parseIp (dotted bs) = Some \<lparr> ip_bytes = bs, ip_family = V4 \<rparr>" by (auto simp: parseIp_def Let_def)
  have "js_trim (js ''::ffff:'' @ dotted bs) = js ''::ffff:'' @ dotted bs"
    by (rule js_trim_id) (use dotted_plain in \<open>auto simp: is_js_space_def\<close>)
  then show "parseIp (js ''::ffff:'' @ dotted bs)
      = Some \<lparr> ip_bytes = replicate 10 0 @ [255, 255] @ bs, ip_family = V6 \<rparr>"
    unfolding parseIp_def Let_def using parse_mapped [OF assms] by (auto simp only:) simp
qed

lemma normalize_mapped:
  "normalizeFamily \<lparr> ip_bytes = replicate 10 0 @ [255, 255] @ bs, ip_family = V6 \<rparr> V4 = Some bs"
  by (simp add: normalizeFamily_def list_all_iff nth_append)

text \<open>
  The fast paths of \<open>ipRateLimitIdentity\<close> (canonical dotted IPv4, and
  \<open>::ffff:\<close> before one) are an optimisation only: on every input the identity is the
  one the general path computes, so two textual variants of one address share a bucket.
\<close>

lemma identity_fast_path:
  "ipRateLimitIdentity ip p = identity_general ip p"
proof -
  have dot: "identity_general (dotted bs) p = dotted bs" if "length bs = 4" for bs
  proof -
    have "js_trim (dotted bs) = dotted bs" by (rule js_trim_id) (use dotted_plain in blast)
    moreover have "hd (dotted bs) \<noteq> 91"
      using dotted_plain dotted_nonempty [OF that] hd_in_set by blast
    ultimately show ?thesis
      using parseIp_dotted(1) [OF that] by (simp add: identity_general_def normalizeFamily_def)
  qed
  have map: "identity_general (js ''::ffff:'' @ dotted bs) p = dotted bs" if "length bs = 4" for bs
  proof -
    have "js_trim (js ''::ffff:'' @ dotted bs) = js ''::ffff:'' @ dotted bs"
      by (rule js_trim_id) (use dotted_plain in \<open>auto simp: is_js_space_def\<close>)
    moreover have "hd (js ''::ffff:'' @ dotted bs) \<noteq> 91" by simp
    ultimately show ?thesis
      unfolding identity_general_def Let_def
      using parseIp_dotted(2) [OF that] normalize_mapped [of bs] by (simp only: simp_thms if_False option.case)
  qed
  consider (a) "isCanonicalDottedIPv4 ip"
    | (b) "\<not> isCanonicalDottedIPv4 ip" "prefix (js ''::ffff:'') ip" "isCanonicalDottedIPv4 (drop 7 ip)"
    | (c) "ipRateLimitIdentity ip p = identity_general ip p"
    unfolding ipRateLimitIdentity_def by argo
  then show ?thesis
  proof cases
    case a
    then show ?thesis by (metis canonical_is_dotted dot ipRateLimitIdentity_def)
  next
    case b
    then obtain w where w: "ip = js ''::ffff:'' @ w" by (auto elim: prefixE)
    then have dr: "drop 7 ip = w" by simp
    from b(3) obtain bs where bs: "length bs = 4" "w = dotted bs"
      unfolding dr by (rule canonical_is_dotted)
    from dotted_nonempty [OF bs(1)] bs(2) have "0 < length w" by simp
    moreover have "length ip = 7 + length w" unfolding w by simp
    ultimately have "7 < length ip" by linarith
    with b have "ipRateLimitIdentity ip p = drop 7 ip"
      by (simp add: ipRateLimitIdentity_def del: js_simps)
    then show ?thesis unfolding dr unfolding w bs(2) map [OF bs(1)] .
  qed
qed

text \<open>
  An IPv4-mapped spelling of a client address does not get around the gate: with
  IPv4 patterns in both lists, \<open>::ffff:a.b.c.d\<close> and \<open>a.b.c.d\<close> are decided alike.
\<close>

lemma restriction_mapped_alike:
  assumes "length bs = 4" and "\<forall>m \<in> set (allow ls) \<union> set (deny ls). m_family m = V4"
  shows "ip_restriction_preBody ls (Some (js ''::ffff:'' @ dotted bs))
    = ip_restriction_preBody ls (Some (dotted bs))"
proof -
  let ?a = "\<lparr> ip_bytes = replicate 10 0 @ [255, 255] @ bs, ip_family = V6 \<rparr>"
  let ?b = "\<lparr> ip_bytes = bs, ip_family = V4 \<rparr>"
  have m: "matchesMatcher ?a m = matchesMatcher ?b m" if "m_family m = V4" for m
    using normalize_mapped [of bs] that by (simp add: matchesMatcher_def) (simp add: normalizeFamily_def)
  have ne: "js ''::ffff:'' @ dotted bs \<noteq> []" by simp
  have "list_ex (matchesMatcher ?a) (deny ls) = list_ex (matchesMatcher ?b) (deny ls)"
    and "list_ex (matchesMatcher ?a) (allow ls) = list_ex (matchesMatcher ?b) (allow ls)"
    using assms(2) m unfolding list_ex_iff by blast+
  then show ?thesis
    using dotted_nonempty [OF assms(1)] parseIp_dotted [OF assms(1)] ne
    by (simp only: ip_restriction_preBody_def option.case Nil_is_append_conv simp_thms if_False)
qed

lemma restriction_mapped_alike_example:
  "\<exists>ls. ip_restriction_setup [js ''10.0.0.0/8''] [js ''10.6.6.0/24''] = Inr ls
     \<and> \<not> ip_restriction_preBody ls (Some (js ''::ffff:10.6.6.9''))"
proof -
  let ?ls = "\<lparr> allow = [\<lparr> m_family = V4, m_prefix = 8, m_bytes = [10, 0, 0, 0] \<rparr>],
     deny = [\<lparr> m_family = V4, m_prefix = 24, m_bytes = [10, 6, 6, 0] \<rparr>] \<rparr>"
  have s: "ip_restriction_setup [js ''10.0.0.0/8''] [js ''10.6.6.0/24''] = Inr ?ls" by (simp add: eval)
  have d: "dotted [10, 6, 6, 9] = js ''10.6.6.9''" by (simp add: eval)
  have "\<not> ip_restriction_preBody ?ls (Some (dotted [10, 6, 6, 9]))" unfolding d by (simp add: eval upt_rec)
  moreover have "ip_restriction_preBody ?ls (Some (js ''::ffff:'' @ dotted [10, 6, 6, 9]))
      = ip_restriction_preBody ?ls (Some (dotted [10, 6, 6, 9]))"
    by (rule restriction_mapped_alike) simp_all
  moreover have "js ''::ffff:'' @ dotted [10, 6, 6, 9] = js ''::ffff:10.6.6.9''" by (simp add: d)
  ultimately show ?thesis using s by metis
qed

end
