(* ===== verification/WsCodec.thy ===== *)
theory WsCodec
  imports Bytes
begin

unbundle bit_operations_syntax

text \<open>
  The frame codec of \<open>websocket.ts\<close>: \<open>parseFrame\<close>, \<open>encodeFrame\<close> and the CLOSE payload.

  Bytes are \<open>8 word\<close>.  \<open>parseFrame\<close> returns \<open>Inl\<close> for an exception, \<open>Inr None\<close> for
  \<open>FRAME_INCOMPLETE\<close>.  The source unmasks in place, inside the bytes the frame
  consumes; here the unmasked payload is part of the result.  The masking key of
  \<open>encodeFrame\<close> is what the platform's random source returned (\<open>None\<close> when Web
  Crypto is missing).
\<close>

datatype protocol_reason =
    RsvBits | FragmentedControl | ControlTooLong | UnknownControl | UnknownData | UnsafeLength
  | UnmaskedFrame | CloseOneByte | InvalidCloseCode | ReasonTooLong | NoInitialFrame
  | MessageInProgress | TooManyFragments | InvalidUtf8Text | BadSubprotocol | SubprotocolNotOffered

datatype ws_error =
    ProtocolError protocol_reason
  | PayloadTooLarge nat nat
  | DecoderTypeError
  | NoWebCrypto

record frame =
  fin :: bool
  opcode :: "8 word"
  payload :: bytes
  consumed :: nat

abbreviation "OP_CONTINUATION \<equiv> (0 :: 8 word)"
abbreviation "OP_TEXT \<equiv> (1 :: 8 word)"
abbreviation "OP_BINARY \<equiv> (2 :: 8 word)"
abbreviation "OP_CLOSE \<equiv> (8 :: 8 word)"
abbreviation "OP_PING \<equiv> (9 :: 8 word)"
abbreviation "OP_PONG \<equiv> (10 :: 8 word)"

abbreviation is_control :: "8 word \<Rightarrow> bool" where
  "is_control op \<equiv> op AND 8 \<noteq> 0"

definition max_control_payload :: nat where
  "max_control_payload = 125"

text \<open>The checks on the first two bytes, in the order of the source.\<close>

definition header_error :: "8 word \<Rightarrow> 8 word \<Rightarrow> protocol_reason option" where
  "header_error b0 b1 =
     (let op = b0 AND 0x0F in
      if b0 AND 0x70 \<noteq> 0 then Some RsvBits
      else if is_control op then
        (if b0 AND 0x80 = 0 then Some FragmentedControl
         else if max_control_payload < unat (b1 AND 0x7F) then Some ControlTooLong
         else if op \<noteq> OP_CLOSE \<and> op \<noteq> OP_PING \<and> op \<noteq> OP_PONG then Some UnknownControl
         else None)
      else if op \<noteq> OP_CONTINUATION \<and> op \<noteq> OP_TEXT \<and> op \<noteq> OP_BINARY then Some UnknownData
      else None)"

definition be32 :: "8 word \<Rightarrow> 8 word \<Rightarrow> 8 word \<Rightarrow> 8 word \<Rightarrow> nat" where
  "be32 a b c d = unat a * 2 ^ 24 + unat b * 2 ^ 16 + unat c * 2 ^ 8 + unat d"

text \<open>The declared payload length and the offset behind it; \<open>Inr None\<close> when bytes are missing.\<close>

definition payload_length :: "bytes \<Rightarrow> ws_error + (nat \<times> nat) option" where
  "payload_length buf =
     (let len7 = unat (buf ! 1 AND 0x7F) in
      if len7 = 126 then
        (if length buf < 4 then Inr None
         else Inr (Some (unat (buf ! 2) * 256 + unat (buf ! 3), 4)))
      else if len7 = 127 then
        (if length buf < 10 then Inr None
         else (let hi = be32 (buf ! 2) (buf ! 3) (buf ! 4) (buf ! 5);
                   lo = be32 (buf ! 6) (buf ! 7) (buf ! 8) (buf ! 9)
               in if 0x1FFFFF < hi then Inl (ProtocolError UnsafeLength)
                  else Inr (Some (hi * 2 ^ 32 + lo, 10))))
      else Inr (Some (len7, 2)))"

text \<open>XOR with the masking key, cyclically; the same function masks and unmasks.\<close>

definition apply_mask :: "bytes \<Rightarrow> bytes \<Rightarrow> bytes" where
  "apply_mask key p = map (\<lambda>i. (p ! i) XOR (key ! (i mod 4))) [0..<length p]"

definition parseFrame :: "bytes \<Rightarrow> bool \<Rightarrow> nat option \<Rightarrow> ws_error + frame option" where
  "parseFrame buf requireMask maxPayload =
     (if length buf < 2 then Inr None
      else (let b0 = buf ! 0; b1 = buf ! 1; op = b0 AND 0x0F; masked = (b1 AND 0x80 \<noteq> 0) in
        case header_error b0 b1 of
          Some e \<Rightarrow> Inl (ProtocolError e)
        | None \<Rightarrow>
            (case payload_length buf of
               Inl e \<Rightarrow> Inl e
             | Inr None \<Rightarrow> Inr None
             | Inr (Some (payloadLen, offset)) \<Rightarrow>
                 (if \<not> is_control op \<and> maxPayload \<noteq> None \<and> the maxPayload < payloadLen
                  then Inl (PayloadTooLarge (the maxPayload) payloadLen)
                  else if requireMask \<and> \<not> masked then Inl (ProtocolError UnmaskedFrame)
                  else if masked \<and> length buf < offset + 4 then Inr None
                  else (let offset' = (if masked then offset + 4 else offset) in
                    if length buf < offset' + payloadLen then Inr None
                    else (let raw = take payloadLen (drop offset' buf) in
                      Inr (Some \<lparr> fin = (b0 AND 0x80 \<noteq> 0), opcode = op,
                        payload = (if masked then apply_mask (take 4 (drop offset buf)) raw else raw),
                        consumed = offset' + payloadLen \<rparr>)))))))"

text \<open>The bytes before the masking key and the payload.\<close>

definition frame_header :: "bool \<Rightarrow> 8 word \<Rightarrow> nat \<Rightarrow> bool \<Rightarrow> bytes" where
  "frame_header fn op len masked =
     (let m = (if masked then 0x80 else 0 :: 8 word);
          b0 = (if fn then 0x80 else 0) OR op
      in if 65536 \<le> len then
           [b0, m OR 127]
           @ (if 0xFFFFFFFF < len
              then [of_nat (len div 2 ^ 56), of_nat (len div 2 ^ 48),
                    of_nat (len div 2 ^ 40), of_nat (len div 2 ^ 32)]
              else [0, 0, 0, 0])
           @ [of_nat (len div 2 ^ 24), of_nat (len div 2 ^ 16), of_nat (len div 2 ^ 8), of_nat len]
         else if 125 < len then [b0, m OR 126, of_nat (len div 2 ^ 8), of_nat len]
         else [b0, m OR of_nat len])"

definition encodeFrame :: "bool \<Rightarrow> 8 word \<Rightarrow> bytes \<Rightarrow> bool \<Rightarrow> bytes option \<Rightarrow> ws_error + bytes" where
  "encodeFrame fn opc pl masked rng =
     (let op = opc AND 0x0F; len = length pl in
      if is_control op \<and> max_control_payload < len then Inl (ProtocolError ControlTooLong)
      else if masked then
        (case rng of None \<Rightarrow> Inl NoWebCrypto
         | Some key \<Rightarrow> Inr (frame_header fn op len masked @ key @ apply_mask key pl))
      else Inr (frame_header fn op len masked @ pl))"

definition isValidWireCloseCode :: "nat \<Rightarrow> bool" where
  "isValidWireCloseCode code \<longleftrightarrow>
     (1000 \<le> code \<and> code \<le> 1014 \<and> code \<noteq> 1004 \<and> code \<noteq> 1005 \<and> code \<noteq> 1006)
     \<or> (3000 \<le> code \<and> code \<le> 4999)"

definition encodeClosePayload :: "nat \<Rightarrow> jstr \<Rightarrow> ws_error + bytes" where
  "encodeClosePayload code reason =
     (if \<not> isValidWireCloseCode code then Inl (ProtocolError InvalidCloseCode)
      else (let reasonBytes = byte_list (utf8_encode reason) in
        if max_control_payload - 2 < length reasonBytes then Inl (ProtocolError ReasonTooLong)
        else Inr (of_nat (code div 256) # of_nat code # reasonBytes)))"

text \<open>
  The fatal \<open>TextDecoder\<close> throws a \<open>TypeError\<close>, which is not a \<open>WebSocketProtocolError\<close>.
\<close>

definition decodeClosePayload :: "bytes \<Rightarrow> ws_error + nat \<times> jstr" where
  "decodeClosePayload p =
     (if p = [] then Inr (1005, [])
      else if length p = 1 then Inl (ProtocolError CloseOneByte)
      else (let code = unat (p ! 0) * 256 + unat (p ! 1) in
        if \<not> isValidWireCloseCode code then Inl (ProtocolError InvalidCloseCode)
        else (case utf8_decode (map unat (drop 2 p)) of
            None \<Rightarrow> Inl DecoderTypeError
          | Some reason \<Rightarrow> Inr (code, reason))))"

lemmas [eval] = max_control_payload_def header_error_def be32_def payload_length_def apply_mask_def
  parseFrame_def frame_header_def encodeFrame_def isValidWireCloseCode_def encodeClosePayload_def
  decodeClosePayload_def

section \<open>Parsing depends on the consumed bytes only\<close>

lemma payload_length_mono:
  assumes "payload_length buf \<noteq> Inr None" "2 \<le> length buf"
  shows "payload_length (buf @ tl_bytes) = payload_length buf"
  using assms by (auto simp: payload_length_def Let_def nth_append split: if_splits)

lemma payload_length_offset:
  "payload_length buf = Inr (Some (n, off)) \<Longrightarrow> 2 \<le> length buf \<Longrightarrow> 2 \<le> off \<and> off \<le> 10 \<and> off \<le> length buf"
  by (auto simp: payload_length_def Let_def split: if_splits)

lemma parse_mono_error:
  assumes "parseFrame buf rm mp = Inl e"
  shows "parseFrame (buf @ tl_bytes) rm mp = Inl e"
proof -
  from assms have l: "2 \<le> length buf" by (auto simp: parseFrame_def split: if_splits)
  then have n: "(buf @ tl_bytes) ! 0 = buf ! 0" "(buf @ tl_bytes) ! 1 = buf ! 1" by (auto simp: nth_append)
  have "payload_length buf \<noteq> Inr None \<or> header_error (buf ! 0) (buf ! 1) \<noteq> None"
    using assms by (auto simp: parseFrame_def Let_def split: if_splits option.splits)
  with payload_length_mono [OF _ l, of tl_bytes] assms l n show ?thesis
    by (auto simp: parseFrame_def Let_def split: if_splits option.splits sum.splits prod.splits)
qed

lemma parse_mono_frame:
  assumes "parseFrame buf rm mp = Inr (Some f)"
  shows "parseFrame (buf @ tl_bytes) rm mp = Inr (Some f)"
proof -
  from assms have l: "2 \<le> length buf" by (auto simp: parseFrame_def split: if_splits)
  then have n: "(buf @ tl_bytes) ! 0 = buf ! 0" "(buf @ tl_bytes) ! 1 = buf ! 1" by (auto simp: nth_append)
  from assms l obtain pl off where p: "payload_length buf = Inr (Some (pl, off))"
    "header_error (buf ! 0) (buf ! 1) = None"
    by (auto simp: parseFrame_def Let_def split: if_splits option.splits sum.splits)
  with payload_length_mono [OF _ l, of tl_bytes]
  have q: "payload_length (buf @ tl_bytes) = Inr (Some (pl, off))" by simp
  show ?thesis
    using assms l p q n by (auto simp: parseFrame_def Let_def split: if_splits)
qed

lemma parse_consumed:
  assumes "parseFrame buf rm mp = Inr (Some f)"
  shows "2 \<le> consumed f \<and> consumed f \<le> length buf"
  using assms payload_length_offset [of buf]
  by (fastforce simp: parseFrame_def Let_def split: if_splits option.splits sum.splits prod.splits)

lemma length_apply_mask [simp]: "length (apply_mask k p) = length p"
  by (simp add: apply_mask_def)

lemma apply_mask_involution [simp]: "apply_mask k (apply_mask k p) = p"
  by (rule nth_equalityI) (simp_all add: apply_mask_def xor.assoc)

lemma parse_payload_bound:
  assumes "parseFrame buf rm (Some limit) = Inr (Some f)" and "\<not> is_control (opcode f)"
  shows "length (payload f) \<le> limit"
  using assms by (auto simp: parseFrame_def Let_def split: if_splits option.splits sum.splits prod.splits)


section \<open>Encoding and parsing\<close>

definition valid_opcode :: "8 word \<Rightarrow> bool" where
  "valid_opcode op \<longleftrightarrow> op \<in> {OP_CONTINUATION, OP_TEXT, OP_BINARY, OP_CLOSE, OP_PING, OP_PONG}"

lemma first_byte:
  assumes "valid_opcode op"
  shows "((if fn then 0x80 else 0) OR op) AND 0x0F = op"
    "((if fn then 0x80 else 0) OR op) AND 0x70 = 0"
    "((if fn then 0x80 else 0) OR op) AND 0x80 = 0 \<longleftrightarrow> \<not> fn"
  using assms by (auto simp: valid_opcode_def)

lemma low_bit_7: "n < 128 \<Longrightarrow> \<not> bit (of_nat n :: 8 word) 7"
  using bit_iff_odd [of n 7] by (simp add: bit_simps)

lemma length_byte:
  assumes "n < 128"
  shows "((if masked then 0x80 else 0) OR of_nat n) AND 0x7F = (of_nat n :: 8 word)"
    "((if masked then 0x80 else 0) OR (of_nat n :: 8 word)) AND 0x80 = 0 \<longleftrightarrow> \<not> masked"
    "unat (of_nat n :: 8 word) = n"
proof -
  note b = low_bit_7 [OF assms]
  show "((if masked then 0x80 else 0) OR of_nat n) AND 0x7F = (of_nat n :: 8 word)"
    unfolding byte_eq_iff all_below_8 using b by (simp add: bit_simps)
  show "((if masked then 0x80 else 0) OR (of_nat n :: 8 word)) AND 0x80 = 0 \<longleftrightarrow> \<not> masked"
    unfolding byte_eq_iff all_below_8 using b by (simp add: bit_simps)
  show "unat (of_nat n :: 8 word) = n" using assms by (simp add: unat_byte)
qed

lemma be32_nat:
  "be32 (of_nat (n div 2 ^ 24)) (of_nat (n div 2 ^ 16)) (of_nat (n div 2 ^ 8)) (of_nat n) = n mod 2 ^ 32"
proof -
  have "n mod 2 ^ 32 = 2 ^ 24 * (n div 2 ^ 24 mod 256) + n mod 2 ^ 24"
    using mod_mult2_eq [of n "2 ^ 24" 256] by simp
  also have "n mod 2 ^ 24 = 2 ^ 16 * (n div 2 ^ 16 mod 256) + n mod 2 ^ 16"
    using mod_mult2_eq [of n "2 ^ 16" 256] by simp
  also have "n mod 2 ^ 16 = 2 ^ 8 * (n div 2 ^ 8 mod 256) + n mod 2 ^ 8"
    using mod_mult2_eq [of n "2 ^ 8" 256] by simp
  finally show ?thesis by (simp add: be32_def unat_byte)
qed

lemma be64_nat:
  "be32 (of_nat (n div 2 ^ 56)) (of_nat (n div 2 ^ 48)) (of_nat (n div 2 ^ 40)) (of_nat (n div 2 ^ 32))
    = n div 2 ^ 32 mod 2 ^ 32"
  using be32_nat [of "n div 2 ^ 32"] by (simp add: div_mult2_eq [symmetric])

lemma header_payload_length:
  assumes "n < 2 ^ 53"
  shows "payload_length (frame_header fn op n masked @ r)
    = Inr (Some (n, length (frame_header fn op n masked)))"
proof -
  consider (long) "65536 \<le> n" | (middle) "125 < n" "n < 65536" | (short) "n \<le> 125" by linarith
  then show ?thesis
  proof cases
    case short
    then have "n < 128" by simp
    from length_byte(1,3) [OF this] short show ?thesis
      by (simp add: frame_header_def payload_length_def Let_def)
  next
    case middle
    then have "unat (of_nat (n div 2 ^ 8) :: 8 word) * 256 + unat (of_nat n :: 8 word) = n"
      by (simp add: unat_byte)
    moreover have "((if masked then 0x80 else 0) OR 126 :: 8 word) AND 0x7F = 126" by simp
    ultimately show ?thesis using middle by (simp add: frame_header_def payload_length_def Let_def)
  next
    case long
    let ?H = "(if 0xFFFFFFFF < n
              then [of_nat (n div 2 ^ 56), of_nat (n div 2 ^ 48), of_nat (n div 2 ^ 40), of_nat (n div 2 ^ 32)]
              else [0, 0, 0, 0]) :: bytes"
    have h: "be32 (?H ! 0) (?H ! 1) (?H ! 2) (?H ! 3) = n div 2 ^ 32"
    proof (cases "0xFFFFFFFF < n")
      case True
      have "n div 2 ^ 32 < 2 ^ 32" using assms by (intro less_mult_imp_div_less) simp
      with be64_nat [of n] True show ?thesis by simp
    next
      case False
      then show ?thesis by (simp add: be32_def)
    qed
    have le: "n div 2 ^ 32 \<le> 0x1FFFFF"
      using assms less_mult_imp_div_less [of n "2 ^ 21" "2 ^ 32"] by simp
    have eq: "n div 2 ^ 32 * 2 ^ 32 + n mod 2 ^ 32 = n" by (rule div_mult_mod_eq)
    have m: "unat (((if masked then 0x80 else 0) OR 127 :: 8 word) AND 0x7F) = 127" by simp
    let ?b0 = "(if fn then 0x80 else 0) OR op" and ?b1 = "(if masked then 0x80 else 0) OR 127 :: 8 word"
    have "\<exists>h0 h1 h2 h3. ?H = [h0, h1, h2, h3]" by (cases "0xFFFFFFFF < n") simp_all
    then obtain h0 h1 h2 h3 where H: "?H = [h0, h1, h2, h3]" by blast
    have f: "frame_header fn op n masked = [?b0, ?b1] @ [h0, h1, h2, h3] @
        [of_nat (n div 2 ^ 24), of_nat (n div 2 ^ 16), of_nat (n div 2 ^ 8), of_nat n]"
      unfolding frame_header_def Let_def H using long by (simp only: if_True)
    from h H have h': "be32 h0 h1 h2 h3 = n div 2 ^ 32" by simp
    have "payload_length (frame_header fn op n masked @ r) =
      (if 0x1FFFFF < be32 h0 h1 h2 h3 then Inl (ProtocolError UnsafeLength)
       else Inr (Some (be32 h0 h1 h2 h3 * 2 ^ 32
         + be32 (of_nat (n div 2 ^ 24)) (of_nat (n div 2 ^ 16)) (of_nat (n div 2 ^ 8)) (of_nat n), 10)))"
      unfolding f payload_length_def using m by (simp add: Let_def del: of_nat_numeral power_numeral)
    then show ?thesis unfolding h' be32_nat eq using le by (simp add: f)
  qed
qed

lemma header_shape:
  obtains ext b1 where "frame_header fn op n masked = ((if fn then 0x80 else 0) OR op) # b1 # ext"
    "b1 AND 0x80 = 0 \<longleftrightarrow> \<not> masked" "n \<le> 125 \<longrightarrow> unat (b1 AND 0x7F) = n"
proof -
  let ?b1 = "(if masked then 0x80 else 0) OR (if 65536 \<le> n then 127 else if 125 < n then 126 else of_nat n) :: 8 word"
  have a: "?b1 AND 0x80 = 0 \<longleftrightarrow> \<not> masked"
    using length_byte(2) [where n = n and masked = masked] by (cases masked) auto
  have b: "n \<le> 125 \<longrightarrow> unat (?b1 AND 0x7F) = n"
    using length_byte(1) [where n = n and masked = masked] length_byte(3) [of n] by auto
  have "\<exists>ext. frame_header fn op n masked = ((if fn then 0x80 else 0) OR op) # ?b1 # ext"
    by (auto simp: frame_header_def Let_def)
  with a b show thesis using that by blast
qed

text \<open>
  C10. Round trip of the frame codec: whatever \<open>encodeFrame\<close> emits for a legal opcode
  (masked or not, every length class below \<open>2 ^ 53\<close>) is parsed back, also with more bytes
  behind it, to the same FIN bit, opcode and payload, and consumes exactly the emitted bytes.
\<close>

theorem frame_roundtrip:
  assumes "encodeFrame fn opc pl masked rng = Inr out"
    and "valid_opcode (opc AND 0x0F)" and "is_control (opc AND 0x0F) \<longrightarrow> fn"
    and "length pl < 2 ^ 53" and "masked \<longrightarrow> (\<exists>key. rng = Some key \<and> length key = 4)"
    and "requireMask \<longrightarrow> masked"
    and "\<forall>limit. maxPayload = Some limit \<longrightarrow> is_control (opc AND 0x0F) \<or> length pl \<le> limit"
  shows "parseFrame (out @ rest) requireMask maxPayload
    = Inr (Some \<lparr> fin = fn, opcode = opc AND 0x0F, payload = pl, consumed = length out \<rparr>)"
proof -
  let ?op = "opc AND 0x0F" and ?n = "length pl"
  let ?h = "frame_header fn ?op ?n masked"
  obtain ext b1 where h: "?h = ((if fn then 0x80 else 0) OR ?op) # b1 # ext"
    and b1: "b1 AND 0x80 = 0 \<longleftrightarrow> \<not> masked" and l7: "?n \<le> 125 \<longrightarrow> unat (b1 AND 0x7F) = ?n"
    by (rule header_shape)
  have ctl: "is_control ?op \<longrightarrow> ?n \<le> 125"
    using assms(1) by (auto simp: encodeFrame_def Let_def max_control_payload_def split: if_splits)
  have he: "header_error ((if fn then 0x80 else 0) OR ?op) b1 = None"
    using first_byte [OF assms(2), of fn] assms(2,3) ctl l7
    by (auto simp: header_error_def Let_def max_control_payload_def valid_opcode_def)
  define tl0 where "tl0 = (if masked then the rng @ apply_mask (the rng) pl else pl)"
  have out: "out = ?h @ tl0"
    using assms(1,5) by (auto simp: encodeFrame_def Let_def tl0_def split: if_splits option.splits)
  have pl: "payload_length (out @ rest) = Inr (Some (?n, length ?h))"
    unfolding out append_assoc by (rule header_payload_length [OF assms(4)])
  have n01: "(out @ rest) ! 0 = (if fn then 0x80 else 0) OR ?op" "(out @ rest) ! 1 = b1" "2 \<le> length (out @ rest)"
    unfolding out h by simp_all
  show ?thesis
    unfolding parseFrame_def Let_def n01(1,2) he pl first_byte [OF assms(2)] b1
    using n01(3) assms(5,6,7) by (auto simp: tl0_def out)
qed

theorem frame_roundtrip_witness:
  "parseFrame ([0x81, 0x82, 1, 2, 3, 4, 0x69, 0x6B] @ [0xFF]) True (Some 10)
     = Inr (Some \<lparr> fin = True, opcode = 1, payload = [0x68, 0x69], consumed = 8 \<rparr>)"
proof -
  have e: "encodeFrame True 1 [0x68, 0x69] True (Some [1, 2, 3, 4]) = Inr [0x81, 0x82, 1, 2, 3, 4, 0x69, 0x6B]"
    by (simp add: eval Let_def)
  from frame_roundtrip [OF e, where requireMask = True and maxPayload = "Some 10" and rest = "[0xFF]"]
  show ?thesis by (simp add: valid_opcode_def)
qed

text \<open>How far an incomplete frame can grow: at most 14 header bytes and the payload limit.\<close>

lemma header_length_7: "unat (b AND 0x7F :: 8 word) \<le> 127"
  using word_and_le1 [of b "0x7F"] unfolding word_le_nat_alt by simp

lemma parse_incomplete_bound:
  assumes "parseFrame buf rm (Some limit) = Inr None"
  shows "length buf < 14 + max limit 125"
proof (cases "length buf < 2")
  case False
  with assms obtain he: "header_error (buf ! 0) (buf ! 1) = None"
    by (auto simp: parseFrame_def Let_def split: option.splits)
  show ?thesis
  proof (cases "payload_length buf")
    case (Inl e)
    with assms he False show ?thesis by (simp add: parseFrame_def Let_def)
  next
    case (Inr o1)
    show ?thesis
    proof (cases o1)
      case None
      with Inr have "length buf < 10" by (auto simp: payload_length_def Let_def split: if_splits)
      then show ?thesis by simp
    next
      case (Some p)
      then obtain n off where p: "payload_length buf = Inr (Some (n, off))" using Inr by (cases p) simp
      from payload_length_offset [OF p] False have off: "off \<le> 10" by simp
      have "n \<le> 125" if "is_control (buf ! 0 AND 0x0F)"
      proof -
        from he that have "unat (buf ! 1 AND 0x7F) \<le> 125"
          by (auto simp: header_error_def Let_def max_control_payload_def split: if_splits)
        with p show ?thesis by (auto simp: payload_length_def Let_def split: if_splits)
      qed
      with assms he p False off show ?thesis
        by (auto simp: parseFrame_def Let_def max_def split: if_splits)
    qed
  qed
qed simp

section \<open>Close payloads\<close>

text \<open>
  Round trip of CLOSE payloads: a code and reason that \<open>encodeClosePayload\<close> accepts
  decode to themselves, when the reason is well-formed UTF-16 and does not begin with a
  byte order mark (which \<open>TextDecoder\<close> strips); the payload fits a control frame and the
  code is legal on the wire, so the framework never emits a CLOSE its own decoder rejects.
\<close>

lemma close_payload_roundtrip:
  assumes "encodeClosePayload code reason = Inr p" and "well_formed reason"
    and "\<not> prefix [65279] reason"
  shows "decodeClosePayload p = Inr (code, reason) \<and> length p \<le> 125 \<and> isValidWireCloseCode code"
proof -
  from assms(1) have v: "isValidWireCloseCode code"
    and p: "p = of_nat (code div 256) # of_nat code # byte_list (utf8_encode reason)"
    and l: "length p \<le> 125"
    by (auto simp: encodeClosePayload_def Let_def max_control_payload_def split: if_splits)
  from v have "code < 65536" by (auto simp: isValidWireCloseCode_def)
  then have c: "unat (of_nat (code div 256) :: 8 word) * 256 + unat (of_nat code :: 8 word) = code"
    by (simp add: unat_byte)
  from assms(2) have "map unat (byte_list (utf8_encode reason)) = utf8_encode reason"
    by (intro unat_byte_list utf8_encode_bytes) (simp add: well_formed_def)
  with utf8_roundtrip [OF assms(2,3)] v c l show ?thesis
    by (simp add: p decodeClosePayload_def Let_def)
qed

lemma close_payload_roundtrip_example:
  "decodeClosePayload [0x03, 0xE8, 0x62, 0x79, 0x65] = Inr (1000, js ''bye'')"
proof -
  have e: "encodeClosePayload 1000 (js ''bye'') = Inr [0x03, 0xE8, 0x62, 0x79, 0x65]"
    by (simp add: eval Let_def)
  from close_payload_roundtrip [OF e] show ?thesis by (simp add: well_formed_def is_high_def is_low_def)
qed

end
