(* ===== verification/Base64.thy ===== *)
theory Base64
  imports JsText
begin

text \<open>
  The platform's base64: \<open>btoa\<close> and \<open>atob\<close> (WHATWG forgiving base64), on strings whose
  code units are bytes.  The round trip lemma carries every component that stores bytes as
  text: stored responses, cursors, tokens, the WebSocket key.
\<close>

definition b64_char :: "nat \<Rightarrow> nat" where
  "b64_char v = (if v < 26 then 65 + v else if v < 52 then 71 + v else if v < 62 then v - 4
     else if v = 62 then 43 else 47)"

definition b64_val :: "nat \<Rightarrow> nat option" where
  "b64_val c = (if 65 \<le> c \<and> c \<le> 90 then Some (c - 65) else if 97 \<le> c \<and> c \<le> 122 then Some (c - 71)
     else if 48 \<le> c \<and> c \<le> 57 then Some (c + 4) else if c = 43 then Some 62 else if c = 47 then Some 63 else None)"

text \<open>The sextets of a byte string, and the bytes of a list of sextets.\<close>

fun sextets :: "nat list \<Rightarrow> nat list" where
  "sextets (a # b # c # r) = [a div 4, a mod 4 * 16 + b div 16, b mod 16 * 4 + c div 64, c mod 64] @ sextets r"
| "sextets [a, b] = [a div 4, a mod 4 * 16 + b div 16, b mod 16 * 4]"
| "sextets [a] = [a div 4, a mod 4 * 16]"
| "sextets [] = []"

fun unsextets :: "nat list \<Rightarrow> nat list" where
  "unsextets (p # q # r # s # rest) =
     [p * 4 + q div 16, q mod 16 * 16 + r div 4, r mod 4 * 64 + s] @ unsextets rest"
| "unsextets [p, q, r] = [p * 4 + q div 16, q mod 16 * 16 + r div 4]"
| "unsextets [p, q] = [p * 4 + q div 16]"
| "unsextets _ = []"

definition pad :: "nat \<Rightarrow> jstr" where
  "pad n = (if n mod 3 = 1 then [61, 61] else if n mod 3 = 2 then [61] else [])"

definition btoa :: "jstr \<Rightarrow> jstr option" where
  "btoa bin = (if list_all (\<lambda>c. c < 256) bin then Some (map b64_char (sextets bin) @ pad (length bin)) else None)"

definition strip_pad :: "jstr \<Rightarrow> jstr" where
  "strip_pad s =
     (if length s mod 4 \<noteq> 0 then s
      else if suffix [61, 61] s then take (length s - 2) s
      else if suffix [61] s then take (length s - 1) s else s)"

fun values_of :: "jstr \<Rightarrow> nat list option" where
  "values_of [] = Some []"
| "values_of (c # s) = (case b64_val c of None \<Rightarrow> None
     | Some v \<Rightarrow> (case values_of s of None \<Rightarrow> None | Some vs \<Rightarrow> Some (v # vs)))"

definition is_b64_space :: "nat \<Rightarrow> bool" where
  "is_b64_space c \<longleftrightarrow> c = 9 \<or> c = 10 \<or> c = 12 \<or> c = 13 \<or> c = 32"

definition atob :: "jstr \<Rightarrow> jstr option" where
  "atob text =
     (let s = strip_pad (filter (\<lambda>c. \<not> is_b64_space c) text) in
      if length s mod 4 = 1 then None
      else (case values_of s of None \<Rightarrow> None | Some vs \<Rightarrow> Some (unsextets vs)))"

section \<open>Round trip\<close>

lemma b64_val_char [simp]: "v < 64 \<Longrightarrow> b64_val (b64_char v) = Some v"
  by (auto simp: b64_val_def b64_char_def)

lemma b64_char_cases: "v < 64 \<Longrightarrow> b64_char v \<noteq> 61 \<and> \<not> is_b64_space (b64_char v)"
  by (auto simp: b64_char_def is_b64_space_def)

lemma sextets_bound: "\<forall>x \<in> set bs. x < 256 \<Longrightarrow> \<forall>v \<in> set (sextets bs). v < 64"
  by (induction bs rule: sextets.induct) auto

lemma unsextets_sextets: "\<forall>x \<in> set bs. x < 256 \<Longrightarrow> unsextets (sextets bs) = bs"
  by (induction bs rule: sextets.induct) auto

lemma length_sextets: "length (sextets bs) + length (pad (length bs)) = 4 * ((length bs + 2) div 3)"
proof (induction bs rule: sextets.induct)
  case (1 a b c r)
  have "pad (length (a # b # c # r)) = pad (length r)" by (simp add: pad_def mod_Suc)
  moreover have "(5 + length r) div 3 = Suc (Suc (Suc (length r)) div 3)" by presburger
  ultimately show ?case using 1 by (simp del: div_mult_self4 Suc_eq_plus1)
qed (simp_all add: pad_def)

lemma length_sextets_mod: "length (sextets bs) mod 4 \<noteq> Suc 0"
  by (induction bs rule: sextets.induct) auto

lemma values_of_chars: "\<forall>v \<in> set vs. v < 64 \<Longrightarrow> values_of (map b64_char vs) = Some vs"
  by (induction vs) auto

lemma pad_cases: "pad n = [] \<or> pad n = [61] \<or> pad n = [61, 61]"
  by (simp add: pad_def)

lemma strip_pad_chars:
  assumes "61 \<notin> set s" and "(length s + length (pad n)) mod 4 = 0"
  shows "strip_pad (s @ pad n) = s"
proof -
  have "\<not> suffix [61] s" "\<not> suffix [61, 61] s" "\<not> suffix [61, 61] (s @ [61])"
    using assms(1) by (auto simp: suffix_def)
  then show ?thesis using pad_cases [of n] assms(2) by (auto simp: strip_pad_def suffix_def)
qed

lemma atob_btoa:
  assumes "\<forall>x \<in> set bs. x < 256"
  shows "\<exists>t. btoa bs = Some t \<and> atob t = Some bs \<and> set t \<subseteq> b64_char ` {..<64} \<union> {61}"
proof -
  let ?c = "map b64_char (sextets bs)"
  note bd = sextets_bound [OF assms]
  have b: "btoa bs = Some (?c @ pad (length bs))" using assms by (simp add: btoa_def list_all_iff)
  have f: "filter (\<lambda>c. \<not> is_b64_space c) (?c @ pad (length bs)) = ?c @ pad (length bs)"
    using bd b64_char_cases pad_cases [of "length bs"] by (auto simp: filter_id_conv is_b64_space_def)
  have "61 \<notin> set ?c" using bd b64_char_cases by fastforce
  moreover have "(length ?c + length (pad (length bs))) mod 4 = 0" by (simp add: length_sextets)
  ultimately have "strip_pad (?c @ pad (length bs)) = ?c" by (rule strip_pad_chars)
  with f bd have "atob (?c @ pad (length bs)) = Some bs"
    by (simp add: atob_def Let_def values_of_chars unsextets_sextets assms length_sextets_mod)
  moreover have "set (?c @ pad (length bs)) \<subseteq> b64_char ` {..<64} \<union> {61}"
    using bd pad_cases [of "length bs"] by auto
  ultimately show ?thesis using b by blast
qed

end
