(* ===== verification/WsRoute.thy ===== *)
theory WsRoute
  imports WsCodec Router Base64
begin

text \<open>
  The rest of \<open>websocket.ts\<close>: option normalisation, the route registry, the handshake
  checks, the origin policy and the message gate.

  SHA-1 (\<open>crypto.subtle\<close>) and the origin of the request URL are parameters.  A user
  predicate of the origin policy returns \<open>None\<close> when it throws.  The registry relies on the
  router through the locale \<open>flagged_lookup\<close>, interpreted on \<open>find_route\<close>.
\<close>

section \<open>Options\<close>

record ws_options =
  closeOnBackpressureLimit :: bool
  backpressureLimit :: int
  perMessageDeflate :: bool
  idleTimeout :: int
  maxPayload :: int

datatype origin_policy =
    AnyOrigin
  | SameOrigin
  | AllowList "jstr list"
  | Predicate "jstr option \<Rightarrow> bool option"

record ws_handler =
  h_closeOnBackpressureLimit :: "bool option"
  h_backpressureLimit :: "int option"
  h_perMessageDeflate :: "bool option"
  h_idleTimeout :: "int option"
  h_maxPayloadLength :: "int option"
  h_allowedOrigins :: origin_policy
  h_schemaMaxBytes :: "int option"

datatype options_error =
    NotPositive jstr | EmptyOrigin | DeflateRefused | ExceedsSchema int int

definition or_default :: "'a option \<Rightarrow> 'a \<Rightarrow> 'a" where
  "or_default o1 d = (case o1 of Some v \<Rightarrow> v | None \<Rightarrow> d)"

definition assertWebSocketOriginPolicy :: "origin_policy \<Rightarrow> options_error option" where
  "assertWebSocketOriginPolicy p =
     (case p of AllowList os \<Rightarrow> (if [] \<in> set os then Some EmptyOrigin else None) | _ \<Rightarrow> None)"

definition normalizeWebSocketOptions :: "ws_handler \<Rightarrow> bool \<Rightarrow> bool \<Rightarrow> options_error + ws_options" where
  "normalizeWebSocketOptions h production secureDefaults =
     (let cob = or_default (h_closeOnBackpressureLimit h) True;
          bpl = or_default (h_backpressureLimit h) (1024 * 1024);
          pmd = or_default (h_perMessageDeflate h) False;
          idle = or_default (h_idleTimeout h) 120;
          mpl = or_default (h_maxPayloadLength h) (1024 * 1024)
      in if bpl \<le> 0 then Inl (NotPositive (js ''backpressureLimit''))
         else if idle \<le> 0 then Inl (NotPositive (js ''idleTimeout''))
         else if mpl \<le> 0 then Inl (NotPositive (js ''maxPayloadLength''))
         else if assertWebSocketOriginPolicy (h_allowedOrigins h) \<noteq> None
         then Inl (the (assertWebSocketOriginPolicy (h_allowedOrigins h)))
         else if pmd \<and> secureDefaults \<and> production then Inl DeflateRefused
         else if h_schemaMaxBytes h \<noteq> None \<and> the (h_schemaMaxBytes h) < mpl
         then Inl (ExceedsSchema mpl (the (h_schemaMaxBytes h)))
         else Inr \<lparr> closeOnBackpressureLimit = cob, backpressureLimit = bpl, perMessageDeflate = pmd,
                    idleTimeout = idle, maxPayload = mpl \<rparr>)"

section \<open>Registry\<close>

record ws_entry =
  e_path :: jstr
  e_options :: ws_options

record registry =
  r_router :: "ws_entry router"
  r_size :: nat
  r_entries :: "ws_entry list"

definition new_registry :: registry where
  "new_registry = \<lparr> r_router = new_router, r_size = 0, r_entries = [] \<rparr>"

definition registry_add :: "registry \<Rightarrow> jstr \<Rightarrow> ws_options \<Rightarrow> route_error option \<times> registry" where
  "registry_add g path opts =
     (let entry = \<lparr> e_path = path, e_options = opts \<rparr> in
      case add_route (r_router g) (js ''GET'') path entry None of
        (Some e, rt) \<Rightarrow> (Some e, g\<lparr>r_router := rt\<rparr>)
      | (None, rt) \<Rightarrow> (None, \<lparr> r_router = rt, r_size = Suc (r_size g), r_entries = r_entries g @ [entry] \<rparr>))"

definition registry_find :: "registry \<Rightarrow> jstr \<Rightarrow> ws_entry route_match option" where
  "registry_find g pathname =
     (case find_route (r_router g) (js ''GET'') pathname of
        None \<Rightarrow> None
      | Some m \<Rightarrow> (if encodedSeparator m then None else Some m))"

definition runtimeOptions :: "registry \<Rightarrow> ws_options" where
  "runtimeOptions g =
     (if r_entries g = [] then
        \<lparr> closeOnBackpressureLimit = True, backpressureLimit = 1024 * 1024, perMessageDeflate = False,
          idleTimeout = 120, maxPayload = 1024 * 1024 \<rparr>
      else (let os = map e_options (r_entries g) in
        \<lparr> closeOnBackpressureLimit = list_all closeOnBackpressureLimit os,
          backpressureLimit = Max (set (map backpressureLimit os)),
          perMessageDeflate = list_ex perMessageDeflate os,
          idleTimeout = Min (set (map idleTimeout os)),
          maxPayload = Max (set (map maxPayload os)) \<rparr>))"

section \<open>Handshake\<close>

definition parseSubprotocols :: "jstr option \<Rightarrow> jstr list" where
  "parseSubprotocols header =
     (case header of None \<Rightarrow> []
      | Some h \<Rightarrow> (if h = [] then [] else filter (\<lambda>s. 0 < length s) (map js_trim (split_on 44 h))))"

definition token_char :: "nat \<Rightarrow> bool" where
  "token_char c \<longleftrightarrow> is_digit c \<or> (65 \<le> c \<and> c \<le> 90) \<or> (97 \<le> c \<and> c \<le> 122)
     \<or> c \<in> {33, 35, 36, 37, 38, 39, 42, 43, 45, 46, 94, 95, 96, 124, 126}"

definition validateSelectedSubprotocol :: "jstr \<Rightarrow> jstr list \<Rightarrow> ws_error + jstr" where
  "validateSelectedSubprotocol protocol offered =
     (if \<not> (protocol \<noteq> [] \<and> list_all token_char protocol) then Inl (ProtocolError BadSubprotocol)
      else if protocol \<notin> set offered then Inl (ProtocolError SubprotocolNotOffered)
      else Inr protocol)"

definition word_char :: "nat \<Rightarrow> bool" where
  "word_char c \<longleftrightarrow> is_digit c \<or> (65 \<le> c \<and> c \<le> 90) \<or> (97 \<le> c \<and> c \<le> 122) \<or> c = 95"

text \<open>\<open>/\bupgrade\b/i\<close>: the first argument says whether the previous character is a word character.\<close>

fun has_word :: "jstr \<Rightarrow> bool \<Rightarrow> jstr \<Rightarrow> bool" where
  "has_word w prev [] = False"
| "has_word w prev (c # s) =
     ((\<not> prev \<and> to_lower (take (length w) (c # s)) = w
        \<and> (case drop (length w) (c # s) of [] \<Rightarrow> True | d # _ \<Rightarrow> \<not> word_char d))
      \<or> has_word w (word_char c) s)"

definition isValidWebSocketKey :: "jstr \<Rightarrow> bool" where
  "isValidWebSocketKey key \<longleftrightarrow> (case atob key of None \<Rightarrow> False | Some bytes \<Rightarrow> length bytes = 16)"

datatype handshake = Accept jstr "jstr list" | Refuse nat

definition WS_GUID :: jstr where
  "WS_GUID = js ''258EAFA5-E914-47DA-95CA-C5AB0DC85B11''"

text \<open>\<open>accept\<close> is \<open>base64(SHA-1(...))\<close> of the platform; \<open>get\<close> the header accessor.\<close>

definition validateUpgrade :: "(jstr \<Rightarrow> jstr) \<Rightarrow> (jstr \<Rightarrow> jstr option) \<Rightarrow> handshake" where
  "validateUpgrade accept get =
     (case get (js ''upgrade'') of None \<Rightarrow> Refuse 400 | Some upgrade \<Rightarrow>
      if to_lower upgrade \<noteq> js ''websocket'' then Refuse 400 else
      case get (js ''connection'') of None \<Rightarrow> Refuse 400 | Some connection \<Rightarrow>
      if \<not> has_word (js ''upgrade'') False connection then Refuse 400
      else if get (js ''sec-websocket-version'') \<noteq> Some (js ''13'') then Refuse 426
      else case get (js ''sec-websocket-key'') of None \<Rightarrow> Refuse 400 | Some key \<Rightarrow>
      if key = [] \<or> \<not> isValidWebSocketKey key then Refuse 400
      else Accept (accept (key @ WS_GUID)) (parseSubprotocols (get (js ''sec-websocket-protocol''))))"

datatype origin_verdict = OriginOk | CheckFailed | RejectedByPolicy | CrossOrigin | NotAllowlisted

definition checkWebSocketOrigin :: "jstr option \<Rightarrow> jstr option \<Rightarrow> origin_policy \<Rightarrow> origin_verdict" where
  "checkWebSocketOrigin origin requestOrigin policy =
     (case policy of
        AnyOrigin \<Rightarrow> OriginOk
      | Predicate p \<Rightarrow>
          (case p origin of None \<Rightarrow> CheckFailed
           | Some ok \<Rightarrow> if ok then OriginOk else RejectedByPolicy)
      | SameOrigin \<Rightarrow>
          (case origin of None \<Rightarrow> OriginOk
           | Some og \<Rightarrow> (case requestOrigin of None \<Rightarrow> CheckFailed
               | Some ro \<Rightarrow> if og = ro then OriginOk else CrossOrigin))
      | AllowList os \<Rightarrow>
          (case origin of None \<Rightarrow> OriginOk
           | Some og \<Rightarrow> if og \<in> set os then OriginOk else NotAllowlisted))"

section \<open>The message gate\<close>

text \<open>
  \<open>WebSocketMessageGate\<close>: \<open>pending\<close> says whether a promise chain exists, \<open>chain\<close> holds the
  messages it has not delivered yet, the head being validated.  A message's validation is
  synchronous or resolves later; \<open>deliver\<close> receives the outcome.  One step of the chain
  delivers its head (for an asynchronous one: when it settles); when the chain has run
  empty its last \<open>then\<close> clears \<open>pending\<close>.
\<close>

datatype outcome = Valid nat | Invalid nat

record message =
  m_id :: nat
  m_async :: bool
  m_outcome :: outcome

record gate =
  pending :: bool
  chain :: "message list"
  delivered :: "(nat \<times> outcome) list"

definition new_gate :: gate where
  "new_gate = \<lparr> pending = False, chain = [], delivered = [] \<rparr>"

definition gate_push :: "message \<Rightarrow> gate \<Rightarrow> gate" where
  "gate_push m g =
     (if \<not> pending g then
        (if m_async m then g\<lparr>pending := True, chain := [m]\<rparr>
         else g\<lparr>delivered := delivered g @ [(m_id m, m_outcome m)]\<rparr>)
      else g\<lparr>chain := chain g @ [m]\<rparr>)"

definition gate_settle :: "gate \<Rightarrow> gate" where
  "gate_settle g =
     (case chain g of [] \<Rightarrow> g\<lparr>pending := False\<rparr>
      | m # ms \<Rightarrow> g\<lparr>chain := ms, delivered := delivered g @ [(m_id m, m_outcome m)]\<rparr>)"

inductive gate_run :: "message list \<Rightarrow> gate \<Rightarrow> bool" where
  idle: "gate_run [] new_gate"
| arrive: "gate_run ms g \<Longrightarrow> gate_run (ms @ [m]) (gate_push m g)"
| settle: "gate_run ms g \<Longrightarrow> gate_run ms (gate_settle g)"

inductive_cases gate_runE: "gate_run ms g"

lemma gate_run_inv:
  "gate_run ms g \<Longrightarrow> delivered g @ map (\<lambda>m. (m_id m, m_outcome m)) (chain g) = map (\<lambda>m. (m_id m, m_outcome m)) ms
     \<and> (chain g \<noteq> [] \<longrightarrow> pending g)"
proof (induction rule: gate_run.induct)
  case (arrive ms g m)
  then show ?case by (cases "chain g") (auto simp: gate_push_def)
next
  case (settle ms g)
  then show ?case by (cases "chain g") (auto simp: gate_settle_def)
qed (simp add: new_gate_def)

text \<open>
  Messages reach the handler in arrival order however their validations interleave:
  in every run what was delivered is a prefix of what arrived, and nothing is lost (the
  rest is queued); when the chain has settled, everything was delivered.
\<close>

lemma gate_in_order:
  assumes "gate_run ms g"
  shows "prefix (delivered g) (map (\<lambda>m. (m_id m, m_outcome m)) ms)
    \<and> (\<not> pending g \<longrightarrow> delivered g = map (\<lambda>m. (m_id m, m_outcome m)) ms)"
proof -
  from gate_run_inv [OF assms]
  have e: "map (\<lambda>m. (m_id m, m_outcome m)) ms = delivered g @ map (\<lambda>m. (m_id m, m_outcome m)) (chain g)"
    and c: "\<not> pending g \<longrightarrow> chain g = []" by auto
  from e have "prefix (delivered g) (map (\<lambda>m. (m_id m, m_outcome m)) ms)" by (rule prefixI)
  with e c show ?thesis by auto
qed

lemma gate_in_order_example:
  "prefix [(1, Valid 5)]
     (delivered (gate_settle (gate_settle
        (gate_push \<lparr> m_id = 2, m_async = False, m_outcome = Invalid 1007 \<rparr>
          (gate_push \<lparr> m_id = 1, m_async = True, m_outcome = Valid 5 \<rparr> new_gate)))))
   \<and> delivered (gate_settle (gate_settle (gate_settle
        (gate_push \<lparr> m_id = 2, m_async = False, m_outcome = Invalid 1007 \<rparr>
          (gate_push \<lparr> m_id = 1, m_async = True, m_outcome = Valid 5 \<rparr> new_gate)))))
      = [(1, Valid 5), (2, Invalid 1007)]"
proof -
  let ?a = "\<lparr> m_id = 1, m_async = True, m_outcome = Valid 5 \<rparr>"
  let ?b = "\<lparr> m_id = 2, m_async = False, m_outcome = Invalid 1007 \<rparr>"
  have "gate_run (([] @ [?a]) @ [?b]) (gate_settle (gate_settle (gate_settle (gate_push ?b (gate_push ?a new_gate)))))"
    by (intro gate_run.intros)
  from gate_in_order [OF this] show ?thesis
    by (simp add: gate_push_def gate_settle_def new_gate_def)
qed

section \<open>What the registry relies on\<close>

text \<open>
  The interface of the lookup the registry calls: on a path from a URL parser, an
  unflagged match has captured no text with a separator.
\<close>

locale flagged_lookup =
  fixes reach :: "'r \<Rightarrow> bool"
    and lookup :: "'r \<Rightarrow> jstr \<Rightarrow> 'h route_match option"
  assumes captures_plain: "reach r \<Longrightarrow> parsed_path p \<Longrightarrow> lookup r p = Some mt \<Longrightarrow> \<not> encodedSeparator mt \<Longrightarrow>
    params mt = [] \<or> (\<exists>pat. match_pat pat (splitPath p) = Some (params mt)
      \<and> (\<forall>g \<in> set (captured pat (splitPath p)). \<forall>d. decode_seg g = Some d \<longrightarrow> 47 \<notin> set d \<and> 92 \<notin> set d))"
begin

definition guarded :: "'r \<Rightarrow> jstr \<Rightarrow> 'h route_match option" where
  "guarded r p = (case lookup r p of None \<Rightarrow> None | Some m \<Rightarrow> if encodedSeparator m then None else Some m)"

lemma guarded_plain:
  assumes "reach r" "parsed_path p" "guarded r p = Some mt"
  shows "params mt = [] \<or> (\<exists>pat. match_pat pat (splitPath p) = Some (params mt)
      \<and> (\<forall>g \<in> set (captured pat (splitPath p)). \<forall>d. decode_seg g = Some d \<longrightarrow> 47 \<notin> set d \<and> 92 \<notin> set d))"
  using assms captures_plain by (auto simp: guarded_def split: option.splits if_splits)

end

interpretation ws_router: flagged_lookup router_reach "\<lambda>r p. find_route r (js ''GET'') p"
  by unfold_locales (use find_captures in blast)

inductive registry_reach :: "registry \<Rightarrow> bool" where
  empty: "registry_reach new_registry"
| add: "registry_reach g \<Longrightarrow> registry_reach (snd (registry_add g path opts))"

lemma registry_reach_router: "registry_reach g \<Longrightarrow> router_reach (r_router g)"
proof (induction rule: registry_reach.induct)
  case empty
  then show ?case by (simp add: new_registry_def router_reach.intros)
next
  case (add g path opts)
  from router_reach.register [OF add.IH, of "js ''GET''" path "\<lparr> e_path = path, e_options = opts \<rparr>" None]
  show ?case by (auto simp: registry_add_def Let_def split: prod.splits option.splits)
qed

text \<open>
  An upgrade is only ever matched with captures that hold no path separator: on every
  registry built by \<open>add\<close>, a match binds parameters none of whose captured segments
  decodes to text with \<open>/\<close> or \<open>\\<close> (a \<open>%2F\<close> or \<open>%5C\<close> makes the upgrade a miss).
\<close>

lemma registry_captures_plain:
  assumes "registry_reach g" and "parsed_path p" and "registry_find g p = Some mt"
  shows "params mt = [] \<or> (\<exists>pat. match_pat pat (splitPath p) = Some (params mt)
      \<and> (\<forall>s \<in> set (captured pat (splitPath p)). \<forall>d. decode_seg s = Some d \<longrightarrow> 47 \<notin> set d \<and> 92 \<notin> set d))"
proof -
  from assms(3) have "ws_router.guarded (r_router g) p = Some mt"
    by (simp only: ws_router.guarded_def registry_find_def)
  from ws_router.guarded_plain [OF registry_reach_router [OF assms(1)] assms(2) this] show ?thesis .
qed

definition sample_registry :: registry where
  "sample_registry = snd (registry_add new_registry (js ''/chat/:room'')
     \<lparr> closeOnBackpressureLimit = True, backpressureLimit = 1, perMessageDeflate = False,
       idleTimeout = 1, maxPayload = 1 \<rparr>)"

lemma registry_captures_plain_example:
  "\<exists>pat mt. registry_find sample_registry (js ''/chat/a%20b'') = Some mt
     \<and> match_pat pat (splitPath (js ''/chat/a%20b'')) = Some (params mt)
     \<and> registry_find sample_registry (js ''/chat/a%2Fb'') = None"
proof -
  let ?mt = "\<lparr> handler = \<lparr> e_path = js ''/chat/:room'', e_options =
     \<lparr> closeOnBackpressureLimit = True, backpressureLimit = 1, perMessageDeflate = False,
       idleTimeout = 1, maxPayload = 1 \<rparr> \<rparr>, params = [(js ''room'', js ''a b'')], encodedSeparator = False \<rparr>"
  have f: "registry_find sample_registry (js ''/chat/a%20b'') = Some ?mt" by code_simp
  have n: "registry_find sample_registry (js ''/chat/a%2Fb'') = None" by code_simp
  have r: "registry_reach sample_registry" unfolding sample_registry_def by (intro registry_reach.intros)
  have p: "parsed_path (js ''/chat/a%20b'')" by (simp add: parsed_path_def is_control_def)
  from registry_captures_plain [OF r p f] f n show ?thesis by auto
qed

text \<open>
  The server-wide options are safe for every route: the payload limit and the
  backpressure limit admit what each route allows, the idle timeout is no longer than any
  route's, and compression is on only if some route asked for it.
\<close>

lemma runtime_options_cover:
  assumes "e \<in> set (r_entries g)"
  shows "maxPayload (e_options e) \<le> maxPayload (runtimeOptions g)
    \<and> backpressureLimit (e_options e) \<le> backpressureLimit (runtimeOptions g)
    \<and> idleTimeout (runtimeOptions g) \<le> idleTimeout (e_options e)
    \<and> (closeOnBackpressureLimit (runtimeOptions g) \<longrightarrow> closeOnBackpressureLimit (e_options e))
    \<and> (perMessageDeflate (runtimeOptions g) \<longrightarrow> (\<exists>e' \<in> set (r_entries g). perMessageDeflate (e_options e')))"
  using assms by (auto simp: runtimeOptions_def Let_def list_all_iff list_ex_iff)

end
