(* ===== verification/WsSink.thy ===== *)
theory WsSink
  imports WsCodec
begin

text \<open>
  \<open>FrameSink\<close> of \<open>websocket.ts\<close>: the stream-oriented assembler.

  \<open>sink\<close> has the fields of the class: the pending input is the region
  \<open>[off, off + slen)\<close> of a growing buffer, the message under reassembly the first
  \<open>fragmentBytes\<close> bytes of another one (unused capacity is zero, as in a fresh
  \<open>Uint8Array\<close>).  \<open>fragmentOpcode\<close> is \<open>None\<close> for the source's \<open>-1\<close>.  A call returns
  the new state, the callbacks in the order they fire, and the exception that escapes
  \<open>push\<close>, if any.

  The abstract assembler (\<open>astate\<close>) has no buffers: pending bytes and at most one
  message in progress.  \<open>push\<close> refines it, and it is insensitive to how the stream is cut.
\<close>

record sink_opts =
  requireMask :: bool
  maxPayloadLength :: "nat option"
  maxFragments :: "nat option"

record sink =
  buf :: bytes
  off :: nat
  slen :: nat
  msg :: bytes
  fragmentOpcode :: "8 word option"
  fragmentBytes :: nat
  fragmentCount :: nat
  closed :: bool

datatype ws_event =
    TextMessage jstr
  | BinaryMessage bytes
  | Ping bytes
  | Pong bytes
  | Close nat jstr
  | Violation ws_error

definition new_sink :: sink where
  "new_sink = \<lparr> buf = [], off = 0, slen = 0, msg = [], fragmentOpcode = None, fragmentBytes = 0,
     fragmentCount = 0, closed = False \<rparr>"

definition max_fragments :: "sink_opts \<Rightarrow> nat" where
  "max_fragments opts = (case maxFragments opts of Some n \<Rightarrow> n | None \<Rightarrow> 4096)"

definition append_chunk :: "sink \<Rightarrow> bytes \<Rightarrow> sink" where
  "append_chunk s chunk =
     (let need = slen s + length chunk;
          live = take (slen s) (drop (off s) (buf s));
          s1 = (if length (buf s) < off s + need then
                  (if need \<le> length (buf s) \<and> slen s \<le> off s
                   then s\<lparr>buf := live @ drop (slen s) (buf s), off := 0\<rparr>
                   else s\<lparr>buf := live @ replicate (max need (length (buf s) * 2) - slen s) 0, off := 0\<rparr>)
                else s)
      in s1\<lparr>buf := take (off s1 + slen s) (buf s1) @ chunk @ drop (off s1 + need) (buf s1), slen := need\<rparr>)"

definition release :: "sink \<Rightarrow> sink" where
  "release s = s\<lparr>buf := [], off := 0, slen := 0, msg := []\<rparr>"

definition assertMessageSize :: "sink_opts \<Rightarrow> sink \<Rightarrow> nat \<Rightarrow> ws_error + sink" where
  "assertMessageSize opts s n =
     (let nextTotal = fragmentBytes s + n in
      if maxPayloadLength opts \<noteq> None \<and> the (maxPayloadLength opts) < nextTotal
      then Inl (PayloadTooLarge (the (maxPayloadLength opts)) nextTotal)
      else Inr (s\<lparr>fragmentBytes := nextTotal\<rparr>))"

definition appendFragment :: "sink_opts \<Rightarrow> sink \<Rightarrow> bytes \<Rightarrow> sink" where
  "appendFragment opts s p =
     (let e = fragmentBytes s;
          start = e - length p;
          cap = max e (length (msg s) * 2);
          cap' = (case maxPayloadLength opts of
                    Some limit \<Rightarrow> if limit < cap then max e limit else cap
                  | None \<Rightarrow> cap);
          m = (if length (msg s) < e
               then take start (msg s) @ replicate (cap' - length (take start (msg s))) 0
               else msg s)
      in s\<lparr>msg := take start m @ p @ drop (start + length p) m\<rparr>)"

type_synonym step_result = "sink \<times> ws_event list \<times> ws_error option"

definition handle_control :: "sink \<Rightarrow> frame \<Rightarrow> step_result" where
  "handle_control s f =
     (if opcode f = OP_CLOSE then
        (case decodeClosePayload (payload f) of
           Inl e \<Rightarrow> (s, [], Some e)
         | Inr (code, reason) \<Rightarrow> (release (s\<lparr>closed := True\<rparr>), [Close code reason], None))
      else if opcode f = OP_PING then (s, [Ping (payload f)], None)
      else (s, [Pong (payload f)], None))"

definition decode_text :: "bytes \<Rightarrow> jstr option" where
  "decode_text bs = utf8_decode (map unat bs)"

text \<open>A complete message: reset the assembly, then deliver.\<close>

definition deliver :: "sink \<Rightarrow> bytes \<Rightarrow> step_result" where
  "deliver s joined =
     (let isBinary = (fragmentOpcode s = Some OP_BINARY);
          s' = s\<lparr>msg := [], fragmentOpcode := None, fragmentBytes := 0, fragmentCount := 0\<rparr>
      in if isBinary then (s', [BinaryMessage joined], None)
         else (case decode_text joined of
             None \<Rightarrow> (s', [], Some (ProtocolError InvalidUtf8Text))
           | Some t \<Rightarrow> (s', [TextMessage t], None)))"

definition handle_data :: "sink_opts \<Rightarrow> sink \<Rightarrow> frame \<Rightarrow> step_result" where
  "handle_data opts s f =
     (if opcode f = OP_CONTINUATION \<and> fragmentOpcode s = None
      then (s, [], Some (ProtocolError NoInitialFrame))
      else if opcode f \<noteq> OP_CONTINUATION \<and> fragmentOpcode s \<noteq> None
      then (s, [], Some (ProtocolError MessageInProgress))
      else (let s1 = (if opcode f = OP_CONTINUATION then s else s\<lparr>fragmentOpcode := Some (opcode f)\<rparr>);
                s2 = s1\<lparr>fragmentCount := Suc (fragmentCount s1)\<rparr>
            in if max_fragments opts < fragmentCount s2
               then (s2, [], Some (ProtocolError TooManyFragments))
               else (case assertMessageSize opts s2 (length (payload f)) of
                   Inl e \<Rightarrow> (s2, [], Some e)
                 | Inr s3 \<Rightarrow>
                     (if fin f \<and> fragmentCount s3 = 1 then deliver s3 (payload f)
                      else (let s4 = (if 0 < length (payload f) then appendFragment opts s3 (payload f) else s3)
                            in if \<not> fin f then (s4, [], None)
                               else deliver s4 (take (fragmentBytes s4) (msg s4)))))))"

definition handle :: "sink_opts \<Rightarrow> sink \<Rightarrow> frame \<Rightarrow> step_result" where
  "handle opts s f = (if is_control (opcode f) then handle_control s f else handle_data opts s f)"

text \<open>The \<open>catch\<close> of \<open>push\<close>: protocol errors close the sink, anything else is rethrown.\<close>

definition fail :: "sink \<Rightarrow> ws_error \<Rightarrow> step_result" where
  "fail s e =
     (if e = DecoderTypeError \<or> e = NoWebCrypto then (s, [], Some e)
      else (release (s\<lparr>closed := True\<rparr>), [Violation e], None))"

lemma deliver_slen [simp]: "slen (fst (deliver s j)) = slen s"
  by (auto simp: deliver_def Let_def split: option.splits)

lemma handle_slen: "slen (fst (handle opts s f)) \<le> slen s"
  by (auto simp: handle_def handle_control_def handle_data_def release_def assertMessageSize_def
      appendFragment_def Let_def split: sum.splits prod.splits if_splits)

function drain :: "sink_opts \<Rightarrow> sink \<Rightarrow> step_result" where
  "drain opts s =
     (if slen s = 0 then (s\<lparr>buf := [], off := 0\<rparr>, [], None)
      else (case parseFrame (take (slen s) (drop (off s) (buf s))) (requireMask opts) (maxPayloadLength opts) of
          Inl e \<Rightarrow> fail s e
        | Inr None \<Rightarrow> (s, [], None)
        | Inr (Some f) \<Rightarrow>
            (case handle opts (s\<lparr>off := off s + consumed f, slen := slen s - consumed f\<rparr>) f of
               (s2, evs, Some e) \<Rightarrow> (case fail s2 e of (s3, evs', ex) \<Rightarrow> (s3, evs @ evs', ex))
             | (s2, evs, None) \<Rightarrow>
                 (if closed s2 then (s2, evs, None)
                  else (case drain opts s2 of (s3, evs', ex) \<Rightarrow> (s3, evs @ evs', ex))))))"
  by pat_completeness auto
termination
proof (relation "measure (\<lambda>(opts, s). slen s)")
  fix opts s o1 f s2 y evs e1
  assume a: "slen s \<noteq> 0"
    "parseFrame (take (slen s) (drop (off s) (buf s))) (requireMask opts) (maxPayloadLength opts) = Inr o1"
    "o1 = Some f"
    "(s2, y) = handle opts (s\<lparr>off := off s + consumed f, slen := slen s - consumed f\<rparr>) f"
  from parse_consumed [OF a(2) [unfolded a(3)]] a(1) have "slen s - consumed f < slen s" by linarith
  moreover have "slen s2 \<le> slen s - consumed f"
    using handle_slen [of opts "s\<lparr>off := off s + consumed f, slen := slen s - consumed f\<rparr>" f]
    unfolding a(4) [symmetric] by simp
  ultimately show "((opts, s2), opts, s) \<in> measure (\<lambda>(opts, s). slen s)" by simp
qed simp

declare drain.simps [simp del]

definition push :: "sink_opts \<Rightarrow> sink \<Rightarrow> bytes \<Rightarrow> step_result" where
  "push opts s chunk =
     (if closed s then (s, [], None)
      else drain opts (if slen s = 0 then s\<lparr>buf := chunk, off := 0, slen := length chunk\<rparr>
                       else append_chunk s chunk))"

lemmas [eval] = new_sink_def max_fragments_def append_chunk_def release_def assertMessageSize_def
  appendFragment_def handle_control_def decode_text_def deliver_def handle_data_def handle_def
  fail_def push_def drain.simps

section \<open>The abstract assembler\<close>

type_synonym fragment = "8 word \<times> nat \<times> bytes"

datatype astate = Closed | Open bytes "fragment option"

definition adata :: "sink_opts \<Rightarrow> fragment option \<Rightarrow> frame \<Rightarrow> ws_error + fragment option \<times> ws_event list" where
  "adata opts fr f =
     (if opcode f = OP_CONTINUATION \<and> fr = None then Inl (ProtocolError NoInitialFrame)
      else if opcode f \<noteq> OP_CONTINUATION \<and> fr \<noteq> None then Inl (ProtocolError MessageInProgress)
      else (case (case fr of None \<Rightarrow> (opcode f, 0, []) | Some r \<Rightarrow> r) of (op, n, bs) \<Rightarrow>
        if max_fragments opts < Suc n then Inl (ProtocolError TooManyFragments)
        else if maxPayloadLength opts \<noteq> None \<and> the (maxPayloadLength opts) < length bs + length (payload f)
        then Inl (PayloadTooLarge (the (maxPayloadLength opts)) (length bs + length (payload f)))
        else if \<not> fin f then Inr (Some (op, Suc n, bs @ payload f), [])
        else if op = OP_BINARY then Inr (None, [BinaryMessage (bs @ payload f)])
        else (case decode_text (bs @ payload f) of
            None \<Rightarrow> Inl (ProtocolError InvalidUtf8Text)
          | Some t \<Rightarrow> Inr (None, [TextMessage t]))))"

definition ahandle :: "sink_opts \<Rightarrow> bytes \<Rightarrow> fragment option \<Rightarrow> frame \<Rightarrow> astate \<times> ws_event list \<times> ws_error option" where
  "ahandle opts rest fr f =
     (if is_control (opcode f) then
        (if opcode f = OP_CLOSE then
           (case decodeClosePayload (payload f) of
              Inl e \<Rightarrow> (Open rest fr, [], Some e)
            | Inr (code, reason) \<Rightarrow> (Closed, [Close code reason], None))
         else (Open rest fr, [if opcode f = OP_PING then Ping (payload f) else Pong (payload f)], None))
      else (case adata opts fr f of
          Inl e \<Rightarrow> (Open rest fr, [], Some e)
        | Inr (fr', evs) \<Rightarrow> (Open rest fr', evs, None)))"

definition afail :: "astate \<Rightarrow> ws_error \<Rightarrow> astate \<times> ws_event list \<times> ws_error option" where
  "afail st e = (if e = DecoderTypeError \<or> e = NoWebCrypto then (st, [], Some e) else (Closed, [Violation e], None))"

lemma ahandle_rest: "fst (ahandle opts rest fr f) = Open p fr' \<Longrightarrow> p = rest"
  by (auto simp: ahandle_def split: if_splits sum.splits prod.splits)

function adrain :: "sink_opts \<Rightarrow> bytes \<Rightarrow> fragment option \<Rightarrow> astate \<times> ws_event list \<times> ws_error option" where
  "adrain opts p fr =
     (if p = [] then (Open [] fr, [], None)
      else (case parseFrame p (requireMask opts) (maxPayloadLength opts) of
          Inl e \<Rightarrow> afail (Open p fr) e
        | Inr None \<Rightarrow> (Open p fr, [], None)
        | Inr (Some f) \<Rightarrow>
            (case ahandle opts (drop (consumed f) p) fr f of
               (st, evs, Some e) \<Rightarrow> (case afail st e of (st', evs', ex) \<Rightarrow> (st', evs @ evs', ex))
             | (Closed, evs, None) \<Rightarrow> (Closed, evs, None)
             | (Open p' fr', evs, None) \<Rightarrow> (case adrain opts p' fr' of (st, evs', ex) \<Rightarrow> (st, evs @ evs', ex)))))"
  by pat_completeness auto
termination
proof (relation "measure (\<lambda>(opts, p, fr). length p)")
  fix opts p fr o1 f st y p' fr' evs e1
  assume a: "p \<noteq> []" "parseFrame p (requireMask opts) (maxPayloadLength opts) = Inr o1" "o1 = Some f"
    "(st, y) = ahandle opts (drop (consumed f) p) fr f" "st = Open p' fr'"
  then have "p' = drop (consumed f) p" using ahandle_rest [of opts "drop (consumed f) p" fr f p' fr'] by (metis fst_conv)
  moreover from parse_consumed [OF a(2) [unfolded a(3)]] have "0 < consumed f" by simp
  ultimately show "((opts, p', fr'), opts, p, fr) \<in> measure (\<lambda>(opts, p, fr). length p)"
    using a(1) by simp
qed simp

declare adrain.simps [simp del]

definition apush :: "sink_opts \<Rightarrow> astate \<Rightarrow> bytes \<Rightarrow> astate \<times> ws_event list \<times> ws_error option" where
  "apush opts st chunk = (case st of Closed \<Rightarrow> (Closed, [], None) | Open p fr \<Rightarrow> adrain opts (p @ chunk) fr)"

section \<open>Refinement\<close>

definition live :: "sink \<Rightarrow> bytes" where
  "live s = take (slen s) (drop (off s) (buf s))"

definition afrag :: "sink \<Rightarrow> fragment option" where
  "afrag s = map_option (\<lambda>op. (op, fragmentCount s, take (fragmentBytes s) (msg s))) (fragmentOpcode s)"

definition abs_sink :: "sink \<Rightarrow> astate" where
  "abs_sink s = (if closed s then Closed else Open (live s) (afrag s))"

definition sink_inv :: "sink_opts \<Rightarrow> sink \<Rightarrow> bool" where
  "sink_inv opts s \<longleftrightarrow> off s + slen s \<le> length (buf s) \<and> (closed s \<longrightarrow> slen s = 0) \<and>
     (closed s \<or>
      (fragmentBytes s \<le> length (msg s)
       \<and> (fragmentOpcode s = None \<longrightarrow> fragmentBytes s = 0 \<and> fragmentCount s = 0 \<and> msg s = [])
       \<and> (fragmentOpcode s \<noteq> None \<longrightarrow> 0 < fragmentCount s)))
     \<and> (\<forall>limit. maxPayloadLength opts = Some limit \<longrightarrow> length (msg s) \<le> limit)"

lemma region_write:
  "k + n \<le> length b \<Longrightarrow> take (n + length c) (drop k (take (k + n) b @ c @ r)) = take n (drop k b) @ c"
  by (simp add: drop_take)

definition make_room :: "sink \<Rightarrow> nat \<Rightarrow> sink" where
  "make_room s need =
     (let liv = take (slen s) (drop (off s) (buf s)) in
      if length (buf s) < off s + need then
        (if need \<le> length (buf s) \<and> slen s \<le> off s
         then s\<lparr>buf := liv @ drop (slen s) (buf s), off := 0\<rparr>
         else s\<lparr>buf := liv @ replicate (max need (length (buf s) * 2) - slen s) 0, off := 0\<rparr>)
      else s)"

lemma append_chunk_room:
  "append_chunk s c = (let s1 = make_room s (slen s + length c) in
     s1\<lparr>buf := take (off s1 + slen s) (buf s1) @ c @ drop (off s1 + (slen s + length c)) (buf s1),
        slen := slen s + length c\<rparr>)"
  by (simp add: append_chunk_def make_room_def Let_def)

lemma make_room_facts:
  assumes "off s + slen s \<le> length (buf s)" "slen s \<le> need"
  shows "take (slen s) (drop (off (make_room s need)) (buf (make_room s need))) = live s"
    "off (make_room s need) + need \<le> length (buf (make_room s need))"
proof -
  have l: "length (live s) = slen s" using assms by (simp add: live_def)
  show "take (slen s) (drop (off (make_room s need)) (buf (make_room s need))) = live s"
    using l by (simp add: make_room_def Let_def live_def)
  have "max need (length (buf s) * 2) \<ge> need" by simp
  with assms l show "off (make_room s need) + need \<le> length (buf (make_room s need))"
    by (simp add: make_room_def Let_def)
qed

lemma make_room_frame:
  "slen (make_room s n) = slen s" "closed (make_room s n) = closed s" "msg (make_room s n) = msg s"
  "fragmentBytes (make_room s n) = fragmentBytes s" "fragmentOpcode (make_room s n) = fragmentOpcode s"
  "fragmentCount (make_room s n) = fragmentCount s"
  by (simp_all add: make_room_def Let_def)

lemma append_chunk_live:
  assumes "off s + slen s \<le> length (buf s)"
  shows "live (append_chunk s c) = live s @ c"
    "off (append_chunk s c) + slen (append_chunk s c) \<le> length (buf (append_chunk s c))"
proof -
  let ?n = "slen s + length c" let ?r = "make_room s ?n"
  have r: "take (slen s) (drop (off ?r) (buf ?r)) = live s" "off ?r + ?n \<le> length (buf ?r)"
    by (rule make_room_facts [OF assms], simp)+
  then have "off ?r + slen s \<le> length (buf ?r)" by simp
  from region_write [OF this, of c] have w: "take ?n (drop (off ?r) (take (off ?r + slen s) (buf ?r) @ c @ t))
      = live s @ c" for t unfolding r(1) .
  have "live (append_chunk s c)
      = take ?n (drop (off ?r) (take (off ?r + slen s) (buf ?r) @ c @ drop (off ?r + ?n) (buf ?r)))"
    unfolding live_def append_chunk_room Let_def by simp
  then show "live (append_chunk s c) = live s @ c" unfolding w .
  from r(2) show "off (append_chunk s c) + slen (append_chunk s c) \<le> length (buf (append_chunk s c))"
    by (simp only: append_chunk_room Let_def) simp
qed

lemma append_chunk_frame:
  "afrag (append_chunk s c) = afrag s" "closed (append_chunk s c) = closed s"
  "fragmentBytes (append_chunk s c) = fragmentBytes s" "msg (append_chunk s c) = msg s"
  "fragmentOpcode (append_chunk s c) = fragmentOpcode s" "fragmentCount (append_chunk s c) = fragmentCount s"
  by (simp_all add: append_chunk_room Let_def afrag_def make_room_frame)

lemma appendFragment_facts:
  assumes fb: "fragmentBytes s = n + length p" and n: "n \<le> length (msg s)"
  shows "take (n + length p) (msg (appendFragment opts s p)) = take n (msg s) @ p"
    "n + length p \<le> length (msg (appendFragment opts s p))"
    "maxPayloadLength opts = Some limit \<Longrightarrow> n + length p \<le> limit \<Longrightarrow> length (msg s) \<le> limit
       \<Longrightarrow> length (msg (appendFragment opts s p)) \<le> limit"
proof -
  define cap where "cap = (case maxPayloadLength opts of
      Some limit \<Rightarrow> if limit < max (n + length p) (length (msg s) * 2) then max (n + length p) limit
                    else max (n + length p) (length (msg s) * 2)
    | None \<Rightarrow> max (n + length p) (length (msg s) * 2))"
  have cap: "n + length p \<le> cap" by (auto simp: cap_def split: option.splits)
  define m where "m = (if length (msg s) < n + length p then take n (msg s) @ replicate (cap - n) 0 else msg s)"
  have a: "msg (appendFragment opts s p) = take n m @ p @ drop (n + length p) m"
    unfolding appendFragment_def Let_def fb m_def cap_def using n by (simp add: min_absorb2 cong: option.case_cong)
  have m: "take n m = take n (msg s)" "n + length p \<le> length m" using n cap by (auto simp: m_def)
  show "take (n + length p) (msg (appendFragment opts s p)) = take n (msg s) @ p"
    using m n by (simp add: a)
  show "n + length p \<le> length (msg (appendFragment opts s p))"
    using m n by (simp add: a min_absorb2)
  assume lim: "maxPayloadLength opts = Some limit" "n + length p \<le> limit" "length (msg s) \<le> limit"
  then have "cap \<le> limit" by (auto simp: cap_def)
  with m n lim show "length (msg (appendFragment opts s p)) \<le> limit"
    by (auto simp: a m_def)
qed

lemma appendFragment_frame:
  "off (appendFragment opts s p) = off s" "slen (appendFragment opts s p) = slen s"
  "buf (appendFragment opts s p) = buf s" "closed (appendFragment opts s p) = closed s"
  "fragmentBytes (appendFragment opts s p) = fragmentBytes s"
  "fragmentOpcode (appendFragment opts s p) = fragmentOpcode s"
  "fragmentCount (appendFragment opts s p) = fragmentCount s"
  by (simp_all add: appendFragment_def Let_def)

lemma afrag_simps:
  "afrag (s\<lparr>off := x, slen := y\<rparr>) = afrag s" "afrag (s\<lparr>buf := b, off := x\<rparr>) = afrag s"
  "afrag (s\<lparr>buf := b, off := x, slen := y\<rparr>) = afrag s"
  by (simp_all add: afrag_def)

lemma deliver_refines:
  assumes "deliver s j = (s2, evs, e)" "sink_inv opts s" "\<not> closed s" "fragmentOpcode s = Some op"
  shows "evs = (if op = OP_BINARY then [BinaryMessage j] else case decode_text j of None \<Rightarrow> [] | Some t \<Rightarrow> [TextMessage t])"
    "e = (if op \<noteq> OP_BINARY \<and> decode_text j = None then Some (ProtocolError InvalidUtf8Text) else None)"
    "sink_inv opts s2" "abs_sink s2 = Open (live s) None"
  using assms by (auto simp: deliver_def Let_def sink_inv_def abs_sink_def live_def afrag_def split: option.splits if_splits)

lemma adata_not_type:
  "adata opts fr f = Inl e \<Longrightarrow> e \<noteq> DecoderTypeError \<and> e \<noteq> NoWebCrypto"
  by (auto simp: adata_def split: if_splits option.splits prod.splits)

lemma handle_control_refines:
  assumes "handle_control s f = (s2, evs, e)" "sink_inv opts s" "\<not> closed s" "is_control (opcode f)"
  shows "ahandle opts (live s) (afrag s) f = (abs_sink s2, evs, e) \<and> sink_inv opts s2"
  using assms
  by (auto simp: handle_control_def ahandle_def abs_sink_def release_def sink_inv_def
      split: if_splits sum.splits prod.splits)

text \<open>One data frame that passes the checks, by case of the message in progress.\<close>

lemma handle_data_refines:
  assumes h: "handle_data opts s f = (s2, evs, e)" and inv: "sink_inv opts s" "\<not> closed s"
    and nc: "\<not> is_control (opcode f)"
  shows "(case adata opts (afrag s) f of
      Inl e' \<Rightarrow> e = Some e' \<and> evs = []
    | Inr (fr, evs') \<Rightarrow> e = None \<and> evs = evs' \<and> abs_sink s2 = Open (live s) fr \<and> sink_inv opts s2)"
proof -
  define op where "op = (case fragmentOpcode s of None \<Rightarrow> opcode f | Some q \<Rightarrow> q)"
  let ?bs = "take (fragmentBytes s) (msg s)" and ?p = "payload f"
  consider (noinit) "opcode f = OP_CONTINUATION" "fragmentOpcode s = None"
    | (busy) "opcode f \<noteq> OP_CONTINUATION" "fragmentOpcode s \<noteq> None"
    | (ok) "(opcode f = OP_CONTINUATION) = (fragmentOpcode s \<noteq> None)" by blast
  then show ?thesis
  proof cases
    case noinit
    with h show ?thesis by (auto simp: handle_data_def adata_def afrag_def)
  next
    case busy
    with h show ?thesis by (auto simp: handle_data_def adata_def afrag_def)
  next
    case ok
    define s1 where "s1 = s\<lparr>fragmentOpcode := Some op, fragmentCount := Suc (fragmentCount s)\<rparr>"
    have s1: "(if opcode f = OP_CONTINUATION then s else s\<lparr>fragmentOpcode := Some (opcode f)\<rparr>)
        \<lparr>fragmentCount := Suc (fragmentCount (if opcode f = OP_CONTINUATION then s else s\<lparr>fragmentOpcode := Some (opcode f)\<rparr>))\<rparr> = s1"
      using ok by (auto simp: s1_def op_def)
    from inv have fb: "fragmentBytes s \<le> length (msg s)" by (simp add: sink_inv_def)
    then have lb: "length ?bs = fragmentBytes s" by simp
    from ok have fr: "(case afrag s of None \<Rightarrow> (opcode f, 0, []) | Some r \<Rightarrow> r) = (op, fragmentCount s, ?bs)"
      using inv by (auto simp: afrag_def op_def sink_inv_def split: option.splits)
    have nr: "\<not> (opcode f = OP_CONTINUATION \<and> afrag s = None)" "\<not> (opcode f \<noteq> OP_CONTINUATION \<and> afrag s \<noteq> None)"
      using ok by (auto simp: afrag_def)
    note hd = h [unfolded handle_data_def Let_def s1]
    show ?thesis
    proof (cases "max_fragments opts < Suc (fragmentCount s)")
      case True
      with hd ok nr fr show ?thesis by (auto simp: adata_def s1_def)
    next
      case small: False
      show ?thesis
      proof (cases "maxPayloadLength opts \<noteq> None \<and> the (maxPayloadLength opts) < fragmentBytes s + length ?p")
        case True
        with hd ok nr fr small lb show ?thesis by (auto simp: adata_def s1_def assertMessageSize_def Let_def)
      next
        case fits: False
        define s3 where "s3 = s1\<lparr>fragmentBytes := fragmentBytes s + length ?p\<rparr>"
        have am: "assertMessageSize opts s1 (length ?p) = Inr s3"
          using fits by (auto simp: assertMessageSize_def s3_def s1_def)
        define s4 where "s4 = (if 0 < length ?p then appendFragment opts s3 ?p else s3)"
        have fb3: "fragmentBytes s3 = fragmentBytes s + length ?p" "fragmentBytes s \<le> length (msg s3)"
          using fb by (simp_all add: s3_def s1_def)
        have m4: "take (fragmentBytes s4) (msg s4) = ?bs @ ?p" "fragmentBytes s4 \<le> length (msg s4)"
          "fragmentBytes s4 = fragmentBytes s + length ?p"
          using appendFragment_facts(1,2) [OF fb3] fb3
          by (auto simp: s4_def appendFragment_frame s3_def s1_def)
        have f4: "live s4 = live s" "closed s4 = closed s" "fragmentOpcode s4 = Some op"
          "fragmentCount s4 = Suc (fragmentCount s)" "off s4 = off s" "slen s4 = slen s" "buf s4 = buf s"
          by (auto simp: s4_def appendFragment_frame s3_def s1_def live_def)
        have "\<forall>limit. maxPayloadLength opts = Some limit \<longrightarrow> length (msg s4) \<le> limit"
          using appendFragment_facts(3) [OF fb3] inv fits
          by (auto simp: s4_def sink_inv_def s3_def s1_def)
        with m4(2) f4 inv have i4: "sink_inv opts s4" by (simp add: sink_inv_def)
        have ad: "adata opts (afrag s) f =
          (if \<not> fin f then Inr (Some (op, Suc (fragmentCount s), ?bs @ ?p), [])
           else if op = OP_BINARY then Inr (None, [BinaryMessage (?bs @ ?p)])
           else (case decode_text (?bs @ ?p) of None \<Rightarrow> Inl (ProtocolError InvalidUtf8Text)
                 | Some t \<Rightarrow> Inr (None, [TextMessage t])))"
          using nr small fits lb by (auto simp: adata_def fr)
        show ?thesis
        proof (cases "fin f")
          case False
          with hd ok small am have "s2 = s4" "evs = []" "e = None"
            by (auto simp: s1_def s4_def)
          with ad False f4 m4 i4 inv show ?thesis by (simp add: abs_sink_def afrag_def)
        next
          case True
          have "\<exists>s'. deliver s' (?bs @ ?p) = (s2, evs, e) \<and> sink_inv opts s' \<and> \<not> closed s'
              \<and> fragmentOpcode s' = Some op \<and> live s' = live s"
          proof (cases "fragmentCount s = 0")
            case first: True
            with inv have fs: "fragmentOpcode s = None" by (auto simp: sink_inv_def)
            with inv have e: "fragmentBytes s = 0" "msg s = []" by (auto simp: sink_inv_def)
            define s' where "s' = s3\<lparr>fragmentBytes := 0\<rparr>"
            have "deliver s3 ?p = (s2, evs, e)" using hd ok small am True first by (auto simp: s1_def s3_def)
            moreover have "deliver s' ?p = deliver s3 ?p" by (simp add: deliver_def s'_def Let_def)
            moreover have "sink_inv opts s'" "\<not> closed s'" "fragmentOpcode s' = Some op" "live s' = live s"
              using inv e by (auto simp: s'_def s3_def s1_def sink_inv_def live_def)
            ultimately show ?thesis using e by auto
          next
            case False
            have "deliver s4 (take (fragmentBytes s4) (msg s4)) = (s2, evs, e)"
              using hd ok small am True False by (auto simp: s1_def s3_def s4_def)
            with m4 f4 i4 inv show ?thesis by (intro exI [of _ s4]) simp
          qed
          then obtain s' where d: "deliver s' (?bs @ ?p) = (s2, evs, e)" "sink_inv opts s'" "\<not> closed s'"
            "fragmentOpcode s' = Some op" "live s' = live s" by blast
          from deliver_refines [OF d(1-4)] d(5) ad True show ?thesis by (auto split: option.splits)
        qed
      qed
    qed
  qed
qed

lemma handle_refines:
  assumes "handle opts s f = (s2, evs, e)" "sink_inv opts s" "\<not> closed s"
  shows "\<exists>st. ahandle opts (live s) (afrag s) f = (st, evs, e) \<and>
    (e = None \<or> e = Some DecoderTypeError \<or> e = Some NoWebCrypto \<longrightarrow> abs_sink s2 = st \<and> sink_inv opts s2)"
proof (cases "is_control (opcode f)")
  case True
  with assms handle_control_refines [of s f s2 evs e opts] show ?thesis by (simp add: handle_def)
next
  case False
  with assms have "handle_data opts s f = (s2, evs, e)" by (simp add: handle_def)
  from handle_data_refines [OF this assms(2,3) False] False adata_not_type [of opts "afrag s" f]
  show ?thesis by (auto simp: ahandle_def split: sum.splits)
qed

lemma fail_refines:
  assumes "fail s e = (s2, evs, ex)" "sink_inv opts s" and "e = DecoderTypeError \<or> e = NoWebCrypto \<longrightarrow> abs_sink s = st"
  shows "afail st e = (abs_sink s2, evs, ex) \<and> sink_inv opts s2"
  using assms by (auto simp: fail_def afail_def abs_sink_def release_def sink_inv_def split: if_splits)

lemma fail_inv_closed:
  assumes "fail s e = (s2, evs, ex)" "\<not> (e = DecoderTypeError \<or> e = NoWebCrypto)"
  shows "afail st e = (abs_sink s2, evs, ex) \<and> sink_inv opts s2"
  using assms by (auto simp: fail_def afail_def abs_sink_def release_def sink_inv_def)

lemma parse_not_type: "parseFrame b rm mp = Inl e \<Longrightarrow> e \<noteq> DecoderTypeError \<and> e \<noteq> NoWebCrypto"
  by (auto simp: parseFrame_def payload_length_def Let_def split: if_splits option.splits sum.splits prod.splits)

lemma drain_refines:
  assumes "drain opts s = (s', evs, ex)" "sink_inv opts s" "\<not> closed s"
  shows "adrain opts (live s) (afrag s) = (abs_sink s', evs, ex) \<and> sink_inv opts s'"
  using assms
proof (induction opts s arbitrary: s' evs ex rule: drain.induct)
  case (1 opts s)
  note D = "1.prems"(1) [unfolded drain.simps [of opts s]] and I = "1.prems"(2,3)
  have ll: "length (live s) = slen s" using I by (auto simp: live_def sink_inv_def min_def)
  show ?case
  proof (cases "slen s = 0")
    case True
    with ll have "live s = []" by simp
    with D True I show ?thesis by (auto simp: adrain.simps abs_sink_def live_def afrag_simps sink_inv_def)
  next
    case False
    with ll have ne: "live s \<noteq> []" by auto
    have P: "take (slen s) (drop (off s) (buf s)) = live s" by (simp add: live_def)
    show ?thesis
    proof (cases "parseFrame (live s) (requireMask opts) (maxPayloadLength opts)")
      case (Inl e)
      with D False P have "fail s e = (s', evs, ex)" by simp
      from fail_inv_closed [OF this] parse_not_type [OF Inl] Inl ne show ?thesis by (simp add: adrain.simps)
    next
      case (Inr o1)
      show ?thesis
      proof (cases o1)
        case None
        with D False P Inr have "s' = s" "evs = []" "ex = None" by auto
        with I Inr None ne show ?thesis by (simp add: adrain.simps abs_sink_def)
      next
        case (Some f)
        define s1 where "s1 = s\<lparr>off := off s + consumed f, slen := slen s - consumed f\<rparr>"
        from parse_consumed Inr Some ll have c: "2 \<le> consumed f" "consumed f \<le> slen s" by metis+
        have l1: "live s1 = drop (consumed f) (live s)"
          by (simp add: s1_def live_def drop_take add.commute)
        have i1: "sink_inv opts s1" "\<not> closed s1" "afrag s1 = afrag s"
          using I c by (auto simp: s1_def sink_inv_def afrag_def)
        obtain s2 ev2 e2 where h: "handle opts s1 f = (s2, ev2, e2)" by (cases "handle opts s1 f")
        from handle_refines [OF h i1(1,2)] obtain st where
          a: "ahandle opts (drop (consumed f) (live s)) (afrag s) f = (st, ev2, e2)" and
          r: "e2 = None \<or> e2 = Some DecoderTypeError \<or> e2 = Some NoWebCrypto \<longrightarrow> abs_sink s2 = st \<and> sink_inv opts s2"
          unfolding l1 i1(3) by blast
        note D1 = D [unfolded P Inr Some sum.case option.case s1_def [symmetric] h prod.case]
        have A: "adrain opts (live s) (afrag s) = (case (st, ev2, e2) of
               (st, evs, Some e) \<Rightarrow> (case afail st e of (st', evs', ex) \<Rightarrow> (st', evs @ evs', ex))
             | (Closed, evs, None) \<Rightarrow> (Closed, evs, None)
             | (Open p' fr', evs, None) \<Rightarrow> (case adrain opts p' fr' of (st, evs', ex) \<Rightarrow> (st, evs @ evs', ex)))"
          unfolding adrain.simps [of opts "live s"] using ne by (simp add: Inr Some a)
        show ?thesis
        proof (cases e2)
          case (Some e)
          obtain s3 ev3 ex3 where fl: "fail s2 e = (s3, ev3, ex3)" by (cases "fail s2 e")
          have "afail st e = (abs_sink s3, ev3, ex3) \<and> sink_inv opts s3"
          proof (cases "e = DecoderTypeError \<or> e = NoWebCrypto")
            case True
            with r Some have "abs_sink s2 = st" "sink_inv opts s2" by auto
            with fail_refines [OF fl] show ?thesis by blast
          next
            case False
            with fail_inv_closed [OF fl] show ?thesis by blast
          qed
          with A D1 Some fl \<open>slen s \<noteq> 0\<close> show ?thesis by (cases st) auto
        next
          case None
          with r have b: "abs_sink s2 = st" "sink_inv opts s2" by auto
          show ?thesis
          proof (cases "closed s2")
            case True
            with A D1 None b \<open>slen s \<noteq> 0\<close> show ?thesis by (auto simp: abs_sink_def)
          next
            case open2: False
            obtain s3 ev3 ex3 where d3: "drain opts s2 = (s3, ev3, ex3)" by (cases "drain opts s2")
            have p: "parseFrame (take (slen s) (drop (off s) (buf s))) (requireMask opts) (maxPayloadLength opts) = Inr o1"
              using Inr P by simp
            have h': "(s2, ev2, e2) = handle opts (s\<lparr>off := off s + consumed f, slen := slen s - consumed f\<rparr>) f"
              using h by (simp add: s1_def)
            have "adrain opts (live s2) (afrag s2) = (abs_sink s3, ev3, ex3) \<and> sink_inv opts s3"
              by (rule "1.IH" [OF \<open>slen s \<noteq> 0\<close> p Some h' refl None open2 d3 b(2) open2])
            with A D1 None b d3 open2 \<open>slen s \<noteq> 0\<close> show ?thesis by (auto simp: abs_sink_def)
          qed
        qed
      qed
    qed
  qed
qed

inductive sink_reach :: "sink_opts \<Rightarrow> sink \<Rightarrow> bool" for opts where
  start: "sink_reach opts new_sink"
| push: "sink_reach opts s \<Longrightarrow> sink_reach opts (fst (push opts s chunk))"

lemma push_abs:
  assumes "sink_inv opts s" "push opts s chunk = (s', evs, ex)"
  shows "apush opts (abs_sink s) chunk = (abs_sink s', evs, ex) \<and> sink_inv opts s'"
proof (cases "closed s")
  case True
  with assms show ?thesis by (auto simp: push_def apush_def abs_sink_def)
next
  case False
  define s1 where "s1 = (if slen s = 0 then s\<lparr>buf := chunk, off := 0, slen := length chunk\<rparr> else append_chunk s chunk)"
  have o: "off s + slen s \<le> length (buf s)" using assms(1) by (simp add: sink_inv_def)
  have l: "live s1 = live s @ chunk" "afrag s1 = afrag s"
    using append_chunk_live(1) [OF o] by (auto simp: s1_def live_def afrag_def append_chunk_frame)
  have i: "sink_inv opts s1" "\<not> closed s1"
    using assms(1) False append_chunk_live(2) [OF o, of chunk]
    by (auto simp: s1_def sink_inv_def append_chunk_frame)
  from assms(2) False have "drain opts s1 = (s', evs, ex)" by (simp add: push_def s1_def)
  from drain_refines [OF this i] l False show ?thesis by (simp add: apush_def abs_sink_def)
qed

lemma sink_reach_inv: "sink_reach opts s \<Longrightarrow> sink_inv opts s"
proof (induction rule: sink_reach.induct)
  case start
  show ?case by (simp add: sink_inv_def new_sink_def)
next
  case (push s chunk)
  then show ?case using push_abs [OF push.IH] by (metis prod.collapse)
qed

text \<open>
  C7. The buffered assembler refines the abstract one: on every reachable sink, \<open>push\<close>
  (with its compaction, doubling, capacity limits and the single-copy path for unfragmented
  messages) fires the callbacks and ends in the state of plain concatenation of the
  pending bytes and of the fragments.
\<close>

theorem push_refines:
  assumes "sink_reach opts s"
  shows "apush opts (abs_sink s) chunk
    = (case push opts s chunk of (s', evs, ex) \<Rightarrow> (abs_sink s', evs, ex))"
  using push_abs [OF sink_reach_inv [OF assms], of chunk] by (simp split: prod.splits)

lemma adrain_append:
  assumes "adrain opts p fr = (st, evs, None)"
  shows "adrain opts (p @ q) fr = (case st of Closed \<Rightarrow> (Closed, evs, None)
    | Open p' fr' \<Rightarrow> (case adrain opts (p' @ q) fr' of (st', evs', ex) \<Rightarrow> (st', evs @ evs', ex)))"
  using assms
proof (induction opts p fr arbitrary: st evs rule: adrain.induct)
  case (1 opts p fr)
  note D = "1.prems" [unfolded adrain.simps [of opts p]]
  show ?case
  proof (cases "p = []")
    case True
    with D have "st = Open [] fr" "evs = []" by auto
    with True show ?thesis by (simp split: prod.splits)
  next
    case ne: False
    show ?thesis
    proof (cases "parseFrame p (requireMask opts) (maxPayloadLength opts)")
      case (Inl e)
      with D ne have "st = Closed" "evs = [Violation e]" "\<not> (e = DecoderTypeError \<or> e = NoWebCrypto)"
        by (auto simp: afail_def split: if_splits)
      with parse_mono_error [OF Inl, of q] ne show ?thesis
        unfolding adrain.simps [of opts "p @ q"] by (simp add: afail_def)
    next
      case (Inr o1)
      show ?thesis
      proof (cases o1)
        case None
        with D ne Inr have "st = Open p fr" "evs = []" by auto
        then show ?thesis by (simp split: prod.splits)
      next
        case (Some f)
        note par = Inr [unfolded Some]
        from parse_consumed [OF par] have dq: "drop (consumed f) (p @ q) = drop (consumed f) p @ q" by simp
        obtain st1 ev1 e1 where a: "ahandle opts (drop (consumed f) p) fr f = (st1, ev1, e1)"
          by (cases "ahandle opts (drop (consumed f) p) fr f")
        have aq: "ahandle opts (drop (consumed f) p @ q) fr f
            = ((case st1 of Closed \<Rightarrow> Closed | Open p' fr' \<Rightarrow> Open (p' @ q) fr'), ev1, e1)"
          using a by (auto simp: ahandle_def split: if_splits sum.splits)
        note D1 = D [unfolded par sum.case option.case a prod.case]
        have Q: "adrain opts (p @ q) fr = (case ((case st1 of Closed \<Rightarrow> Closed | Open p' fr' \<Rightarrow> Open (p' @ q) fr'), ev1, e1) of
               (st, evs, Some e) \<Rightarrow> (case afail st e of (st', evs', ex) \<Rightarrow> (st', evs @ evs', ex))
             | (Closed, evs, None) \<Rightarrow> (Closed, evs, None)
             | (Open p' fr', evs, None) \<Rightarrow> (case adrain opts p' fr' of (st, evs', ex) \<Rightarrow> (st, evs @ evs', ex)))"
          unfolding adrain.simps [of opts "p @ q"] using ne by (simp add: parse_mono_frame [OF par] dq aq del: drop_append)
        show ?thesis
        proof (cases e1)
          case (Some e)
          with D1 ne have "st = Closed \<and> evs = ev1 @ [Violation e] \<and> \<not> (e = DecoderTypeError \<or> e = NoWebCrypto)"
            by (cases st1) (auto simp: afail_def split: if_splits)
          with Q Some show ?thesis by (cases st1) (auto simp: afail_def)
        next
          case None
          show ?thesis
          proof (cases st1)
            case Closed
            with D1 None ne Q show ?thesis by simp
          next
            case (Open p' fr')
            obtain st2 ev2 where d2: "adrain opts p' fr' = (st2, ev2, None)" "st = st2" "evs = ev1 @ ev2"
              using D1 None Open ne by (auto split: prod.splits)
            have "adrain opts (p' @ q) fr' = (case st2 of Closed \<Rightarrow> (Closed, ev2, None)
                | Open p' fr' \<Rightarrow> (case adrain opts (p' @ q) fr' of (st', evs', ex) \<Rightarrow> (st', ev2 @ evs', ex)))"
              by (rule "1.IH" [OF ne Inr Some _ Open _ None d2(1), of _ ev1]) (simp_all add: a None)
            with Q None Open d2 show ?thesis by (auto split: astate.splits prod.splits)
          qed
        qed
      qed
    qed
  qed
qed

text \<open>
  C8. The cut of the stream into chunks is invisible: pushing \<open>a\<close> and then \<open>b\<close> fires the
  same callbacks, raises the same exception and leaves the same abstract state as pushing
  \<open>a @ b\<close>, provided no exception escaped while \<open>a\<close> was processed.
\<close>

theorem push_segmentation:
  assumes "sink_reach opts s" and "push opts s a = (s1, ev1, None)" and "push opts s1 b = (s2, ev2, ex)"
  shows "\<exists>s3. push opts s (a @ b) = (s3, ev1 @ ev2, ex) \<and> abs_sink s3 = abs_sink s2"
proof -
  note inv = sink_reach_inv [OF assms(1)]
  obtain s3 ev3 ex3 where p3: "push opts s (a @ b) = (s3, ev3, ex3)" by (cases "push opts s (a @ b)")
  from push_abs [OF inv assms(2)] have A: "apush opts (abs_sink s) a = (abs_sink s1, ev1, None)" and i1: "sink_inv opts s1" by simp_all
  from push_abs [OF i1 assms(3)] have B: "apush opts (abs_sink s1) b = (abs_sink s2, ev2, ex)" by simp
  from push_abs [OF inv p3] have C: "apush opts (abs_sink s) (a @ b) = (abs_sink s3, ev3, ex3)" by simp
  have "(abs_sink s3, ev3, ex3) = (abs_sink s2, ev1 @ ev2, ex)"
  proof (cases "abs_sink s")
    case Closed
    with A B C show ?thesis by (auto simp: apush_def)
  next
    case (Open p fr)
    with A have a: "adrain opts (p @ a) fr = (abs_sink s1, ev1, None)" by (simp add: apush_def)
    from adrain_append [OF this, of b] B C Open show ?thesis
      by (auto simp: apush_def split: astate.splits prod.splits)
  qed
  with p3 show ?thesis by auto
qed

lemma adrain_pending:
  assumes "adrain opts p fr = (Open q fr', evs, None)" and "maxPayloadLength opts = Some limit"
  shows "length q < 14 + max limit 125"
  using assms
proof (induction opts p fr arbitrary: evs rule: adrain.induct)
  case (1 opts p fr)
  note D = "1.prems"(1) [unfolded adrain.simps [of opts p]]
  show ?case
  proof (cases "p = []")
    case True
    with D show ?thesis by auto
  next
    case ne: False
    show ?thesis
    proof (cases "parseFrame p (requireMask opts) (maxPayloadLength opts)")
      case (Inl e)
      with D ne show ?thesis by (auto simp: afail_def split: if_splits)
    next
      case (Inr o1)
      show ?thesis
      proof (cases o1)
        case None
        with D ne Inr have "q = p" by auto
        with parse_incomplete_bound Inr None "1.prems"(2) show ?thesis by metis
      next
        case (Some f)
        obtain st1 ev1 e1 where a: "(st1, ev1, e1) = ahandle opts (drop (consumed f) p) fr f"
          by (metis prod_cases3)
        note D1 = D [unfolded Inr Some sum.case option.case a [symmetric] prod.case]
        show ?thesis
        proof (cases e1)
          case (Some e)
          with D1 ne show ?thesis by (cases st1) (auto simp: afail_def split: if_splits)
        next
          case None
          with D1 ne obtain p' fr1 where o: "st1 = Open p' fr1" by (cases st1) auto
          with D1 None ne obtain ev2 where "adrain opts p' fr1 = (Open q fr', ev2, None)"
            by (auto split: prod.splits)
          from "1.IH" [OF ne Inr Some a o refl None this "1.prems"(2)] show ?thesis .
        qed
      qed
    qed
  qed
qed


text \<open>Witnesses: two chunks that cut a masked text frame, and a fragmented message.\<close>

definition server_opts :: sink_opts where
  "server_opts = \<lparr> requireMask = True, maxPayloadLength = Some 16, maxFragments = None \<rparr>"

definition cut_sink :: sink where
  "cut_sink = fst (push server_opts new_sink [0x81, 0x82, 1, 2])"

lemma cut_reach: "sink_reach server_opts cut_sink"
  unfolding cut_sink_def by (intro sink_reach.intros)

theorem push_refines_witness:
  "apush server_opts (abs_sink cut_sink) [3, 4, 0x69, 0x6B] = (Open [] None, [TextMessage (js ''hi'')], None)"
  unfolding push_refines [OF cut_reach]
  by (simp add: cut_sink_def server_opts_def eval Let_def abs_sink_def live_def afrag_def)

theorem push_segmentation_witness:
  "\<exists>s3. push server_opts new_sink ([0x81, 0x82, 1, 2] @ [3, 4, 0x69, 0x6B])
     = (s3, [TextMessage (js ''hi'')], None)"
proof -
  have a: "push server_opts new_sink [0x81, 0x82, 1, 2] = (cut_sink, [], None)"
    by (simp add: cut_sink_def server_opts_def eval Let_def)
  have b: "push server_opts cut_sink [3, 4, 0x69, 0x6B]
      = (fst (push server_opts cut_sink [3, 4, 0x69, 0x6B]), [TextMessage (js ''hi'')], None)"
    by (simp add: cut_sink_def server_opts_def eval Let_def)
  from push_segmentation [OF sink_reach.start a b] show ?thesis by auto
qed


text \<open>
  A CLOSE frame whose reason is not valid UTF-8 is not reported as a protocol
  violation: the decoder's \<open>TypeError\<close> escapes \<open>push\<close> (into the socket's \<open>data\<close> listener),
  no callback fires, the sink stays open, and the bytes behind the bad frame are still
  delivered by the next call.
\<close>

lemma close_reason_escapes:
  "\<exists>s1. push server_opts new_sink
       [0x88, 0x83, 0, 0, 0, 0, 0x03, 0xE8, 0xFF, 0x81, 0x81, 0, 0, 0, 0, 0x61] = (s1, [], Some DecoderTypeError)
     \<and> \<not> closed s1
     \<and> fst (snd (push server_opts s1 [])) = [TextMessage (js ''a'')]"
  by (simp add: server_opts_def eval Let_def)

text \<open>
  A text message that begins with a byte order mark is delivered without it: the
  fatal \<open>TextDecoder\<close> is built without \<open>ignoreBOM\<close>, so a valid frame is altered.
\<close>

lemma text_bom_dropped:
  "fst (snd (push server_opts new_sink [0x81, 0x84, 0, 0, 0, 0, 0xEF, 0xBB, 0xBF, 0x61])) = [TextMessage (js ''a'')]
   \<and> encodeFrame True 1 (byte_list (utf8_encode [65279, 97])) True (Some [0, 0, 0, 0])
       = Inr [0x81, 0x84, 0, 0, 0, 0, 0xEF, 0xBB, 0xBF, 0x61]"
  by (simp add: server_opts_def eval Let_def)

end
