(* ===== verification/Jobs.thy ===== *)
theory Jobs
  imports JsText "HOL-Library.List_Lexorder"
begin

text \<open>
  \<open>jobs.ts\<close>: names and keys, the in-memory job store, enqueueing and the settling of a
  worker's run.

  A record's payload and result are represented by their JSON text (\<open>put\<close> stringifies,
  \<open>clone\<close> parses back).  Times are integers (epoch milliseconds).  The source mutates the
  stored record; here an operation returns the store with the record replaced in place
  (\<open>AList.update\<close> keeps the insertion order of the \<open>Map\<close>).  The clock, the random id,
  the serializer and the jitter are arguments.
\<close>

section \<open>Names and keys\<close>

definition lower_letter :: "nat \<Rightarrow> bool" where "lower_letter c \<longleftrightarrow> 97 \<le> c \<and> c \<le> 122"
definition letter :: "nat \<Rightarrow> bool" where "letter c \<longleftrightarrow> lower_letter c \<or> (65 \<le> c \<and> c \<le> 90)"
definition key_char :: "nat \<Rightarrow> bool" where "key_char c \<longleftrightarrow> 33 \<le> c \<and> c \<le> 126"

datatype job_error =
    InvalidName
  | InvalidOption
  | InvalidPayload
  | PayloadTooLarge
  | StoreFull
  | IdempotencyConflict jstr jstr

definition assertJobName :: "jstr \<Rightarrow> job_error + jstr" where
  "assertJobName name =
     (if name \<noteq> [] \<and> letter (hd name) \<and> length name \<le> 128
         \<and> list_all (\<lambda>c. letter c \<or> is_digit c \<or> c \<in> {46, 95, 58, 45}) (tl name)
      then Inr name else Inl InvalidName)"

definition assertQueueName :: "jstr \<Rightarrow> job_error + jstr" where
  "assertQueueName q =
     (if q \<noteq> [] \<and> length q \<le> 64 \<and> list_all (\<lambda>c. letter c \<or> is_digit c \<or> c \<in> {95, 58, 45}) q
      then Inr q else Inl InvalidName)"

definition assertIdempotencyKey :: "jstr \<Rightarrow> job_error + jstr" where
  "assertIdempotencyKey k =
     (if k \<noteq> [] \<and> length k \<le> 255 \<and> list_all key_char k then Inr k else Inl InvalidOption)"

definition tenant_ok :: "jstr \<Rightarrow> bool" where
  "tenant_ok t \<longleftrightarrow> t \<noteq> [] \<and> length t \<le> 63
     \<and> (lower_letter (hd t) \<or> is_digit (hd t)) \<and> (lower_letter (last t) \<or> is_digit (last t))
     \<and> list_all (\<lambda>c. lower_letter c \<or> is_digit c \<or> c \<in> {95, 45}) t"

definition assertTenant :: "jstr \<Rightarrow> job_error + jstr" where
  "assertTenant t = (if tenant_ok t then Inr t else Inl InvalidOption)"

definition jobIdempotencyKey :: "jstr option \<Rightarrow> jstr \<Rightarrow> jstr \<Rightarrow> job_error + jstr" where
  "jobIdempotencyKey tenant name key =
     (case assertJobName name of
        Inl e \<Rightarrow> Inl e
      | Inr name \<Rightarrow>
          (if key = [] \<or> \<not> list_all key_char key \<or> sublist (js ''..'') key then Inl InvalidOption
           else (case (case tenant of None \<Rightarrow> Inr (js ''g'')
                       | Some t \<Rightarrow> (case assertTenant t of Inl e \<Rightarrow> Inl e | Inr t \<Rightarrow> Inr (js ''t/'' @ t))) of
               Inl e \<Rightarrow> Inl e
             | Inr scope \<Rightarrow>
                 (let out = scope @ 47 # name @ 47 # key in
                  if 255 < length out then Inl InvalidOption else Inr out))))"

section \<open>Backoff\<close>

text \<open>
  \<open>base * 2 ** (attempt - 1)\<close> is \<open>0 * Infinity\<close>, that is \<open>NaN\<close> (\<open>None\<close>), for base 0 and an
  attempt above 1024.  \<open>jitter e\<close> is \<open>Math.floor(random() * e)\<close>.
\<close>

definition computeBackoffMs :: "nat \<Rightarrow> nat \<Rightarrow> nat \<Rightarrow> (nat \<Rightarrow> nat) \<Rightarrow> nat option" where
  "computeBackoffMs attempt base mx jitter =
     (let n = attempt - 1 in
      if base = 0 \<and> 1024 \<le> n then None
      else Some (jitter (min mx (base * 2 ^ n))))"

section \<open>Records\<close>

datatype job_status = Queued | Delayed | Running | Completed | Dead | Cancelled

record job =
  id :: jstr
  queue :: jstr
  jname :: jstr
  payloadJson :: jstr
  status :: job_status
  attempts :: nat
  maxAttempts :: nat
  runAt :: int
  createdAt :: int
  updatedAt :: int
  leaseUntil :: "int option"
  lockedBy :: "jstr option"
  leaseMs :: int
  idempotencyKey :: "jstr option"
  priority :: int
  timeoutMs :: int
  lastError :: "jstr option"
  completedAt :: "int option"
  resultJson :: "jstr option"
  tenant :: "jstr option"

abbreviation terminal :: "job_status \<Rightarrow> bool" where
  "terminal st \<equiv> st = Completed \<or> st = Dead \<or> st = Cancelled"

record store =
  jobs :: "(jstr, job) assoc"
  idem :: "(jstr, jstr) assoc"
  capacity :: nat
  retentionMs :: int
  deadRetentionMs :: int
  reapedDead :: "jstr list"

definition new_store :: "nat \<Rightarrow> int \<Rightarrow> int \<Rightarrow> store option" where
  "new_store cap ret dret =
     (if cap < 1 \<or> ret < 0 \<or> dret < 0 then None
      else Some \<lparr> jobs = [], idem = [], capacity = cap, retentionMs = ret, deadRetentionMs = dret,
                  reapedDead = [] \<rparr>)"

section \<open>The claim order\<close>

text \<open>The sort key of \<open>compareRunnable\<close>; \<open>a < b\<close> is a negative comparison.\<close>

datatype run_key = RunKey (rk_priority: int) (rk_runAt: int) (rk_createdAt: int) (rk_id: jstr)

definition run_key :: "job \<Rightarrow> run_key" where
  "run_key j = RunKey (priority j) (runAt j) (createdAt j) (id j)"

definition compareRunnable :: "run_key \<Rightarrow> run_key \<Rightarrow> int" where
  "compareRunnable a b =
     (if rk_priority a \<noteq> rk_priority b then rk_priority b - rk_priority a
      else if rk_runAt a \<noteq> rk_runAt b then rk_runAt a - rk_runAt b
      else if rk_createdAt a \<noteq> rk_createdAt b then rk_createdAt a - rk_createdAt b
      else if rk_id a < rk_id b then -1 else if rk_id b < rk_id a then 1 else 0)"

instantiation run_key :: linorder
begin

definition less_run_key :: "run_key \<Rightarrow> run_key \<Rightarrow> bool" where
  "less_run_key a b \<longleftrightarrow> compareRunnable a b < 0"

definition less_eq_run_key :: "run_key \<Rightarrow> run_key \<Rightarrow> bool" where
  "less_eq_run_key a b \<longleftrightarrow> compareRunnable a b \<le> 0"

instance
proof
  fix x y z :: run_key
  show "x < y \<longleftrightarrow> x \<le> y \<and> \<not> y \<le> x"
    by (cases x; cases y) (auto simp: less_run_key_def less_eq_run_key_def compareRunnable_def)
  show "x \<le> x"
    by (simp add: less_eq_run_key_def compareRunnable_def)
  show "x \<le> y \<Longrightarrow> y \<le> z \<Longrightarrow> x \<le> z"
    by (cases x; cases y; cases z)
      (auto simp: less_eq_run_key_def compareRunnable_def split: if_splits)
  show "x \<le> y \<Longrightarrow> y \<le> x \<Longrightarrow> x = y"
    by (cases x; cases y) (auto simp: less_eq_run_key_def compareRunnable_def split: if_splits)
  show "x \<le> y \<or> y \<le> x"
    by (cases x; cases y) (auto simp: less_eq_run_key_def compareRunnable_def)
qed

end

section \<open>Store operations\<close>

definition put_job :: "job \<Rightarrow> store \<Rightarrow> store" where
  "put_job j s = s\<lparr>jobs := AList.update (id j) j (jobs s)\<rparr>"

definition idem_key :: "jstr \<Rightarrow> jstr \<Rightarrow> jstr" where
  "idem_key q k = q @ 0 # k"

text \<open>\<open>reapLeases\<close>: one record, then the whole map in iteration order.\<close>

definition lease_expired :: "int \<Rightarrow> job \<Rightarrow> bool" where
  "lease_expired now j \<longleftrightarrow> status j = Running \<and> (case leaseUntil j of None \<Rightarrow> False | Some l \<Rightarrow> l < now)"

definition reap_job :: "int \<Rightarrow> job \<Rightarrow> job" where
  "reap_job now j =
     (if lease_expired now j then
        (if maxAttempts j \<le> attempts j
         then j\<lparr>status := Dead, runAt := now, lastError := Some (js ''lease expired after max attempts''),
                lockedBy := None, leaseUntil := None, updatedAt := now\<rparr>
         else j\<lparr>status := Queued, lockedBy := None, leaseUntil := None, updatedAt := now\<rparr>)
      else j)"

definition push_reaped :: "jstr list \<Rightarrow> jstr \<Rightarrow> jstr list" where
  "push_reaped buf i = (if 1000 \<le> length buf then tl buf else buf) @ [i]"

definition reapLeases :: "int \<Rightarrow> store \<Rightarrow> store" where
  "reapLeases now s =
     s\<lparr>jobs := map (\<lambda>(i, j). (i, reap_job now j)) (jobs s),
       reapedDead := foldl push_reaped (reapedDead s)
         (map (\<lambda>(i, j). id j) (filter (\<lambda>(i, j). lease_expired now j \<and> maxAttempts j \<le> attempts j) (jobs s)))\<rparr>"

definition retention_of :: "store \<Rightarrow> job \<Rightarrow> int option" where
  "retention_of s j =
     (if status j = Dead then Some (deadRetentionMs s)
      else if status j = Completed \<or> status j = Cancelled then Some (retentionMs s)
      else None)"

definition purgeable :: "store \<Rightarrow> int \<Rightarrow> job \<Rightarrow> bool" where
  "purgeable s now j \<longleftrightarrow> (case retention_of s j of None \<Rightarrow> False | Some r \<Rightarrow> r < now - updatedAt j)"

fun drop_idem :: "job list \<Rightarrow> (jstr, jstr) assoc \<Rightarrow> (jstr, jstr) assoc" where
  "drop_idem [] m = m"
| "drop_idem (j # rest) m =
     drop_idem rest (case idempotencyKey j of None \<Rightarrow> m | Some k \<Rightarrow> AList.delete (idem_key (queue j) k) m)"

definition purgeExpiredTerminal :: "int \<Rightarrow> store \<Rightarrow> store" where
  "purgeExpiredTerminal now s =
     s\<lparr>jobs := filter (\<lambda>(i, j). \<not> purgeable s now j) (jobs s),
       idem := drop_idem (map snd (filter (\<lambda>(i, j). purgeable s now j) (jobs s))) (idem s)\<rparr>"

definition insert_job :: "job \<Rightarrow> int \<Rightarrow> store \<Rightarrow> store" where
  "insert_job j now s =
     put_job (j\<lparr>status := (if now < runAt j then Delayed else Queued), updatedAt := now,
                leaseUntil := None, lockedBy := None, lastError := None, completedAt := None,
                resultJson := None\<rparr>) s"

definition make_space :: "int \<Rightarrow> store \<Rightarrow> store" where
  "make_space now s = (if capacity s \<le> length (jobs s) then purgeExpiredTerminal now s else s)"

definition stored :: "store \<Rightarrow> jstr \<Rightarrow> job" where
  "stored s i = the (map_of (jobs s) i)"

text \<open>\<open>put\<close>: the result is the record and the \<open>duplicate\<close> flag.\<close>

definition put :: "job \<Rightarrow> int \<Rightarrow> store \<Rightarrow> (job_error + job \<times> bool) \<times> store" where
  "put j now s =
     (let fresh = (\<lambda>mark.
            (let s1 = make_space now s in
             if capacity s1 \<le> length (jobs s1) then (Inl StoreFull, s1)
             else (let s2 = mark (insert_job j now s1) in (Inr (stored s2 (id j), False), s2))))
      in case idempotencyKey j of
        None \<Rightarrow> fresh (\<lambda>s. s)
      | Some k \<Rightarrow>
          (let ik = idem_key (queue j) k;
               new = fresh (\<lambda>s. s\<lparr>idem := AList.update ik (id j) (idem s)\<rparr>)
           in case map_of (idem s) ik of
             None \<Rightarrow> new
           | Some existingId \<Rightarrow>
               (case map_of (jobs s) existingId of
                  None \<Rightarrow> new
                | Some existing \<Rightarrow>
                    (if payloadJson existing \<noteq> payloadJson j then (Inl (IdempotencyConflict k existingId), s)
                     else (Inr (existing, True), s)))))"

definition runnable :: "jstr \<Rightarrow> int \<Rightarrow> job \<Rightarrow> bool" where
  "runnable q now j \<longleftrightarrow> queue j = q \<and> (status j = Queued \<or> (status j = Delayed \<and> runAt j \<le> now))"

fun best_of :: "job option \<Rightarrow> job list \<Rightarrow> job option" where
  "best_of b [] = b"
| "best_of b (j # rest) =
     best_of (case b of None \<Rightarrow> Some j
              | Some k \<Rightarrow> if compareRunnable (run_key j) (run_key k) < 0 then Some j else Some k) rest"

definition claim :: "jstr \<Rightarrow> jstr \<Rightarrow> int \<Rightarrow> store \<Rightarrow> job option \<times> store" where
  "claim q worker now s =
     (let s1 = reapLeases now s in
      case best_of None (filter (runnable q now) (map snd (jobs s1))) of
        None \<Rightarrow> (None, s1)
      | Some b \<Rightarrow>
          (let b' = b\<lparr>status := Running, lockedBy := Some worker, leaseUntil := Some (now + leaseMs b),
                      attempts := attempts b + 1, updatedAt := now\<rparr>
           in (Some b', put_job b' s1)))"

definition ownedRunning :: "store \<Rightarrow> jstr \<Rightarrow> jstr \<Rightarrow> nat option \<Rightarrow> job option" where
  "ownedRunning s i worker attempt =
     (case map_of (jobs s) i of
        None \<Rightarrow> None
      | Some j \<Rightarrow>
          (if status j \<noteq> Running \<or> lockedBy j \<noteq> Some worker then None
           else if attempt \<noteq> None \<and> attempt \<noteq> Some (attempts j) then None
           else Some j))"

definition heartbeat :: "jstr \<Rightarrow> jstr \<Rightarrow> int \<Rightarrow> int \<Rightarrow> nat option \<Rightarrow> store \<Rightarrow> bool \<times> store" where
  "heartbeat i worker lease now attempt s =
     (case ownedRunning s i worker attempt of
        None \<Rightarrow> (False, s)
      | Some j \<Rightarrow>
          (if (case leaseUntil j of None \<Rightarrow> False | Some l \<Rightarrow> l < now) then (False, s)
           else (True, put_job (j\<lparr>leaseUntil := Some lease, updatedAt := now\<rparr>) s)))"

definition complete :: "jstr \<Rightarrow> jstr \<Rightarrow> int \<Rightarrow> jstr option \<Rightarrow> nat option \<Rightarrow> store \<Rightarrow> bool \<times> store" where
  "complete i worker now result attempt s =
     (case ownedRunning s i worker attempt of
        None \<Rightarrow> (False, s)
      | Some j \<Rightarrow>
          (True, put_job (j\<lparr>status := Completed, completedAt := Some now, resultJson := result,
                            lockedBy := None, leaseUntil := None, updatedAt := now\<rparr>) s))"

definition failed_record :: "job \<Rightarrow> jstr \<Rightarrow> job_status \<times> int \<Rightarrow> int \<Rightarrow> job" where
  "failed_record j err nxt now =
     (let j1 = j\<lparr>lastError := Some err, lockedBy := None, leaseUntil := None\<rparr>;
          j2 = (if maxAttempts j1 \<le> attempts j1 then j1\<lparr>status := Dead, runAt := now\<rparr>
                else j1\<lparr>status := fst nxt, runAt := (if fst nxt = Delayed then snd nxt else now)\<rparr>)
      in j2\<lparr>updatedAt := now\<rparr>)"

definition fail_job :: "jstr \<Rightarrow> jstr \<Rightarrow> jstr \<Rightarrow> job_status \<times> int \<Rightarrow> int \<Rightarrow> nat option \<Rightarrow> store \<Rightarrow> bool \<times> store" where
  "fail_job i worker err nxt now attempt s =
     (case ownedRunning s i worker attempt of
        None \<Rightarrow> (False, s)
      | Some j \<Rightarrow> (True, put_job (failed_record j err nxt now) s))"

definition cancel :: "jstr \<Rightarrow> int \<Rightarrow> store \<Rightarrow> bool \<times> store" where
  "cancel i now s =
     (case map_of (jobs s) i of
        None \<Rightarrow> (False, s)
      | Some j \<Rightarrow>
          (if terminal (status j) then (False, s)
           else (True, put_job (j\<lparr>status := Cancelled, lockedBy := None, leaseUntil := None, updatedAt := now\<rparr>) s)))"

definition get_job :: "jstr \<Rightarrow> int \<Rightarrow> store \<Rightarrow> job option \<times> store" where
  "get_job i now s = (let s1 = reapLeases now s in (map_of (jobs s1) i, s1))"

record list_filter =
  f_queue :: "jstr option"
  f_status :: "job_status list option"
  f_name :: "jstr option"
  f_tenant :: "jstr option"

definition passes :: "list_filter \<Rightarrow> job \<Rightarrow> bool" where
  "passes f j \<longleftrightarrow>
     (f_queue f = None \<or> f_queue f = Some (queue j))
     \<and> (case f_status f of None \<Rightarrow> True | Some sts \<Rightarrow> status j \<in> set sts)
     \<and> (f_name f = None \<or> f_name f = Some (jname j))
     \<and> (f_tenant f = None \<or> f_tenant f = tenant j)"

definition list_jobs :: "list_filter \<Rightarrow> int \<Rightarrow> store \<Rightarrow> job list \<times> store" where
  "list_jobs f now s =
     (let s1 = reapLeases now s in
      (sort_key (\<lambda>j. RunKey 0 0 (createdAt j) (id j)) (filter (passes f) (map snd (jobs s1))), s1))"

definition takeReaped :: "jstr \<Rightarrow> int \<Rightarrow> store \<Rightarrow> job list \<times> store" where
  "takeReaped q now s =
     (let s1 = reapLeases now s;
          known = filter (\<lambda>i. map_of (jobs s1) i \<noteq> None) (reapedDead s1)
      in if reapedDead s1 = [] then ([], s1)
         else (map (stored s1) (filter (\<lambda>i. queue (stored s1 i) = q) known),
               s1\<lparr>reapedDead := filter (\<lambda>i. queue (stored s1 i) \<noteq> q) known\<rparr>))"

lemmas [eval] = lower_letter_def letter_def key_char_def assertJobName_def assertQueueName_def
  assertIdempotencyKey_def tenant_ok_def assertTenant_def jobIdempotencyKey_def computeBackoffMs_def
  new_store_def run_key_def compareRunnable_def put_job_def idem_key_def lease_expired_def reap_job_def
  push_reaped_def reapLeases_def retention_of_def purgeable_def purgeExpiredTerminal_def insert_job_def
  make_space_def stored_def put_def runnable_def claim_def ownedRunning_def heartbeat_def complete_def
  failed_record_def fail_job_def cancel_def get_job_def passes_def takeReaped_def

section \<open>Operations as steps\<close>

datatype op =
    Put job int
  | Claim jstr jstr int
  | Beat jstr jstr int int "nat option"
  | Complete jstr jstr int "jstr option" "nat option"
  | Fail jstr jstr jstr "job_status \<times> int" int "nat option"
  | Cancel jstr int
  | Get jstr int
  | ListJobs list_filter int
  | TakeReaped jstr int

fun run_op :: "op \<Rightarrow> store \<Rightarrow> store" where
  "run_op (Put j now) s = snd (put j now s)"
| "run_op (Claim q w now) s = snd (claim q w now s)"
| "run_op (Beat i w l now a) s = snd (heartbeat i w l now a s)"
| "run_op (Complete i w now r a) s = snd (complete i w now r a s)"
| "run_op (Fail i w e nx now a) s = snd (fail_job i w e nx now a s)"
| "run_op (Cancel i now) s = snd (cancel i now s)"
| "run_op (Get i now) s = snd (get_job i now s)"
| "run_op (ListJobs f now) s = snd (list_jobs f now s)"
| "run_op (TakeReaped q now) s = snd (takeReaped q now s)"

text \<open>
  What the queue and the worker guarantee of the calls: a new record has a fresh id, no
  attempt spent and a budget of at least one; a failure asks for delayed, queued or dead.
\<close>

fun op_ok :: "op \<Rightarrow> store \<Rightarrow> bool" where
  "op_ok (Put j now) s = (id j \<notin> keys (jobs s) \<and> attempts j = 0 \<and> 0 < maxAttempts j)"
| "op_ok (Fail i w e nx now a) s = (fst nx \<in> {Delayed, Queued, Dead})"
| "op_ok _ s = True"

inductive store_reach :: "store \<Rightarrow> bool" where
  start: "new_store c r d = Some s \<Longrightarrow> store_reach s"
| step: "store_reach s \<Longrightarrow> op_ok opn s \<Longrightarrow> store_reach (run_op opn s)"

section \<open>The life of one record\<close>

inductive job_step :: "job \<Rightarrow> job \<Rightarrow> bool" where
  reaped: "job_step j (reap_job now j)"
| claimed: "status j = Queued \<or> status j = Delayed \<Longrightarrow>
    job_step j (j\<lparr>status := Running, lockedBy := Some w, leaseUntil := Some l, attempts := attempts j + 1, updatedAt := now\<rparr>)"
| beaten: "status j = Running \<Longrightarrow> job_step j (j\<lparr>leaseUntil := Some l, updatedAt := now\<rparr>)"
| completed: "status j = Running \<Longrightarrow>
    job_step j (j\<lparr>status := Completed, completedAt := Some now, resultJson := r, lockedBy := None, leaseUntil := None, updatedAt := now\<rparr>)"
| died: "status j = Running \<Longrightarrow>
    job_step j (j\<lparr>lastError := e, lockedBy := None, leaseUntil := None, status := Dead, runAt := t, updatedAt := now\<rparr>)"
| retried: "status j = Running \<Longrightarrow> attempts j < maxAttempts j \<Longrightarrow> st = Delayed \<or> st = Queued \<Longrightarrow>
    job_step j (j\<lparr>lastError := e, lockedBy := None, leaseUntil := None, status := st, runAt := t, updatedAt := now\<rparr>)"
| cancelled: "\<not> terminal (status j) \<Longrightarrow>
    job_step j (j\<lparr>status := Cancelled, lockedBy := None, leaseUntil := None, updatedAt := now\<rparr>)"

inductive_cases job_stepE: "job_step j j'"

text \<open>Attempt \<open>n\<close> of a record is over: it was settled, or lost to a later claim.\<close>

definition attempt_over :: "nat \<Rightarrow> job \<Rightarrow> bool" where
  "attempt_over n j \<longleftrightarrow> n < attempts j \<or> (attempts j = n \<and> status j \<noteq> Running)"

lemma reap_job_simps [simp]:
  "attempts (reap_job now j) = attempts j" "id (reap_job now j) = id j" "queue (reap_job now j) = queue j"
  "maxAttempts (reap_job now j) = maxAttempts j" "idempotencyKey (reap_job now j) = idempotencyKey j"
  "payloadJson (reap_job now j) = payloadJson j"
  by (simp_all add: reap_job_def)

lemma reap_job_terminal [simp]: "terminal (status j) \<Longrightarrow> reap_job now j = j"
  by (auto simp: reap_job_def lease_expired_def)

lemma reap_job_running: "status j \<noteq> Running \<Longrightarrow> reap_job now j = j"
  by (auto simp: reap_job_def lease_expired_def)

lemma job_step_over: "job_step j j' \<Longrightarrow> attempt_over n j \<Longrightarrow> attempt_over n j'"
  by (induction rule: job_step.induct) (auto simp: attempt_over_def reap_job_running)

lemma job_step_frozen: "job_step j j' \<Longrightarrow> terminal (status j) \<Longrightarrow> j' = j"
  by (induction rule: job_step.induct) auto

lemma job_step_budget:
  assumes "job_step j j'" "attempts j \<le> maxAttempts j"
    and "status j = Queued \<or> status j = Delayed \<longrightarrow> attempts j < maxAttempts j"
  shows "attempts j' \<le> maxAttempts j' \<and> (status j' = Queued \<or> status j' = Delayed \<longrightarrow> attempts j' < maxAttempts j')"
  using assms by (induction rule: job_step.induct) (auto simp: reap_job_def)

lemma job_step_lock:
  assumes "job_step j j'" "(status j = Running) = (lockedBy j \<noteq> None)" "(status j = Running) = (leaseUntil j \<noteq> None)"
  shows "(status j' = Running) = (lockedBy j' \<noteq> None) \<and> (status j' = Running) = (leaseUntil j' \<noteq> None)"
  using assms by (induction rule: job_step.induct) (auto simp: reap_job_def)

lemma job_step_ident: "job_step j j' \<Longrightarrow> id j' = id j \<and> queue j' = queue j \<and> idempotencyKey j' = idempotencyKey j
    \<and> payloadJson j' = payloadJson j \<and> maxAttempts j' = maxAttempts j"
  by (induction rule: job_step.induct) auto

section \<open>The store invariant\<close>

definition job_inv :: "job \<Rightarrow> bool" where
  "job_inv j \<longleftrightarrow> attempts j \<le> maxAttempts j
     \<and> (status j = Queued \<or> status j = Delayed \<longrightarrow> attempts j < maxAttempts j)
     \<and> (status j = Running) = (lockedBy j \<noteq> None) \<and> (status j = Running) = (leaseUntil j \<noteq> None)"

text \<open>Every entry of the key map names a present record that carries that key.\<close>

definition idem_sound :: "(jstr \<Rightarrow> job option) \<Rightarrow> (jstr, jstr) assoc \<Rightarrow> bool" where
  "idem_sound f m \<longleftrightarrow> (\<forall>x i. map_of m x = Some i \<longrightarrow>
     (\<exists>j k. f i = Some j \<and> idempotencyKey j = Some k \<and> x = idem_key (queue j) k))"

lemma idem_soundD:
  "idem_sound f m \<Longrightarrow> map_of m x = Some i \<Longrightarrow>
     \<exists>j k. f i = Some j \<and> idempotencyKey j = Some k \<and> x = idem_key (queue j) k"
  by (simp add: idem_sound_def)

lemma idem_sound_upd:
  assumes "idem_sound f m" "f i = Some j" "queue j' = queue j" "idempotencyKey j' = idempotencyKey j"
  shows "idem_sound (f(i \<mapsto> j')) m"
  unfolding idem_sound_def using idem_soundD [OF assms(1)] assms(2-4) by fastforce

lemma idem_sound_map:
  assumes "idem_sound f m" "\<And>j. queue (g j) = queue j" "\<And>j. idempotencyKey (g j) = idempotencyKey j"
  shows "idem_sound (\<lambda>i. map_option g (f i)) m"
  unfolding idem_sound_def using idem_soundD [OF assms(1)] assms(2,3) by fastforce

definition store_inv :: "store \<Rightarrow> bool" where
  "store_inv s \<longleftrightarrow> wf_assoc (jobs s) \<and> (\<forall>i j. map_of (jobs s) i = Some j \<longrightarrow> id j = i \<and> job_inv j)
     \<and> (\<forall>i j k. map_of (jobs s) i = Some j \<longrightarrow> idempotencyKey j = Some k \<longrightarrow>
          map_of (idem s) (idem_key (queue j) k) = Some i)
     \<and> idem_sound (map_of (jobs s)) (idem s)
     \<and> length (jobs s) \<le> capacity s"

lemma job_step_inv: "job_step j j' \<Longrightarrow> job_inv j \<Longrightarrow> job_inv j'"
  using job_step_budget [of j j'] job_step_lock [of j j'] unfolding job_inv_def by blast

lemma map_of_map_snd: "map_of (map (\<lambda>(i, j). (i, f j)) m) i = map_option f (map_of m i)"
  by (induction m) auto

lemma wf_map_snd [simp]: "map fst (map (\<lambda>(i, j). (i, f j)) m) = map fst m"
  by (induction m) auto

lemma reapLeases_jobs: "map_of (jobs (reapLeases now s)) i = map_option (reap_job now) (map_of (jobs s) i)"
  by (simp add: reapLeases_def map_of_map_snd)

lemma reapLeases_simps [simp]:
  "idem (reapLeases now s) = idem s" "capacity (reapLeases now s) = capacity s"
  "length (jobs (reapLeases now s)) = length (jobs s)" "map fst (jobs (reapLeases now s)) = map fst (jobs s)"
  by (simp_all add: reapLeases_def case_prod_beta comp_def)

text \<open>Replacing a present record by one it steps to keeps the invariant.\<close>

lemma put_job_step:
  assumes "store_inv s" "map_of (jobs s) i = Some j" "job_step j j'"
  shows "store_inv (put_job j' s)" "map_of (jobs (put_job j' s)) = (map_of (jobs s))(i \<mapsto> j')"
proof -
  from job_step_ident [OF assms(3)] assms(1,2) have e: "id j' = i" "queue j' = queue j" "idempotencyKey j' = idempotencyKey j"
    by (auto simp: store_inv_def)
  show m: "map_of (jobs (put_job j' s)) = (map_of (jobs s))(i \<mapsto> j')"
    by (simp add: put_job_def e update_conv')
  have "job_inv j'" using job_step_inv [OF assms(3)] assms(1,2) by (auto simp: store_inv_def)
  moreover have "idem_sound ((map_of (jobs s))(i \<mapsto> j')) (idem s)"
    using assms(1) e by (intro idem_sound_upd [where f = "map_of (jobs s)" and j = j]) (simp_all add: store_inv_def assms(2))
  ultimately show "store_inv (put_job j' s)"
    unfolding store_inv_def m using assms(1,2) e
    by (auto simp: put_job_def store_inv_def distinct_update length_update_present map_of_Some_keys split: if_splits)
qed

lemma store_inv_reap:
  assumes "store_inv s"
  shows "store_inv (reapLeases now s)"
proof -
  have "map_of (jobs (reapLeases now s)) = (\<lambda>i. map_option (reap_job now) (map_of (jobs s) i))"
    by (rule ext) (rule reapLeases_jobs)
  moreover have "idem_sound (\<lambda>i. map_option (reap_job now) (map_of (jobs s) i)) (idem s)"
    by (rule idem_sound_map) (use assms in \<open>simp_all add: store_inv_def\<close>)
  ultimately show ?thesis using assms
    by (auto simp: store_inv_def intro: job_step_inv job_step.reaped)
qed

lemma store_inv_reapedDead [simp]: "store_inv (s\<lparr>reapedDead := x\<rparr>) = store_inv s"
  by (simp add: store_inv_def)

lemma drop_idem_other:
  "\<forall>j \<in> set rest. \<forall>k. idempotencyKey j = Some k \<longrightarrow> idem_key (queue j) k \<noteq> x \<Longrightarrow> map_of (drop_idem rest m) x = map_of m x"
  by (induction rest arbitrary: m) (auto simp: delete_conv' split: option.splits)

lemma drop_idem_some:
  "map_of (drop_idem rest m) x = Some i \<Longrightarrow> map_of m x = Some i
     \<and> (\<forall>j \<in> set rest. \<forall>k. idempotencyKey j = Some k \<longrightarrow> idem_key (queue j) k \<noteq> x)"
proof (induction rest arbitrary: m)
  case (Cons a rest)
  from Cons.IH [of "case idempotencyKey a of None \<Rightarrow> m | Some k \<Rightarrow> AList.delete (idem_key (queue a) k) m"] Cons.prems
  show ?case by (auto simp: delete_conv' split: option.splits if_splits)
qed simp

lemma purge_jobs:
  "wf_assoc (jobs s) \<Longrightarrow> map_of (jobs (purgeExpiredTerminal now s)) i =
    (case map_of (jobs s) i of None \<Rightarrow> None | Some j \<Rightarrow> if purgeable s now j then None else Some j)"
  by (simp add: purgeExpiredTerminal_def map_of_filter_wf split: option.splits)

lemma purge_keeps_live:
  "\<not> terminal (status j) \<Longrightarrow> \<not> purgeable s now j"
  by (simp add: purgeable_def retention_of_def)

lemma store_inv_purge:
  assumes "store_inv s"
  shows "store_inv (purgeExpiredTerminal now s)"
proof -
  let ?p = "purgeExpiredTerminal now s"
  from assms have wf: "wf_assoc (jobs s)" by (simp add: store_inv_def)
  note pj = purge_jobs [OF wf, of now]
  have "map_of (idem ?p) (idem_key (queue j) k) = Some i"
    if j: "map_of (jobs ?p) i = Some j" "idempotencyKey j = Some k" for i j k
  proof -
    from j(1) have js: "map_of (jobs s) i = Some j" "\<not> purgeable s now j" by (auto simp: pj split: option.splits if_splits)
    with assms j(2) have a: "map_of (idem s) (idem_key (queue j) k) = Some i" by (auto simp: store_inv_def)
    have "idem_key (queue d) kd \<noteq> idem_key (queue j) k"
      if d: "d \<in> set (map snd (filter (\<lambda>(i, j). purgeable s now j) (jobs s)))" "idempotencyKey d = Some kd" for d kd
    proof
      assume eq: "idem_key (queue d) kd = idem_key (queue j) k"
      from d(1) obtain n where n: "(n, d) \<in> set (jobs s)" "purgeable s now d" by auto
      with wf have "map_of (jobs s) n = Some d" by simp
      with assms d(2) have "map_of (idem s) (idem_key (queue d) kd) = Some n" by (auto simp: store_inv_def)
      with a eq have "n = i" by simp
      with \<open>map_of (jobs s) n = Some d\<close> js n(2) show False by simp
    qed
    then show ?thesis using a by (simp add: purgeExpiredTerminal_def drop_idem_other)
  qed
  moreover have "idem_sound (map_of (jobs ?p)) (idem ?p)"
    unfolding idem_sound_def
  proof (intro allI impI)
    fix x i assume that: "map_of (idem ?p) x = Some i"
    let ?d = "map snd (filter (\<lambda>(i, j). purgeable s now j) (jobs s))"
    from that have "map_of (drop_idem ?d (idem s)) x = Some i" by (simp add: purgeExpiredTerminal_def)
    from drop_idem_some [OF this] have x: "map_of (idem s) x = Some i"
      "\<forall>j \<in> set ?d. \<forall>k. idempotencyKey j = Some k \<longrightarrow> idem_key (queue j) k \<noteq> x" by auto
    from assms have "idem_sound (map_of (jobs s)) (idem s)" by (simp add: store_inv_def)
    from idem_soundD [OF this x(1)] obtain j k where
      j: "map_of (jobs s) i = Some j" "idempotencyKey j = Some k" "x = idem_key (queue j) k" by blast
    have "\<not> purgeable s now j"
    proof
      assume p: "purgeable s now j"
      from j(1) have "(i, j) \<in> set (jobs s)" by (rule map_of_SomeD)
      with p have "j \<in> set ?d" by force
      with x(2) j(2,3) show False by blast
    qed
    with j show "\<exists>j k. map_of (jobs ?p) i = Some j \<and> idempotencyKey j = Some k \<and> x = idem_key (queue j) k"
      by (auto simp: pj)
  qed
  moreover have "\<forall>i j. map_of (jobs ?p) i = Some j \<longrightarrow> id j = i \<and> job_inv j"
    using assms by (auto simp: pj store_inv_def split: option.splits if_splits)
  moreover have "wf_assoc (jobs ?p)" using wf by (simp add: purgeExpiredTerminal_def distinct_map_filter)
  moreover have "length (jobs ?p) \<le> capacity ?p"
    using assms le_trans [OF length_filter_le] by (auto simp: store_inv_def purgeExpiredTerminal_def)
  ultimately show ?thesis unfolding store_inv_def by blast
qed

section \<open>Every operation\<close>

text \<open>Where a record is after an operation: gone, or advanced by steps of its life.\<close>

definition evolves :: "jstr \<Rightarrow> store \<Rightarrow> store \<Rightarrow> bool" where
  "evolves i s s' \<longleftrightarrow> map_of (jobs s') i = None \<or>
     (\<exists>j j'. map_of (jobs s) i = Some j \<and> map_of (jobs s') i = Some j' \<and> job_step\<^sup>*\<^sup>* j j')"

lemma evolves_refl [simp]: "evolves i s s"
  by (cases "map_of (jobs s) i") (auto simp: evolves_def)

lemma evolves_trans: "evolves i s t \<Longrightarrow> evolves i t u \<Longrightarrow> evolves i s u"
  by (auto simp: evolves_def)

lemma evolves_reap: "evolves i s (reapLeases now s)"
  by (cases "map_of (jobs s) i") (auto simp: evolves_def reapLeases_jobs job_step.reaped)

lemma evolves_purge: "store_inv s \<Longrightarrow> evolves i s (purgeExpiredTerminal now s)"
  by (auto simp: evolves_def purge_jobs store_inv_def split: option.splits)

lemma evolves_put:
  assumes "store_inv s" "map_of (jobs s) k = Some j" "job_step j j'"
  shows "evolves i s (put_job j' s)"
  using assms put_job_step(2) [OF assms] by (cases "map_of (jobs s) i") (auto simp: evolves_def)

lemma best_of_min:
  "\<exists>b. best_of (Some k) rest = Some b \<and> b \<in> insert k (set rest) \<and> (\<forall>j \<in> insert k (set rest). run_key b \<le> run_key j)"
proof (induction rest arbitrary: k)
  case (Cons j rest)
  let ?m = "if run_key j < run_key k then j else k"
  from Cons [of ?m] obtain b where b: "best_of (Some ?m) rest = Some b" "b \<in> insert ?m (set rest)"
    "\<forall>j \<in> insert ?m (set rest). run_key b \<le> run_key j" by blast
  have "best_of (Some k) (j # rest) = best_of (Some ?m) rest" by (simp add: less_run_key_def)
  moreover from b(3) have "run_key b \<le> run_key j \<and> run_key b \<le> run_key k" by (auto split: if_splits)
  ultimately show ?case using b by (auto split: if_splits)
qed simp

lemma best_of_None:
  "case best_of None rest of None \<Rightarrow> rest = []
     | Some b \<Rightarrow> b \<in> set rest \<and> (\<forall>j \<in> set rest. run_key b \<le> run_key j)"
proof (cases rest)
  case (Cons a more)
  from best_of_min [of a more] Cons show ?thesis by auto
qed simp

lemma wf_value:
  assumes "store_inv s" "b \<in> snd ` set (jobs s)"
  shows "map_of (jobs s) (id b) = Some b"
  using assms by (auto simp: store_inv_def)

lemma claim_cases:
  assumes "store_inv s"
  obtains (none) "claim q w now s = (None, reapLeases now s)"
      "\<forall>j \<in> snd ` set (jobs (reapLeases now s)). \<not> runnable q now j"
  | (some) b where "map_of (jobs (reapLeases now s)) (id b) = Some b" "runnable q now b"
      "\<forall>j \<in> snd ` set (jobs (reapLeases now s)). runnable q now j \<longrightarrow> run_key b \<le> run_key j"
      "claim q w now s = (Some (b\<lparr>status := Running, lockedBy := Some w, leaseUntil := Some (now + leaseMs b),
          attempts := attempts b + 1, updatedAt := now\<rparr>),
        put_job (b\<lparr>status := Running, lockedBy := Some w, leaseUntil := Some (now + leaseMs b),
          attempts := attempts b + 1, updatedAt := now\<rparr>) (reapLeases now s))"
proof (cases "best_of None (filter (runnable q now) (map snd (jobs (reapLeases now s))))")
  case None
  with best_of_None [of "filter (runnable q now) (map snd (jobs (reapLeases now s)))"] none show ?thesis
    by (auto simp: claim_def Let_def filter_empty_conv)
next
  case (Some b)
  with best_of_None [of "filter (runnable q now) (map snd (jobs (reapLeases now s)))"]
  have b: "b \<in> snd ` set (jobs (reapLeases now s))" "runnable q now b"
    "\<forall>j \<in> snd ` set (jobs (reapLeases now s)). runnable q now j \<longrightarrow> run_key b \<le> run_key j" by auto
  show ?thesis
    by (rule some [OF wf_value [OF store_inv_reap [OF assms] b(1)] b(2,3)])
      (use Some in \<open>simp add: claim_def Let_def\<close>)
qed

lemma owned_some:
  "ownedRunning s i w a = Some j \<longleftrightarrow> map_of (jobs s) i = Some j \<and> status j = Running \<and> lockedBy j = Some w
     \<and> (a = None \<or> a = Some (attempts j))"
  by (auto simp: ownedRunning_def split: option.splits)

text \<open>An operation that changes one record by a step.\<close>

lemma one_record:
  assumes "store_inv s" "s' = s \<or> (\<exists>k j j'. map_of (jobs s) k = Some j \<and> job_step j j' \<and> s' = put_job j' s)"
  shows "store_inv s' \<and> evolves i s s'"
  using assms put_job_step(1) evolves_put by fastforce

lemma claim_step:
  assumes i: "store_inv s"
  shows "store_inv (snd (claim q w now s)) \<and> evolves i s (snd (claim q w now s))"
  using assms
proof (cases rule: claim_cases [where s = s and q = q and w = w and now = now, case_names none some])
  case none
  then show ?thesis using i by (simp add: store_inv_reap evolves_reap)
next
  case (some b)
  let ?b = "b\<lparr>status := Running, lockedBy := Some w, leaseUntil := Some (now + leaseMs b),
          attempts := attempts b + 1, updatedAt := now\<rparr>"
  from some(2) have "job_step b ?b" by (intro job_step.claimed) (auto simp: runnable_def)
  with one_record [OF store_inv_reap [OF i], where s' = "put_job ?b (reapLeases now s)" and i = i] some
  have "store_inv (put_job ?b (reapLeases now s)) \<and> evolves i (reapLeases now s) (put_job ?b (reapLeases now s))"
    by blast
  with some evolves_trans [OF evolves_reap] show ?thesis by auto
qed

lemma heartbeat_step: "store_inv s \<Longrightarrow> store_inv (snd (heartbeat k w l now a s)) \<and> evolves i s (snd (heartbeat k w l now a s))"
  by (rule one_record) (auto simp: heartbeat_def owned_some split: option.splits intro!: job_step.beaten)

lemma complete_step: "store_inv s \<Longrightarrow> store_inv (snd (complete k w now r a s)) \<and> evolves i s (snd (complete k w now r a s))"
proof (rule one_record)
  show "snd (complete k w now r a s) = s \<or>
    (\<exists>k' j j'. map_of (jobs s) k' = Some j \<and> job_step j j' \<and> snd (complete k w now r a s) = put_job j' s)"
  proof (cases "ownedRunning s k w a")
    case (Some j)
    then have "map_of (jobs s) k = Some j" "status j = Running" by (simp_all add: owned_some)
    with Some job_step.completed [of j now r] show ?thesis by (auto simp: complete_def)
  qed (simp add: complete_def)
qed

lemma fail_step:
  assumes "store_inv s" "fst nx \<in> {Delayed, Queued, Dead}"
  shows "store_inv (snd (fail_job k w e nx now a s)) \<and> evolves i s (snd (fail_job k w e nx now a s))"
proof (rule one_record [OF assms(1)])
  show "snd (fail_job k w e nx now a s) = s \<or>
    (\<exists>k' j j'. map_of (jobs s) k' = Some j \<and> job_step j j' \<and> snd (fail_job k w e nx now a s) = put_job j' s)"
  proof (cases "ownedRunning s k w a")
    case None
    then show ?thesis by (simp add: fail_job_def)
  next
    case (Some j)
    then have r: "map_of (jobs s) k = Some j" "status j = Running" by (simp_all add: owned_some)
    show ?thesis
    proof (cases "maxAttempts j \<le> attempts j \<or> fst nx = Dead")
      case True
      then have "\<exists>t. snd (fail_job k w e nx now a s) = put_job
          (j\<lparr>lastError := Some e, lockedBy := None, leaseUntil := None, status := Dead, runAt := t, updatedAt := now\<rparr>) s"
        using Some by (auto simp: fail_job_def failed_record_def Let_def)
      with r job_step.died [OF r(2)] show ?thesis by blast
    next
      case False
      with assms(2) have "attempts j < maxAttempts j" "fst nx = Delayed \<or> fst nx = Queued" by auto
      moreover from False Some have "\<exists>t. snd (fail_job k w e nx now a s) = put_job
          (j\<lparr>lastError := Some e, lockedBy := None, leaseUntil := None, status := fst nx, runAt := t, updatedAt := now\<rparr>) s"
        by (auto simp: fail_job_def failed_record_def Let_def)
      ultimately show ?thesis using r job_step.retried [OF r(2)] by blast
    qed
  qed
qed

lemma cancel_step: "store_inv s \<Longrightarrow> store_inv (snd (cancel k now s)) \<and> evolves i s (snd (cancel k now s))"
  by (rule one_record) (auto simp: cancel_def split: option.splits intro!: job_step.cancelled)

definition fresh_record :: "job \<Rightarrow> int \<Rightarrow> job" where
  "fresh_record j now = j\<lparr>status := (if now < runAt j then Delayed else Queued), updatedAt := now,
     leaseUntil := None, lockedBy := None, lastError := None, completedAt := None, resultJson := None\<rparr>"

lemma insert_job_fresh:
  assumes "id j \<notin> keys (jobs s)"
  shows "jobs (insert_job j now s) = jobs s @ [(id j, fresh_record j now)]"
    "idem (insert_job j now s) = idem s" "capacity (insert_job j now s) = capacity s"
  using assms by (simp_all add: insert_job_def put_job_def fresh_record_def update_fresh)

lemma insert_job_lookup:
  assumes "id j \<notin> keys (jobs s)"
  shows "map_of (jobs (insert_job j now s)) = (map_of (jobs s))(id j \<mapsto> fresh_record j now)"
  using update_conv' [of "id j" "fresh_record j now" "jobs s"] by (simp add: insert_job_fresh assms update_fresh)

lemma insert_job_inv:
  assumes inv: "store_inv s" and new: "id j \<notin> keys (jobs s)" "attempts j = 0" "0 < maxAttempts j"
    and room: "length (jobs s) < capacity s"
    and m: "idempotencyKey j = None \<and> m = idem s \<or>
      (\<exists>k. idempotencyKey j = Some k \<and> m = AList.update (idem_key (queue j) k) (id j) (idem s) \<and>
        (\<forall>i j' k'. map_of (jobs s) i = Some j' \<longrightarrow> idempotencyKey j' = Some k' \<longrightarrow> idem_key (queue j') k' \<noteq> idem_key (queue j) k))"
  shows "store_inv ((insert_job j now s)\<lparr>idem := m\<rparr>)"
proof -
  note f = insert_job_fresh [OF new(1)] and l = insert_job_lookup [OF new(1)]
  have ji: "job_inv (fresh_record j now)" using new by (simp add: job_inv_def fresh_record_def)
  have k: "id (fresh_record j now) = id j" "queue (fresh_record j now) = queue j"
    "idempotencyKey (fresh_record j now) = idempotencyKey j" by (simp_all add: fresh_record_def)
  have wf: "wf_assoc (jobs s @ [(id j, fresh_record j now)])" using inv new(1) by (auto simp: store_inv_def)
  have "map_of m (idem_key (queue j') k') = Some i"
    if "map_of (jobs (insert_job j now s)) i = Some j'" "idempotencyKey j' = Some k'" for i j' k'
  proof (cases "i = id j")
    case True
    with that l k m show ?thesis by (auto simp: update_conv')
  next
    case False
    with that l have o: "map_of (jobs s) i = Some j'" by simp
    with inv that(2) have "map_of (idem s) (idem_key (queue j') k') = Some i" by (auto simp: store_inv_def)
    with m o that(2) show ?thesis by (auto simp: update_conv')
  qed
  moreover have "\<forall>i j'. map_of (jobs (insert_job j now s)) i = Some j' \<longrightarrow> id j' = i \<and> job_inv j'"
    using inv ji k by (auto simp: l store_inv_def)
  moreover have "idem_sound (map_of (jobs (insert_job j now s))) m"
    unfolding idem_sound_def
  proof (intro allI impI)
    fix x i assume that: "map_of m x = Some i"
    show "\<exists>j' k'. map_of (jobs (insert_job j now s)) i = Some j' \<and> idempotencyKey j' = Some k' \<and> x = idem_key (queue j') k'"
    proof (cases "map_of (idem s) x = Some i")
      case True
      from inv have "idem_sound (map_of (jobs s)) (idem s)" by (simp add: store_inv_def)
      from idem_soundD [OF this True] obtain j' k' where
        o: "map_of (jobs s) i = Some j'" "idempotencyKey j' = Some k'" "x = idem_key (queue j') k'" by blast
      with new(1) have "i \<noteq> id j" by (auto dest: map_of_Some_keys)
      with o show ?thesis by (simp add: l)
    next
      case False
      with that m k show ?thesis by (auto simp: l update_conv' split: if_splits)
    qed
  qed
  moreover have "length (jobs (insert_job j now s)) \<le> capacity s" using room by (simp add: f)
  ultimately show ?thesis using wf f by (simp add: store_inv_def)
qed

lemma make_space_inv:
  assumes "store_inv s"
  shows "store_inv (make_space now s)" "evolves i s (make_space now s)"
    "map_of (jobs (make_space now s)) i = Some j \<Longrightarrow> map_of (jobs s) i = Some j"
proof -
  have wf: "wf_assoc (jobs s)" using assms by (simp add: store_inv_def)
  show "store_inv (make_space now s)" "evolves i s (make_space now s)"
    using assms store_inv_purge [OF assms] evolves_purge [OF assms] by (simp_all add: make_space_def)
  show "map_of (jobs (make_space now s)) i = Some j \<Longrightarrow> map_of (jobs s) i = Some j"
    by (simp add: make_space_def purge_jobs [OF wf] split: option.splits if_splits)
qed

text \<open>What \<open>put\<close> does, case by case.\<close>

lemma put_cases [case_names full fresh keyed duplicate conflict]:
  obtains (full) "put j now s = (Inl StoreFull, make_space now s)" "capacity s \<le> length (jobs (make_space now s))"
  | (fresh) "idempotencyKey j = None" "length (jobs (make_space now s)) < capacity s"
      "put j now s = (Inr (stored (insert_job j now (make_space now s)) (id j), False), insert_job j now (make_space now s))"
  | (keyed) k where "idempotencyKey j = Some k" "length (jobs (make_space now s)) < capacity s"
      "case map_of (idem s) (idem_key (queue j) k) of None \<Rightarrow> True | Some e \<Rightarrow> map_of (jobs s) e = None"
      "put j now s = (Inr (stored (insert_job j now (make_space now s)) (id j), False),
         (insert_job j now (make_space now s))
           \<lparr>idem := AList.update (idem_key (queue j) k) (id j) (idem (insert_job j now (make_space now s)))\<rparr>)"
  | (duplicate) k e ex where "idempotencyKey j = Some k" "map_of (idem s) (idem_key (queue j) k) = Some e"
      "map_of (jobs s) e = Some ex" "payloadJson ex = payloadJson j" "put j now s = (Inr (ex, True), s)"
  | (conflict) k e ex where "idempotencyKey j = Some k" "map_of (idem s) (idem_key (queue j) k) = Some e"
      "map_of (jobs s) e = Some ex" "payloadJson ex \<noteq> payloadJson j"
      "put j now s = (Inl (IdempotencyConflict k e), s)"
proof -
  have cap: "capacity (make_space now s) = capacity s" by (simp add: make_space_def purgeExpiredTerminal_def)
  have st: "stored (s'\<lparr>idem := x\<rparr>) i = stored s' i" for s' x i by (simp add: stored_def)
  show thesis
  proof (cases "idempotencyKey j")
    case None
    with full fresh cap show ?thesis by (force simp: put_def Let_def not_le)
  next
    case (Some k)
    show ?thesis
    proof (cases "map_of (idem s) (idem_key (queue j) k)")
      case n: None
      from full keyed [OF Some] cap show ?thesis by (force simp: put_def Let_def not_le Some n st)
    next
      case e: (Some e)
      show ?thesis
      proof (cases "map_of (jobs s) e")
        case n: None
        from full keyed [OF Some] cap show ?thesis by (force simp: put_def Let_def not_le Some e n st)
      next
        case ex: (Some ex)
        from duplicate [OF Some e ex] conflict [OF Some e ex] show ?thesis
          by (cases "payloadJson ex = payloadJson j") (simp_all add: put_def Let_def Some e ex)
      qed
    qed
  qed
qed

lemma put_step:
  assumes inv: "store_inv s" and ok: "id j \<notin> keys (jobs s)" "attempts j = 0" "0 < maxAttempts j"
  shows "store_inv (snd (put j now s)) \<and> (i \<noteq> id j \<longrightarrow> evolves i s (snd (put j now s)))"
proof -
  let ?m = "make_space now s" and ?i = "insert_job j now (make_space now s)"
  note ms = make_space_inv [OF inv, where now = now]
  have new: "id j \<notin> keys (jobs ?m)"
    using ok(1) ms(3) by (metis map_of_None_keys not_Some_eq)
  have cap: "capacity ?m = capacity s" by (simp add: make_space_def purgeExpiredTerminal_def)
  have ev: "evolves i s (?i\<lparr>idem := x\<rparr>)" if "i \<noteq> id j" for x
    using ms(2) [of i] that by (simp add: evolves_def insert_job_lookup [OF new])
  show ?thesis
  proof (cases rule: put_cases [of j now s])
    case full
    with ms show ?thesis by simp
  next
    case fresh
    have "store_inv (?i\<lparr>idem := idem ?m\<rparr>)"
      by (rule insert_job_inv [OF ms(1) new ok(2,3)]) (use fresh cap in auto)
    moreover have "?i\<lparr>idem := idem ?m\<rparr> = ?i" using insert_job_fresh(2) [OF new, of now] by (cases ?i) simp
    ultimately show ?thesis using fresh ev [of "idem ?m"] by simp
  next
    case (keyed k)
    have "idem_key (queue j') k' \<noteq> idem_key (queue j) k"
      if "map_of (jobs ?m) i' = Some j'" "idempotencyKey j' = Some k'" for i' j' k'
    proof
      assume eq: "idem_key (queue j') k' = idem_key (queue j) k"
      from ms(3) [OF that(1)] have "map_of (jobs s) i' = Some j'" .
      with inv that(2) have "map_of (idem s) (idem_key (queue j') k') = Some i'" by (auto simp: store_inv_def)
      with eq keyed(3) \<open>map_of (jobs s) i' = Some j'\<close> show False by simp
    qed
    then have "store_inv (?i\<lparr>idem := AList.update (idem_key (queue j) k) (id j) (idem ?m)\<rparr>)"
      by (intro insert_job_inv [OF ms(1) new ok(2,3)]) (use keyed cap in auto)
    with keyed ev show ?thesis using insert_job_fresh(2) [OF new] by simp
  next
    case duplicate
    with inv show ?thesis by simp
  next
    case conflict
    with inv show ?thesis by simp
  qed
qed

fun puts :: "jstr \<Rightarrow> op \<Rightarrow> bool" where
  "puts i (Put j now) = (id j = i)"
| "puts i _ = False"

lemma op_step:
  assumes "store_inv s" "op_ok opn s"
  shows "store_inv (run_op opn s) \<and> (\<not> puts i opn \<longrightarrow> evolves i s (run_op opn s))"
proof (cases opn)
  case (Put j now)
  with assms put_step [where s = s and j = j and now = now and i = i] show ?thesis by auto
next
  case (TakeReaped q now)
  have "evolves i s (t\<lparr>reapedDead := x\<rparr>) = evolves i s t" for t x by (simp add: evolves_def)
  with TakeReaped assms store_inv_reap [OF assms(1)] evolves_reap show ?thesis
    by (simp add: takeReaped_def Let_def)
qed (use assms claim_step heartbeat_step complete_step fail_step cancel_step store_inv_reap evolves_reap
    in \<open>auto simp: get_job_def list_jobs_def Let_def\<close>)

lemma reach_inv: "store_reach s \<Longrightarrow> store_inv s"
proof (induction rule: store_reach.induct)
  case (start c r d s)
  then show ?case by (auto simp: new_store_def store_inv_def idem_sound_def split: if_splits)
next
  case (step s opn)
  then show ?case using op_step [of s opn "[]"] by blast
qed

text \<open>Runs in which no call inserts a record under the id \<open>i\<close> again (ids are random UUIDs).\<close>

inductive later :: "jstr \<Rightarrow> store \<Rightarrow> store \<Rightarrow> bool" where
  now: "later i s s"
| op: "later i s t \<Longrightarrow> op_ok opn t \<Longrightarrow> \<not> puts i opn \<Longrightarrow> later i s (run_op opn t)"

lemma later_evolves: "later i s t \<Longrightarrow> store_inv s \<Longrightarrow> store_inv t \<and> evolves i s t"
proof (induction rule: later.induct)
  case (op i s t opn)
  with op_step [of t opn i] evolves_trans show ?case by blast
qed simp

lemma evolves_invariant:
  assumes "evolves i s t" "map_of (jobs t) i = Some j'" "map_of (jobs s) i = Some j" "P j"
    and "\<And>a b. job_step a b \<Longrightarrow> P a \<Longrightarrow> P b"
  shows "P j'"
proof -
  from assms(1-3) have "job_step\<^sup>*\<^sup>* j j'" by (auto simp: evolves_def)
  then show ?thesis using assms(4,5) by (induction rule: rtranclp_induct) auto
qed

lemma evolves_none: "evolves i s t \<Longrightarrow> map_of (jobs s) i = None \<Longrightarrow> map_of (jobs t) i = None"
  by (auto simp: evolves_def)

section \<open>Properties\<close>


text \<open>
  \<open>claim\<close> hands out the right record: after reaping expired leases it takes, among
  the runnable records of that queue only, the first in the order priority (highest first),
  run time, creation time, id; it is returned running, locked by the claimant, leased, with
  one more attempt spent, every other record is as the reaper left it, and nothing is returned
  only if nothing is runnable.
\<close>

lemma claim_selects:
  assumes "store_reach s"
  shows "case claim q w now s of
      (None, s') \<Rightarrow> s' = reapLeases now s \<and> (\<forall>i j. map_of (jobs s') i = Some j \<longrightarrow> \<not> runnable q now j)
    | (Some c, s') \<Rightarrow> \<exists>b. map_of (jobs (reapLeases now s)) (id b) = Some b \<and> runnable q now b
        \<and> (\<forall>i j. map_of (jobs (reapLeases now s)) i = Some j \<longrightarrow> runnable q now j \<longrightarrow> run_key b \<le> run_key j)
        \<and> c = b\<lparr>status := Running, lockedBy := Some w, leaseUntil := Some (now + leaseMs b),
                attempts := attempts b + 1, updatedAt := now\<rparr>
        \<and> map_of (jobs s') = (map_of (jobs (reapLeases now s)))(id b \<mapsto> c)"
proof -
  have v: "j \<in> snd ` set (jobs t)" if "map_of (jobs t) i = Some j" for t i j
    using that by (force dest: map_of_SomeD)
  note inv = reach_inv [OF assms]
  from inv show ?thesis
  proof (cases rule: claim_cases [where s = s and q = q and w = w and now = now, case_names none some])
    case none
    with v show ?thesis by fastforce
  next
    case (some b)
    let ?b = "b\<lparr>status := Running, lockedBy := Some w, leaseUntil := Some (now + leaseMs b),
          attempts := attempts b + 1, updatedAt := now\<rparr>"
    have "map_of (jobs (put_job ?b (reapLeases now s))) = (map_of (jobs (reapLeases now s)))(id b \<mapsto> ?b)"
      by (simp add: put_job_def update_conv')
    moreover from some(3) v have "\<forall>i j. map_of (jobs (reapLeases now s)) i = Some j \<longrightarrow> runnable q now j
        \<longrightarrow> run_key b \<le> run_key j" by blast
    ultimately show ?thesis unfolding some(4) prod.case option.case using some(1,2) by blast
  qed
qed

lemma attempt_over_refused:
  assumes "\<And>j. map_of (jobs t) i = Some j \<Longrightarrow> attempt_over n j"
  shows "complete i w now r (Some n) t = (False, t)" "fail_job i w e nx now (Some n) t = (False, t)"
    "heartbeat i w l now (Some n) t = (False, t)"
proof -
  have "ownedRunning t i w (Some n) = None"
    using assms by (auto simp: ownedRunning_def attempt_over_def split: option.splits)
  then show "complete i w now r (Some n) t = (False, t)" "fail_job i w e nx now (Some n) t = (False, t)"
    "heartbeat i w l now (Some n) t = (False, t)" by (simp_all add: complete_def fail_job_def heartbeat_def)
qed

lemma settled_over:
  assumes "store_inv s" and "complete i w now r (Some n) s = (True, s') \<or>
      (fail_job i w e nx now (Some n) s = (True, s') \<and> fst nx \<in> {Delayed, Queued, Dead})"
  shows "\<exists>j. map_of (jobs s') i = Some j \<and> attempt_over n j" "store_inv s'"
proof -
  from assms(2) obtain j where j: "ownedRunning s i w (Some n) = Some j"
    by (auto simp: complete_def fail_job_def split: option.splits)
  then have o: "map_of (jobs s) i = Some j" "attempts j = n" by (auto simp: owned_some)
  with assms(1) have ij: "id j = i" by (auto simp: store_inv_def)
  have "\<exists>j'. s' = put_job j' s \<and> id j' = i \<and> attempts j' = n \<and> status j' \<noteq> Running"
    using assms(2)
  proof
    assume "complete i w now r (Some n) s = (True, s')"
    with j o ij show ?thesis by (auto simp: complete_def)
  next
    assume "fail_job i w e nx now (Some n) s = (True, s') \<and> fst nx \<in> {Delayed, Queued, Dead}"
    with j have s': "s' = put_job (failed_record j e nx now) s" and nx: "fst nx \<in> {Delayed, Queued, Dead}"
      by (auto simp: fail_job_def)
    have "status (failed_record j e nx now) \<noteq> Running" "id (failed_record j e nx now) = i"
      "attempts (failed_record j e nx now) = n" using nx o ij by (auto simp: failed_record_def Let_def)
    with s' show ?thesis by blast
  qed
  then show "\<exists>j. map_of (jobs s') i = Some j \<and> attempt_over n j"
    by (auto simp: put_job_def attempt_over_def update_conv')
  from assms(2) show "store_inv s'"
  proof
    assume "complete i w now r (Some n) s = (True, s')"
    with complete_step [OF assms(1), where k = i and w = w and now = now and r = r and a = "Some n"] show ?thesis by simp
  next
    assume "fail_job i w e nx now (Some n) s = (True, s') \<and> fst nx \<in> {Delayed, Queued, Dead}"
    with fail_step [OF assms(1), where k = i and w = w and e = e and nx = nx and now = now and a = "Some n"]
    show ?thesis by simp
  qed
qed

text \<open>
  C6. An attempt is settled at most once: when \<open>complete\<close> or \<open>fail\<close> of attempt \<open>n\<close> of a
  record succeeded, then in every continuation (other workers, lease expiry, cancellation,
  later claims of the same record, by the same worker too) \<open>complete\<close>, \<open>fail\<close> and
  \<open>heartbeat\<close> of attempt \<open>n\<close> are refused and change nothing.
\<close>

theorem attempt_settled_once:
  assumes "store_reach s" and "complete i w now r (Some n) s = (True, s') \<or>
      (fail_job i w e nx now (Some n) s = (True, s') \<and> fst nx \<in> {Delayed, Queued, Dead})"
    and "later i s' t"
  shows "complete i w' now' r' (Some n) t = (False, t) \<and> fail_job i w' e' nx' now' (Some n) t = (False, t)
    \<and> heartbeat i w' l now' (Some n) t = (False, t)"
proof -
  note so = settled_over [OF reach_inv [OF assms(1)] assms(2)]
  from so(1) obtain j where j: "map_of (jobs s') i = Some j" "attempt_over n j" by blast
  from later_evolves [OF assms(3) so(2)] have "evolves i s' t" by blast
  then have "attempt_over n j'" if "map_of (jobs t) i = Some j'" for j'
    using evolves_invariant [where P = "attempt_over n" and j' = j', OF _ that j(1)] job_step_over j(2) by blast
  from attempt_over_refused [OF this] show ?thesis by blast
qed

text \<open>
  A terminal record (completed, dead or cancelled) is frozen: no later call changes it;
  it can only disappear when its retention is over.
\<close>

lemma terminal_frozen:
  assumes "store_reach s" and "map_of (jobs s) i = Some j" and "terminal (status j)" and "later i s t"
  shows "map_of (jobs t) i = None \<or> map_of (jobs t) i = Some j"
proof (cases "map_of (jobs t) i")
  case (Some j')
  from later_evolves [OF assms(4) reach_inv [OF assms(1)]] have "evolves i s t" by blast
  from evolves_invariant [where P = "\<lambda>x. x = j", OF this Some assms(2)] job_step_frozen assms(3)
  have "j' = j" by blast
  with Some show ?thesis by simp
qed simp

lemma put_record:
  assumes "store_inv s" "op_ok (Put j now) s" "put j now s = (Inr (r, d), s')" "idempotencyKey j = Some k"
  shows "map_of (jobs s') (id r) = Some r \<and> payloadJson r = payloadJson j
    \<and> (\<exists>k'. idempotencyKey r = Some k' \<and> idem_key (queue r) k' = idem_key (queue j) k)"
proof (cases rule: put_cases [of j now s])
  case full
  with assms(3) show ?thesis by simp
next
  case fresh
  with assms(4) show ?thesis by simp
next
  case conflict
  with assms(3) show ?thesis by simp
next
  case (keyed k')
  have "id j \<notin> keys (jobs (make_space now s))"
    using assms(2) make_space_inv(3) [OF assms(1)] by (metis map_of_None_keys not_Some_eq op_ok.simps(1))
  note l = insert_job_lookup [OF this, of now]
  from keyed assms(3) have "r = fresh_record j now" "s' = (insert_job j now (make_space now s))
      \<lparr>idem := AList.update (idem_key (queue j) k') (id j) (idem (insert_job j now (make_space now s)))\<rparr>"
    by (auto simp: stored_def l)
  with l assms(4) show ?thesis by (simp add: fresh_record_def)
next
  case (duplicate k' e ex)
  with assms(3,4) have a: "r = ex" "s' = s" "k' = k" by auto
  from assms(1) have "idem_sound (map_of (jobs s)) (idem s)" by (simp add: store_inv_def)
  from idem_soundD [OF this duplicate(2)] duplicate(3) obtain k2 where
    k2: "idempotencyKey ex = Some k2" "idem_key (queue j) k' = idem_key (queue ex) k2" by auto
  have "id ex = e" using assms(1) duplicate(3) unfolding store_inv_def by blast
  with duplicate a k2 show ?thesis by simp
qed

text \<open>
  Enqueueing under an idempotency key is exactly-once while the record is retained: after
  a \<open>put\<close> under a key returned a record, every later \<open>put\<close> under that key of that queue
  leaves the store unchanged and returns that record as a duplicate when the payload is the
  same, and is refused as a conflict when it differs, whatever ran in between.
\<close>

lemma put_idempotent:
  assumes "store_reach s" and "op_ok (Put j now) s" and "put j now s = (Inr (r, d), s')"
    and "idempotencyKey j = Some k" and "later (id r) s' t" and "map_of (jobs t) (id r) = Some c"
    and "idempotencyKey jx = Some k" and "queue jx = queue j"
  shows "put jx nx t = (if payloadJson jx = payloadJson j then (Inr (c, True), t)
                          else (Inl (IdempotencyConflict k (id r)), t))"
proof -
  note inv = reach_inv [OF assms(1)]
  from put_step [OF inv, where j = j and now = now] assms(2,3) have inv': "store_inv s'" by auto
  from later_evolves [OF assms(5) inv'] have t: "store_inv t" "evolves (id r) s' t" by blast+
  note pr = put_record [OF inv assms(2-4)]
  then obtain k' where r: "map_of (jobs s') (id r) = Some r" "payloadJson r = payloadJson j"
    "idempotencyKey r = Some k'" "idem_key (queue r) k' = idem_key (queue j) k" by blast
  let ?P = "\<lambda>x. queue x = queue r \<and> idempotencyKey x = idempotencyKey r \<and> payloadJson x = payloadJson r"
  have "?P c" by (rule evolves_invariant [where P = ?P, OF t(2) assms(6) r(1)]) (auto dest: job_step_ident)
  with r have c: "idempotencyKey c = Some k'" "idem_key (queue c) k' = idem_key (queue j) k"
    "payloadJson c = payloadJson j" by simp_all
  from t(1) assms(6) c(1) have "map_of (idem t) (idem_key (queue c) k') = Some (id r)"
    unfolding store_inv_def by blast
  with c have "map_of (idem t) (idem_key (queue j) k) = Some (id r)" by simp
  with c(3) assms(6-8) show ?thesis by (simp add: put_def Let_def)
qed

section \<open>Witnesses\<close>

definition sample_job :: "jstr \<Rightarrow> jstr option \<Rightarrow> int \<Rightarrow> job" where
  "sample_job i key prio = \<lparr> id = i, queue = js ''q'', jname = js ''n'', payloadJson = js ''1'', status = Queued,
     attempts = 0, maxAttempts = 2, runAt = 0, createdAt = 0, updatedAt = 0, leaseUntil = None,
     lockedBy = None, leaseMs = 10, idempotencyKey = key, priority = prio, timeoutMs = 0,
     lastError = None, completedAt = None, resultJson = None, tenant = None \<rparr>"

definition store0 :: store where
  "store0 = \<lparr> jobs = [], idem = [], capacity = 3, retentionMs = 100, deadRetentionMs = 100, reapedDead = [] \<rparr>"

definition store2 :: store where
  "store2 = run_op (Put (sample_job (js ''b'') None 5) 0)
     (run_op (Put (sample_job (js ''a'') (Some (js ''k'')) 0) 0) store0)"

definition store3 :: store where
  "store3 = run_op (Claim (js ''q'') (js ''w'') 1) store2"

lemmas sample_defs = sample_job_def store0_def store2_def store3_def

lemma store0_reach: "store_reach store0"
  by (rule store_reach.start [of 3 100 100]) (simp add: new_store_def store0_def)

lemma store2_reach: "store_reach store2"
  unfolding store2_def by (intro store_reach.step store0_reach) (simp_all add: sample_defs eval Let_def)

lemma store3_reach: "store_reach store3"
  unfolding store3_def by (intro store_reach.step store2_reach) simp


lemma claim_selects_example:
  "\<exists>b s'. claim (js ''q'') (js ''w'') 1 store2
     = (Some (b\<lparr>status := Running, lockedBy := Some (js ''w''), leaseUntil := Some 11, attempts := 1, updatedAt := 1\<rparr>), s')
     \<and> id b = js ''b''"
proof -
  obtain c s' where c: "claim (js ''q'') (js ''w'') 1 store2 = (Some c, s')"
    and i: "id c = js ''b''" "leaseMs c = 10" "attempts c = 1"
    by (simp add: sample_defs eval Let_def)
  from claim_selects [OF store2_reach, where q = "js ''q''" and w = "js ''w''" and now = 1] c
  obtain b where "c = b\<lparr>status := Running, lockedBy := Some (js ''w''), leaseUntil := Some (1 + leaseMs b),
      attempts := attempts b + 1, updatedAt := 1\<rparr>" by auto
  with c i show ?thesis by (intro exI [of _ b] exI [of _ s']) simp
qed

theorem attempt_settled_once_witness:
  "fst (complete (js ''b'') (js ''w'') 2 None (Some 1) store3)
   \<and> \<not> fst (complete (js ''b'') (js ''w'') 3 None (Some 1)
        (run_op (Claim (js ''q'') (js ''w'') 3) (snd (complete (js ''b'') (js ''w'') 2 None (Some 1) store3))))"
proof -
  let ?s = "snd (complete (js ''b'') (js ''w'') 2 None (Some 1) store3)"
  have c: "complete (js ''b'') (js ''w'') 2 None (Some 1) store3 = (True, ?s)"
    by (simp add: sample_defs eval Let_def)
  have l: "later (js ''b'') ?s (run_op (Claim (js ''q'') (js ''w'') 3) ?s)"
    by (intro later.intros) simp_all
  from attempt_settled_once [OF store3_reach disjI1 [OF c] l]
  have "complete (js ''b'') (js ''w'') 3 None (Some 1) (run_op (Claim (js ''q'') (js ''w'') 3) ?s)
      = (False, run_op (Claim (js ''q'') (js ''w'') 3) ?s)" by blast
  moreover from c have "fst (complete (js ''b'') (js ''w'') 2 None (Some 1) store3)" by (metis fst_conv)
  ultimately show ?thesis by (metis fst_conv)
qed

lemma terminal_frozen_example:
  "map_of (jobs (run_op (Claim (js ''q'') (js ''w'') 3) (run_op (Cancel (js ''a'') 2) store3))) (js ''a'')
     = Some ((sample_job (js ''a'') (Some (js ''k'')) 0)\<lparr>status := Cancelled, updatedAt := 2\<rparr>)"
proof -
  let ?s = "run_op (Cancel (js ''a'') 2) store3"
  let ?j = "(sample_job (js ''a'') (Some (js ''k'')) 0)\<lparr>status := Cancelled, updatedAt := 2\<rparr>"
  have r: "store_reach ?s" by (intro store_reach.step store3_reach) simp
  have m: "map_of (jobs ?s) (js ''a'') = Some ?j" by (simp add: sample_defs eval Let_def)
  have l: "later (js ''a'') ?s (run_op (Claim (js ''q'') (js ''w'') 3) ?s)"
    by (intro later.intros) simp_all
  have p: "map_of (jobs (run_op (Claim (js ''q'') (js ''w'') 3) ?s)) (js ''a'') \<noteq> None"
    by (simp add: sample_defs eval Let_def)
  have "terminal (status ?j)" by simp
  from terminal_frozen [OF r m this l] p show ?thesis by blast
qed

lemma put_idempotent_example:
  "fst (put ((sample_job (js ''c'') (Some (js ''k'')) 9)\<lparr>payloadJson := js ''2''\<rparr>) 5
       (run_op (Claim (js ''q'') (js ''w'') 1) (snd (put (sample_job (js ''a'') (Some (js ''k'')) 0) 0 store0))))
   = Inl (IdempotencyConflict (js ''k'') (js ''a''))"
proof -
  let ?j = "sample_job (js ''a'') (Some (js ''k'')) 0"
  let ?s = "snd (put ?j 0 store0)"
  let ?t = "run_op (Claim (js ''q'') (js ''w'') 1) ?s"
  have ok: "op_ok (Put ?j 0) store0" by (simp add: sample_defs)
  have p: "put ?j 0 store0 = (Inr (?j, False), ?s)" by (simp add: sample_defs eval Let_def)
  have l: "later (id ?j) ?s ?t" by (intro later.intros) simp_all
  have k: "idempotencyKey ?j = Some (js ''k'')" by (simp add: sample_job_def)
  obtain c where c: "map_of (jobs ?t) (id ?j) = Some c" by (simp add: sample_defs eval Let_def)
  from put_idempotent [OF store0_reach ok p k l c,
      where jx = "(sample_job (js ''c'') (Some (js ''k'')) 9)\<lparr>payloadJson := js ''2''\<rparr>" and nx = 5]
  show ?thesis by (simp add: sample_job_def)
qed

end
