(* ===== verification/JobWorker.thy ===== *)
theory JobWorker
  imports Jobs
begin

text \<open>
  The queue and the worker of \<open>jobs.ts\<close> over the store: validation of the queue options,
  \<open>enqueue\<close>, and how a worker settles one run (\<open>execute\<close> after the handler returned
  or threw).

  The worker knows the store through the SPI \<open>JobStore\<close>; the locale \<open>job_spi\<close> states the
  laws of that interface it relies on, and is interpreted on the in-memory store.
  \<open>serialized\<close> is the verdict of \<open>serializePayload\<close> on the payload or the result
  (its JSON text, or the error it throws).
\<close>

section \<open>Queue options\<close>

record queue_opts =
  qo_payloadMaxBytes :: "int option"
  qo_defaultQueue :: "jstr option"
  qo_maxAttempts :: "int option"
  qo_timeoutMs :: "int option"
  qo_leaseMs :: "int option"
  qo_baseDelayMs :: "int option"
  qo_maxDelayMs :: "int option"

record queue_cfg =
  payloadMaxBytes :: int
  defaultQueue :: jstr
  defaultMaxAttempts :: int
  defaultTimeoutMs :: int
  defaultLeaseMs :: int
  baseDelayMs :: int
  maxDelayMs :: int

datatype queue_error = RangeError | NameError job_error

definition opt :: "'a option \<Rightarrow> 'a \<Rightarrow> 'a" where
  "opt o1 d = (case o1 of Some v \<Rightarrow> v | None \<Rightarrow> d)"

definition createJobQueue :: "queue_opts \<Rightarrow> queue_error + queue_cfg" where
  "createJobQueue q =
     (let bytes = opt (qo_payloadMaxBytes q) (64 * 1024);
          att = opt (qo_maxAttempts q) 5;
          tmo = opt (qo_timeoutMs q) 30000;
          lease = opt (qo_leaseMs q) 30000;
          base = opt (qo_baseDelayMs q) 200;
          mx = opt (qo_maxDelayMs q) 60000
      in if bytes < 1 then Inl RangeError
         else (case (case qo_defaultQueue q of None \<Rightarrow> Inr (js ''default'') | Some n \<Rightarrow> assertQueueName n) of
             Inl e \<Rightarrow> Inl (NameError e)
           | Inr dq \<Rightarrow>
               (if att < 1 then Inl RangeError
                else if tmo < 0 then Inl RangeError
                else if lease < 1 then Inl RangeError
                else if base < 0 then Inl RangeError
                else if mx < base then Inl RangeError
                else Inr \<lparr> payloadMaxBytes = bytes, defaultQueue = dq, defaultMaxAttempts = att,
                           defaultTimeoutMs = tmo, defaultLeaseMs = lease, baseDelayMs = base,
                           maxDelayMs = mx \<rparr>)))"

section \<open>Enqueue\<close>

record enqueue_opts =
  eo_name :: jstr
  eo_queue :: "jstr option"
  eo_idempotencyKey :: "jstr option"
  eo_tenant :: "jstr option"
  eo_runAt :: "int option"
  eo_delayMs :: "int option"
  eo_priority :: "int option"
  eo_maxAttempts :: "int option"
  eo_timeoutMs :: "int option"
  eo_leaseMs :: "int option"

definition opt_check :: "('a \<Rightarrow> 'e + 'a) \<Rightarrow> 'a option \<Rightarrow> 'e + 'a option" where
  "opt_check f o1 = (case o1 of None \<Rightarrow> Inr None
     | Some v \<Rightarrow> (case f v of Inl e \<Rightarrow> Inl e | Inr w \<Rightarrow> Inr (Some w)))"

definition build_job :: "queue_cfg \<Rightarrow> enqueue_opts \<Rightarrow> jstr \<Rightarrow> int \<Rightarrow> (job_error + jstr) \<Rightarrow> job_error + job" where
  "build_job cfg eo newId enqueueNow serialized =
     (case assertJobName (eo_name eo) of Inl e \<Rightarrow> Inl e | Inr name \<Rightarrow>
      case (case eo_queue eo of None \<Rightarrow> Inr (defaultQueue cfg) | Some q \<Rightarrow> assertQueueName q) of
        Inl e \<Rightarrow> Inl e | Inr queueName \<Rightarrow>
      case opt_check assertIdempotencyKey (eo_idempotencyKey eo) of Inl e \<Rightarrow> Inl e | Inr key \<Rightarrow>
      case opt_check assertTenant (eo_tenant eo) of Inl e \<Rightarrow> Inl e | Inr ten \<Rightarrow>
      (let delayMs = opt (eo_delayMs eo) 0;
           run = (case eo_runAt eo of Some r \<Rightarrow> r | None \<Rightarrow> enqueueNow + delayMs);
           att = opt (eo_maxAttempts eo) (defaultMaxAttempts cfg);
           tmo = opt (eo_timeoutMs eo) (defaultTimeoutMs cfg);
           lease = opt (eo_leaseMs eo) (defaultLeaseMs cfg)
       in if eo_runAt eo = None \<and> delayMs < 0 then Inl InvalidOption
          else if att < 1 then Inl InvalidOption
          else if tmo < 0 then Inl InvalidOption
          else if lease < 1 then Inl InvalidOption
          else (case serialized of Inl e \<Rightarrow> Inl e | Inr json \<Rightarrow>
            Inr \<lparr> id = newId, queue = queueName, jname = name, payloadJson = json,
                  status = (if enqueueNow < run then Delayed else Queued), attempts = 0,
                  maxAttempts = nat att, runAt = run, createdAt = enqueueNow, updatedAt = enqueueNow,
                  leaseUntil = None, lockedBy = None, leaseMs = lease, idempotencyKey = key,
                  priority = opt (eo_priority eo) 0, timeoutMs = tmo, lastError = None,
                  completedAt = None, resultJson = None, tenant = ten \<rparr>)))"

definition enqueue :: "queue_cfg \<Rightarrow> enqueue_opts \<Rightarrow> jstr \<Rightarrow> int \<Rightarrow> (job_error + jstr) \<Rightarrow> store
    \<Rightarrow> (job_error + job \<times> bool) \<times> store" where
  "enqueue cfg eo newId now serialized s =
     (case build_job cfg eo newId now serialized of
        Inl e \<Rightarrow> (Inl e, s)
      | Inr j \<Rightarrow> put j now s)"

section \<open>Settling a run\<close>

text \<open>
  How the handler call ended and the flags of \<open>execute\<close> at that moment: \<open>Returned\<close> carries
  the verdict of \<open>serializePayload\<close> on a non-null result.
\<close>

datatype run_end =
    Returned "(jstr + jstr) option"
  | ThrewFatal jstr
  | Threw jstr

record run_flags =
  lostLease :: bool
  timedOut :: bool
  aborted :: bool

datatype run_error = Fatal jstr | TimeoutError | Other jstr

datatype hook = OnComplete | OnFail bool | OnDead

text \<open>The \<open>try\<close> block up to \<open>store.complete\<close>: give up silently, throw, or complete with a result.\<close>

datatype verdict = GiveUp | Throw run_error | Finish "jstr option"

definition run_verdict :: "job \<Rightarrow> bool \<Rightarrow> run_end \<Rightarrow> run_flags \<Rightarrow> verdict" where
  "run_verdict j known r fl =
     (if \<not> known then Throw (Fatal (js ''Unknown job handler''))
      else if maxAttempts j < attempts j then Throw (Fatal (js ''Attempt budget exhausted''))
      else (case r of
          ThrewFatal m \<Rightarrow> Throw (Fatal m)
        | Threw m \<Rightarrow> Throw (Other m)
        | Returned res \<Rightarrow>
            (if aborted fl then
               (if lostLease fl then GiveUp
                else if timedOut fl then Throw TimeoutError
                else Throw (Other (js ''Job aborted: worker is stopping.'')))
             else (case res of None \<Rightarrow> Finish None
                 | Some (Inl e) \<Rightarrow> Throw (Other e)
                 | Some (Inr json) \<Rightarrow> Finish (Some json)))))"

definition error_text :: "run_error \<Rightarrow> jstr" where
  "error_text e = (case e of Fatal m \<Rightarrow> m | TimeoutError \<Rightarrow> js ''Job exceeded its timeoutMs'' | Other m \<Rightarrow> m)"

text \<open>
  The \<open>catch\<close> block.  \<open>fl_op\<close> is \<open>store.fail\<close>, \<open>delayMs\<close> the backoff that
  \<open>computeBackoffMs\<close> chose.
\<close>

type_synonym 's fail_op = "jstr \<Rightarrow> jstr \<Rightarrow> jstr \<Rightarrow> job_status \<times> int \<Rightarrow> int \<Rightarrow> nat option \<Rightarrow> 's \<Rightarrow> bool \<times> 's"
type_synonym 's complete_op = "jstr \<Rightarrow> jstr \<Rightarrow> int \<Rightarrow> jstr option \<Rightarrow> nat option \<Rightarrow> 's \<Rightarrow> bool \<times> 's"

definition settle_error :: "'s fail_op \<Rightarrow> job \<Rightarrow> jstr \<Rightarrow> run_error \<Rightarrow> run_flags \<Rightarrow> int \<Rightarrow> int \<Rightarrow> 's \<Rightarrow> hook list \<times> 's" where
  "settle_error fl_op j worker err fl delayMs now s =
     (if lostLease fl then ([], s)
      else (let effective = (if timedOut fl then TimeoutError else err);
                fatal = (case effective of Fatal _ \<Rightarrow> True | _ \<Rightarrow> False);
                willRetry = (\<not> fatal \<and> attempts j < maxAttempts j);
                nxt = (if willRetry then (Delayed, now + delayMs) else (Dead, now))
            in case fl_op (id j) worker (error_text effective) nxt now (Some (attempts j)) s of
                 (False, s') \<Rightarrow> ([], s')
               | (True, s') \<Rightarrow> (if willRetry then [OnFail True] else [OnFail False, OnDead], s')))"

definition settle_run :: "'s complete_op \<Rightarrow> 's fail_op \<Rightarrow> job \<Rightarrow> jstr \<Rightarrow> bool \<Rightarrow> run_end \<Rightarrow> run_flags \<Rightarrow> int \<Rightarrow> int \<Rightarrow> 's
    \<Rightarrow> hook list \<times> 's" where
  "settle_run cm_op fl_op j worker known r fl delayMs now s =
     (case run_verdict j known r fl of
        GiveUp \<Rightarrow> ([], s)
      | Throw e \<Rightarrow> settle_error fl_op j worker e fl delayMs now s
      | Finish res \<Rightarrow>
          (case cm_op (id j) worker now res (Some (attempts j)) s of
             (False, s') \<Rightarrow> ([], s')
           | (True, s') \<Rightarrow> ([OnComplete], s')))"

section \<open>The store interface\<close>

text \<open>
  The laws of \<open>JobStore\<close> the worker needs of \<open>complete\<close> and \<open>fail\<close>: a refusal changes
  nothing; a success applies to the running record of exactly that attempt, and settles it
  (a failure on the last attempt is dead whatever was asked for).
\<close>

locale job_spi =
  fixes inv :: "'s \<Rightarrow> bool"
    and look :: "'s \<Rightarrow> jstr \<Rightarrow> job option"
    and cm_op :: "'s complete_op"
    and fl_op :: "'s fail_op"
  assumes complete_refused: "cm_op i w now r a s = (False, s') \<Longrightarrow> s' = s"
    and fail_refused: "fl_op i w e nx now a s = (False, s') \<Longrightarrow> s' = s"
    and complete_done: "inv s \<Longrightarrow> cm_op i w now r (Some n) s = (True, s') \<Longrightarrow>
      \<exists>j j'. look s i = Some j \<and> status j = Running \<and> lockedBy j = Some w \<and> attempts j = n
        \<and> look s' i = Some j' \<and> status j' = Completed \<and> resultJson j' = r"
    and fail_done: "inv s \<Longrightarrow> fl_op i w e nx now (Some n) s = (True, s') \<Longrightarrow>
      \<exists>j j'. look s i = Some j \<and> status j = Running \<and> lockedBy j = Some w \<and> attempts j = n
        \<and> look s' i = Some j' \<and> status j' = (if maxAttempts j \<le> attempts j then Dead else fst nx)"
begin

lemma settle_hooks:
  assumes "inv s" and "\<And>j'. look s (id j) = Some j' \<Longrightarrow> attempts j' = attempts j \<Longrightarrow> maxAttempts j' = maxAttempts j"
    and "settle_run cm_op fl_op j w known r fl d now s = (hooks, s')"
  shows "(hooks = [] \<longrightarrow> s' = s)
    \<and> (OnComplete \<in> set hooks \<longrightarrow> (\<exists>j'. look s' (id j) = Some j' \<and> status j' = Completed))
    \<and> (OnDead \<in> set hooks \<longrightarrow> (\<exists>j'. look s' (id j) = Some j' \<and> status j' = Dead))
    \<and> (OnFail True \<in> set hooks \<longrightarrow> (\<exists>j'. look s' (id j) = Some j' \<and> status j' = Delayed))
    \<and> (lostLease fl \<longrightarrow> hooks = [] \<or> hooks = [OnComplete])"
proof (cases "run_verdict j known r fl")
  case GiveUp
  with assms(3) show ?thesis by (simp add: settle_run_def)
next
  case (Finish res)
  with assms(3) complete_refused complete_done [OF assms(1)] show ?thesis
    by (fastforce simp: settle_run_def split: prod.splits bool.splits)
next
  case (Throw e)
  then have h: "settle_error fl_op j w e fl d now s = (hooks, s')" using assms(3) by (simp add: settle_run_def)
  show ?thesis
  proof (cases "lostLease fl")
    case True
    with h show ?thesis by (simp add: settle_error_def)
  next
    case False
    define eff where "eff = (if timedOut fl then TimeoutError else e)"
    define retry where "retry = (\<not> (case eff of Fatal _ \<Rightarrow> True | _ \<Rightarrow> False) \<and> attempts j < maxAttempts j)"
    define nx where "nx = (if retry then (Delayed, now + d) else (Dead, now))"
    obtain ok t where f: "fl_op (id j) w (error_text eff) nx now (Some (attempts j)) s = (ok, t)" by fastforce
    have hs: "(hooks, s') = (if ok then (if retry then [OnFail True] else [OnFail False, OnDead]) else [], t)"
      using h False f unfolding settle_error_def Let_def eff_def [symmetric] retry_def [symmetric] nx_def [symmetric]
      by (cases ok) auto
    show ?thesis
    proof (cases ok)
      case False
      with hs f fail_refused show ?thesis by auto
    next
      case True
      with f have "fl_op (id j) w (error_text eff) nx now (Some (attempts j)) s = (True, t)" by simp
      from fail_done [OF assms(1) this] obtain j0 j1 where
        l: "look s (id j) = Some j0" "attempts j0 = attempts j" "look t (id j) = Some j1"
        "status j1 = (if maxAttempts j0 \<le> attempts j0 then Dead else fst nx)" by blast
      from assms(2) [OF l(1,2)] l(2) have "retry \<longrightarrow> \<not> maxAttempts j0 \<le> attempts j0" by (simp add: retry_def)
      with l hs True \<open>\<not> lostLease fl\<close> show ?thesis by (auto simp: nx_def)
    qed
  qed
qed

end

interpretation memory: job_spi store_inv "\<lambda>s i. map_of (jobs s) i" complete fail_job
proof unfold_locales
  fix i w now r a s s' assume "complete i w now r a s = (False, s')"
  then show "s' = s" by (auto simp: complete_def split: option.splits)
next
  fix i w e nx now a s s' assume "fail_job i w e nx now a s = (False, s')"
  then show "s' = s" by (auto simp: fail_job_def split: option.splits)
next
  fix s i w now r n s'
  assume inv: "store_inv s" and c: "complete i w now r (Some n) s = (True, s')"
  then obtain j where j: "ownedRunning s i w (Some n) = Some j" by (auto simp: complete_def split: option.splits)
  then have o: "map_of (jobs s) i = Some j" "status j = Running" "lockedBy j = Some w" "attempts j = n"
    by (auto simp: owned_some)
  with inv have "id j = i" by (auto simp: store_inv_def)
  with o c j show "\<exists>j j'. map_of (jobs s) i = Some j \<and> status j = Running \<and> lockedBy j = Some w \<and> attempts j = n
        \<and> map_of (jobs s') i = Some j' \<and> status j' = Completed \<and> resultJson j' = r"
    by (auto simp: complete_def put_job_def update_conv')
next
  fix s i w e nx now n s'
  assume inv: "store_inv s" and c: "fail_job i w e nx now (Some n) s = (True, s')"
  then obtain j where j: "ownedRunning s i w (Some n) = Some j" by (auto simp: fail_job_def split: option.splits)
  then have o: "map_of (jobs s) i = Some j" "status j = Running" "lockedBy j = Some w" "attempts j = n"
    by (auto simp: owned_some)
  with inv have i: "id j = i" by (auto simp: store_inv_def)
  have f: "id (failed_record j e nx now) = id j"
    "status (failed_record j e nx now) = (if maxAttempts j \<le> attempts j then Dead else fst nx)"
    by (simp_all add: failed_record_def Let_def)
  from c j have "s' = put_job (failed_record j e nx now) s" by (simp add: fail_job_def)
  then have "map_of (jobs s') i = Some (failed_record j e nx now)"
    using f(1) i by (simp add: put_job_def update_conv')
  with o f(2) show "\<exists>j j'. map_of (jobs s) i = Some j \<and> status j = Running \<and> lockedBy j = Some w \<and> attempts j = n
        \<and> map_of (jobs s') i = Some j' \<and> status j' = (if maxAttempts j \<le> attempts j then Dead else fst nx)"
    by blast
qed

section \<open>Properties\<close>

text \<open>
  Every accepted \<open>enqueue\<close> hands the store a record that its protocol admits: a
  queue built by \<open>createJobQueue\<close> keeps the store inside the reachable states, so all
  properties of the store hold of a queue in use.
\<close>

lemma enqueue_reach:
  assumes "store_reach s" and "createJobQueue q = Inr cfg" and "newId \<notin> keys (jobs s)"
  shows "store_reach (snd (enqueue cfg eo newId now serialized s))"
proof (cases "build_job cfg eo newId now serialized")
  case (Inl e)
  with assms show ?thesis by (simp add: enqueue_def)
next
  case (Inr j)
  then have "id j = newId" "attempts j = 0" "0 < maxAttempts j"
    by (auto simp: build_job_def Let_def split: sum.splits if_splits)
  with assms(3) have "op_ok (Put j now) s" by simp
  from store_reach.step [OF assms(1) this] Inr show ?thesis by (simp add: enqueue_def)
qed

lemma enqueue_reach_example:
  "\<exists>cfg s. createJobQueue \<lparr> qo_payloadMaxBytes = None, qo_defaultQueue = None, qo_maxAttempts = Some 3,
      qo_timeoutMs = None, qo_leaseMs = None, qo_baseDelayMs = None, qo_maxDelayMs = None \<rparr> = Inr cfg
    \<and> enqueue cfg \<lparr> eo_name = js ''mail'', eo_queue = None, eo_idempotencyKey = Some (js ''k''), eo_tenant = None,
        eo_runAt = None, eo_delayMs = Some 5, eo_priority = None, eo_maxAttempts = None,
        eo_timeoutMs = None, eo_leaseMs = None \<rparr> (js ''id1'') 100 (Inr (js ''1'')) store0 = s
    \<and> length (jobs (snd s)) = 1 \<and> store_reach (snd s)"
proof -
  let ?q = "\<lparr> qo_payloadMaxBytes = None, qo_defaultQueue = None, qo_maxAttempts = Some 3,
      qo_timeoutMs = None, qo_leaseMs = None, qo_baseDelayMs = None, qo_maxDelayMs = None \<rparr>"
  let ?e = "\<lparr> eo_name = js ''mail'', eo_queue = None, eo_idempotencyKey = Some (js ''k''), eo_tenant = None,
        eo_runAt = None, eo_delayMs = Some 5, eo_priority = None, eo_maxAttempts = None,
        eo_timeoutMs = None, eo_leaseMs = None \<rparr>"
  obtain cfg where c: "createJobQueue ?q = Inr cfg" by (simp add: createJobQueue_def opt_def)
  then have l: "length (jobs (snd (enqueue cfg ?e (js ''id1'') 100 (Inr (js ''1'')) store0))) = 1"
    by (auto simp: createJobQueue_def opt_def enqueue_def build_job_def opt_check_def eval store0_def Let_def)
  have "js ''id1'' \<notin> keys (jobs store0)" by (simp add: store0_def)
  from enqueue_reach [OF store0_reach c this] l c show ?thesis by blast
qed

text \<open>
  What a worker reports is what the store holds: after a run is settled, \<open>onComplete\<close>
  fires only for a record that is now completed, \<open>onDead\<close> only for one that is now dead,
  a retry report only for one that is delayed; a rejected settlement changes nothing and
  reports nothing; and a run that lost its lease never records a failure.
\<close>

lemma worker_reports_truth:
  assumes "store_reach s" and "map_of (jobs s) (id j) = Some c" and "maxAttempts c = maxAttempts j"
    and "settle_run complete fail_job j w known r fl d now s = (hooks, s')"
  shows "(hooks = [] \<longrightarrow> s' = s)
    \<and> (OnComplete \<in> set hooks \<longrightarrow> (\<exists>j'. map_of (jobs s') (id j) = Some j' \<and> status j' = Completed))
    \<and> (OnDead \<in> set hooks \<longrightarrow> (\<exists>j'. map_of (jobs s') (id j) = Some j' \<and> status j' = Dead))
    \<and> (OnFail True \<in> set hooks \<longrightarrow> (\<exists>j'. map_of (jobs s') (id j) = Some j' \<and> status j' = Delayed))
    \<and> (lostLease fl \<longrightarrow> hooks = [] \<or> hooks = [OnComplete])"
  using memory.settle_hooks [OF reach_inv [OF assms(1)] _ assms(4)] assms(2,3) by simp

lemma worker_reports_truth_example:
  "\<exists>s'. settle_run complete fail_job (the (map_of (jobs store3) (js ''b''))) (js ''w'') True
      (Threw (js ''x'')) \<lparr> lostLease = False, timedOut = False, aborted = False \<rparr> 200 5 store3 = ([OnFail True], s')
    \<and> (\<exists>j'. map_of (jobs s') (js ''b'') = Some j' \<and> status j' = Delayed)"
proof -
  let ?j = "the (map_of (jobs store3) (js ''b''))"
  have m: "map_of (jobs store3) (id ?j) = Some ?j" and i: "id ?j = js ''b''"
    by (simp_all add: sample_defs eval Let_def)
  obtain s' where r: "settle_run complete fail_job ?j (js ''w'') True
      (Threw (js ''x'')) \<lparr> lostLease = False, timedOut = False, aborted = False \<rparr> 200 5 store3 = ([OnFail True], s')"
    by (simp add: sample_defs eval Let_def settle_run_def run_verdict_def settle_error_def)
  from worker_reports_truth [OF store3_reach m refl r] i r show ?thesis by auto
qed

text \<open>
  The exponential backoff is a delay within its ceiling, at most \<open>base * 2 ^ (attempt - 1)\<close>,
  and never shrinks from one attempt to the next when the jitter is monotone, for every base
  delay but 0.
\<close>

lemma backoff_bounds:
  assumes "\<And>e. jitter e \<le> e" and "mono jitter" and "0 < base"
  shows "\<exists>d d'. computeBackoffMs a base mx jitter = Some d \<and> computeBackoffMs (Suc a) base mx jitter = Some d'
    \<and> d \<le> d' \<and> d' \<le> mx \<and> d \<le> base * 2 ^ (a - 1)"
proof -
  let ?e = "\<lambda>n. min mx (base * 2 ^ n)"
  from assms(3) have d: "computeBackoffMs a base mx jitter = Some (jitter (?e (a - 1)))"
    "computeBackoffMs (Suc a) base mx jitter = Some (jitter (?e a))"
    by (auto simp: computeBackoffMs_def Let_def)
  have "base * 2 ^ (a - 1) \<le> base * 2 ^ a" by (intro mult_left_mono power_increasing) simp_all
  then have "?e (a - 1) \<le> ?e a" by (intro min.mono) simp_all
  with assms(2) have "jitter (?e (a - 1)) \<le> jitter (?e a)" by (simp add: monoD)
  moreover have "jitter (?e a) \<le> mx" using assms(1) [of "?e a"] by simp
  moreover have "jitter (?e (a - 1)) \<le> base * 2 ^ (a - 1)" using assms(1) [of "?e (a - 1)"] by simp
  ultimately show ?thesis unfolding d by blast
qed

text \<open>With a base delay of 0, which \<open>createJobQueue\<close> accepts, the delay is \<open>NaN\<close> from attempt 1025 on.\<close>

lemma zero_backoff_nan: "1025 \<le> a \<Longrightarrow> computeBackoffMs a 0 mx jitter = None"
  by (simp add: computeBackoffMs_def Let_def)

lemma backoff_bounds_example:
  "computeBackoffMs 3 200 60000 (\<lambda>e. e div 2) = Some 400
   \<and> (\<exists>d d'. computeBackoffMs 3 200 60000 (\<lambda>e. e div 2) = Some d
        \<and> computeBackoffMs (Suc 3) 200 60000 (\<lambda>e. e div 2) = Some d'
        \<and> d \<le> d' \<and> d' \<le> 60000 \<and> d \<le> 200 * 2 ^ (3 - 1))"
proof -
  have "mono (\<lambda>e::nat. e div 2)" by (intro monoI div_le_mono)
  from backoff_bounds [OF _ this, of 200 3 60000]
  show ?thesis by (simp add: computeBackoffMs_def Let_def)
qed

end
