(* ===== verification/Resilience.thy ===== *)
theory Resilience
  imports JsText
begin

text \<open>
  \<open>fetch-resilience.ts\<close>: the circuit breaker and the retry loop of \<open>resilientFetch\<close>.

  The breaker's clock is an argument of the operations.  Calls overlap, so a run of the
  breaker is a sequence of admissions and outcomes; the ghost counters of \<open>bstep\<close> record
  which calls in flight were admitted as probes of the current half-open period.  The
  environment of the retry loop is the list of what each attempt meets: the fetch's
  result and whether the caller's signal was aborted after it, and after the sleep.
\<close>

section \<open>Circuit breaker\<close>

datatype circuit_state = CClosed | COpen | HalfOpen

record breaker =
  failureThreshold :: int
  resetTimeoutMs :: int
  halfOpenMaxAttempts :: int
  successThreshold :: int
  cstate :: circuit_state
  failureCount :: int
  successCount :: int
  openedAt :: int
  halfOpenInFlight :: int

definition new_breaker :: "int option \<Rightarrow> int option \<Rightarrow> int option \<Rightarrow> int option \<Rightarrow> breaker option" where
  "new_breaker ft rt hm st =
     (let f = (case ft of None \<Rightarrow> 5 | Some v \<Rightarrow> v);
          r = (case rt of None \<Rightarrow> 30000 | Some v \<Rightarrow> v);
          h = (case hm of None \<Rightarrow> 1 | Some v \<Rightarrow> v);
          s = (case st of None \<Rightarrow> 1 | Some v \<Rightarrow> v)
      in if f < 1 \<or> r < 0 \<or> h < 1 \<or> s < 1 then None
         else Some \<lparr> failureThreshold = f, resetTimeoutMs = r, halfOpenMaxAttempts = h,
                     successThreshold = s, cstate = CClosed, failureCount = 0, successCount = 0,
                     openedAt = 0, halfOpenInFlight = 0 \<rparr>)"

definition observed_state :: "breaker \<Rightarrow> int \<Rightarrow> circuit_state" where
  "observed_state b now =
     (if cstate b = COpen \<and> resetTimeoutMs b \<le> now - openedAt b then HalfOpen else cstate b)"

definition retryAfterMs :: "breaker \<Rightarrow> int \<Rightarrow> int" where
  "retryAfterMs b now =
     (if cstate b \<noteq> COpen then 0 else max 0 (resetTimeoutMs b - (now - openedAt b)))"

definition transition :: "circuit_state \<Rightarrow> int \<Rightarrow> breaker \<Rightarrow> breaker" where
  "transition nxt now b =
     (if cstate b = nxt then b
      else (case nxt of
          COpen \<Rightarrow> b\<lparr>cstate := COpen, openedAt := now\<rparr>
        | CClosed \<Rightarrow> b\<lparr>cstate := CClosed, failureCount := 0, successCount := 0, halfOpenInFlight := 0\<rparr>
        | HalfOpen \<Rightarrow> b\<lparr>cstate := HalfOpen, successCount := 0, halfOpenInFlight := 0\<rparr>))"

text \<open>\<open>Inl ms\<close> is \<open>CircuitOpenError(ms)\<close>.\<close>

definition admit_probe :: "int \<Rightarrow> breaker \<Rightarrow> (int + unit) \<times> breaker" where
  "admit_probe now b =
     (if cstate b = HalfOpen then
        (if halfOpenMaxAttempts b \<le> halfOpenInFlight b then (Inl (retryAfterMs b now), b)
         else (Inr (), b\<lparr>halfOpenInFlight := halfOpenInFlight b + 1\<rparr>))
      else (Inr (), b))"

definition admit :: "int \<Rightarrow> breaker \<Rightarrow> (int + unit) \<times> breaker" where
  "admit now b =
     (if cstate b = COpen then
        (if resetTimeoutMs b \<le> now - openedAt b then admit_probe now (transition HalfOpen now b)
         else (Inl (retryAfterMs b now), b))
      else admit_probe now b)"

definition onSuccess :: "int \<Rightarrow> breaker \<Rightarrow> breaker" where
  "onSuccess now b =
     (if cstate b = HalfOpen then
        (let b1 = b\<lparr>halfOpenInFlight := max 0 (halfOpenInFlight b - 1), successCount := successCount b + 1\<rparr>
         in if successThreshold b1 \<le> successCount b1 then transition CClosed now b1 else b1)
      else b\<lparr>failureCount := 0\<rparr>)"

definition onFailure :: "int \<Rightarrow> breaker \<Rightarrow> breaker" where
  "onFailure now b =
     (if cstate b = HalfOpen then
        transition COpen now (b\<lparr>halfOpenInFlight := max 0 (halfOpenInFlight b - 1)\<rparr>)
      else
        (let b1 = b\<lparr>failureCount := failureCount b + 1\<rparr>
         in if failureThreshold b1 \<le> failureCount b1 then transition COpen now b1 else b1))"

definition recordOutcome :: "bool \<Rightarrow> int \<Rightarrow> breaker \<Rightarrow> breaker" where
  "recordOutcome ok now b = (if ok then onSuccess now b else onFailure now b)"

definition release_probe :: "breaker \<Rightarrow> breaker" where
  "release_probe b =
     (if cstate b = HalfOpen then b\<lparr>halfOpenInFlight := max 0 (halfOpenInFlight b - 1)\<rparr> else b)"

lemmas [eval] = new_breaker_def observed_state_def retryAfterMs_def transition_def admit_probe_def admit_def
  onSuccess_def onFailure_def recordOutcome_def release_probe_def

subsection \<open>Runs with overlapping calls\<close>

text \<open>
  Ghost state: calls in flight admitted as probes of the current half-open period, and all
  other calls in flight.  Leaving the half-open state turns outstanding probes into others.
\<close>

record world =
  brk :: breaker
  probes :: nat
  others :: nat

definition resettle :: "breaker \<Rightarrow> nat \<Rightarrow> nat \<Rightarrow> world" where
  "resettle b p q = (if cstate b = HalfOpen then \<lparr> brk = b, probes = p, others = q \<rparr>
                     else \<lparr> brk = b, probes = 0, others = q + p \<rparr>)"

inductive bstep :: "bool \<Rightarrow> world \<Rightarrow> world \<Rightarrow> bool" for stale where
  refused: "admit now (brk w) = (Inl ms, b) \<Longrightarrow> bstep stale w (w\<lparr>brk := b\<rparr>)"
| probe: "admit now (brk w) = (Inr (), b) \<Longrightarrow> cstate b = HalfOpen \<Longrightarrow>
    bstep stale w \<lparr> brk = b, probes = Suc (probes w), others = others w \<rparr>"
| normal: "admit now (brk w) = (Inr (), b) \<Longrightarrow> cstate b \<noteq> HalfOpen \<Longrightarrow>
    bstep stale w \<lparr> brk = b, probes = probes w, others = Suc (others w) \<rparr>"
| probe_outcome: "0 < probes w \<Longrightarrow>
    bstep stale w (resettle (recordOutcome ok now (brk w)) (probes w - 1) (others w))"
| probe_release: "0 < probes w \<Longrightarrow> bstep stale w (resettle (release_probe (brk w)) (probes w - 1) (others w))"
| other_outcome: "0 < others w \<Longrightarrow> stale \<or> cstate (brk w) \<noteq> HalfOpen \<Longrightarrow>
    bstep stale w (resettle (recordOutcome ok now (brk w)) (probes w) (others w - 1))"
| other_release: "0 < others w \<Longrightarrow> stale \<or> cstate (brk w) \<noteq> HalfOpen \<Longrightarrow>
    bstep stale w (resettle (release_probe (brk w)) (probes w) (others w - 1))"

inductive breach :: "bool \<Rightarrow> world \<Rightarrow> bool" for stale where
  start: "new_breaker ft rt hm st = Some b \<Longrightarrow> breach stale \<lparr> brk = b, probes = 0, others = 0 \<rparr>"
| step: "breach stale w \<Longrightarrow> bstep stale w w' \<Longrightarrow> breach stale w'"

inductive_cases bstepE: "bstep stale w w'"

text \<open>Counter invariant of every reachable breaker, stale outcomes included.\<close>

definition breaker_inv :: "breaker \<Rightarrow> bool" where
  "breaker_inv b \<longleftrightarrow> 1 \<le> failureThreshold b \<and> 0 \<le> resetTimeoutMs b \<and> 1 \<le> halfOpenMaxAttempts b
     \<and> 1 \<le> successThreshold b
     \<and> (cstate b = CClosed \<longrightarrow> 0 \<le> failureCount b \<and> failureCount b < failureThreshold b)
     \<and> (cstate b = HalfOpen \<longrightarrow> 0 \<le> halfOpenInFlight b \<and> halfOpenInFlight b \<le> halfOpenMaxAttempts b
          \<and> 0 \<le> successCount b \<and> successCount b < successThreshold b)"

lemma breaker_inv_admit: "breaker_inv b \<Longrightarrow> breaker_inv (snd (admit now b))"
  by (auto simp: breaker_inv_def admit_def admit_probe_def transition_def)

lemma breaker_inv_success: "breaker_inv b \<Longrightarrow> breaker_inv (onSuccess now b)"
  by (auto simp: breaker_inv_def onSuccess_def transition_def Let_def)

lemma breaker_inv_failure: "breaker_inv b \<Longrightarrow> breaker_inv (onFailure now b)"
  by (cases "cstate b") (auto simp: breaker_inv_def onFailure_def transition_def Let_def)

lemma breaker_inv_release: "breaker_inv b \<Longrightarrow> breaker_inv (release_probe b)"
  by (auto simp: breaker_inv_def release_probe_def)

lemma brk_resettle [simp]: "brk (resettle b p q) = b"
  by (simp add: resettle_def)

lemma breach_inv: "breach stale w \<Longrightarrow> breaker_inv (brk w)"
proof (induction rule: breach.induct)
  case (start ft rt hm st b)
  then show ?case by (auto simp: new_breaker_def breaker_inv_def Let_def split: if_splits)
next
  case (step w w')
  have a: "breaker_inv b" if "admit now (brk w) = (r, b)" for now r b
    using breaker_inv_admit [OF step.IH, of now] that by simp
  note keep = breaker_inv_success [OF step.IH] breaker_inv_failure [OF step.IH] breaker_inv_release [OF step.IH]
  from step.hyps(2) show ?case
    by (cases rule: bstep.cases) (auto simp: recordOutcome_def keep intro: a)
qed

text \<open>
  C11. The breaker's counters stay in their bounds in every run of overlapping calls: while
  closed it has seen fewer failures in a row than the threshold, while half-open it counts at
  most \<open>halfOpenMaxAttempts\<close> probes in flight and too few successes to close.
\<close>

theorem breaker_bounded:
  assumes "breach stale w"
  shows "breaker_inv (brk w)"
  by (rule breach_inv [OF assms])

lemma resettle_probes:
  "cstate b = HalfOpen \<Longrightarrow> probes (resettle b p q) = p" "cstate b \<noteq> HalfOpen \<Longrightarrow> probes (resettle b p q) = 0"
  by (simp_all add: resettle_def)

lemma probe_count: "breach False w \<Longrightarrow>
  if cstate (brk w) = HalfOpen then int (probes w) = halfOpenInFlight (brk w) else probes w = 0"
proof (induction rule: breach.induct)
  case (start ft rt hm st b)
  then show ?case by (auto simp: new_breaker_def Let_def split: if_splits)
next
  case (step w w')
  from step.hyps(2) show ?case
  proof (cases rule: bstep.cases)
    case (probe_outcome ok now)
    with step.IH have h: "cstate (brk w) = HalfOpen" by (auto split: if_splits)
    with probe_outcome step.IH show ?thesis
      by (auto simp: recordOutcome_def onSuccess_def onFailure_def transition_def Let_def resettle_def)
  next
    case probe_release
    with step.IH have h: "cstate (brk w) = HalfOpen" by (auto split: if_splits)
    with probe_release step.IH show ?thesis by (auto simp: release_probe_def resettle_def)
  next
    case (other_outcome ok now)
    then have "cstate (brk w) \<noteq> HalfOpen" by simp
    with other_outcome step.IH show ?thesis
      by (auto simp: recordOutcome_def onSuccess_def onFailure_def transition_def Let_def resettle_def)
  next
    case other_release
    with step.IH show ?thesis by (auto simp: release_probe_def resettle_def)
  next
    case (refused now ms b)
    with step.IH show ?thesis by (auto simp: admit_def admit_probe_def transition_def split: if_splits)
  next
    case (probe now b)
    with step.IH show ?thesis by (auto simp: admit_def admit_probe_def transition_def split: if_splits)
  next
    case (normal now b)
    with step.IH show ?thesis by (auto simp: admit_def admit_probe_def transition_def split: if_splits)
  qed
qed

text \<open>
  Half-open concurrency is limited as documented as long as no call admitted before the
  half-open period reports its outcome during it: the probes really in flight are at most
  \<open>halfOpenMaxAttempts\<close>, and they are exactly what the breaker counts.
\<close>

lemma probes_limited:
  assumes "breach False w" and "cstate (brk w) = HalfOpen"
  shows "int (probes w) = halfOpenInFlight (brk w) \<and> int (probes w) \<le> halfOpenMaxAttempts (brk w)"
  using probe_count [OF assms(1)] breach_inv [OF assms(1)] assms(2) by (simp add: breaker_inv_def)

definition tripped :: "int \<Rightarrow> breaker" where
  "tripped st = onFailure 0 (snd (admit 0 (snd (admit 0 (the (new_breaker (Some 1) (Some 10) (Some 1) (Some st)))))))"

definition probing :: "int \<Rightarrow> breaker" where
  "probing st = snd (admit 10 (tripped st))"

lemma tripped_eq: "1 \<le> st \<Longrightarrow> tripped st = \<lparr> failureThreshold = 1, resetTimeoutMs = 10, halfOpenMaxAttempts = 1,
    successThreshold = st, cstate = COpen, failureCount = 1, successCount = 0, openedAt = 0, halfOpenInFlight = 0 \<rparr>"
  by (simp add: tripped_def new_breaker_def admit_def admit_probe_def onFailure_def transition_def)

lemma probing_eq: "1 \<le> st \<Longrightarrow> probing st = \<lparr> failureThreshold = 1, resetTimeoutMs = 10, halfOpenMaxAttempts = 1,
    successThreshold = st, cstate = HalfOpen, failureCount = 1, successCount = 0, openedAt = 0, halfOpenInFlight = 1 \<rparr>"
  by (simp add: probing_def tripped_eq admit_def admit_probe_def transition_def)

lemma two_calls_trip:
  assumes "1 \<le> st"
  shows "breach True \<lparr> brk = tripped st, probes = 0, others = 1 \<rparr>"
proof -
  define b0 where "b0 = \<lparr> failureThreshold = 1, resetTimeoutMs = 10, halfOpenMaxAttempts = 1,
    successThreshold = st, cstate = CClosed, failureCount = 0, successCount = 0, openedAt = 0, halfOpenInFlight = 0 \<rparr>"
  have n: "new_breaker (Some 1) (Some 10) (Some 1) (Some st) = Some b0"
    using assms by (simp add: b0_def new_breaker_def)
  have a: "admit 0 b0 = (Inr (), b0)" by (simp add: b0_def admit_def admit_probe_def)
  have t: "recordOutcome False 0 b0 = tripped st"
    by (simp add: tripped_eq assms b0_def recordOutcome_def onFailure_def transition_def)
  have s0: "breach True \<lparr> brk = b0, probes = 0, others = 0 \<rparr>" by (rule breach.start [OF n])
  have "bstep True \<lparr> brk = b0, probes = 0, others = k \<rparr> \<lparr> brk = b0, probes = 0, others = Suc k \<rparr>" for k
    using bstep.normal [of 0 "\<lparr> brk = b0, probes = 0, others = k \<rparr>" b0] a by (simp add: b0_def)
  then have s2: "breach True \<lparr> brk = b0, probes = 0, others = Suc (Suc 0) \<rparr>"
    by (intro breach.step [OF breach.step [OF s0]])
  have "bstep True \<lparr> brk = b0, probes = 0, others = Suc (Suc 0) \<rparr> \<lparr> brk = tripped st, probes = 0, others = 1 \<rparr>"
    using bstep.other_outcome [of "\<lparr> brk = b0, probes = 0, others = Suc (Suc 0) \<rparr>" True False 0] t
    by (simp add: resettle_def tripped_eq assms)
  from breach.step [OF s2 this] show ?thesis .
qed

lemma one_probe:
  assumes "1 \<le> st"
  shows "breach True \<lparr> brk = probing st, probes = 1, others = 1 \<rparr>"
proof -
  have "admit 10 (tripped st) = (Inr (), probing st)"
    by (simp add: tripped_eq probing_eq assms admit_def admit_probe_def transition_def)
  then have "bstep True \<lparr> brk = tripped st, probes = 0, others = 1 \<rparr> \<lparr> brk = probing st, probes = 1, others = 1 \<rparr>"
    using bstep.probe [of 10 "\<lparr> brk = tripped st, probes = 0, others = 1 \<rparr>" "probing st"]
    by (simp add: probing_eq assms)
  from breach.step [OF two_calls_trip [OF assms] this] show ?thesis .
qed

text \<open>
  Without that assumption the limit fails, and a breaker closes on an outcome that says
  nothing about recovery: the outcome of a call admitted before the trip is counted as a
  probe's.  With one probe allowed and two successes required, a stale success lets a second
  probe in beside the first; with one success required it closes the circuit while the only
  probe is still running.
\<close>

lemma stale_outcome_breaks_limit:
  "(\<exists>w. breach True w \<and> cstate (brk w) = HalfOpen \<and> halfOpenMaxAttempts (brk w) = 1 \<and> probes w = 2)
   \<and> (\<exists>w w'. breach True w \<and> cstate (brk w) = HalfOpen \<and> probes w = 1 \<and> bstep True w w'
        \<and> cstate (brk w') = CClosed \<and> others w' = 1)"
proof
  let ?b = "(probing 2)\<lparr>halfOpenInFlight := 0, successCount := 1\<rparr>"
  let ?c = "(probing 2)\<lparr>successCount := 1\<rparr>"
  have "recordOutcome True 11 (probing 2) = ?b"
    by (simp add: probing_eq recordOutcome_def onSuccess_def)
  then have "bstep True \<lparr> brk = probing 2, probes = 1, others = 1 \<rparr> \<lparr> brk = ?b, probes = 1, others = 0 \<rparr>"
    using bstep.other_outcome [of "\<lparr> brk = probing 2, probes = 1, others = 1 \<rparr>" True True 11]
    by (simp add: resettle_def probing_eq)
  with one_probe [of 2] have r: "breach True \<lparr> brk = ?b, probes = 1, others = 0 \<rparr>" by (auto intro: breach.step)
  have "admit 12 ?b = (Inr (), ?c)" by (simp add: probing_eq admit_def admit_probe_def)
  then have "bstep True \<lparr> brk = ?b, probes = 1, others = 0 \<rparr> \<lparr> brk = ?c, probes = 2, others = 0 \<rparr>"
    using bstep.probe [of 12 "\<lparr> brk = ?b, probes = 1, others = 0 \<rparr>" ?c] by (simp add: probing_eq numeral_2_eq_2)
  from breach.step [OF r this]
  show "\<exists>w. breach True w \<and> cstate (brk w) = HalfOpen \<and> halfOpenMaxAttempts (brk w) = 1 \<and> probes w = 2"
    by (intro exI) (auto simp: probing_eq)
next
  let ?w = "\<lparr> brk = probing 1, probes = 1, others = 1 \<rparr>"
  have "bstep True ?w (resettle (recordOutcome True 11 (probing 1)) 1 0)"
    using bstep.other_outcome [of ?w True True 11] by simp
  moreover have "cstate (recordOutcome True 11 (probing 1)) = CClosed"
    by (simp add: probing_eq recordOutcome_def onSuccess_def transition_def)
  moreover have "others (resettle (recordOutcome True 11 (probing 1)) 1 0) = 1"
    using calculation(2) by (simp add: resettle_def)
  ultimately show "\<exists>w w'. breach True w \<and> cstate (brk w) = HalfOpen \<and> probes w = 1 \<and> bstep True w w'
        \<and> cstate (brk w') = CClosed \<and> others w' = 1"
    using one_probe [of 1] by (intro exI [of _ ?w] exI conjI) (auto simp: probing_eq)
qed

theorem breaker_bounded_witness:
  "breaker_inv (probing 2) \<and> halfOpenInFlight (probing 2) = 1"
  using breaker_bounded [OF one_probe [of 2]] by (simp add: probing_eq)

lemma probes_limited_example:
  "\<exists>w. breach False w \<and> probes w = 1 \<and> halfOpenInFlight (brk w) = 1"
proof -
  define b0 where "b0 = \<lparr> failureThreshold = 1, resetTimeoutMs = 10, halfOpenMaxAttempts = 1,
    successThreshold = 1, cstate = CClosed, failureCount = 0, successCount = 0, openedAt = 0, halfOpenInFlight = 0 \<rparr>"
  let ?w0 = "\<lparr> brk = b0, probes = 0, others = 0 \<rparr>"
  have "breach False ?w0"
    by (rule breach.start [of "Some 1" "Some 10" "Some 1" "Some 1"]) (simp add: b0_def new_breaker_def)
  moreover have "bstep False ?w0 \<lparr> brk = b0, probes = 0, others = 1 \<rparr>"
    using bstep.normal [of 0 ?w0 b0] by (simp add: b0_def admit_def admit_probe_def)
  moreover have "bstep False \<lparr> brk = b0, probes = 0, others = 1 \<rparr> \<lparr> brk = tripped 1, probes = 0, others = 0 \<rparr>"
    using bstep.other_outcome [of "\<lparr> brk = b0, probes = 0, others = 1 \<rparr>" False False 0]
    by (simp add: b0_def recordOutcome_def onFailure_def transition_def resettle_def tripped_eq)
  moreover have "bstep False \<lparr> brk = tripped 1, probes = 0, others = 0 \<rparr> \<lparr> brk = probing 1, probes = 1, others = 0 \<rparr>"
    using bstep.probe [of 10 "\<lparr> brk = tripped 1, probes = 0, others = 0 \<rparr>" "probing 1"]
    by (simp add: tripped_eq probing_eq admit_def admit_probe_def transition_def)
  ultimately have r: "breach False \<lparr> brk = probing 1, probes = 1, others = 0 \<rparr>" by (blast intro: breach.step)
  from probes_limited [OF r] have "halfOpenInFlight (probing 1) = 1" by (simp add: probing_eq)
  with r show ?thesis by force
qed

text \<open>
  An open circuit fails fast: until the reset timeout has passed every admission is
  refused with the time that remains and nothing changes, and afterwards the first one is
  let through as a probe.
\<close>

lemma open_fails_fast:
  assumes "breaker_inv b" and "cstate b = COpen"
  shows "if now - openedAt b < resetTimeoutMs b
    then admit now b = (Inl (retryAfterMs b now), b) \<and> 0 < retryAfterMs b now
    else fst (admit now b) = Inr () \<and> cstate (snd (admit now b)) = HalfOpen \<and> halfOpenInFlight (snd (admit now b)) = 1"
  using assms by (auto simp: admit_def admit_probe_def transition_def retryAfterMs_def breaker_inv_def)

lemma open_fails_fast_example:
  "admit 4 (tripped 1) = (Inl 6, tripped 1)"
proof -
  have "breaker_inv (tripped 1)" "cstate (tripped 1) = COpen" by (simp_all add: tripped_eq breaker_inv_def)
  from open_fails_fast [OF this, of 4] show ?thesis by (simp add: tripped_eq retryAfterMs_def)
qed

section \<open>Retries\<close>

datatype fetch_result =
    Response nat "jstr option"
  | TimeoutAbort
  | SsrfBlocked
  | NetworkError

record attempt =
  result :: fetch_result
  abortedAfterFetch :: bool
  abortedAfterSleep :: bool

record fetch_cfg =
  retries :: nat
  retryDelayMs :: nat
  maxRetryDelayMs :: nat
  backoffFactor :: nat
  jitter :: "(nat \<Rightarrow> nat) option"
  respectRetryAfter :: bool
  retryMethods :: "jstr list"
  retryStatuses :: "nat list"
  breakerFailureStatuses :: "nat list"
  isRetryable :: "(nat \<Rightarrow> fetch_result \<Rightarrow> bool) option"
  parseDate :: "jstr \<Rightarrow> int option"
  clock :: int

text \<open>\<open>Date.parse\<close> and the clock of \<open>backoffFor\<close> are in the configuration.\<close>

definition parseRetryAfter :: "(jstr \<Rightarrow> int option) \<Rightarrow> jstr option \<Rightarrow> int \<Rightarrow> nat option" where
  "parseRetryAfter date value now =
     (case value of None \<Rightarrow> None
      | Some v \<Rightarrow>
          (if v = [] then None
           else (let trimmed = js_trim v in
             if trimmed \<noteq> [] \<and> list_all is_digit trimmed then Some (dec_val trimmed * 1000)
             else (case date trimmed of Some ms \<Rightarrow> Some (nat (max 0 (ms - now))) | None \<Rightarrow> None))))"

definition backoffFor :: "fetch_cfg \<Rightarrow> nat \<Rightarrow> fetch_result \<Rightarrow> nat" where
  "backoffFor c attempt r =
     (case (case r of Response st ra \<Rightarrow> if respectRetryAfter c then parseRetryAfter (parseDate c) ra (clock c) else None
            | _ \<Rightarrow> None) of
        Some ms \<Rightarrow> min (maxRetryDelayMs c) ms
      | None \<Rightarrow>
          (let capped = min (maxRetryDelayMs c) (retryDelayMs c * backoffFactor c ^ (attempt - 1))
           in case jitter c of None \<Rightarrow> capped | Some f \<Rightarrow> f capped))"

definition shouldRetry :: "fetch_cfg \<Rightarrow> jstr \<Rightarrow> nat \<Rightarrow> fetch_result \<Rightarrow> bool" where
  "shouldRetry c m attempt r =
     (case isRetryable c of
        Some f \<Rightarrow> f attempt r
      | None \<Rightarrow>
          (if to_upper m \<notin> set (map to_upper (retryMethods c)) then False
           else (case r of Response st _ \<Rightarrow> st \<in> set (retryStatuses c) | _ \<Rightarrow> True)))"

datatype outcome = Answer nat | CallerAbort | Failed fetch_result | NoInput

text \<open>The loop from attempt \<open>n\<close> on: outcome and the delays slept.\<close>

fun run_attempts :: "fetch_cfg \<Rightarrow> jstr \<Rightarrow> nat \<Rightarrow> attempt list \<Rightarrow> outcome \<times> nat list" where
  "run_attempts c m n [] = (NoInput, [])"
| "run_attempts c m n (a # as) =
     (let again = (if abortedAfterSleep a then (CallerAbort, [backoffFor c n (result a)])
                   else (case run_attempts c m (Suc n) as of (o1, ds) \<Rightarrow> (o1, backoffFor c n (result a) # ds)))
      in case result a of
           Response st ra \<Rightarrow>
             (if n \<le> retries c \<and> shouldRetry c m n (result a) then again else (Answer st, []))
         | _ \<Rightarrow>
             (if abortedAfterFetch a then (CallerAbort, [])
              else if result a = SsrfBlocked then (Failed SsrfBlocked, [])
              else if n \<le> retries c \<and> shouldRetry c m n (result a) then again
              else (Failed (result a), [])))"

text \<open>The breaker around the loop: \<open>Inl ms\<close> is a refusal.\<close>

definition settle_call :: "fetch_cfg \<Rightarrow> outcome \<Rightarrow> int \<Rightarrow> breaker \<Rightarrow> breaker" where
  "settle_call c out now b =
     (case out of
        Answer st \<Rightarrow> recordOutcome (st \<notin> set (breakerFailureStatuses c)) now b
      | CallerAbort \<Rightarrow> release_probe b
      | Failed SsrfBlocked \<Rightarrow> release_probe b
      | _ \<Rightarrow> recordOutcome False now b)"

definition resilient_call :: "fetch_cfg \<Rightarrow> jstr \<Rightarrow> attempt list \<Rightarrow> int \<Rightarrow> int \<Rightarrow> breaker \<Rightarrow> (int + outcome) \<times> breaker" where
  "resilient_call c m as t0 t1 b =
     (case admit t0 b of
        (Inl ms, b1) \<Rightarrow> (Inl ms, b1)
      | (Inr (), b1) \<Rightarrow> (let out = fst (run_attempts c m 1 as) in (Inr out, settle_call c out t1 b1)))"

text \<open>\<open>Math.random() * e\<close> is at most \<open>e\<close>.\<close>

definition jitter_ok :: "fetch_cfg \<Rightarrow> bool" where
  "jitter_ok c = (case jitter c of None \<Rightarrow> True | Some f \<Rightarrow> \<forall>e. f e \<le> e)"

lemma backoff_capped:
  assumes "jitter_ok c"
  shows "backoffFor c n r \<le> maxRetryDelayMs c"
proof -
  have "f (min (maxRetryDelayMs c) x) \<le> maxRetryDelayMs c" if "jitter c = Some f" for f x
    using assms that by (auto simp: jitter_ok_def intro: order_trans)
  then show ?thesis by (simp add: backoffFor_def Let_def split: option.splits)
qed

lemma run_attempts_bound:
  assumes "jitter_ok c"
  shows "n \<le> Suc (retries c) \<Longrightarrow> Suc (retries c) - n < length as \<Longrightarrow>
    fst (run_attempts c m n as) \<noteq> NoInput \<and> length (snd (run_attempts c m n as)) \<le> Suc (retries c) - n
    \<and> (\<forall>d \<in> set (snd (run_attempts c m n as)). d \<le> maxRetryDelayMs c)"
proof (induction as arbitrary: n)
  case (Cons a as)
  have b: "backoffFor c n (result a) \<le> maxRetryDelayMs c" by (rule backoff_capped [OF assms])
  show ?case
  proof (cases "n \<le> retries c")
    case True
    then have "Suc (retries c) - n = Suc (retries c - n)" by (rule Suc_diff_le)
    with True Cons.IH [of "Suc n"] Cons.prems b show ?thesis
      by (cases "result a") (auto simp: Let_def split: prod.splits)
  next
    case False
    then show ?thesis by (cases "result a") (auto simp: Let_def)
  qed
qed simp

text \<open>
  The retry loop ends within its budget: given what each of the \<open>retries + 1\<close> attempts
  meets, it always produces an outcome, sleeps at most \<open>retries\<close> times and never longer than
  \<open>maxRetryDelayMs\<close>, also when a \<open>Retry-After\<close> header asks for more.
\<close>

lemma retries_bounded:
  assumes "jitter_ok c" and "retries c < length as"
  shows "fst (run_attempts c m 1 as) \<noteq> NoInput \<and> length (snd (run_attempts c m 1 as)) \<le> retries c
    \<and> (\<forall>d \<in> set (snd (run_attempts c m 1 as)). d \<le> maxRetryDelayMs c)"
  using run_attempts_bound [OF assms(1), of 1 as m] assms(2) by simp

definition sample_cfg :: fetch_cfg where
  "sample_cfg = \<lparr> retries = 2, retryDelayMs = 100, maxRetryDelayMs = 2000, backoffFactor = 2, jitter = None,
     respectRetryAfter = True, retryMethods = [js ''GET'', js ''HEAD'', js ''OPTIONS'', js ''PUT'', js ''DELETE''],
     retryStatuses = [408, 429, 500, 502, 503, 504], breakerFailureStatuses = [500, 502, 503, 504],
     isRetryable = None, parseDate = (\<lambda>_. None), clock = 0 \<rparr>"

lemma retries_bounded_example:
  "run_attempts sample_cfg (js ''get'') 1
     [\<lparr> result = Response 503 (Some (js ''60'')), abortedAfterFetch = False, abortedAfterSleep = False \<rparr>,
      \<lparr> result = NetworkError, abortedAfterFetch = False, abortedAfterSleep = False \<rparr>,
      \<lparr> result = Response 200 None, abortedAfterFetch = False, abortedAfterSleep = False \<rparr>] = (Answer 200, [2000, 200])
   \<and> length [2000, 200 :: nat] \<le> 2"
proof -
  let ?as = "[\<lparr> result = Response 503 (Some (js ''60'')), abortedAfterFetch = False, abortedAfterSleep = False \<rparr>,
      \<lparr> result = NetworkError, abortedAfterFetch = False, abortedAfterSleep = False \<rparr>,
      \<lparr> result = Response 200 None, abortedAfterFetch = False, abortedAfterSleep = False \<rparr>]"
  have r: "run_attempts sample_cfg (js ''get'') 1 ?as = (Answer 200, [2000, 200])"
    by (simp add: sample_cfg_def shouldRetry_def backoffFor_def parseRetryAfter_def eval Let_def)
  have "length (snd (run_attempts sample_cfg (js ''get'') 1 ?as)) \<le> retries sample_cfg"
    using retries_bounded [of sample_cfg ?as "js ''get''"] by (simp add: sample_cfg_def jitter_ok_def)
  with r show ?thesis by (simp add: sample_cfg_def)
qed

end
