(* ===== verification/ConcurrencyLimit.thy ===== *)
theory ConcurrencyLimit
  imports JsText
begin

text \<open>
  The concurrency limiter of \<open>concurrency-limit.ts\<close>: a bulkhead that admits at most
  \<open>maxConcurrent\<close> requests per key and lets at most \<open>maxQueue\<close> more wait in a FIFO queue.

  The buckets are the \<open>Map\<close> of the source; a waiter is the number of its request.  Requests
  overlap: \<open>happen\<close> is one atomic turn of the event loop (an arrival, a client that goes
  away, a waiter that is rejected by its abort listener or its timer, the continuation of a
  waiter that was handed a slot, the release of a slot), and \<open>lreach\<close> the states such turns
  lead to.  Whether a request is abandoned is the flag its \<open>AbortSignal\<close> and
  \<open>isRequestAbandoned\<close> report.
\<close>

section \<open>Options\<close>

record limit_opts =
  maxConcurrent :: nat
  maxQueue :: nat
  queueTimeoutMs :: nat
  retryAfterSeconds :: nat

definition concurrencyLimit :: "int \<Rightarrow> int option \<Rightarrow> int option \<Rightarrow> int option \<Rightarrow> limit_opts option" where
  "concurrencyLimit mc mq tmo retry =
     (let q = (case mq of Some v \<Rightarrow> v | None \<Rightarrow> 0);
          t = (case tmo of Some v \<Rightarrow> v | None \<Rightarrow> 0);
          ra = (case retry of Some v \<Rightarrow> v | None \<Rightarrow> 1)
      in if mc \<le> 0 \<or> q < 0 \<or> t < 0 \<or> ra < 0 then None
         else Some \<lparr> maxConcurrent = nat mc, maxQueue = nat q, queueTimeoutMs = nat t, retryAfterSeconds = nat ra \<rparr>)"

section \<open>Keys\<close>

text \<open>
  What the scope resolver reads of the context: the method, the matched route pattern, the
  URL, and what \<open>keyGenerator\<close> or the forwarded-address resolver identifies the client by
  (a parameter).  \<open>url_pathname\<close> is \<open>new URL(url).pathname\<close>, which may throw.
\<close>

record limit_ctx =
  cmethod :: jstr
  routePath :: "jstr option"
  url :: jstr
  client_id :: "jstr option"

datatype scope = GlobalScope | RouteScope | ClientScope | ScopeFn "limit_ctx \<Rightarrow> jstr option"

text \<open>\<open>index_of pat s from\<close> is \<open>s.indexOf(pat, from)\<close>.\<close>

fun find_sub :: "jstr \<Rightarrow> jstr \<Rightarrow> nat \<Rightarrow> nat option" where
  "find_sub pat [] i = (if pat = [] then Some i else None)"
| "find_sub pat (c # s) i = (if take (length pat) (c # s) = pat then Some i else find_sub pat s (Suc i))"

definition index_of :: "jstr \<Rightarrow> jstr \<Rightarrow> nat \<Rightarrow> nat option" where
  "index_of pat s i = find_sub pat (drop i s) i"

definition pathnameOf :: "(jstr \<Rightarrow> jstr option) \<Rightarrow> jstr \<Rightarrow> jstr" where
  "pathnameOf url_pathname u =
     (case index_of (js ''://'') u 0 of
        None \<Rightarrow> (case url_pathname u of Some p \<Rightarrow> p | None \<Rightarrow> u)
      | Some schemeEnd \<Rightarrow>
          (case index_of (js ''/'') u (schemeEnd + 3) of
             None \<Rightarrow> js ''/''
           | Some pathStart \<Rightarrow>
               (let e0 = (case index_of (js ''?'') u pathStart of Some q \<Rightarrow> q | None \<Rightarrow> length u);
                    e1 = (case index_of (js ''#'') u pathStart of Some h \<Rightarrow> (if h < e0 then h else e0) | None \<Rightarrow> e0)
                in take (e1 - pathStart) (drop pathStart u))))"

definition resolve_key :: "(jstr \<Rightarrow> jstr option) \<Rightarrow> scope \<Rightarrow> limit_ctx \<Rightarrow> jstr option" where
  "resolve_key url_pathname sc ctx =
     (case sc of
        ScopeFn f \<Rightarrow> f ctx
      | GlobalScope \<Rightarrow> Some (js ''global'')
      | RouteScope \<Rightarrow> Some (cmethod ctx @ 32 # (case routePath ctx of Some p \<Rightarrow> p | None \<Rightarrow> pathnameOf url_pathname (url ctx)))
      | ClientScope \<Rightarrow> (case client_id ctx of Some i \<Rightarrow> Some (js ''client:'' @ i) | None \<Rightarrow> None))"

text \<open>\<open>scope: "client"\<close> without any way to identify a client is refused at setup.\<close>

definition buildScopeResolver :: "(jstr \<Rightarrow> jstr option) \<Rightarrow> scope \<Rightarrow> bool \<Rightarrow> (limit_ctx \<Rightarrow> jstr option) option" where
  "buildScopeResolver url_pathname sc identifiable =
     (if sc = ClientScope \<and> \<not> identifiable then None else Some (resolve_key url_pathname sc))"

section \<open>Buckets\<close>

record bucket =
  active :: nat
  waiters :: "nat list"

type_synonym buckets = "(jstr, bucket) assoc"

datatype reject_reason = QueueFull | QueueTimeout

record rejection =
  rkey :: jstr
  rreason :: reject_reason
  ractive :: nat
  rqueued :: nat

definition getBucket :: "buckets \<Rightarrow> jstr \<Rightarrow> bucket \<times> buckets" where
  "getBucket bs k =
     (case map_of bs k of
        Some b \<Rightarrow> (b, bs)
      | None \<Rightarrow> (let b = \<lparr> active = 0, waiters = [] \<rparr> in (b, AList.update k b bs)))"

text \<open>
  \<open>beforeHandle\<close> up to its first suspension: pass through, admitted, in the queue, already
  abandoned (rejected before it is queued), or 503.
\<close>

datatype admission = NotLimited | Admitted jstr | Enqueued jstr | AlreadyGone | Rejected rejection

definition beforeHandle :: "limit_opts \<Rightarrow> bool \<Rightarrow> jstr option \<Rightarrow> nat \<Rightarrow> buckets \<Rightarrow> admission \<times> buckets" where
  "beforeHandle o1 abandoned key r bs =
     (case key of None \<Rightarrow> (NotLimited, bs)
      | Some k \<Rightarrow>
          (let (b, bs1) = getBucket bs k in
           if active b < maxConcurrent o1
           then (Admitted k, AList.update k (b\<lparr>active := active b + 1\<rparr>) bs1)
           else if 0 < maxQueue o1 \<and> length (waiters b) < maxQueue o1 then
             (if abandoned then (AlreadyGone, bs1)
              else (Enqueued k, AList.update k (b\<lparr>waiters := waiters b @ [r]\<rparr>) bs1))
           else (Rejected \<lparr> rkey = k, rreason = QueueFull, ractive = active b, rqueued = length (waiters b) \<rparr>, bs1)))"

text \<open>
  The loop of \<open>release\<close>: shift waiters until one is not abandoned; the abandoned ones are
  rejected.  The result: the rejected ones, the one that gets the slot, the rest.
\<close>

fun serve :: "(nat \<Rightarrow> bool) \<Rightarrow> nat list \<Rightarrow> nat list \<times> nat option \<times> nat list" where
  "serve gone [] = ([], None, [])"
| "serve gone (w # ws) =
     (if gone w then (let (d, n, rest) = serve gone ws in (w # d, n, rest)) else ([], Some w, ws))"

definition release_slot :: "(nat \<Rightarrow> bool) \<Rightarrow> jstr \<Rightarrow> buckets \<Rightarrow> nat list \<times> nat option \<times> buckets" where
  "release_slot gone k bs =
     (case map_of bs k of
        None \<Rightarrow> ([], None, bs)
      | Some b \<Rightarrow>
          (case serve gone (waiters b) of
             (d, Some n, rest) \<Rightarrow> (d, Some n, AList.update k (b\<lparr>waiters := rest\<rparr>) bs)
           | (d, None, rest) \<Rightarrow>
               (let a = active b - 1 in
                if a = 0 \<and> rest = [] then (d, None, AList.delete k bs)
                else (d, None, AList.update k (b\<lparr>active := a, waiters := rest\<rparr>) bs))))"

text \<open>A waiter that is rejected leaves the queue (\<open>indexOf\<close> and \<open>splice\<close>).\<close>

definition splice_waiter :: "nat \<Rightarrow> jstr \<Rightarrow> buckets \<Rightarrow> buckets" where
  "splice_waiter r k bs =
     (case map_of bs k of None \<Rightarrow> bs | Some b \<Rightarrow> AList.update k (b\<lparr>waiters := remove1 r (waiters b)\<rparr>) bs)"

definition queue_timeout :: "nat \<Rightarrow> jstr \<Rightarrow> buckets \<Rightarrow> rejection \<times> buckets" where
  "queue_timeout r k bs =
     (let bs1 = splice_waiter r k bs; b = fst (getBucket bs1 k) in
      (\<lparr> rkey = k, rreason = QueueTimeout, ractive = active b, rqueued = length (waiters b) \<rparr>, bs1))"

section \<open>Overlapping requests\<close>

text \<open>
  The life of a request: not yet arrived; queued; handed a slot while its continuation has
  not run yet; holding a slot (\<open>ACQUIRED_KEY\<close> is set); done (not limited, rejected or released).
\<close>

datatype phase = Fresh | Queued jstr | Granted jstr | Holding jstr | Done

record lworld =
  bk :: buckets
  phase :: "nat \<Rightarrow> phase"
  gone :: "nat \<Rightarrow> bool"

datatype event = Arrive nat "jstr option" | Abandon nat | Leave nat | TimeOut nat | Resume nat | Release nat

definition set_phases :: "nat list \<Rightarrow> phase \<Rightarrow> lworld \<Rightarrow> lworld" where
  "set_phases rs p w = w\<lparr>phase := (\<lambda>r. if r \<in> set rs then p else phase w r)\<rparr>"

definition happen :: "limit_opts \<Rightarrow> event \<Rightarrow> lworld \<Rightarrow> lworld option" where
  "happen o1 ev w =
     (case ev of
        Arrive r key \<Rightarrow>
          (if phase w r \<noteq> Fresh then None
           else (let (a, bs) = beforeHandle o1 (gone w r) key r (bk w); w1 = w\<lparr>bk := bs\<rparr> in
                 Some (case a of
                     Admitted k \<Rightarrow> set_phases [r] (Holding k) w1
                   | Enqueued k \<Rightarrow> set_phases [r] (Queued k) w1
                   | _ \<Rightarrow> set_phases [r] Done w1)))
      | Abandon r \<Rightarrow> Some (w\<lparr>gone := (gone w)(r := True)\<rparr>)
      | Leave r \<Rightarrow>
          (case phase w r of
             Queued k \<Rightarrow> (if gone w r then Some (set_phases [r] Done (w\<lparr>bk := splice_waiter r k (bk w)\<rparr>)) else None)
           | _ \<Rightarrow> None)
      | TimeOut r \<Rightarrow>
          (case phase w r of
             Queued k \<Rightarrow> (if 0 < queueTimeoutMs o1
                           then Some (set_phases [r] Done (w\<lparr>bk := snd (queue_timeout r k (bk w))\<rparr>)) else None)
           | _ \<Rightarrow> None)
      | Resume r \<Rightarrow> (case phase w r of Granted k \<Rightarrow> Some (set_phases [r] (Holding k) w) | _ \<Rightarrow> None)
      | Release r \<Rightarrow>
          (case phase w r of
             Holding k \<Rightarrow>
               (let (d, n, bs) = release_slot (gone w) k (bk w);
                    w1 = set_phases d Done (set_phases [r] Done (w\<lparr>bk := bs\<rparr>))
                in Some (case n of Some s \<Rightarrow> set_phases [s] (Granted k) w1 | None \<Rightarrow> w1))
           | _ \<Rightarrow> None))"

definition idle_world :: lworld where
  "idle_world = \<lparr> bk = [], phase = (\<lambda>_. Fresh), gone = (\<lambda>_. False) \<rparr>"

inductive lreach :: "limit_opts \<Rightarrow> lworld \<Rightarrow> bool" for o1 where
  idle: "lreach o1 idle_world"
| turn: "lreach o1 w \<Longrightarrow> happen o1 ev w = Some w' \<Longrightarrow> lreach o1 w'"


section \<open>The invariant\<close>

definition holders :: "lworld \<Rightarrow> jstr \<Rightarrow> nat set" where
  "holders w k = {r. phase w r = Granted k \<or> phase w r = Holding k}"

definition queued :: "lworld \<Rightarrow> jstr \<Rightarrow> nat set" where
  "queued w k = {r. phase w r = Queued k}"

definition bucket_ok :: "limit_opts \<Rightarrow> nat set \<Rightarrow> nat set \<Rightarrow> bucket option \<Rightarrow> bool" where
  "bucket_ok o1 H Q bo =
     (finite H \<and> (case bo of None \<Rightarrow> H = {} \<and> Q = {}
      | Some b \<Rightarrow> active b = card H \<and> 0 < card H \<and> card H \<le> maxConcurrent o1 \<and> set (waiters b) = Q
          \<and> distinct (waiters b) \<and> length (waiters b) \<le> maxQueue o1
          \<and> (waiters b \<noteq> [] \<longrightarrow> card H = maxConcurrent o1)))"

definition lim_inv :: "limit_opts \<Rightarrow> lworld \<Rightarrow> bool" where
  "lim_inv o1 w \<longleftrightarrow> wf_assoc (bk w) \<and> (\<forall>k. bucket_ok o1 (holders w k) (queued w k) (map_of (bk w) k))"

lemma set_phases_simps [simp]:
  "bk (set_phases rs p w) = bk w" "gone (set_phases rs p w) = gone w"
  "phase (set_phases rs p w) r = (if r \<in> set rs then p else phase w r)"
  "holders (w\<lparr>bk := bs\<rparr>) k = holders w k" "queued (w\<lparr>bk := bs\<rparr>) k = queued w k"
  "holders (w\<lparr>gone := g\<rparr>) k = holders w k" "queued (w\<lparr>gone := g\<rparr>) k = queued w k"
  by (simp_all add: set_phases_def holders_def queued_def)

lemma holders_set_phases:
  "holders (set_phases rs p w) k = (if p = Granted k \<or> p = Holding k then holders w k \<union> set rs else holders w k - set rs)"
  by (auto simp: holders_def)

lemma queued_set_phases:
  "queued (set_phases rs p w) k = (if p = Queued k then queued w k \<union> set rs else queued w k - set rs)"
  by (auto simp: queued_def)

lemmas phase_sets = holders_set_phases queued_set_phases

lemma not_member:
  "phase w r = Fresh \<Longrightarrow> r \<notin> holders w k \<and> r \<notin> queued w k"
  "phase w r = Queued k' \<Longrightarrow> r \<notin> holders w k \<and> (r \<in> queued w k \<longleftrightarrow> k = k')"
  "phase w r = Granted k' \<Longrightarrow> r \<notin> queued w k \<and> (r \<in> holders w k \<longleftrightarrow> k = k')"
  "phase w r = Holding k' \<Longrightarrow> r \<notin> queued w k \<and> (r \<in> holders w k \<longleftrightarrow> k = k')"
  by (auto simp: holders_def queued_def)

text \<open>One event only touches the bucket of its key and the phases of requests of that key.\<close>

lemma lim_inv_frame:
  assumes "lim_inv o1 w" and "wf_assoc (bk w')"
    and "bucket_ok o1 (holders w' k) (queued w' k) (map_of (bk w') k)"
    and "\<And>k'. k' \<noteq> k \<Longrightarrow> map_of (bk w') k' = map_of (bk w) k' \<and> holders w' k' = holders w k' \<and> queued w' k' = queued w k'"
  shows "lim_inv o1 w'"
  unfolding lim_inv_def
proof (intro conjI allI)
  fix k'
  show "bucket_ok o1 (holders w' k') (queued w' k') (map_of (bk w') k')"
    using assms by (cases "k' = k") (auto simp: lim_inv_def)
qed (rule assms(2))

lemma bucket_okD: "lim_inv o1 w \<Longrightarrow> bucket_ok o1 (holders w k) (queued w k) (map_of (bk w) k)"
  by (simp add: lim_inv_def)

lemma bucket_of_queued: "lim_inv o1 w \<Longrightarrow> phase w r = Queued k \<Longrightarrow> \<exists>b. map_of (bk w) k = Some b \<and> r \<in> set (waiters b)"
  using bucket_okD [of o1 w k] by (auto simp: bucket_ok_def queued_def split: option.splits)

lemma bucket_of_holder: "lim_inv o1 w \<Longrightarrow> r \<in> holders w k \<Longrightarrow> \<exists>b. map_of (bk w) k = Some b"
  using bucket_okD [of o1 w k] by (auto simp: bucket_ok_def split: option.splits)

lemma arrive_inv:
  assumes "lim_inv o1 w" and "0 < maxConcurrent o1" and f: "phase w r = Fresh"
    and bh: "beforeHandle o1 (gone w r) (Some k) r (bk w) = (a, bs)"
  shows "lim_inv o1 (case a of Admitted k \<Rightarrow> set_phases [r] (Holding k) (w\<lparr>bk := bs\<rparr>)
      | Enqueued k \<Rightarrow> set_phases [r] (Queued k) (w\<lparr>bk := bs\<rparr>) | _ \<Rightarrow> set_phases [r] Done (w\<lparr>bk := bs\<rparr>))"
proof -
  note ok = bucket_okD [OF assms(1), of k]
  have nm: "r \<notin> holders w k'" "r \<notin> queued w k'" for k' using not_member(1) [OF f] by simp_all
  have wf: "wf_assoc (bk w)" using assms(1) by (simp add: lim_inv_def)
  have fin: "finite (holders w k)" using ok by (simp add: bucket_ok_def)
  show ?thesis
  proof (cases "map_of (bk w) k")
    case None
    with bh assms(2) have a: "a = Admitted k" "bs = AList.update k \<lparr> active = 1, waiters = [] \<rparr>
        (AList.update k \<lparr> active = 0, waiters = [] \<rparr> (bk w))"
      by (auto simp: beforeHandle_def getBucket_def Let_def)
    with None ok assms(2) nm wf show ?thesis
      by (intro lim_inv_frame [OF assms(1), where k = k])
        (auto simp: phase_sets assoc_laws bucket_ok_def distinct_update)
  next
    case (Some b)
    then have "getBucket (bk w) k = (b, bk w)" by (simp add: getBucket_def)
    with bh have "(a, bs) =
        (if active b < maxConcurrent o1 then (Admitted k, AList.update k (b\<lparr>active := active b + 1\<rparr>) (bk w))
         else if 0 < maxQueue o1 \<and> length (waiters b) < maxQueue o1 then
           (if gone w r then (AlreadyGone, bk w) else (Enqueued k, AList.update k (b\<lparr>waiters := waiters b @ [r]\<rparr>) (bk w)))
         else (Rejected \<lparr> rkey = k, rreason = QueueFull, ractive = active b, rqueued = length (waiters b) \<rparr>, bk w))"
      by (auto simp: beforeHandle_def)
    with Some ok nm wf fin show ?thesis
      by (intro lim_inv_frame [OF assms(1), where k = k])
        (auto simp: phase_sets assoc_laws bucket_ok_def distinct_update split: if_splits)
  qed
qed

lemma leave_inv:
  assumes "lim_inv o1 w" and "phase w r = Queued k"
  shows "lim_inv o1 (set_phases [r] Done (w\<lparr>bk := splice_waiter r k (bk w)\<rparr>))"
proof -
  from bucket_of_queued [OF assms] obtain b where b: "map_of (bk w) k = Some b" "r \<in> set (waiters b)" by blast
  note ok = bucket_okD [OF assms(1), of k] and nm = not_member(2) [OF assms(2)]
  have "wf_assoc (bk w)" using assms(1) by (simp add: lim_inv_def)
  with b ok nm show ?thesis
    by (intro lim_inv_frame [OF assms(1), where k = k])
      (auto simp: phase_sets assoc_laws bucket_ok_def splice_waiter_def distinct_update length_remove1 dest: notin_set_remove1)
qed

lemma serve_split:
  "serve g ws = (d, n, rest) \<Longrightarrow> (\<forall>x \<in> set d. g x)
     \<and> (case n of None \<Rightarrow> ws = d \<and> rest = [] | Some s \<Rightarrow> ws = d @ s # rest \<and> \<not> g s)"
  by (induction ws arbitrary: d n rest) (auto split: prod.splits if_splits option.splits)

definition released :: "lworld \<Rightarrow> jstr \<Rightarrow> nat \<Rightarrow> nat list \<Rightarrow> nat option \<Rightarrow> buckets \<Rightarrow> lworld" where
  "released w k r d n bs =
     (let w1 = set_phases d Done (set_phases [r] Done (w\<lparr>bk := bs\<rparr>))
      in case n of Some s \<Rightarrow> set_phases [s] (Granted k) w1 | None \<Rightarrow> w1)"

lemma released_bk [simp]: "bk (released w k r d n bs) = bs"
  by (simp add: released_def Let_def split: option.splits)

lemma release_inv:
  assumes "lim_inv o1 w" and h: "phase w r = Holding k" and rel: "release_slot (gone w) k (bk w) = (d, n, bs)"
  shows "lim_inv o1 (released w k r d n bs)"
proof -
  note nm = not_member(4) [OF h]
  then have rH: "r \<in> holders w k" by simp
  then obtain b where b: "map_of (bk w) k = Some b" using bucket_of_holder [OF assms(1)] by blast
  note ok = bucket_okD [OF assms(1), of k, unfolded b bucket_ok_def option.case]
  have wf: "wf_assoc (bk w)" using assms(1) by (simp add: lim_inv_def)
  obtain d' n' rest where sv: "serve (gone w) (waiters b) = (d', n', rest)" by (cases "serve (gone w) (waiters b)")
  note sp = serve_split [OF sv]
  have card1: "card (holders w k - {r}) = card (holders w k) - 1" using rH ok by simp
  have disj: "holders w k \<inter> queued w k = {}" by (auto simp: holders_def queued_def)
  have other: "x \<notin> holders w k' \<and> x \<notin> queued w k'" if "x \<in> queued w k" "k' \<noteq> k" for x k'
    using that by (auto simp: holders_def queued_def)
  show ?thesis
  proof (cases n')
    case None
    with sp have ws: "waiters b = d'" "rest = []" by auto
    then have dQ: "set d' = queued w k" using ok by simp
    from rel b sv None ws have res: "d = d'" "n = None"
      "bs = (if active b = 1 \<or> active b = 0 then AList.delete k (bk w) else AList.update k (b\<lparr>active := active b - 1, waiters := []\<rparr>) (bk w))"
      by (auto simp: release_slot_def Let_def split: if_splits)
    have act: "active b = card (holders w k)" "0 < card (holders w k)" "finite (holders w k)" using ok by simp_all
    have H': "holders (released w k r d n bs) k = holders w k - {r}"
      unfolding released_def res(1,2) using dQ disj by (auto simp: phase_sets)
    have Q': "queued (released w k r d n bs) k = {}"
      unfolding released_def res(1,2) using dQ by (auto simp: phase_sets)
    show ?thesis
    proof (rule lim_inv_frame [OF assms(1), where k = k])
      show "wf_assoc (bk (released w k r d n bs))" using wf by (simp add: res(3) distinct_update distinct_delete)
      show "bucket_ok o1 (holders (released w k r d n bs) k) (queued (released w k r d n bs) k)
          (map_of (bk (released w k r d n bs)) k)"
      proof (cases "card (holders w k) = 1")
        case True
        then have "holders w k = {r}" using rH by (auto simp: card_1_singleton_iff)
        with True act show ?thesis unfolding H' Q' released_bk by (simp add: res(3) bucket_ok_def delete_conv')
      next
        case False
        then have "active b \<noteq> 1" "active b \<noteq> 0" using act(1,2) by linarith+
        then have "bs = AList.update k (b\<lparr>active := active b - 1, waiters := []\<rparr>) (bk w)"
          unfolding res(3) by (simp only: simp_thms if_False)
        with False act card1 ok show ?thesis unfolding H' Q' released_bk by (simp add: bucket_ok_def update_conv') linarith
      qed
      fix k' assume "k' \<noteq> k"
      then show "map_of (bk (released w k r d n bs)) k' = map_of (bk w) k'
          \<and> holders (released w k r d n bs) k' = holders w k' \<and> queued (released w k r d n bs) k' = queued w k'"
        using nm dQ other by (simp add: res update_conv' delete_conv') (auto simp: released_def res phase_sets Let_def)
    qed
  next
    case (Some s)
    with sp have ws: "waiters b = d' @ s # rest" by simp
    from rel b sv Some have res: "d = d'" "n = Some s" "bs = AList.update k (b\<lparr>waiters := rest\<rparr>) (bk w)"
      by (auto simp: release_slot_def)
    have Q: "queued w k = set d' \<union> {s} \<union> set rest" "s \<notin> set d'" "s \<notin> set rest" "set d' \<inter> set rest = {}"
      using ok ws by auto
    then have sH: "s \<notin> holders w k" "set d' \<inter> holders w k = {}" using disj by auto
    have H': "holders (released w k r d n bs) k = insert s (holders w k - {r})"
      unfolding released_def res(1,2) using sH by (auto simp: phase_sets)
    have Q': "queued (released w k r d n bs) k = set rest"
      unfolding released_def res(1,2) using Q nm by (auto simp: phase_sets)
    have c: "card (insert s (holders w k - {r})) = card (holders w k)" using sH(1) card1 ok by simp
    show ?thesis
    proof (rule lim_inv_frame [OF assms(1), where k = k])
      show "wf_assoc (bk (released w k r d n bs))" using wf by (simp add: res(3) distinct_update)
      show "bucket_ok o1 (holders (released w k r d n bs) k) (queued (released w k r d n bs) k)
          (map_of (bk (released w k r d n bs)) k)"
        using ok ws c unfolding H' Q' released_bk by (simp add: res(3) bucket_ok_def update_conv')
      fix k' assume "k' \<noteq> k"
      then show "map_of (bk (released w k r d n bs)) k' = map_of (bk w) k'
          \<and> holders (released w k r d n bs) k' = holders w k' \<and> queued (released w k r d n bs) k' = queued w k'"
        using nm Q(1) other by (simp add: res update_conv') (auto simp: released_def res phase_sets Let_def)
    qed
  qed
qed

lemma happen_inv:
  assumes "lim_inv o1 w" and "0 < maxConcurrent o1" and "happen o1 ev w = Some w'"
  shows "lim_inv o1 w'"
proof (cases ev)
  case (Arrive r key)
  with assms(3) have f: "phase w r = Fresh" by (auto simp: happen_def split: if_splits)
  show ?thesis
  proof (cases key)
    case None
    with Arrive assms(3) f have "w' = set_phases [r] Done w" by (auto simp: happen_def beforeHandle_def)
    moreover have "lim_inv o1 (set_phases [r] Done w)"
      using assms(1) not_member(1) [OF f] by (simp add: lim_inv_def phase_sets)
    ultimately show ?thesis by simp
  next
    case (Some k)
    obtain a bs where bh: "beforeHandle o1 (gone w r) (Some k) r (bk w) = (a, bs)"
      by (cases "beforeHandle o1 (gone w r) (Some k) r (bk w)")
    from arrive_inv [OF assms(1,2) f bh] Arrive Some assms(3) f bh show ?thesis
      by (cases a) (auto simp: happen_def)
  qed
next
  case (Abandon r)
  with assms show ?thesis by (auto simp: happen_def lim_inv_def)
next
  case (Leave r)
  with assms(3) leave_inv [OF assms(1)] show ?thesis by (auto simp: happen_def split: phase.splits if_splits)
next
  case (TimeOut r)
  with assms(3) leave_inv [OF assms(1)] show ?thesis
    by (auto simp: happen_def queue_timeout_def Let_def split: phase.splits if_splits)
next
  case (Resume r)
  with assms(3) obtain k where "phase w r = Granted k" "w' = set_phases [r] (Holding k) w"
    by (auto simp: happen_def split: phase.splits)
  moreover from not_member(3) [OF this(1)] have "holders w' k' = holders w k'" "queued w' k' = queued w k'" for k'
    unfolding calculation(2) by (auto simp: phase_sets)
  ultimately show ?thesis using assms(1) by (simp add: lim_inv_def)
next
  case (Release r)
  with assms(3) obtain k where k: "phase w r = Holding k" by (auto simp: happen_def split: phase.splits)
  obtain d n bs where rel: "release_slot (gone w) k (bk w) = (d, n, bs)" by (cases "release_slot (gone w) k (bk w)")
  from release_inv [OF assms(1) k rel] Release assms(3) k rel show ?thesis
    by (simp add: happen_def released_def Let_def)
qed

lemma idle_inv: "lim_inv o1 idle_world"
  by (simp add: lim_inv_def idle_world_def bucket_ok_def holders_def queued_def)

lemma lreach_inv: "lreach o1 w \<Longrightarrow> 0 < maxConcurrent o1 \<Longrightarrow> lim_inv o1 w"
  by (induction rule: lreach.induct) (auto intro: idle_inv happen_inv)

lemma concurrencyLimit_pos: "concurrencyLimit mc mq t ra = Some o1 \<Longrightarrow> 0 < maxConcurrent o1"
  by (auto simp: concurrencyLimit_def Let_def split: if_splits)

section \<open>Properties\<close>


lemma serve_first:
  assumes "\<exists>x \<in> set ws. \<not> g x"
  shows "\<exists>xs s ys. serve g ws = (xs, Some s, ys) \<and> ws = xs @ s # ys \<and> (\<forall>x \<in> set xs. g x) \<and> \<not> g s"
proof -
  obtain d n rest where sv: "serve g ws = (d, n, rest)" by (cases "serve g ws")
  from serve_split [OF sv] assms sv show ?thesis by (cases n) auto
qed

text \<open>
  C13. Slots are handed on in arrival order and none is lost: when a holder of a key finishes
  while somebody who is still there waits, the first such waiter of the queue gets the slot at
  once, those before it (all gone) are rejected, those behind it keep their order, and the
  number of holders stays the same.
\<close>

theorem slot_handed_on:
  assumes "concurrencyLimit mc mq t ra = Some o1" and "lreach o1 w" and h: "phase w r = Holding k"
    and b: "map_of (bk w) k = Some b" and "\<exists>x \<in> set (waiters b). \<not> gone w x"
  shows "\<exists>w' xs s ys. happen o1 (Release r) w = Some w' \<and> waiters b = xs @ s # ys \<and> (\<forall>x \<in> set xs. gone w x)
    \<and> \<not> gone w s \<and> phase w' s = Granted k \<and> phase w' r = Done \<and> (\<forall>x \<in> set xs. phase w' x = Done)
    \<and> map_of (bk w') k = Some (b\<lparr>waiters := ys\<rparr>) \<and> card (holders w' k) = card (holders w k)"
proof -
  note pos = concurrencyLimit_pos [OF assms(1)]
  note inv = lreach_inv [OF assms(2) pos]
  from serve_first [OF assms(5)] obtain xs s ys where sv: "serve (gone w) (waiters b) = (xs, Some s, ys)"
    and ws: "waiters b = xs @ s # ys" "\<forall>x \<in> set xs. gone w x" "\<not> gone w s"
    by blast
  define bs where "bs = AList.update k (b\<lparr>waiters := ys\<rparr>) (bk w)"
  have rel: "release_slot (gone w) k (bk w) = (xs, Some s, bs)" by (simp add: release_slot_def b sv bs_def)
  then have hap: "happen o1 (Release r) w = Some (released w k r xs (Some s) bs)"
    by (simp add: happen_def h released_def Let_def)
  have q: "set (waiters b) = queued w k" "distinct (waiters b)"
    using bucket_okD [OF inv, of k] by (simp_all add: b bucket_ok_def)
  then have "s \<in> queued w k" "s \<notin> set xs" using ws(1) by auto
  then have ne: "s \<noteq> r" "r \<notin> set xs" using q(1) ws(1) not_member(4) [OF h, of k] by auto
  from happen_inv [OF inv pos hap] have ok': "bucket_ok o1 (holders (released w k r xs (Some s) bs) k)
      (queued (released w k r xs (Some s) bs) k) (map_of bs k)"
    using bucket_okD by (fastforce simp: released_def Let_def)
  then have "card (holders (released w k r xs (Some s) bs) k) = card (holders w k)"
    using bucket_okD [OF inv, of k] by (simp add: bs_def b bucket_ok_def update_conv')
  with hap ws ne \<open>s \<notin> set xs\<close> show ?thesis
    by (intro exI [of _ "released w k r xs (Some s) bs"] exI [of _ xs] exI [of _ s] exI [of _ ys])
      (auto simp: released_def bs_def update_conv' Let_def)
qed

section \<open>A run\<close>

definition one_slot :: limit_opts where
  "one_slot = \<lparr> maxConcurrent = 1, maxQueue = 2, queueTimeoutMs = 0, retryAfterSeconds = 1 \<rparr>"

definition crowd :: lworld where
  "crowd = set_phases [3] (Queued (js ''k'')) (set_phases [2] (Queued (js ''k'')) (set_phases [1] (Holding (js ''k''))
     \<lparr> bk = [(js ''k'', \<lparr> active = 1, waiters = [2, 3] \<rparr>)], phase = (\<lambda>_. Fresh), gone = (\<lambda>r. r = 2) \<rparr>))"

lemma one_slot_opts: "concurrencyLimit 1 (Some 2) None None = Some one_slot"
  by (simp add: concurrencyLimit_def one_slot_def)

lemma crowd_reach: "lreach one_slot crowd"
proof -
  let ?a = "\<lambda>r. Arrive r (Some (js ''k''))"
  let ?w = "\<lambda>evs. fold (\<lambda>ev w. the (happen one_slot ev w)) evs idle_world"
  have 1: "lreach one_slot (?w [?a 1])"
    by (rule lreach.turn [OF lreach.idle, where ev = "?a 1"])
      (simp add: happen_def beforeHandle_def getBucket_def idle_world_def one_slot_def Let_def)
  have 2: "lreach one_slot (?w [?a 1, ?a 2])"
    by (rule lreach.turn [OF 1, where ev = "?a 2"])
      (simp add: happen_def beforeHandle_def getBucket_def idle_world_def one_slot_def Let_def)
  have 3: "lreach one_slot (?w [?a 1, ?a 2, ?a 3])"
    by (rule lreach.turn [OF 2, where ev = "?a 3"])
      (simp add: happen_def beforeHandle_def getBucket_def idle_world_def one_slot_def Let_def)
  have 4: "lreach one_slot (?w [?a 1, ?a 2, ?a 3, Abandon 2])"
    by (rule lreach.turn [OF 3, where ev = "Abandon 2"]) (simp add: happen_def)
  have "?w [?a 1, ?a 2, ?a 3, Abandon 2] = crowd"
    by (simp add: happen_def beforeHandle_def getBucket_def idle_world_def one_slot_def Let_def crowd_def
        set_phases_def fun_eq_iff)
  with 4 show ?thesis by metis
qed


theorem slot_handed_on_witness:
  "\<exists>w'. happen one_slot (Release 1) crowd = Some w' \<and> phase w' 3 = Granted (js ''k'') \<and> phase w' 2 = Done"
proof -
  have "map_of (bk crowd) (js ''k'') = Some \<lparr> active = 1, waiters = [2, 3] \<rparr>" "phase crowd 1 = Holding (js ''k'')"
    "gone crowd 2" "\<not> gone crowd 3"
    by (simp_all add: crowd_def)
  note c = this
  have "\<exists>x \<in> set (waiters \<lparr> active = 1, waiters = [2, 3] \<rparr>). \<not> gone crowd x" using c(4) by simp
  from slot_handed_on [OF one_slot_opts crowd_reach c(2,1) this]
  obtain w' xs s ys where w': "happen one_slot (Release 1) crowd = Some w'" "[2, 3] = xs @ s # ys"
    "\<not> gone crowd s" "phase w' s = Granted (js ''k'')" "\<forall>x \<in> set xs. phase w' x = Done"
    unfolding bucket.simps by blast
  moreover have "xs = [2] \<and> s = 3"
    using w'(2,3) c(3) by (cases xs) (auto simp: Cons_eq_append_conv)
  ultimately show ?thesis by auto
qed

end
