(* ===== verification/Json.thy ===== *)
theory Json
  imports JsText "HOL-Library.List_Lexorder"
begin

text \<open>
  JSON values and their text.  \<open>quote\<close> is well-formed \<open>JSON.stringify\<close> of a string
  (ECMA-262, QuoteJSONString); \<open>render\<close> is \<open>JSON.stringify\<close> of a value; a number carries
  its text.  \<open>stableStringify\<close> is the canonical form of \<open>idempotency.ts\<close>, with sorted keys.
  \<open>render_inj\<close> says that the text determines the value, whatever follows it.
\<close>

datatype json = JNull | JBool bool | JNum jstr | JStr jstr | JArr "json list" | JObj "(jstr \<times> json) list"

section \<open>Strings\<close>

definition hex4 :: "nat \<Rightarrow> jstr" where
  "hex4 n = [hex_digit (n div 4096 mod 16), hex_digit (n div 256 mod 16), hex_digit (n div 16 mod 16), hex_digit (n mod 16)]"

definition esc_unit :: "nat \<Rightarrow> jstr" where
  "esc_unit c = (if c = 34 then [92, 34] else if c = 92 then [92, 92] else if c = 8 then [92, 98]
     else if c = 9 then [92, 116] else if c = 10 then [92, 110] else if c = 12 then [92, 102]
     else if c = 13 then [92, 114] else if c < 32 \<or> is_high c \<or> is_low c then [92, 117] @ hex4 c else [c])"

fun esc :: "jstr \<Rightarrow> jstr" where
  "esc [] = []"
| "esc (c # d # s) = (if is_high c \<and> is_low d then c # d # esc s else esc_unit c @ esc (d # s))"
| "esc [c] = esc_unit c"

definition quote :: "jstr \<Rightarrow> jstr" where
  "quote s = 34 # esc s @ [34]"

text \<open>A reader of a quoted string, up to the closing quote; it shows that \<open>quote\<close> is a prefix code.\<close>

definition push_unit :: "nat \<Rightarrow> (jstr \<times> jstr) option \<Rightarrow> (jstr \<times> jstr) option" where
  "push_unit c r = (case r of None \<Rightarrow> None | Some (s, t) \<Rightarrow> Some (c # s, t))"

definition hex4_val :: "nat \<Rightarrow> nat \<Rightarrow> nat \<Rightarrow> nat \<Rightarrow> nat" where
  "hex4_val a b c d = ((the (hex_val a) * 16 + the (hex_val b)) * 16 + the (hex_val c)) * 16 + the (hex_val d)"

fun unesc :: "jstr \<Rightarrow> (jstr \<times> jstr) option" where
  "unesc [] = None"
| "unesc (e # t) =
     (if e = 34 then Some ([], t)
      else if e \<noteq> 92 then push_unit e (unesc t)
      else (case t of
          [] \<Rightarrow> None
        | x # r \<Rightarrow>
            (if x = 34 \<or> x = 92 then push_unit x (unesc r)
             else if x = 98 then push_unit 8 (unesc r) else if x = 116 then push_unit 9 (unesc r)
             else if x = 110 then push_unit 10 (unesc r) else if x = 102 then push_unit 12 (unesc r)
             else if x = 114 then push_unit 13 (unesc r)
             else (case r of a # b # c # d # r' \<Rightarrow> push_unit (hex4_val a b c d) (unesc r') | _ \<Rightarrow> None))))"

declare unesc.simps [simp del]

lemma hex4_val: "n < 65536 \<Longrightarrow>
    hex4_val (hex_digit (n div 4096 mod 16)) (hex_digit (n div 256 mod 16)) (hex_digit (n div 16 mod 16)) (hex_digit (n mod 16)) = n"
proof -
  assume n: "n < 65536"
  have d: "n div 256 = n div 16 div 16" "n div 4096 = n div 16 div 16 div 16" by (simp_all add: div_mult2_eq [symmetric])
  have "n div 4096 < 16" using n by (simp add: less_mult_imp_div_less)
  then have "n div 16 div 16 div 16 < 16" by (simp add: d)
  then show ?thesis
    using div_mult_mod_eq [of n 16] div_mult_mod_eq [of "n div 16" 16] div_mult_mod_eq [of "n div 16 div 16" 16]
    unfolding d hex4_val_def by (simp add: mod_less)
qed

lemma unesc_u: "unesc (92 # 117 # a # b # c # d # t) = push_unit (hex4_val a b c d) (unesc t)"
  by (simp add: unesc.simps(2) [of 92])

lemma unesc_hex4: "c < 65536 \<Longrightarrow> unesc ([92, 117] @ hex4 c @ t) = push_unit c (unesc t)"
  by (simp only: hex4_def append.simps unesc_u hex4_val)

lemma unesc_short: "x \<in> {34, 92} \<Longrightarrow> unesc (92 # x # t) = push_unit x (unesc t)"
  "(x, y) \<in> {(98, 8), (116, 9), (110, 10), (102, 12), (114, 13)} \<Longrightarrow> unesc (92 # x # t) = push_unit y (unesc t)"
  by (auto simp: unesc.simps(2) [of 92])

lemma unesc_unit: "c < 65536 \<Longrightarrow> unesc (esc_unit c @ t) = push_unit c (unesc t)"
  using unesc_hex4 [of c t] by (simp add: esc_unit_def unesc_short) (simp add: unesc.simps(2) [of c])

lemma unesc_esc: "\<forall>c \<in> set s. c < 65536 \<Longrightarrow> unesc (esc s @ 34 # t) = Some (s, t)"
proof (induction s rule: esc.induct)
  case (2 c d s)
  then show ?case
    by (auto simp: unesc_unit push_unit_def unesc.simps(2) [of c] unesc.simps(2) [of d] is_high_def is_low_def)
qed (auto simp: unesc_unit push_unit_def unesc.simps(2) [of 34])

lemma quote_prefix:
  assumes "\<forall>c \<in> set s. c < 65536" and "\<forall>c \<in> set s'. c < 65536" and "quote s @ t = quote s' @ t'"
  shows "s = s' \<and> t = t'"
proof -
  from assms(3) have "esc s @ 34 # t = esc s' @ 34 # t'" by (simp add: quote_def)
  then have "unesc (esc s @ 34 # t) = unesc (esc s' @ 34 # t')" by simp
  with assms(1,2) show ?thesis by (simp add: unesc_esc)
qed

section \<open>Values\<close>

fun render :: "json \<Rightarrow> jstr" where
  "render JNull = js ''null''"
| "render (JBool b) = (if b then js ''true'' else js ''false'')"
| "render (JNum t) = t"
| "render (JStr s) = quote s"
| "render (JArr xs) = 91 # join_on 44 (map render xs) @ [93]"
| "render (JObj ps) = 123 # join_on 44 (map (\<lambda>(k, v). quote k @ 58 # render v) ps) @ [125]"

fun stableStringify :: "json \<Rightarrow> jstr" where
  "stableStringify (JArr xs) = 91 # join_on 44 (map stableStringify xs) @ [93]"
| "stableStringify (JObj ps) = 123 # join_on 44 (map (\<lambda>(k, t). quote k @ 58 # t)
     (sort_key fst (map (\<lambda>(k, v). (k, stableStringify v)) ps))) @ [125]"
| "stableStringify v = render v"

text \<open>The canonical value that \<open>stableStringify\<close> writes: keys sorted at every level.\<close>

fun canon :: "json \<Rightarrow> json" where
  "canon (JArr xs) = JArr (map canon xs)"
| "canon (JObj ps) = JObj (sort_key fst (map (\<lambda>(k, v). (k, canon v)) ps))"
| "canon v = v"

text \<open>Code units are 16 bit wide and a number is written with the characters of a number.\<close>

definition num_char :: "nat \<Rightarrow> bool" where
  "num_char c \<longleftrightarrow> is_digit c \<or> c = 43 \<or> c = 45 \<or> c = 46 \<or> c = 69 \<or> c = 101"

fun wf_json :: "json \<Rightarrow> bool" where
  "wf_json (JNum t) = (t \<noteq> [] \<and> (is_digit (hd t) \<or> hd t = 45) \<and> (\<forall>c \<in> set t. num_char c))"
| "wf_json (JStr s) = (\<forall>c \<in> set s. c < 65536)"
| "wf_json (JArr xs) = (\<forall>x \<in> set xs. wf_json x)"
| "wf_json (JObj ps) = (\<forall>(k, v) \<in> set ps. (\<forall>c \<in> set k. c < 65536) \<and> wf_json v)"
| "wf_json _ = True"

lemma sort_key_map_snd: "sort_key fst (map (\<lambda>(k, v). (k, f v)) ps) = map (\<lambda>(k, v). (k, f v)) (sort_key fst ps)"
proof (induction ps)
  case (Cons p ps)
  have "insort_key fst (k, f v) (map (\<lambda>(k, v). (k, f v)) qs) = map (\<lambda>(k, v). (k, f v)) (insort_key fst (k, v) qs)" for k v qs
    by (induction qs) auto
  with Cons show ?case by (cases p) simp
qed simp

lemma stable_canon: "stableStringify v = render (canon v)"
proof (induction v rule: stableStringify.induct)
  case (1 xs)
  then have "map stableStringify xs = map (\<lambda>x. render (canon x)) xs" by simp
  then show ?case by (simp only: stableStringify.simps canon.simps render.simps map_map o_def)
next
  case (2 ps)
  then have "map (\<lambda>(k, v). (k, stableStringify v)) ps = map (\<lambda>(k, v). (k, render v)) (map (\<lambda>(k, v). (k, canon v)) ps)"
    by (force simp: case_prod_beta)
  then have "sort_key fst (map (\<lambda>(k, v). (k, stableStringify v)) ps)
      = map (\<lambda>(k, v). (k, render v)) (sort_key fst (map (\<lambda>(k, v). (k, canon v)) ps))"
    by (simp only: sort_key_map_snd)
  then show ?case by (simp only: stableStringify.simps canon.simps render.simps) (simp add: split_def o_def)
qed simp_all

lemma wf_canon: "wf_json v \<Longrightarrow> wf_json (canon v)"
  by (induction v rule: canon.induct) fastforce+

section \<open>The text determines the value\<close>

definition delim :: "jstr \<Rightarrow> bool" where
  "delim s \<longleftrightarrow> s = [] \<or> hd s = 44 \<or> hd s = 93 \<or> hd s = 125"

lemma num_prefix:
  assumes "\<forall>c \<in> set t. num_char c" "\<forall>c \<in> set t'. num_char c" "delim s" "delim s'" "t @ s = t' @ s'"
  shows "t = t' \<and> s = s'"
proof -
  have d: "takeWhile num_char (u @ r) = u" if "\<forall>c \<in> set u. num_char c" "delim r" for u r
    using that by (cases r) (auto simp: delim_def num_char_def is_digit_def)
  from d [OF assms(1,3)] d [OF assms(2,4)] assms(5) have "t = t'" by simp
  with assms(5) show ?thesis by simp
qed

lemma join_on_start: "\<exists>r. join_on c (p # ps) = p @ r"
  by (cases ps) auto

lemma join_prefix:
  assumes "\<And>x y s t. x \<in> set xs \<Longrightarrow> y \<in> set ys \<Longrightarrow> delim s \<Longrightarrow> delim t \<Longrightarrow> f x @ s = f y @ t \<Longrightarrow> x = y \<and> s = t"
    and "\<And>x. x \<in> set xs \<union> set ys \<Longrightarrow> f x \<noteq> [] \<and> hd (f x) \<noteq> e"
    and "e = 93 \<or> e = 125" and "join_on 44 (map f xs) @ e # s = join_on 44 (map f ys) @ e # t"
  shows "xs = ys \<and> s = t"
  using assms
proof (induction xs arbitrary: ys)
  case Nil
  show ?case
  proof (cases ys)
    case (Cons y ys')
    obtain r where "join_on 44 (map f ys) = f y @ r" using join_on_start [of 44 "f y" "map f ys'"] Cons by auto
    with Nil.prems(2) [of y] Nil.prems(4) Cons show ?thesis by (cases "f y") simp_all
  qed (use Nil.prems in simp)
next
  case (Cons x xs)
  note hyp = Cons.prems
  obtain y ys' where ys: "ys = y # ys'"
    using hyp(2) [of x] hyp(4) join_on_start [of 44 "f x" "map f xs"] by (cases ys; cases "f x") auto
  let ?r = "\<lambda>zs u. (if zs = [] then e # u else 44 # join_on 44 (map f zs) @ e # u)"
  have j: "join_on 44 (map f (z # zs)) @ e # u = f z @ ?r zs u" for z zs u by (cases zs) auto
  have "delim (?r xs s)" "delim (?r ys' t)" using hyp(3) by (auto simp: delim_def)
  moreover have "f x @ ?r xs s = f y @ ?r ys' t" using hyp(4) unfolding ys j .
  ultimately have *: "x = y" "?r xs s = ?r ys' t" using hyp(1) [of x y] ys by auto
  show ?case
  proof (cases "xs = [] \<or> ys' = []")
    case True
    with * hyp(3) ys show ?thesis by (auto split: if_splits)
  next
    case False
    with *(2) have "join_on 44 (map f xs) @ e # s = join_on 44 (map f ys') @ e # t" by simp
    then have "xs = ys' \<and> s = t"
      by (intro Cons.IH) (use hyp(1-3) ys in \<open>auto\<close>)
    with * ys show ?thesis by simp
  qed
qed

lemma render_start:
  "wf_json v \<Longrightarrow> render v \<noteq> [] \<and> hd (render v) \<noteq> 93 \<and> hd (render v) \<noteq> 125"
  by (cases v) (auto simp: quote_def is_digit_def)

lemma pair_prefix:
  assumes "\<forall>c \<in> set k. c < 65536" "\<forall>c \<in> set k'. c < 65536"
    and "(quote k @ 58 # render v) @ s = (quote k' @ 58 # render v') @ t"
  shows "k = k'" "render v @ s = render v' @ t"
  using quote_prefix [OF assms(1,2), of "58 # render v @ s" "58 # render v' @ t"] assms(3) by simp_all

theorem render_inj:
  assumes "wf_json v" "wf_json w" "delim s" "delim t" "render v @ s = render w @ t"
  shows "v = w \<and> s = t"
  using assms
proof (induction v arbitrary: w s t rule: render.induct)
  case 1
  then show ?case
  proof (cases w)
    case (JNum m)
    with 1 show ?thesis by (cases m) (auto simp: is_digit_def split: if_splits)
  qed (auto simp: quote_def split: if_splits)
next
  case (2 b)
  then show ?case
  proof (cases w)
    case (JNum m)
    with 2 show ?thesis by (cases m) (auto simp: is_digit_def split: if_splits)
  qed (auto simp: quote_def split: if_splits)
next
  case (3 n)
  then have h: "is_digit (hd n) \<or> hd n = 45" "n \<noteq> []" by simp_all
  then show ?case
  proof (cases w)
    case (JNum m)
    with 3 num_prefix [of n m s t] show ?thesis by simp
  qed (use 3 h in \<open>(cases n; auto simp: quote_def is_digit_def split: if_splits)+\<close>)
next
  case (4 x)
  then show ?case
  proof (cases w)
    case (JStr y)
    with 4 quote_prefix [of x y s t] show ?thesis by simp
  next
    case (JNum m)
    with 4 show ?thesis by (cases m) (auto simp: quote_def is_digit_def)
  qed (auto simp: quote_def split: if_splits)
next
  case (5 xs)
  show ?case
  proof (cases w)
    case (JArr ys)
    have "xs = ys \<and> s = t"
    proof (rule join_prefix [where f = render and e = 93])
      show "join_on 44 (map render xs) @ 93 # s = join_on 44 (map render ys) @ 93 # t" using 5 JArr by simp
      show "render x \<noteq> [] \<and> hd (render x) \<noteq> 93" if "x \<in> set xs \<union> set ys" for x
        using that 5 JArr render_start by auto
      show "x = y \<and> s = t" if "x \<in> set xs" "y \<in> set ys" "delim s" "delim t" "render x @ s = render y @ t" for x y s t
        using 5(1) [OF that(1) _ _ that(3-5)] that(1,2) 5(2,3) JArr by auto
    qed simp
    with JArr show ?thesis by simp
  next
    case (JNum m)
    with 5 show ?thesis by (cases m) (auto simp: is_digit_def)
  qed (use 5 in \<open>auto simp: quote_def split: if_splits\<close>)
next
  case (6 ps)
  let ?f = "\<lambda>(k, v). quote k @ 58 # render v"
  show ?case
  proof (cases w)
    case (JObj qs)
    have "ps = qs \<and> s = t"
    proof (rule join_prefix [where f = ?f and e = 125])
      show "join_on 44 (map ?f ps) @ 125 # s = join_on 44 (map ?f qs) @ 125 # t" using 6 JObj by simp
      show "?f x \<noteq> [] \<and> hd (?f x) \<noteq> 125" for x by (cases x) (simp add: quote_def)
      fix x y s t
      assume a: "x \<in> set ps" "y \<in> set qs" "delim s" "delim t" "?f x @ s = ?f y @ t"
      obtain k v k' v' where xy: "x = (k, v)" "y = (k', v')" by (cases x; cases y)
      from 6(2,3) JObj have al: "\<forall>(k, v) \<in> set ps. (\<forall>c \<in> set k. c < 65536) \<and> wf_json v"
        "\<forall>(k, v) \<in> set qs. (\<forall>c \<in> set k. c < 65536) \<and> wf_json v" by simp_all
      from bspec [OF al(1) a(1)] bspec [OF al(2) a(2)]
      have wf: "wf_json v" "wf_json v'" "\<forall>c \<in> set k. c < 65536" "\<forall>c \<in> set k'. c < 65536"
        unfolding xy prod.case by blast+
      note pp = pair_prefix [OF wf(3,4), of v s v' t] 
      from a(5) have "(quote k @ 58 # render v) @ s = (quote k' @ 58 # render v') @ t"
        unfolding xy prod.case .
      then have "k = k'" "render v @ s = render v' @ t" by (rule pp)+
      with 6(1) [OF a(1) xy(1) [symmetric] wf(1,2) a(3,4)] show "x = y \<and> s = t" by (simp add: xy)
    qed simp
    with JObj show ?thesis by simp
  next
    case (JNum m)
    with 6 show ?thesis by (cases m) (auto simp: is_digit_def)
  qed (use 6 in \<open>auto simp: quote_def split: if_splits\<close>)
qed

corollary stable_inj:
  assumes "wf_json v" "wf_json w" "stableStringify v = stableStringify w"
  shows "canon v = canon w"
  using render_inj [OF wf_canon [OF assms(1)] wf_canon [OF assms(2)], of "[]" "[]"] assms(3)
  by (simp add: stable_canon delim_def)

end
