(* ===== verification/Idempotency.thy ===== *)
theory Idempotency
  imports Json Base64
begin

text \<open>
  Idempotency keys of \<open>idempotency.ts\<close>: the in-memory store, the fingerprint of a request,
  the namespace of a key, and the \<open>beforeHandle\<close> / \<open>onSend\<close> / finalizer hooks as the steps
  of overlapping requests.

  SHA-256 of bytes, in hex, is the parameter \<open>sha\<close>.  The reservation token of a request (a fresh
  \<open>Symbol\<close>) is the number of the request.  Times are \<open>Date.now()\<close> at the step.
\<close>

section \<open>Responses\<close>

record stored_response =
  sr_status :: nat
  sr_headers :: "(jstr \<times> jstr) list"
  sr_body :: jstr

text \<open>A response of the handler: headers by lower-case name, the body as bytes.\<close>

record http_response =
  hr_status :: nat
  hr_headers :: "(jstr, jstr) assoc"
  hr_body :: "nat list"
  hr_disconnect :: bool

definition never_replayed :: "jstr list" where
  "never_replayed = map js [''set-cookie'', ''set-cookie2'', ''age'', ''connection'', ''keep-alive'',
     ''proxy-authenticate'', ''proxy-authorization'', ''te'', ''trailer'', ''transfer-encoding'', ''upgrade'', ''x-request-id'']"

definition replayable :: "jstr \<times> jstr \<Rightarrow> bool" where
  "replayable h \<longleftrightarrow> to_lower (fst h) \<notin> set never_replayed"

definition bytesToBase64 :: "nat list \<Rightarrow> jstr" where
  "bytesToBase64 bs = the (btoa bs)"

definition captureResponse :: "nat \<Rightarrow> http_response \<Rightarrow> stored_response option" where
  "captureResponse maxBytes res =
     (if maxBytes < length (hr_body res) then None
      else Some \<lparr> sr_status = hr_status res, sr_headers = filter replayable (hr_headers res),
                  sr_body = (if hr_body res = [] then [] else bytesToBase64 (hr_body res)) \<rparr>)"

text \<open>\<open>buildReplayResponse\<close>; \<open>None\<close> is the exception of \<open>atob\<close> on a corrupted stored body.\<close>

definition header_set :: "(jstr, jstr) assoc \<Rightarrow> jstr \<times> jstr \<Rightarrow> (jstr, jstr) assoc" where
  "header_set hs h = AList.update (to_lower (fst h)) (snd h) hs"

definition buildReplayResponse :: "stored_response \<Rightarrow> jstr \<Rightarrow> http_response option" where
  "buildReplayResponse st replayHeaderName =
     (let hs = header_set (foldl header_set [] (filter replayable (sr_headers st))) (replayHeaderName, js ''true'')
      in case (if sr_body st = [] then Some [] else atob (sr_body st)) of
           None \<Rightarrow> None
         | Some body \<Rightarrow> Some \<lparr> hr_status = sr_status st, hr_headers = hs, hr_body = body, hr_disconnect = False \<rparr>)"

section \<open>The in-memory store\<close>

datatype record_status = InFlight | Completed

record idem_record =
  fingerprint :: jstr
  rstatus :: record_status
  response :: "stored_response option"
  createdAt :: int
  expiresAt :: int
  token :: "nat option"

record mem_store =
  imap :: "(jstr, idem_record) assoc"
  maxEntries :: nat

definition new_idem_store :: "int \<Rightarrow> mem_store option" where
  "new_idem_store n = (if n < 1 then None else Some \<lparr> imap = [], maxEntries = nat n \<rparr>)"

definition read_live :: "jstr \<Rightarrow> int \<Rightarrow> mem_store \<Rightarrow> idem_record option \<times> mem_store" where
  "read_live k now s =
     (case map_of (imap s) k of
        None \<Rightarrow> (None, s)
      | Some r \<Rightarrow> (if expiresAt r \<le> now then (None, s\<lparr>imap := AList.delete k (imap s)\<rparr>) else (Some r, s)))"

definition prune :: "int \<Rightarrow> mem_store \<Rightarrow> mem_store" where
  "prune now s = s\<lparr>imap := filter (\<lambda>(k, r). now < expiresAt r) (imap s)\<rparr>"

fun evict :: "nat \<Rightarrow> (jstr, idem_record) assoc \<Rightarrow> (jstr, idem_record) assoc" where
  "evict n [] = []"
| "evict n (x # m) = (if length (x # m) < n then x # m else evict n m)"

definition reserve :: "jstr \<Rightarrow> idem_record \<Rightarrow> int \<Rightarrow> mem_store \<Rightarrow> idem_record option \<times> mem_store" where
  "reserve k rec now s =
     (let (existing, s1) = read_live k now s in
      case existing of
        Some r \<Rightarrow> (Some r, s1)
      | None \<Rightarrow>
          (let s2 = (if maxEntries s1 \<le> length (imap s1)
                     then (prune now s1)\<lparr>imap := evict (maxEntries s1) (imap (prune now s1))\<rparr> else s1)
           in (None, s2\<lparr>imap := AList.update k rec (imap s2)\<rparr>)))"

definition complete_record :: "jstr \<Rightarrow> idem_record \<Rightarrow> int \<Rightarrow> mem_store \<Rightarrow> mem_store" where
  "complete_record k rec now s =
     (case map_of (imap s) k of
        None \<Rightarrow> snd (reserve k rec now s)
      | Some current \<Rightarrow>
          (if token rec \<noteq> None \<and> token current \<noteq> None \<and> token rec \<noteq> token current then s
           else s\<lparr>imap := AList.update k rec (imap s)\<rparr>))"

definition release_key :: "jstr \<Rightarrow> mem_store \<Rightarrow> mem_store" where
  "release_key k s = s\<lparr>imap := AList.delete k (imap s)\<rparr>"

definition releaseIfToken :: "jstr \<Rightarrow> nat \<Rightarrow> mem_store \<Rightarrow> mem_store" where
  "releaseIfToken k t s =
     (case map_of (imap s) k of
        None \<Rightarrow> s
      | Some current \<Rightarrow>
          (if token current \<noteq> None \<and> token current \<noteq> Some t then s
           else s\<lparr>imap := AList.delete k (imap s)\<rparr>))"

section \<open>Configuration and requests\<close>

record idem_opts =
  ttlSeconds :: "int option"
  maxKeyLength :: "int option"
  maxResponseBytes :: "int option"
  maxFingerprintBodyBytes :: "int option"
  headerName :: "jstr option"
  replayHeaderName :: "jstr option"
  methods :: "jstr list option"
  requireKey :: bool
  allowUnscopedCallers :: bool
  cacheableStatus :: "(nat \<Rightarrow> bool) option"
  groupId :: "jstr option"
  customScope :: bool

record idem_cfg =
  c_ttlMs :: int
  c_maxKeyLength :: nat
  c_maxResponseBytes :: nat
  c_maxBodyBytes :: nat
  c_fingerprintCap :: nat
  c_replayHeader :: jstr
  c_methods :: "jstr list"
  c_requireKey :: bool
  c_allowUnscoped :: bool
  c_cacheable :: "nat \<Rightarrow> bool"
  c_keyPrefix :: jstr
  c_customScope :: bool

definition opt_pos :: "int option \<Rightarrow> int \<Rightarrow> int option" where
  "opt_pos o1 d = (let v = (case o1 of Some v \<Rightarrow> v | None \<Rightarrow> d) in if v \<le> 0 then None else Some v)"

definition idempotency :: "idem_opts \<Rightarrow> idem_cfg option" where
  "idempotency o1 =
     (case (opt_pos (ttlSeconds o1) 86400, opt_pos (maxKeyLength o1) 255, opt_pos (maxResponseBytes o1) 1048576,
            opt_pos (maxFingerprintBodyBytes o1) 1048576) of
        (Some ttl, Some mk, Some mr, Some mf) \<Rightarrow>
          Some \<lparr> c_ttlMs = ttl * 1000, c_maxKeyLength = nat mk, c_maxResponseBytes = nat mr, c_maxBodyBytes = nat mf, c_fingerprintCap = nat mf,
                 c_replayHeader = to_lower (case replayHeaderName o1 of Some h \<Rightarrow> h | None \<Rightarrow> js ''idempotency-replayed''),
                 c_methods = map to_upper (case methods o1 of Some m \<Rightarrow> m | None \<Rightarrow> map js [''POST'', ''PUT'', ''PATCH'', ''DELETE'']),
                 c_requireKey = requireKey o1, c_allowUnscoped = allowUnscopedCallers o1,
                 c_cacheable = (case cacheableStatus o1 of Some f \<Rightarrow> f | None \<Rightarrow> (\<lambda>st. st < 500)),
                 c_keyPrefix = (case groupId o1 of Some g \<Rightarrow> if g = [] then [] else g @ [58] | None \<Rightarrow> []),
                 c_customScope = customScope o1 \<rparr>
      | _ \<Rightarrow> None)"

text \<open>
  What the hook reads of the context.  \<open>q_key\<close> is the idempotency header;
  \<open>q_declared\<close> the numeric value of \<open>content-length\<close>, when it has one; \<open>q_scope\<close> the value of
  the custom \<open>scope\<close> callback.  The body is parsed, absent, already consumed, or raw bytes
  (cached, or read from a clone).
\<close>

datatype body_source = ParsedBody json | NoBody | ConsumedBody | RawBody "nat list"

record idem_request =
  q_method :: jstr
  q_key :: "jstr option"
  q_url :: jstr
  q_body :: body_source
  q_declared :: "nat option"
  q_routeLimit :: "nat option"
  q_contentType :: "jstr option"
  q_authorization :: "jstr option"
  q_identity :: "jstr option"
  q_cookie :: bool
  q_scope :: "jstr option"
  q_tenant :: "jstr option"
  q_requiredScopes :: "jstr list option"
  q_ownedScopes :: "jstr list option"

datatype idem_error = MissingKey | EmptyKey | KeyTooLong | KeyInvalid | PayloadTooLarge nat | BodyConsumed
  | UnscopedCookie | KeyReused | StillProcessing | CorruptRecord

definition hasReplayScopes :: "jstr list option \<Rightarrow> jstr list option \<Rightarrow> bool" where
  "hasReplayScopes required owned =
     (case required of
        None \<Rightarrow> True
      | Some [] \<Rightarrow> True
      | Some rs \<Rightarrow> (case owned of None \<Rightarrow> False | Some os \<Rightarrow> list_all (\<lambda>s. s \<in> set os) rs))"

definition validateKey :: "jstr \<Rightarrow> nat \<Rightarrow> idem_error option" where
  "validateKey key maxLen =
     (if key = [] then Some EmptyKey
      else if maxLen < length key then Some KeyTooLong
      else if \<not> list_all (\<lambda>c. 33 \<le> c \<and> c \<le> 126) key then Some KeyInvalid else None)"

definition rawMaterial :: "(nat list \<Rightarrow> jstr) \<Rightarrow> idem_request \<Rightarrow> nat list \<Rightarrow> nat \<Rightarrow> idem_error + jstr" where
  "rawMaterial sha q bs maxBytes =
     (if maxBytes < length bs then Inl (PayloadTooLarge maxBytes)
      else if bs = [] then Inr (js ''null'')
      else Inr (js ''raw:'' @ quote (case q_contentType q of Some t \<Rightarrow> t | None \<Rightarrow> []) @ 58 # sha bs))"

definition sha256Hex :: "(nat list \<Rightarrow> jstr) \<Rightarrow> jstr \<Rightarrow> jstr" where
  "sha256Hex sha s = sha (utf8_encode s)"

text \<open>A route with its own body limit bounds the read by that limit, others by the app's.\<close>

definition effectiveBodyReadCap :: "nat option \<Rightarrow> nat \<Rightarrow> nat \<Rightarrow> nat" where
  "effectiveBodyReadCap routeLimit maxBytes appCappedMax =
     (case routeLimit of Some l \<Rightarrow> min maxBytes l | None \<Rightarrow> appCappedMax)"

definition app_body_limit :: "nat \<Rightarrow> idem_cfg \<Rightarrow> idem_cfg" where
  "app_body_limit limit c =
     (if 0 < limit \<and> limit < c_fingerprintCap c then c\<lparr>c_fingerprintCap := limit\<rparr> else c)"

definition bodyMaterial :: "(nat list \<Rightarrow> jstr) \<Rightarrow> idem_request \<Rightarrow> nat \<Rightarrow> idem_error + jstr" where
  "bodyMaterial sha q maxBytes =
     (case q_body q of
        ParsedBody v \<Rightarrow> Inr (stableStringify v)
      | body \<Rightarrow>
          (if q_declared q \<noteq> None \<and> maxBytes < the (q_declared q) then Inl (PayloadTooLarge maxBytes)
           else (case body of
               RawBody bs \<Rightarrow> rawMaterial sha q bs maxBytes
             | ConsumedBody \<Rightarrow> Inl BodyConsumed
             | _ \<Rightarrow> Inr (js ''null''))))"

definition fingerprint_material :: "(nat list \<Rightarrow> jstr) \<Rightarrow> idem_request \<Rightarrow> nat \<Rightarrow> idem_error + jstr" where
  "fingerprint_material sha q maxBytes =
     (case bodyMaterial sha q maxBytes of
        Inl e \<Rightarrow> Inl e
      | Inr b \<Rightarrow> Inr (to_upper (q_method q) @ 10 # q_url q @ 10 # b))"

definition computeFingerprint :: "(nat list \<Rightarrow> jstr) \<Rightarrow> idem_request \<Rightarrow> nat \<Rightarrow> idem_error + jstr" where
  "computeFingerprint sha q maxBytes =
     (case fingerprint_material sha q maxBytes of Inl e \<Rightarrow> Inl e | Inr m \<Rightarrow> Inr (sha256Hex sha m))"

definition defaultScope :: "jstr option \<Rightarrow> jstr option \<Rightarrow> jstr option" where
  "defaultScope authorization identity =
     (let a = (if authorization = Some [] then None else authorization) in
      case identity of
        None \<Rightarrow> a
      | Some i \<Rightarrow> (case a of None \<Rightarrow> Some (js ''id:'' @ i) | Some v \<Rightarrow> Some (v @ 10 # js ''id:'' @ i)))"

definition scope_of :: "idem_cfg \<Rightarrow> idem_request \<Rightarrow> jstr option" where
  "scope_of c q = (if c_customScope c then q_scope q else defaultScope (q_authorization q) (q_identity q))"

definition falsy :: "jstr option \<Rightarrow> bool" where
  "falsy s \<longleftrightarrow> s = None \<or> s = Some []"

definition storeKey :: "(nat list \<Rightarrow> jstr) \<Rightarrow> idem_cfg \<Rightarrow> idem_request \<Rightarrow> jstr \<Rightarrow> jstr" where
  "storeKey sha c q key =
     (let t = (if falsy (q_tenant q) then [] else sha256Hex sha (js ''tenant:'' @ the (q_tenant q)));
          s = (if falsy (scope_of c q) then [] else sha256Hex sha (the (scope_of c q)))
      in c_keyPrefix c @ js ''t='' @ t @ js ''|s='' @ s @ js ''|k='' @ key)"

section \<open>The hooks\<close>

datatype keyed = Pass | Refused idem_error | Keyed jstr jstr

text \<open>\<open>beforeHandle\<close> up to the store: the store key and the fingerprint.\<close>

definition identify :: "(nat list \<Rightarrow> jstr) \<Rightarrow> idem_cfg \<Rightarrow> idem_request \<Rightarrow> keyed" where
  "identify sha c q =
     (if \<not> hasReplayScopes (q_requiredScopes q) (q_ownedScopes q) then Pass
      else if to_upper (q_method q) \<notin> set (c_methods c) then Pass
      else (case q_key q of
          None \<Rightarrow> (if c_requireKey c then Refused MissingKey else Pass)
        | Some raw \<Rightarrow>
            (let key = js_trim raw in
             if key = [] then (if c_requireKey c then Refused MissingKey else Pass)
             else (case validateKey key (c_maxKeyLength c) of
                 Some e \<Rightarrow> Refused e
               | None \<Rightarrow>
                   (case computeFingerprint sha q (effectiveBodyReadCap (q_routeLimit q) (c_maxBodyBytes c) (c_fingerprintCap c)) of
                      Inl e \<Rightarrow> Refused e
                    | Inr fp \<Rightarrow>
                        (if \<not> c_customScope c \<and> falsy (scope_of c q) \<and> \<not> c_allowUnscoped c \<and> q_cookie q
                         then Refused UnscopedCookie else Keyed (storeKey sha c q key) fp))))))"

datatype decision = PassThrough | Failed idem_error | Replay http_response | Execute jstr jstr

definition answer_existing :: "idem_cfg \<Rightarrow> jstr \<Rightarrow> idem_record \<Rightarrow> decision" where
  "answer_existing c fp existing =
     (if fingerprint existing \<noteq> fp then Failed KeyReused
      else if rstatus existing = InFlight then Failed StillProcessing
      else (case response existing of
          None \<Rightarrow> Failed CorruptRecord
        | Some st \<Rightarrow> (case buildReplayResponse st (c_replayHeader c) of
              None \<Rightarrow> Failed CorruptRecord | Some res \<Rightarrow> Replay res)))"

definition in_flight :: "jstr \<Rightarrow> int \<Rightarrow> int \<Rightarrow> nat \<Rightarrow> idem_record" where
  "in_flight fp now ttl r = \<lparr> fingerprint = fp, rstatus = InFlight, response = None, createdAt = now,
     expiresAt = now + ttl, token = Some r \<rparr>"

text \<open>The whole hook over the \<open>reserve\<close> of any store.\<close>

definition begin_with ::
  "(jstr \<Rightarrow> idem_record \<Rightarrow> int \<Rightarrow> 's \<Rightarrow> idem_record option \<times> 's) \<Rightarrow> (nat list \<Rightarrow> jstr) \<Rightarrow> idem_cfg \<Rightarrow> idem_request
    \<Rightarrow> nat \<Rightarrow> int \<Rightarrow> 's \<Rightarrow> decision \<times> 's" where
  "begin_with resv sha c q r now s =
     (case identify sha c q of
        Pass \<Rightarrow> (PassThrough, s)
      | Refused e \<Rightarrow> (Failed e, s)
      | Keyed k fp \<Rightarrow>
          (case resv k (in_flight fp now (c_ttlMs c) r) now s of
             (Some existing, s') \<Rightarrow> (answer_existing c fp existing, s')
           | (None, s') \<Rightarrow> (Execute k fp, s')))"

section \<open>Overlapping requests\<close>

text \<open>
  The life of a request: not begun; executing with its reservation (\<open>PENDING_STATE_KEY\<close>);
  its response being captured, after \<open>onSend\<close> removed the pending marker; over.
\<close>

datatype iphase = NotBegun | Pending jstr jstr | Sending jstr jstr http_response | Over

record iworld =
  istore :: mem_store
  iphase :: "nat \<Rightarrow> iphase"

datatype ievent = Begin nat idem_request int | Send nat http_response bool | Stored nat int | Finalize nat

definition enter :: "nat \<Rightarrow> iphase \<Rightarrow> mem_store \<Rightarrow> iworld \<Rightarrow> iworld" where
  "enter r p s w = w\<lparr>istore := s, iphase := (iphase w)(r := p)\<rparr>"

definition completed_record :: "jstr \<Rightarrow> stored_response \<Rightarrow> int \<Rightarrow> int \<Rightarrow> nat \<Rightarrow> idem_record" where
  "completed_record fp st now ttl r = \<lparr> fingerprint = fp, rstatus = Completed, response = Some st, createdAt = now,
     expiresAt = now + ttl, token = Some r \<rparr>"

definition istep :: "(nat list \<Rightarrow> jstr) \<Rightarrow> idem_cfg \<Rightarrow> ievent \<Rightarrow> iworld \<Rightarrow> iworld option" where
  "istep sha c ev w =
     (case ev of
        Begin r q now \<Rightarrow>
          (if iphase w r \<noteq> NotBegun then None
           else (case begin_with reserve sha c q r now (istore w) of
               (Execute k fp, s) \<Rightarrow> Some (enter r (Pending k fp) s w)
             | (_, s) \<Rightarrow> Some (enter r Over s w)))
      | Send r res abandoned \<Rightarrow>
          (case iphase w r of
             Pending k fp \<Rightarrow>
               (let mustRelease = hr_disconnect res \<or> \<not> c_cacheable c (hr_status res) in
                if mustRelease \<and> abandoned then Some w
                else if mustRelease then Some (enter r Over (releaseIfToken k r (istore w)) w)
                else Some (enter r (Sending k fp res) (istore w) w))
           | _ \<Rightarrow> None)
      | Stored r now \<Rightarrow>
          (case iphase w r of
             Sending k fp res \<Rightarrow>
               (case captureResponse (c_maxResponseBytes c) res of
                  None \<Rightarrow> Some (enter r Over (releaseIfToken k r (istore w)) w)
                | Some st \<Rightarrow> Some (enter r Over
                    (complete_record k (completed_record fp st now (c_ttlMs c) r) now (istore w)) w))
           | _ \<Rightarrow> None)
      | Finalize r \<Rightarrow>
          (case iphase w r of
             Pending k fp \<Rightarrow> Some (enter r Over (releaseIfToken k r (istore w)) w)
           | _ \<Rightarrow> None))"

inductive ireach :: "(nat list \<Rightarrow> jstr) \<Rightarrow> idem_cfg \<Rightarrow> iworld \<Rightarrow> bool" for sha c where
  start: "new_idem_store n = Some s \<Longrightarrow> ireach sha c \<lparr> istore = s, iphase = (\<lambda>_. NotBegun) \<rparr>"
| step: "ireach sha c w \<Longrightarrow> istep sha c ev w = Some w' \<Longrightarrow> ireach sha c w'"


section \<open>The interface of a store\<close>

text \<open>
  What the hook relies on: \<open>reserve\<close> answers the live record of a key unchanged, or installs
  the new one, which is then live until it expires.  Its consequences for the hook are proved
  once; the in-memory store is an instance.
\<close>

locale idem_backend =
  fixes resv :: "jstr \<Rightarrow> idem_record \<Rightarrow> int \<Rightarrow> 's \<Rightarrow> idem_record option \<times> 's"
    and live :: "jstr \<Rightarrow> int \<Rightarrow> 's \<Rightarrow> idem_record option"
    and sinv :: "'s \<Rightarrow> bool"
  assumes hit: "sinv s \<Longrightarrow> live k now s = Some r \<Longrightarrow> fst (resv k new now s) = Some r"
    and miss: "sinv s \<Longrightarrow> live k now s = None \<Longrightarrow> fst (resv k new now s) = None"
    and installed: "sinv s \<Longrightarrow> live k now s = None \<Longrightarrow> now' < expiresAt new \<Longrightarrow> live k now' (snd (resv k new now s)) = Some new"
    and resv_keeps: "sinv s \<Longrightarrow> sinv (snd (resv k new now s))"
begin

lemma repeat_answered:
  assumes "sinv s" "identify sha c q = Keyed k fp" "live k now s = Some r"
  shows "fst (begin_with resv sha c q n now s) = answer_existing c fp r"
  using hit [OF assms(1,3), where new = "in_flight fp now (c_ttlMs c) n"] assms(2)
  by (auto simp: begin_with_def split: prod.splits)

lemma first_executes:
  assumes "sinv s" "identify sha c q = Keyed k fp" "live k now s = None" "now' < now + c_ttlMs c"
  shows "\<exists>s'. begin_with resv sha c q n now s = (Execute k fp, s') \<and> sinv s'
    \<and> live k now' s' = Some (in_flight fp now (c_ttlMs c) n)"
  using miss [OF assms(1,3), where new = "in_flight fp now (c_ttlMs c) n"]
    installed [OF assms(1,3), where new = "in_flight fp now (c_ttlMs c) n" and now' = now']
    resv_keeps [OF assms(1), where k = k and new = "in_flight fp now (c_ttlMs c) n" and now = now] assms(2,4)
  by (auto simp: begin_with_def in_flight_def split: prod.splits)

end

definition live_record :: "jstr \<Rightarrow> int \<Rightarrow> mem_store \<Rightarrow> idem_record option" where
  "live_record k now s =
     (case map_of (imap s) k of None \<Rightarrow> None | Some r \<Rightarrow> if expiresAt r \<le> now then None else Some r)"

definition mem_inv :: "mem_store \<Rightarrow> bool" where
  "mem_inv s \<longleftrightarrow> wf_assoc (imap s) \<and> length (imap s) \<le> maxEntries s \<and> 1 \<le> maxEntries s"

lemma evict_suffix: "\<exists>xs. m = xs @ evict n m"
proof (induction n m rule: evict.induct)
  case (2 n x m)
  then show ?case by (cases "length (x # m) < n") (auto intro: exI [of _ "x # _"])
qed simp

lemma evict_length: "0 < n \<Longrightarrow> length (evict n m) < n"
  by (induction n m rule: evict.induct) auto

lemma evict_room [simp]: "length m < n \<Longrightarrow> evict n m = m"
  by (cases m) auto

lemma evict_wf: "wf_assoc m \<Longrightarrow> wf_assoc (evict n m)" "keys (evict n m) \<subseteq> keys m"
  using evict_suffix [of m n] by (metis distinct_append map_append, metis Un_upper2 image_Un set_append)

lemma prune_wf: "wf_assoc (imap s) \<Longrightarrow> wf_assoc (imap (prune now s))" "keys (imap (prune now s)) \<subseteq> keys (imap s)"
  by (auto simp: prune_def distinct_map_filter)

text \<open>\<open>reserve\<close> in two cases.\<close>

definition make_room :: "jstr \<Rightarrow> int \<Rightarrow> mem_store \<Rightarrow> mem_store" where
  "make_room k now s =
     (let s1 = snd (read_live k now s) in
      if maxEntries s1 \<le> length (imap s1) then (prune now s1)\<lparr>imap := evict (maxEntries s1) (imap (prune now s1))\<rparr> else s1)"

lemma reserve_cases:
  "reserve k rec now s =
     (case live_record k now s of
        Some r \<Rightarrow> (Some r, s)
      | None \<Rightarrow> (None, (make_room k now s)\<lparr>imap := AList.update k rec (imap (make_room k now s))\<rparr>))"
  by (auto simp: reserve_def live_record_def make_room_def read_live_def Let_def split: option.splits prod.splits)

lemma make_room_fresh:
  assumes "mem_inv s" "live_record k now s = None"
  shows "wf_assoc (imap (make_room k now s))" "k \<notin> keys (imap (make_room k now s))"
    "length (imap (make_room k now s)) < maxEntries s" "maxEntries (make_room k now s) = maxEntries s"
proof -
  let ?s1 = "snd (read_live k now s)"
  have 1: "wf_assoc (imap ?s1)" "k \<notin> keys (imap ?s1)" "maxEntries ?s1 = maxEntries s"
  proof -
    have "?s1 = s\<lparr>imap := AList.delete k (imap s)\<rparr>"
    proof (cases "map_of (imap s) k")
      case None
      then have "AList.delete k (imap s) = imap s" by (intro delete_fresh) (simp add: map_of_None_keys)
      with None show ?thesis by (simp add: read_live_def)
    next
      case (Some r)
      with assms(2) show ?thesis by (simp add: live_record_def read_live_def split: if_splits)
    qed
    then show "wf_assoc (imap ?s1)" "k \<notin> keys (imap ?s1)" "maxEntries ?s1 = maxEntries s"
      using assms(1) by (simp_all add: mem_inv_def distinct_delete keys_delete)
  qed
  let ?p = "imap (prune now ?s1)"
  have p: "wf_assoc ?p" "k \<notin> keys ?p" using prune_wf(1) [OF 1(1)] prune_wf(2) [of now ?s1] 1(2) by auto
  note e = evict_wf(1) [OF p(1), of "maxEntries s"] evict_wf(2) [of "maxEntries s" ?p] evict_length [of "maxEntries s" ?p]
  show "wf_assoc (imap (make_room k now s))" "k \<notin> keys (imap (make_room k now s))"
    "length (imap (make_room k now s)) < maxEntries s" "maxEntries (make_room k now s) = maxEntries s"
    using 1 p e assms(1) by (auto simp: make_room_def Let_def mem_inv_def prune_def)
qed

lemma reserve_inv: "mem_inv s \<Longrightarrow> mem_inv (snd (reserve k rec now s))"
  using make_room_fresh [of s k now]
  by (cases "live_record k now s") (auto simp: reserve_cases mem_inv_def update_fresh)

interpretation memory_idem: idem_backend reserve live_record mem_inv
proof unfold_locales
  fix s k now r new now'
  assume s: "mem_inv s"
  show "mem_inv (snd (reserve k new now s))" by (rule reserve_inv [OF s])
  show "fst (reserve k new now s) = Some r" if "live_record k now s = Some r" using that by (simp add: reserve_cases)
  show "fst (reserve k new now s) = None" if "live_record k now s = None" using that by (simp add: reserve_cases)
  show "live_record k now' (snd (reserve k new now s)) = Some new"
    if "live_record k now s = None" "now' < expiresAt new"
    using that by (simp add: reserve_cases live_record_def [of k now'] update_conv')
qed

section \<open>Reservations belong to running requests\<close>

definition record_ok :: "(nat \<Rightarrow> iphase) \<Rightarrow> jstr \<Rightarrow> idem_record \<Rightarrow> bool" where
  "record_ok ph k rec =
     (case token rec of
        None \<Rightarrow> False
      | Some t \<Rightarrow>
          (case rstatus rec of
             InFlight \<Rightarrow> (case ph t of
                 Pending k' fp \<Rightarrow> k' = k \<and> fp = fingerprint rec
               | Sending k' fp res \<Rightarrow> k' = k \<and> fp = fingerprint rec
               | _ \<Rightarrow> False)
           | Completed \<Rightarrow> ph t = Over \<and> response rec \<noteq> None))"

definition idem_inv :: "iworld \<Rightarrow> bool" where
  "idem_inv w \<longleftrightarrow> mem_inv (istore w)
     \<and> (\<forall>k rec. map_of (imap (istore w)) k = Some rec \<longrightarrow> record_ok (iphase w) k rec)"

lemma enter_simps [simp]:
  "istore (enter r p s w) = s" "iphase (enter r p s w) = (iphase w)(r := p)"
  by (simp_all add: enter_def)

text \<open>What remains of the map after \<open>reserve\<close>, a completion and a release.\<close>

lemma make_room_entries:
  assumes "mem_inv s" "map_of (imap (make_room k now s)) k' = Some x"
  shows "map_of (imap s) k' = Some x"
proof -
  let ?s1 = "snd (read_live k now s)"
  have wf: "wf_assoc (imap s)" using assms(1) by (simp add: mem_inv_def)
  then have w1: "wf_assoc (imap ?s1)" by (auto simp: read_live_def distinct_delete split: option.splits)
  have 1: "map_of (imap ?s1) k' = Some x \<Longrightarrow> map_of (imap s) k' = Some x"
    by (auto simp: read_live_def delete_conv' split: option.splits if_splits)
  have 2: "map_of (imap (prune now ?s1)) k' = Some x \<Longrightarrow> map_of (imap ?s1) k' = Some x"
    using w1 by (auto simp: prune_def map_of_filter_wf split: option.splits if_splits)
  have 3: "map_of (evict n m) k' = Some x \<Longrightarrow> wf_assoc m \<Longrightarrow> map_of m k' = Some x" for n m
    using evict_suffix [of m n] by (metis (no_types, lifting) distinct_append map_append map_of_SomeD map_of_is_SomeI set_append Un_iff)
  show ?thesis
    using assms(2) 1 2 3 [of "maxEntries ?s1" "imap (prune now ?s1)"] prune_wf(1) [OF w1]
    by (auto simp: make_room_def Let_def split: if_splits)
qed

lemma reserve_entries:
  assumes "mem_inv s" "map_of (imap (snd (reserve k rec now s))) k' = Some x"
  shows "(k' = k \<and> x = rec) \<or> map_of (imap s) k' = Some x"
  using assms(2) make_room_entries [OF assms(1)]
  by (cases "live_record k now s") (auto simp: reserve_cases update_conv' split: if_splits)

lemma complete_entries:
  assumes "mem_inv s" "map_of (imap (complete_record k rec now s)) k' = Some x"
  shows "(k' = k \<and> x = rec) \<or> (map_of (imap s) k' = Some x \<and> (k' = k \<longrightarrow> token rec \<noteq> None \<longrightarrow> token x \<noteq> token rec))"
proof (cases "map_of (imap s) k")
  case None
  with assms reserve_entries [OF assms(1), of k rec now k' x] show ?thesis by (auto simp: complete_record_def)
next
  case (Some cur)
  with assms show ?thesis by (auto simp: complete_record_def update_conv' split: if_splits)
qed

lemma complete_inv: "mem_inv s \<Longrightarrow> mem_inv (complete_record k rec now s)"
  using reserve_inv [of s k rec now]
  by (auto simp: complete_record_def mem_inv_def distinct_update length_update_present map_of_Some_keys split: option.splits)

lemma release_mem_inv: "mem_inv s \<Longrightarrow> mem_inv (releaseIfToken k t s)"
  using length_delete_le [of k "imap s"]
  by (auto simp: releaseIfToken_def mem_inv_def distinct_delete split: option.splits)

lemma release_entries:
  "map_of (imap (releaseIfToken k t s)) k' = Some x \<Longrightarrow> map_of (imap s) k' = Some x \<and> (k' = k \<longrightarrow> token x \<noteq> None \<and> token x \<noteq> Some t)"
  by (auto simp: releaseIfToken_def delete_conv' split: option.splits if_splits)

text \<open>The phase of a request only matters for the records that carry its token.\<close>

lemma record_ok_other: "record_ok ph k rec \<Longrightarrow> token rec \<noteq> Some r \<Longrightarrow> record_ok (ph(r := p)) k rec"
  by (auto simp: record_ok_def split: option.splits record_status.splits)

lemma record_ok_begun: "record_ok ph k rec \<Longrightarrow> ph r = NotBegun \<Longrightarrow> token rec \<noteq> Some r"
  by (auto simp: record_ok_def split: option.splits record_status.splits)

lemma record_ok_key:
  "record_ok ph k rec \<Longrightarrow> token rec = Some r \<Longrightarrow> ph r = Pending k' fp \<or> ph r = Sending k' fp res \<Longrightarrow> k = k'"
  by (auto simp: record_ok_def split: record_status.splits)

lemma release_over:
  assumes "idem_inv w" "iphase w r = Pending k fp \<or> iphase w r = Sending k fp res"
  shows "idem_inv (enter r Over (releaseIfToken k r (istore w)) w)"
  unfolding idem_inv_def enter_simps
proof (intro conjI allI impI)
  show "mem_inv (releaseIfToken k r (istore w))" using assms(1) by (simp add: idem_inv_def release_mem_inv)
  fix k' x assume "map_of (imap (releaseIfToken k r (istore w))) k' = Some x"
  from release_entries [OF this] assms(1)
  have x: "record_ok (iphase w) k' x" "k' = k \<Longrightarrow> token x \<noteq> Some r" by (auto simp: idem_inv_def)
  have "token x \<noteq> Some r" using x record_ok_key [OF x(1) _ assms(2)] by blast
  from record_ok_other [OF x(1) this] show "record_ok ((iphase w)(r := Over)) k' x" .
qed

lemma begin_inv:
  assumes "idem_inv w" "iphase w r = NotBegun" "begin_with reserve sha c q r now (istore w) = (d, s)"
  shows "idem_inv (enter r (case d of Execute k fp \<Rightarrow> Pending k fp | _ \<Rightarrow> Over) s w)"
proof -
  have mi: "mem_inv (istore w)" and ok: "\<And>k x. map_of (imap (istore w)) k = Some x \<Longrightarrow> record_ok (iphase w) k x"
    using assms(1) by (auto simp: idem_inv_def)
  have keep: "record_ok ((iphase w)(r := p)) k x" if "map_of (imap (istore w)) k = Some x" for p k x
    by (rule record_ok_other [OF ok [OF that] record_ok_begun [OF ok [OF that] assms(2)]])
  show ?thesis
  proof (cases "\<exists>k fp. identify sha c q = Keyed k fp \<and> live_record k now (istore w) = None")
    case True
    then obtain k fp where k: "identify sha c q = Keyed k fp" "live_record k now (istore w) = None" by blast
    then have d: "d = Execute k fp" "s = snd (reserve k (in_flight fp now (c_ttlMs c) r) now (istore w))"
      using assms(3) by (auto simp: begin_with_def reserve_cases)
    show ?thesis unfolding idem_inv_def enter_simps
    proof (intro conjI allI impI)
      show "mem_inv s" unfolding d by (rule reserve_inv [OF mi])
      fix k' x assume "map_of (imap s) k' = Some x"
      from reserve_entries [OF mi this [unfolded d(2)]]
      show "record_ok ((iphase w)(r := case d of Execute k fp \<Rightarrow> Pending k fp | _ \<Rightarrow> Over)) k' x"
        using keep d(1) by (auto simp: record_ok_def in_flight_def)
    qed
  next
    case False
    then have "s = istore w" "\<forall>k fp. d \<noteq> Execute k fp"
      using assms(3) by (auto simp: begin_with_def reserve_cases answer_existing_def split: keyed.splits option.splits if_splits)
    with mi keep show ?thesis by (cases d) (auto simp: idem_inv_def)
  qed
qed

lemma stored_inv:
  assumes "idem_inv w" "iphase w r = Sending k fp res"
  shows "idem_inv (enter r Over (complete_record k (completed_record fp st now ttl r) now (istore w)) w)"
  unfolding idem_inv_def enter_simps
proof (intro conjI allI impI)
  show "mem_inv (complete_record k (completed_record fp st now ttl r) now (istore w))"
    using assms(1) by (simp add: idem_inv_def complete_inv)
  fix k' x assume x: "map_of (imap (complete_record k (completed_record fp st now ttl r) now (istore w))) k' = Some x"
  have mi: "mem_inv (istore w)" using assms(1) by (simp add: idem_inv_def)
  from complete_entries [OF mi x] show "record_ok ((iphase w)(r := Over)) k' x"
  proof
    assume "k' = k \<and> x = completed_record fp st now ttl r"
    then show ?thesis by (simp add: record_ok_def completed_record_def)
  next
    assume o: "map_of (imap (istore w)) k' = Some x
      \<and> (k' = k \<longrightarrow> token (completed_record fp st now ttl r) \<noteq> None \<longrightarrow> token x \<noteq> token (completed_record fp st now ttl r))"
    then have ok: "record_ok (iphase w) k' x" using assms(1) by (simp add: idem_inv_def)
    then have "token x \<noteq> Some r" using o record_ok_key [OF ok _ disjI2 [OF assms(2)]] by (auto simp: completed_record_def)
    from record_ok_other [OF ok this] show ?thesis .
  qed
qed

lemma sending_inv:
  assumes "idem_inv w" "iphase w r = Pending k fp"
  shows "idem_inv (enter r (Sending k fp res) (istore w) w)"
  unfolding idem_inv_def enter_simps
proof (intro conjI allI impI)
  show "mem_inv (istore w)" using assms(1) by (simp add: idem_inv_def)
  fix k' x assume "map_of (imap (istore w)) k' = Some x"
  with assms(1) have ok: "record_ok (iphase w) k' x" by (simp add: idem_inv_def)
  then show "record_ok ((iphase w)(r := Sending k fp res)) k' x"
    using assms(2) by (auto simp: record_ok_def split: option.splits record_status.splits)
qed

lemma istep_inv:
  assumes "idem_inv w" "istep sha c ev w = Some w'"
  shows "idem_inv w'"
proof (cases ev)
  case (Begin r q now)
  obtain d s where b: "begin_with reserve sha c q r now (istore w) = (d, s)" by (cases "begin_with reserve sha c q r now (istore w)")
  have "iphase w r = NotBegun" "w' = enter r (case d of Execute k fp \<Rightarrow> Pending k fp | _ \<Rightarrow> Over) s w"
    using assms(2) Begin b by (auto simp: istep_def split: if_splits decision.splits)
  with begin_inv [OF assms(1) this(1) b] show ?thesis by simp
next
  case (Send r res ab)
  with assms(2) obtain k fp where p: "iphase w r = Pending k fp" by (auto simp: istep_def split: iphase.splits)
  with assms(2) Send release_over [OF assms(1), of r k fp res] sending_inv [OF assms(1) p, of res] assms(1) show ?thesis
    by (auto simp: istep_def Let_def split: if_splits)
next
  case (Stored r now)
  with assms(2) obtain k fp res where p: "iphase w r = Sending k fp res" by (auto simp: istep_def split: iphase.splits)
  with assms(2) Stored release_over [OF assms(1), of r k fp res] stored_inv [OF assms(1) p] show ?thesis
    by (auto simp: istep_def split: option.splits)
next
  case (Finalize r)
  with assms(2) obtain k fp where p: "iphase w r = Pending k fp" by (auto simp: istep_def split: iphase.splits)
  with assms(2) Finalize release_over [OF assms(1), of r k fp] show ?thesis by (auto simp: istep_def)
qed

lemma ireach_inv: "ireach sha c w \<Longrightarrow> idem_inv w"
proof (induction rule: ireach.induct)
  case (start n s)
  then show ?case by (auto simp: idem_inv_def mem_inv_def new_idem_store_def split: if_splits)
next
  case (step w ev w')
  then show ?case using istep_inv by blast
qed

section \<open>Exactly one execution\<close>

text \<open>
  Steps of other requests, while the record of key \<open>k\<close> has not expired and the map has room
  (so that nothing is evicted).
\<close>

fun event_request :: "ievent \<Rightarrow> nat" where
  "event_request (Begin r q now) = r"
| "event_request (Send r res ab) = r"
| "event_request (Stored r now) = r"
| "event_request (Finalize r) = r"

fun event_time :: "ievent \<Rightarrow> int option" where
  "event_time (Begin r q now) = Some now"
| "event_time (Stored r now) = Some now"
| "event_time _ = None"

definition calm :: "nat \<Rightarrow> int \<Rightarrow> ievent \<Rightarrow> iworld \<Rightarrow> bool" where
  "calm t limit ev w \<longleftrightarrow> event_request ev \<noteq> t \<and> (case event_time ev of None \<Rightarrow> True | Some now \<Rightarrow> now < limit)
     \<and> length (imap (istore w)) < maxEntries (istore w)"

inductive others_run :: "(nat list \<Rightarrow> jstr) \<Rightarrow> idem_cfg \<Rightarrow> nat \<Rightarrow> int \<Rightarrow> iworld \<Rightarrow> iworld \<Rightarrow> bool" for sha c t limit w where
  none: "others_run sha c t limit w w"
| one: "others_run sha c t limit w w1 \<Longrightarrow> calm t limit ev w1 \<Longrightarrow> istep sha c ev w1 = Some w2 \<Longrightarrow> others_run sha c t limit w w2"

lemma reserve_keeps_other:
  assumes "map_of (imap s) k = Some rec" "now < expiresAt rec" "length (imap s) < maxEntries s"
  shows "map_of (imap (snd (reserve k' new now s))) k = Some rec"
proof (cases "live_record k' now s")
  case (Some r)
  with assms show ?thesis by (simp add: reserve_cases)
next
  case None
  with assms(1,2) have ne: "k' \<noteq> k" by (auto simp: live_record_def)
  have "maxEntries (snd (read_live k' now s)) = maxEntries s" "length (imap (snd (read_live k' now s))) \<le> length (imap s)"
    using length_delete_le [of k' "imap s"] by (auto simp: read_live_def split: option.splits)
  with assms(3) have "make_room k' now s = snd (read_live k' now s)" by (simp add: make_room_def Let_def)
  with assms(1) ne None show ?thesis
    by (simp add: reserve_cases update_conv') (simp add: read_live_def delete_conv' split: option.splits)
qed

lemma other_step_keeps:
  assumes m: "map_of (imap (istore w)) k = Some rec" and t: "token rec = Some t"
    and "istep sha c ev w = Some w'" and calm: "calm t (expiresAt rec) ev w"
  shows "map_of (imap (istore w')) k = Some rec"
proof (cases ev)
  case (Begin r q now)
  have "now < expiresAt rec" "length (imap (istore w)) < maxEntries (istore w)" using calm Begin by (simp_all add: calm_def)
  note rk = reserve_keeps_other [OF m this]
  obtain d s where b: "begin_with reserve sha c q r now (istore w) = (d, s)" by (cases "begin_with reserve sha c q r now (istore w)")
  then have "map_of (imap s) k = Some rec" using m rk
    by (auto simp: begin_with_def split: keyed.splits prod.splits option.splits) (metis snd_conv)+
  with assms(3) Begin b show ?thesis by (auto simp: istep_def split: if_splits decision.splits)
next
  case (Send r res ab)
  with calm have "r \<noteq> t" by (simp add: calm_def)
  with m t have "map_of (imap (releaseIfToken k' r (istore w))) k = Some rec" for k'
    by (cases "k' = k") (auto simp: releaseIfToken_def delete_conv' split: option.splits)
  with assms(3) Send m show ?thesis by (auto simp: istep_def Let_def split: iphase.splits if_splits)
next
  case (Stored r now)
  with calm have c: "r \<noteq> t" "now < expiresAt rec" "length (imap (istore w)) < maxEntries (istore w)" by (simp_all add: calm_def)
  have rel: "map_of (imap (releaseIfToken k' r (istore w))) k = Some rec" for k'
    using m t c(1) by (cases "k' = k") (auto simp: releaseIfToken_def delete_conv' split: option.splits)
  have "map_of (imap (complete_record k' (completed_record fp st now ttl r) now (istore w))) k = Some rec" for k' fp st ttl
    using m t c(1) reserve_keeps_other [OF m c(2,3)]
    by (cases "k' = k") (auto simp: complete_record_def completed_record_def update_conv' split: option.splits)
  with rel assms(3) Stored show ?thesis by (auto simp: istep_def split: iphase.splits option.splits)
next
  case (Finalize r)
  with calm have "r \<noteq> t" by (simp add: calm_def)
  with m t have "map_of (imap (releaseIfToken k' r (istore w))) k = Some rec" for k'
    by (cases "k' = k") (auto simp: releaseIfToken_def delete_conv' split: option.splits)
  with assms(3) Finalize show ?thesis by (auto simp: istep_def split: iphase.splits)
qed

lemma others_keep:
  assumes "others_run sha c t limit w w'" and "map_of (imap (istore w)) k = Some rec" "token rec = Some t" "limit = expiresAt rec"
  shows "map_of (imap (istore w')) k = Some rec"
  using assms by (induction rule: others_run.induct) (auto intro: other_step_keeps)

lemma others_reach: "others_run sha c t limit w w' \<Longrightarrow> idem_inv w \<Longrightarrow> idem_inv w'"
  by (induction rule: others_run.induct) (auto intro: istep_inv)

section \<open>Properties\<close>

text \<open>
  C14. One execution per key: once a request holds the reservation of a store key, or its
  response is stored there, every other request with that key is answered from the record until
  it expires, in every interleaving of the other requests that does not overflow the map: it is
  refused when its fingerprint differs (422) or the first is still running (409), it gets the
  stored response otherwise, and the handler does not run for it.
\<close>

theorem executes_once:
  assumes "ireach sha c w" and "map_of (imap (istore w)) k = Some rec" and "token rec = Some t"
    and "others_run sha c t (expiresAt rec) w w'" and "identify sha c q = Keyed k fp" and "now < expiresAt rec"
  shows "fst (begin_with reserve sha c q r now (istore w')) = answer_existing c fp rec
    \<and> (\<forall>k' fp'. answer_existing c fp rec \<noteq> Execute k' fp')"
proof -
  from others_keep [OF assms(4,2,3) refl] have "map_of (imap (istore w')) k = Some rec" .
  with assms(6) have "live_record k now (istore w') = Some rec" by (simp add: live_record_def)
  moreover have "mem_inv (istore w')"
    using others_reach [OF assms(4) ireach_inv [OF assms(1)]] by (simp add: idem_inv_def)
  ultimately show ?thesis
    using memory_idem.repeat_answered [OF _ assms(5)]
    by (auto simp: answer_existing_def split: option.splits)
qed


lemma foldl_header_set:
  "wf_assoc (acc @ hs) \<Longrightarrow> \<forall>(n, v) \<in> set hs. to_lower n = n \<Longrightarrow> foldl header_set acc hs = acc @ hs"
proof (induction hs arbitrary: acc)
  case (Cons h hs)
  obtain n v where h: "h = (n, v)" by (cases h)
  have "n \<notin> keys acc" using Cons.prems(1) by (auto simp: h)
  with Cons.prems(2) have "header_set acc h = acc @ [h]" by (simp add: header_set_def h update_fresh)
  with Cons show ?case by simp
qed simp

lemma map_of_filter_keys: "map_of (filter replayable m) n = (if to_lower n \<in> set never_replayed then None else map_of m n)"
  by (induction m) (auto simp: replayable_def)

text \<open>
  A replay is faithful: the stored form of a response, replayed, has its status and its body
  byte for byte, and every header of the original except the connection- and caller-specific
  ones (no \<open>Set-Cookie\<close> ever), plus the replay marker.
\<close>

lemma replay_faithful:
  assumes "captureResponse mx res = Some st" and "\<forall>b \<in> set (hr_body res). b < 256"
    and "wf_assoc (hr_headers res)" and "\<forall>(n, v) \<in> set (hr_headers res). to_lower n = n"
  shows "\<exists>rep. buildReplayResponse st rh = Some rep \<and> hr_status rep = hr_status res \<and> hr_body rep = hr_body res
    \<and> (\<forall>n. map_of (hr_headers rep) n =
        (if n = to_lower rh then Some (js ''true'')
         else if to_lower n \<in> set never_replayed then None else map_of (hr_headers res) n))"
proof -
  from assms(1) have st: "st = \<lparr> sr_status = hr_status res, sr_headers = filter replayable (hr_headers res),
      sr_body = (if hr_body res = [] then [] else bytesToBase64 (hr_body res)) \<rparr>"
    by (auto simp: captureResponse_def split: if_splits)
  let ?hs = "filter replayable (hr_headers res)"
  from atob_btoa [OF assms(2)] obtain t where t: "btoa (hr_body res) = Some t" "atob t = Some (hr_body res)" by blast
  have "t \<noteq> []" if "hr_body res \<noteq> []"
  proof
    assume "t = []"
    with t(2) have "hr_body res = []" by (simp add: atob_def strip_pad_def suffix_def)
    with that show False by simp
  qed
  with t have b: "(if sr_body st = [] then Some [] else atob (sr_body st)) = Some (hr_body res)"
    by (auto simp: st bytesToBase64_def)
  have wf: "wf_assoc ?hs" using assms(3) by (simp add: distinct_map_filter)
  have f: "foldl header_set [] (filter replayable ?hs) = ?hs"
    using foldl_header_set [of "[]" ?hs] wf assms(4) by simp
  have "map_of (header_set ?hs (rh, js ''true'')) n =
        (if n = to_lower rh then Some (js ''true'')
         else if to_lower n \<in> set never_replayed then None else map_of (hr_headers res) n)" for n
    by (simp add: header_set_def update_conv' map_of_filter_keys)
  moreover have "sr_headers st = ?hs" "sr_status st = hr_status res" by (simp_all add: st)
  ultimately show ?thesis using b f by (simp add: buildReplayResponse_def Let_def)
qed

lemma newline_split:
  assumes "(10 :: nat) \<notin> set a" "10 \<notin> set a'" "a @ 10 # x = a' @ 10 # x'"
  shows "a = a' \<and> x = x'"
  using assms
proof (induction a arbitrary: a')
  case Nil
  then show ?case by (cases a') auto
next
  case (Cons c a)
  then show ?case by (cases a') auto
qed


text \<open>
  The default namespace is not injective: a request without any authenticated identity whose
  \<open>Authorization\<close> header reads \<open>id:\<close> followed by the identity of another caller (a client
  certificate, a signing key) shares the store keys of that caller, although for header values
  without a line break nothing else collides.
\<close>

lemma default_scope_collision:
  assumes "10 \<notin> set (case a of None \<Rightarrow> [] | Some x \<Rightarrow> x)" and "10 \<notin> set (case a' of None \<Rightarrow> [] | Some x \<Rightarrow> x)"
    and "10 \<notin> set (case i of None \<Rightarrow> [] | Some x \<Rightarrow> x)" and "10 \<notin> set (case i' of None \<Rightarrow> [] | Some x \<Rightarrow> x)"
    and "a \<noteq> Some []" and "a' \<noteq> Some []"
  shows "defaultScope a i = defaultScope a' i' \<longleftrightarrow> (a = a' \<and> i = i')
    \<or> (\<exists>x. a = Some (js ''id:'' @ x) \<and> i = None \<and> a' = None \<and> i' = Some x)
    \<or> (\<exists>x. a' = Some (js ''id:'' @ x) \<and> i' = None \<and> a = None \<and> i = Some x)"
proof -
  have sp: "x @ 10 # y = x' @ 10 # y' \<longleftrightarrow> x = x' \<and> y = y'" if "10 \<notin> set x" "10 \<notin> set x'" for x x' y y' :: jstr
    using newline_split [OF that] by blast
  have nl: "10 \<notin> set z \<Longrightarrow> z \<noteq> x @ 10 # y" "10 \<notin> set z \<Longrightarrow> x @ 10 # y \<noteq> z" for x y z :: jstr by auto
  have idn: "10 \<notin> set z \<Longrightarrow> 10 \<notin> set (js ''id:'' @ z)" for z by simp
  show ?thesis
    using assms sp nl idn
    by (cases a; cases a'; cases i; cases i') (auto simp: defaultScope_def Let_def)
qed

section \<open>A run\<close>

definition cfg0 :: idem_cfg where
  "cfg0 = \<lparr> c_ttlMs = 86400000, c_maxKeyLength = 255, c_maxResponseBytes = 1048576, c_maxBodyBytes = 1048576,
     c_fingerprintCap = 1048576, c_replayHeader = js ''idempotency-replayed'', c_methods = [js ''POST''],
     c_requireKey = False, c_allowUnscoped = False, c_cacheable = (\<lambda>st. st < 500), c_keyPrefix = [], c_customScope = False \<rparr>"

definition post :: "json \<Rightarrow> idem_request" where
  "post v = \<lparr> q_method = js ''post'', q_key = Some (js ''k1''), q_url = js ''http://h/a'', q_body = ParsedBody v,
     q_declared = None, q_routeLimit = None, q_contentType = None, q_authorization = Some (js ''Bearer x''), q_identity = None,
     q_cookie = False, q_scope = None, q_tenant = None, q_requiredScopes = None, q_ownedScopes = None \<rparr>"

definition empty_world :: iworld where
  "empty_world = \<lparr> istore = \<lparr> imap = [], maxEntries = 10 \<rparr>, iphase = (\<lambda>_. NotBegun) \<rparr>"

lemma post_identified: "identify (\<lambda>_. []) cfg0 (post v) = Keyed (js ''t=|s=|k=k1'') []"
  by (simp add: identify_def post_def cfg0_def hasReplayScopes_def to_upper_def upper_unit_def js_trim_def is_js_space_def
      validateKey_def computeFingerprint_def fingerprint_material_def bodyMaterial_def sha256Hex_def scope_of_def
      defaultScope_def falsy_def storeKey_def Let_def)

definition running_world :: iworld where
  "running_world = enter 1 (Pending (js ''t=|s=|k=k1'') [])
     \<lparr> imap = [(js ''t=|s=|k=k1'', in_flight [] 0 86400000 1)], maxEntries = 10 \<rparr> empty_world"

lemma running_reach: "ireach (\<lambda>_. []) cfg0 running_world"
proof (rule ireach.step [OF ireach.start])
  show "new_idem_store 10 = Some (istore empty_world)" by (simp add: new_idem_store_def empty_world_def)
  have "c_ttlMs cfg0 = 86400000" by (simp add: cfg0_def)
  then show "istep (\<lambda>_. []) cfg0 (Begin 1 (post JNull) 0) \<lparr> istore = istore empty_world, iphase = (\<lambda>_. NotBegun) \<rparr> = Some running_world"
    by (simp add: istep_def begin_with_def post_identified reserve_def read_live_def Let_def empty_world_def running_world_def enter_def)
qed

lemma running_record: "map_of (imap (istore running_world)) (js ''t=|s=|k=k1'') = Some (in_flight [] 0 86400000 1)"
  "token (in_flight [] 0 86400000 1) = Some 1" "expiresAt (in_flight [] 0 86400000 1) = 86400000"
  by (simp_all add: running_world_def in_flight_def)

theorem executes_once_witness:
  "fst (begin_with reserve (\<lambda>_. []) cfg0 (post JNull) 2 5 (istore running_world)) = Failed StillProcessing"
proof -
  have "answer_existing cfg0 [] (in_flight [] 0 86400000 1) = Failed StillProcessing"
    by (simp add: answer_existing_def in_flight_def)
  with executes_once [OF running_reach running_record(1,2) others_run.none post_identified, of 5 JNull 2] running_record(3)
  show ?thesis by simp
qed


definition sample_response :: http_response where
  "sample_response = \<lparr> hr_status = 201, hr_headers = [(js ''x'', js ''1''), (js ''set-cookie'', js ''s'')],
     hr_body = [104, 105, 255], hr_disconnect = False \<rparr>"

lemma replay_faithful_example:
  "\<exists>st rep. captureResponse 100 sample_response = Some st \<and> buildReplayResponse st (js ''r'') = Some rep
     \<and> hr_body rep = [104, 105, 255] \<and> map_of (hr_headers rep) (js ''set-cookie'') = None
     \<and> map_of (hr_headers rep) (js ''x'') = Some (js ''1'')"
proof -
  obtain st where st: "captureResponse 100 sample_response = Some st"
    by (simp add: captureResponse_def sample_response_def)
  have "\<forall>b \<in> set (hr_body sample_response). b < 256" "wf_assoc (hr_headers sample_response)"
    "\<forall>(n, v) \<in> set (hr_headers sample_response). to_lower n = n"
    by (simp_all add: sample_response_def to_lower_def lower_unit_def)
  from replay_faithful [OF st this, of "js ''r''"] st show ?thesis
    by (auto simp: sample_response_def to_lower_def lower_unit_def never_replayed_def)
qed


lemma default_scope_collision_example:
  "defaultScope (Some (js ''id:mtls:ab'')) None = defaultScope None (Some (js ''mtls:ab''))"
  using default_scope_collision [of "Some (js ''id:mtls:ab'')" None None "Some (js ''mtls:ab'')"] by simp

end
