(* ===== verification/Cron.thy ===== *)
theory Cron
  imports JsText
begin

text \<open>
  Cron expressions of \<open>scheduler.ts\<close>: the parser of the five fields, the wall clock of an
  instant, and the search for the next matching minute.

  A \<open>Set\<close> of numbers is a list without duplicates.  UTC is the calendar of ECMA-262 over
  \<open>int\<close> milliseconds; for another time zone the wall clock (\<open>Intl.DateTimeFormat\<close>) is a
  parameter \<open>wall\<close>.
\<close>

section \<open>Numbers\<close>

text \<open>
  \<open>Number(s)\<close> where only integers are of interest: \<open>None\<close> for \<open>NaN\<close>, a fraction or an
  infinity.  The value of a decimal literal is taken exactly, where the language rounds to a
  double: they differ in integrality only for literals of more than 15 significant digits.
\<close>

definition digits_of :: "jstr \<Rightarrow> jstr \<times> jstr" where
  "digits_of s = (takeWhile is_digit s, dropWhile is_digit s)"

definition radix_digits :: "nat \<Rightarrow> jstr \<Rightarrow> nat option" where
  "radix_digits b s =
     (if s \<noteq> [] \<and> list_all (\<lambda>c. case hex_val c of None \<Rightarrow> False | Some v \<Rightarrow> v < b) s
      then Some (foldl (\<lambda>n c. n * b + the (hex_val c)) 0 s) else None)"

definition scaled :: "nat \<Rightarrow> int \<Rightarrow> nat option" where
  "scaled m e =
     (if m = 0 then Some 0
      else if 0 \<le> e then (if e < 400 \<and> int m * 10 ^ nat e < 2 ^ 1024 - 2 ^ 970 then Some (m * 10 ^ nat e) else None)
      else if m mod 10 ^ nat (- e) = 0 then Some (m div 10 ^ nat (- e)) else None)"

definition exponent_of :: "jstr \<Rightarrow> int option" where
  "exponent_of s =
     (case s of
        [] \<Rightarrow> Some 0
      | x # r \<Rightarrow>
          (if x \<noteq> 101 \<and> x \<noteq> 69 then None
           else (let sgn = (if r \<noteq> [] \<and> hd r = 45 then -1 else 1);
                     ds = (if r \<noteq> [] \<and> (hd r = 45 \<or> hd r = 43) then tl r else r)
                 in if ds \<noteq> [] \<and> list_all is_digit ds then Some (sgn * int (dec_val ds)) else None)))"

definition decimal_int :: "jstr \<Rightarrow> nat option" where
  "decimal_int s =
     (let (d1, r1) = digits_of s;
          (d2, r2) = (case r1 of c # r \<Rightarrow> if c = 46 then digits_of r else ([], r1) | [] \<Rightarrow> ([], []))
      in if d1 = [] \<and> d2 = [] then None
         else (case exponent_of r2 of None \<Rightarrow> None | Some e \<Rightarrow> scaled (dec_val (d1 @ d2)) (e - int (length d2))))"

definition js_integer :: "jstr \<Rightarrow> int option" where
  "js_integer s0 =
     (let s = js_trim s0 in
      case s of
        [] \<Rightarrow> Some 0
      | c # r \<Rightarrow>
          (if c = 48 \<and> r \<noteq> [] \<and> lower_unit (hd r) = 120 then map_option int (radix_digits 16 (tl r))
           else if c = 48 \<and> r \<noteq> [] \<and> lower_unit (hd r) = 111 then map_option int (radix_digits 8 (tl r))
           else if c = 48 \<and> r \<noteq> [] \<and> lower_unit (hd r) = 98 then map_option int (radix_digits 2 (tl r))
           else if c = 45 then map_option (\<lambda>n. - int n) (decimal_int r)
           else if c = 43 then map_option int (decimal_int r)
           else map_option int (decimal_int s)))"

section \<open>Fields\<close>

datatype cron_error = EmptySegment | InvalidStep | NonInteger | OutOfRange | UnknownAlias | WrongFieldCount
  | NoCalendarDay | Unsatisfiable

type_synonym names = "(jstr, nat) assoc"

definition month_names :: names where
  "month_names = [(js ''jan'', 1), (js ''feb'', 2), (js ''mar'', 3), (js ''apr'', 4), (js ''may'', 5), (js ''jun'', 6),
     (js ''jul'', 7), (js ''aug'', 8), (js ''sep'', 9), (js ''oct'', 10), (js ''nov'', 11), (js ''dec'', 12)]"

definition day_names :: names where
  "day_names = [(js ''sun'', 0), (js ''mon'', 1), (js ''tue'', 2), (js ''wed'', 3), (js ''thu'', 4), (js ''fri'', 5), (js ''sat'', 6)]"

text \<open>
  \<open>resolveNamed\<close> followed by \<open>Number\<close>.  (The \<open>in\<close> test also sees inherited properties such
  as \<open>constructor\<close>; their text is not a number, and neither is the token itself.)
\<close>

definition field_number :: "names option \<Rightarrow> jstr \<Rightarrow> int option" where
  "field_number ns tok =
     (case ns of
        None \<Rightarrow> js_integer tok
      | Some m \<Rightarrow> (case map_of m (to_lower tok) of Some n \<Rightarrow> Some (int n) | None \<Rightarrow> js_integer tok))"

text \<open>The loop \<open>for (v = lo; v <= hi; v += step)\<close>.\<close>

function step_values :: "int \<Rightarrow> int \<Rightarrow> int \<Rightarrow> int list" where
  "step_values lo hi step = (if hi < lo \<or> step \<le> 0 then [] else lo # step_values (lo + step) hi step)"
  by pat_completeness auto
termination by (relation "measure (\<lambda>(lo, hi, step). nat (hi + 1 - lo))") auto

declare step_values.simps [simp del]

definition parse_step :: "jstr list \<Rightarrow> cron_error + int" where
  "parse_step pieces =
     (case pieces of
        _ # stepPart # _ \<Rightarrow>
          (case js_integer stepPart of None \<Rightarrow> Inl InvalidStep | Some n \<Rightarrow> if n \<le> 0 then Inl InvalidStep else Inr n)
      | _ \<Rightarrow> Inr 1)"

definition parse_range :: "jstr \<Rightarrow> int \<Rightarrow> int \<Rightarrow> names option \<Rightarrow> (int \<times> int) option" where
  "parse_range rangePart mn mx ns =
     (if rangePart = [42] then Some (mn, mx)
      else if 45 \<in> set rangePart then
        (case split_on 45 rangePart of
           a # b # _ \<Rightarrow> (case (field_number ns a, field_number ns b) of (Some lo, Some hi) \<Rightarrow> Some (lo, hi) | _ \<Rightarrow> None)
         | _ \<Rightarrow> None)
      else (case field_number ns rangePart of Some n \<Rightarrow> Some (n, n) | None \<Rightarrow> None))"

definition parse_part :: "jstr \<Rightarrow> int \<Rightarrow> int \<Rightarrow> names option \<Rightarrow> cron_error + int list" where
  "parse_part part mn mx ns =
     (if part = [] then Inl EmptySegment
      else (let pieces = split_on 47 part in
            case parse_step pieces of
              Inl e \<Rightarrow> Inl e
            | Inr step \<Rightarrow>
                (case parse_range (hd pieces) mn mx ns of
                   None \<Rightarrow> Inl NonInteger
                 | Some (lo, hi) \<Rightarrow>
                     (if lo < mn \<or> mx < hi \<or> hi < lo then Inl OutOfRange else Inr (step_values lo hi step)))))"

fun parse_parts :: "jstr list \<Rightarrow> int \<Rightarrow> int \<Rightarrow> names option \<Rightarrow> int list \<Rightarrow> cron_error + int list" where
  "parse_parts [] mn mx ns out = Inr out"
| "parse_parts (p # ps) mn mx ns out =
     (case parse_part p mn mx ns of Inl e \<Rightarrow> Inl e | Inr vs \<Rightarrow> parse_parts ps mn mx ns (fold List.insert vs out))"

definition parseField :: "jstr \<Rightarrow> int \<Rightarrow> int \<Rightarrow> names option \<Rightarrow> cron_error + int list" where
  "parseField field mn mx ns = parse_parts (split_on 44 field) mn mx ns []"

section \<open>Expressions\<close>

record cron_fields =
  minute :: "int list"
  hour :: "int list"
  dayOfMonth :: "int list"
  month :: "int list"
  dayOfWeek :: "int list"
  domRestricted :: bool
  dowRestricted :: bool

definition cron_aliases :: "(jstr, jstr) assoc" where
  "cron_aliases = [(js ''@yearly'', js ''0 0 1 1 *''), (js ''@annually'', js ''0 0 1 1 *''), (js ''@monthly'', js ''0 0 1 * *''),
     (js ''@weekly'', js ''0 0 * * 0''), (js ''@daily'', js ''0 0 * * *''), (js ''@midnight'', js ''0 0 * * *''),
     (js ''@hourly'', js ''0 * * * *'')]"

text \<open>\<open>split(/\\s+/)\<close>: the maximal runs of white space separate.\<close>

fun split_ws :: "bool \<Rightarrow> jstr \<Rightarrow> jstr list" where
  "split_ws sep [] = [[]]"
| "split_ws sep (c # s) =
     (if is_js_space c then (if sep then split_ws True s else [] # split_ws True s)
      else (case split_ws False s of [] \<Rightarrow> [[c]] | p # ps \<Rightarrow> (c # p) # ps))"

definition sunday_alias :: "int list \<Rightarrow> int list" where
  "sunday_alias dow = (if 7 \<in> set dow then List.insert 0 (removeAll 7 dow) else dow)"

definition parse_fields :: "jstr \<Rightarrow> jstr \<Rightarrow> jstr \<Rightarrow> jstr \<Rightarrow> jstr \<Rightarrow> cron_error + cron_fields" where
  "parse_fields mi hr dm mon dow =
     (case parseField mi 0 59 None of Inl e \<Rightarrow> Inl e | Inr fmin \<Rightarrow>
      case parseField hr 0 23 None of Inl e \<Rightarrow> Inl e | Inr fhr \<Rightarrow>
      case parseField dm 1 31 None of Inl e \<Rightarrow> Inl e | Inr fdom \<Rightarrow>
      case parseField mon 1 12 (Some month_names) of Inl e \<Rightarrow> Inl e | Inr fmon \<Rightarrow>
      case parseField dow 0 7 (Some day_names) of Inl e \<Rightarrow> Inl e | Inr fdow \<Rightarrow>
        Inr \<lparr> minute = fmin, hour = fhr, dayOfMonth = fdom, month = fmon, dayOfWeek = sunday_alias fdow,
              domRestricted = (dm \<noteq> [42]), dowRestricted = (dow \<noteq> [42]) \<rparr>)"

definition parseCron :: "jstr \<Rightarrow> cron_error + cron_fields" where
  "parseCron expression =
     (let trimmed = js_trim expression;
          expanded = (if trimmed \<noteq> [] \<and> hd trimmed = 64 then map_of cron_aliases (to_lower trimmed) else Some trimmed)
      in case expanded of
           None \<Rightarrow> Inl UnknownAlias
         | Some ex \<Rightarrow> (case split_ws False ex of
               [mi, hr, dm, mon, dow] \<Rightarrow> parse_fields mi hr dm mon dow
             | _ \<Rightarrow> Inl WrongFieldCount))"

section \<open>The wall clock\<close>

record wall_clock =
  wc_minute :: int
  wc_hour :: int
  wc_dayOfMonth :: int
  wc_month :: int
  wc_dayOfWeek :: int

text \<open>Day numbers of ECMA-262 (days since 1970-01-01).\<close>

definition day_from_year :: "int \<Rightarrow> int" where
  "day_from_year y = 365 * (y - 1970) + (y - 1969) div 4 - (y - 1901) div 100 + (y - 1601) div 400"

definition leap_year :: "int \<Rightarrow> bool" where
  "leap_year y \<longleftrightarrow> y mod 4 = 0 \<and> (y mod 100 \<noteq> 0 \<or> y mod 400 = 0)"

definition year_of_day :: "int \<Rightarrow> int" where
  "year_of_day d =
     (let y = 400 * d div 146097 + 1970 in
      if d < day_from_year y then y - 1 else if day_from_year (y + 1) \<le> d then y + 1 else y)"

definition month_lengths :: "bool \<Rightarrow> int list" where
  "month_lengths leap = [31, if leap then 29 else 28, 31, 30, 31, 30, 31, 31, 30, 31, 30, 31]"

fun month_day :: "int list \<Rightarrow> int \<Rightarrow> int \<Rightarrow> int \<times> int" where
  "month_day [] m n = (m, n + 1)"
| "month_day (l # ls) m n = (if n < l then (m, n + 1) else month_day ls (m + 1) (n - l))"

definition utc_wall :: "int \<Rightarrow> wall_clock" where
  "utc_wall t =
     (let d = t div 86400000; y = year_of_day d;
          (m, dd) = month_day (month_lengths (leap_year y)) 1 (d - day_from_year y)
      in \<lparr> wc_minute = t div 60000 mod 60, wc_hour = t div 3600000 mod 24, wc_dayOfMonth = dd, wc_month = m,
           wc_dayOfWeek = (4 + d) mod 7 \<rparr>)"

section \<open>The search\<close>

definition cron_matches :: "cron_fields \<Rightarrow> wall_clock \<Rightarrow> bool" where
  "cron_matches f wc =
     (if wc_minute wc \<notin> set (minute f) then False
      else if wc_hour wc \<notin> set (hour f) then False
      else if wc_month wc \<notin> set (month f) then False
      else (let domOk = wc_dayOfMonth wc \<in> set (dayOfMonth f); dowOk = wc_dayOfWeek wc \<in> set (dayOfWeek f) in
            if domRestricted f \<and> dowRestricted f then domOk \<or> dowOk
            else if domRestricted f then domOk
            else if dowRestricted f then dowOk else True))"

definition max_lookahead :: nat where
  "max_lookahead = 5 * 366 * 24 * 60"

definition max_day :: "int \<Rightarrow> int" where
  "max_day m = month_lengths True ! nat (m - 1)"

definition calendar_possible :: "cron_fields \<Rightarrow> bool" where
  "calendar_possible f \<longleftrightarrow> list_ex (\<lambda>m. list_ex (\<lambda>d. d \<le> max_day m) (dayOfMonth f)) (month f)"

fun first_match :: "cron_fields \<Rightarrow> (int \<Rightarrow> wall_clock) \<Rightarrow> int \<Rightarrow> nat \<Rightarrow> int option" where
  "first_match f wall c 0 = None"
| "first_match f wall c (Suc n) = (if cron_matches f (wall c) then Some c else first_match f wall (c + 60000) n)"

definition nextCronRun :: "cron_fields \<Rightarrow> int \<Rightarrow> (int \<Rightarrow> wall_clock) \<Rightarrow> cron_error + int" where
  "nextCronRun f after wall =
     (if domRestricted f \<and> \<not> dowRestricted f \<and> \<not> calendar_possible f then Inl NoCalendarDay
      else (case first_match f wall (after div 60000 * 60000 + 60000) max_lookahead of
          Some t \<Rightarrow> Inr t
        | None \<Rightarrow> Inl Unsatisfiable))"

section \<open>Parsed fields are in range\<close>

lemma step_values_range: "v \<in> set (step_values lo hi step) \<Longrightarrow> lo \<le> v \<and> v \<le> hi"
  by (induction lo hi step rule: step_values.induct) (subst (asm) step_values.simps, auto split: if_splits)

lemma step_values_nonempty: "lo \<le> hi \<Longrightarrow> 0 < step \<Longrightarrow> lo \<in> set (step_values lo hi step)"
  by (subst step_values.simps) simp

lemma step_values_spec:
  "0 < step \<Longrightarrow> v \<in> set (step_values lo hi step) \<longleftrightarrow> lo \<le> v \<and> v \<le> hi \<and> (v - lo) mod step = 0"
proof (induction lo hi step rule: step_values.induct)
  case (1 lo hi step)
  show ?case
  proof (cases "hi < lo")
    case True
    then show ?thesis by (subst step_values.simps) auto
  next
    case False
    have m: "(v - (lo + step)) mod step = (v - lo) mod step" by (metis diff_diff_add minus_mod_self2)
    have "0 < v - lo \<and> (v - lo) mod step = 0 \<Longrightarrow> step \<le> v - lo" by (metis mod_pos_pos_trivial not_le less_le)
    with 1 False m show ?thesis by (subst step_values.simps) auto
  qed
qed

lemma parse_part_range:
  assumes "parse_part p mn mx ns = Inr vs"
  shows "vs \<noteq> [] \<and> (\<forall>v \<in> set vs. mn \<le> v \<and> v \<le> mx)"
proof -
  from assms obtain step lo hi where *: "parse_step (split_on 47 p) = Inr step" "\<not> (lo < mn \<or> mx < hi \<or> hi < lo)"
    "vs = step_values lo hi step"
    by (auto simp: parse_part_def Let_def split: if_splits sum.splits option.splits)
  from *(1) have "0 < step" by (auto simp: parse_step_def split: list.splits option.splits if_splits)
  with * step_values_nonempty [of lo hi step] show ?thesis by (auto dest: step_values_range)
qed

lemma parse_parts_range:
  assumes "parse_parts ps mn mx ns out = Inr vs" "\<forall>v \<in> set out. mn \<le> v \<and> v \<le> mx" "ps \<noteq> [] \<or> out \<noteq> []"
  shows "vs \<noteq> [] \<and> (\<forall>v \<in> set vs. mn \<le> v \<and> v \<le> mx)"
  using assms
proof (induction ps arbitrary: out)
  case (Cons p ps)
  from Cons.prems(1) obtain us where us: "parse_part p mn mx ns = Inr us"
      "parse_parts ps mn mx ns (fold List.insert us out) = Inr vs"
    by (cases "parse_part p mn mx ns") simp_all
  have fs: "set (fold List.insert us out) = set us \<union> set out" for us out :: "int list"
    by (induction us arbitrary: out) auto
  from parse_part_range [OF us(1)] Cons.prems(2) have "\<forall>v \<in> set (fold List.insert us out). mn \<le> v \<and> v \<le> mx"
    by (auto simp: fs)
  moreover have "set (fold List.insert us out) \<noteq> {}" using parse_part_range [OF us(1)] by (simp add: fs)
  then have "fold List.insert us out \<noteq> []" by (metis set_empty)
  ultimately show ?case using Cons.IH [OF us(2)] by simp
qed simp

lemma parseField_range: "parseField s mn mx ns = Inr vs \<Longrightarrow> vs \<noteq> [] \<and> set vs \<subseteq> {mn..mx}"
  using parse_parts_range [of "split_on 44 s" mn mx ns "[]" vs] by (auto simp: parseField_def)

lemma sunday_alias_range: "xs \<noteq> [] \<and> set xs \<subseteq> {0..7} \<Longrightarrow> sunday_alias xs \<noteq> [] \<and> set (sunday_alias xs) \<subseteq> {0..6}"
proof -
  assume a: "xs \<noteq> [] \<and> set xs \<subseteq> {0..7}"
  have "x \<in> {0..6}" if "x \<in> {0..7}" "x \<noteq> 7" for x :: int using that by auto
  with a have b: "\<forall>x \<in> set xs - {7}. x \<in> {0..6}" by blast
  show ?thesis
  proof (cases "7 \<in> set xs")
    case True
    then have "set (sunday_alias xs) = insert 0 (set xs - {7})" by (simp add: sunday_alias_def)
    moreover from this have "sunday_alias xs \<noteq> []" by force
    ultimately show ?thesis using b by auto
  next
    case False
    with a b show ?thesis by (auto simp: sunday_alias_def)
  qed
qed

section \<open>The calendar\<close>

lemma div_succ: "(a + 1) div n = a div n + (if (a + 1) mod n = 0 then 1 else 0)" if "0 < n" for a n :: int
proof -
  define q r where "q = a div n" "r = a mod n"
  have a: "a = n * q + r" "0 \<le> r" "r < n" using that by (simp_all add: q_r_def)
  show ?thesis
  proof (cases "r + 1 = n")
    case True
    then have "a + 1 = n * (q + 1)" using a(1) by (simp add: algebra_simps)
    then show ?thesis using that by (simp add: q_r_def)
  next
    case False
    have e: "a + 1 = n * q + (r + 1)" using a(1) by simp
    have "(r + 1) div n = 0" "(r + 1) mod n = r + 1" using a(2,3) False by simp_all
    then have "(a + 1) div n = q" "(a + 1) mod n = r + 1" using that unfolding e by simp_all
    then show ?thesis using a(2) q_r_def(1) by simp
  qed
qed

lemma day_from_year_next: "day_from_year (y + 1) = day_from_year y + (if leap_year y then 366 else 365)"
proof -
  have "y - 1969 + 1 = y + (- 492) * 4" "y - 1901 + 1 = y + (- 19) * 100" "y - 1601 + 1 = y + (- 4) * 400" by simp_all
  then have m: "(y - 1969 + 1) mod 4 = y mod 4" "(y - 1901 + 1) mod 100 = y mod 100" "(y - 1601 + 1) mod 400 = y mod 400"
    by (metis mod_mult_self1)+
  have "(400 :: int) = 100 * 4" "(100 :: int) = 4 * 25" by simp_all
  then have d: "y mod 400 = 0 \<Longrightarrow> y mod 100 = 0" "y mod 100 = 0 \<Longrightarrow> y mod 4 = 0"
    unfolding mod_eq_0_iff_dvd by (metis dvd_mult_left)+
  define p q r where "p = (y - 1969) div 4" "q = (y - 1901) div 100" "r = (y - 1601) div 400"
  have e: "y + 1 - 1969 = y - 1969 + 1" "y + 1 - 1901 = y - 1901 + 1" "y + 1 - 1601 = y - 1601 + 1" by simp_all
  have "(y + 1 - 1969) div 4 = p + (if y mod 4 = 0 then 1 else 0)"
    unfolding e(1) p_q_r_def m(1) [symmetric] by (rule div_succ) simp
  moreover have "(y + 1 - 1901) div 100 = q + (if y mod 100 = 0 then 1 else 0)"
    unfolding e(2) p_q_r_def m(2) [symmetric] by (rule div_succ) simp
  moreover have "(y + 1 - 1601) div 400 = r + (if y mod 400 = 0 then 1 else 0)"
    unfolding e(3) p_q_r_def m(3) [symmetric] by (rule div_succ) simp
  ultimately have "day_from_year (y + 1) = 365 * (y + 1 - 1970) + (p + (if y mod 4 = 0 then 1 else 0))
      - (q + (if y mod 100 = 0 then 1 else 0)) + (r + (if y mod 400 = 0 then 1 else 0))"
    unfolding day_from_year_def by (simp only:)
  moreover have "day_from_year y = 365 * (y - 1970) + p - q + r" by (simp add: day_from_year_def p_q_r_def)
  ultimately have *: "day_from_year (y + 1) - day_from_year y = 365 + (if y mod 4 = 0 then 1 else 0)
      - (if y mod 100 = 0 then 1 else 0) + (if y mod 400 = 0 then 1 else 0)" by (simp only:) simp
  show ?thesis
  proof (cases "y mod 100 = 0")
    case True
    then have "y mod 4 = 0" by (rule d(2))
    with * True show ?thesis by (simp only: leap_year_def if_True simp_thms) (simp split: if_splits)
  next
    case False
    then have "y mod 400 \<noteq> 0" using d(1) by argo
    with * False show ?thesis by (simp only: leap_year_def if_False simp_thms) (simp split: if_splits)
  qed
qed

lemma bounds_arith:
  fixes y p q r :: int
  assumes "4 * p \<le> y - 1969" "y - 1969 < 4 * p + 4" "100 * q \<le> y - 1901" "y - 1901 < 100 * q + 100"
    "400 * r \<le> y - 1601" "y - 1601 < 400 * r + 400"
  shows "400 * (365 * (y - 1970) + p - q + r) \<le> 146097 * (y - 1970) + 600"
    "146097 * (y - 1970) - 600 \<le> 400 * (365 * (y - 1970) + p - q + r)"
  using assms by (simp_all add: algebra_simps)

lemma div_bounds: "0 < n \<Longrightarrow> n * (a div n) \<le> a \<and> a < n * (a div n) + n" for a n :: int
  proof -
  assume n: "0 < n"
  define q r where "q = a div n" "r = a mod n"
  have "a = n * q + r" "0 \<le> r" "r < n" using n by (simp_all add: q_r_def)
  then show ?thesis unfolding q_r_def(1) [symmetric] by simp
qed

lemma day_from_year_bounds:
  "400 * day_from_year y \<le> 146097 * (y - 1970) + 600" "146097 * (y - 1970) - 600 \<le> 400 * day_from_year y"
proof -
  show "400 * day_from_year y \<le> 146097 * (y - 1970) + 600" "146097 * (y - 1970) - 600 \<le> 400 * day_from_year y"
    unfolding day_from_year_def
    using bounds_arith div_bounds [of 4 "y - 1969"] div_bounds [of 100 "y - 1901"] div_bounds [of 400 "y - 1601"] by simp_all
qed

text \<open>\<open>YearFromTime\<close>: the year that contains the day.\<close>

lemma year_of_day: "day_from_year (year_of_day d) \<le> d \<and> d < day_from_year (year_of_day d + 1)"
proof -
  define k where "k = 400 * d div 146097"
  have k: "146097 * k \<le> 400 * d" "400 * d < 146097 * k + 146097"
    using div_bounds [of 146097 "400 * d"] unfolding k_def by simp_all
  have lo: "day_from_year (k + 1969) \<le> d" using day_from_year_bounds(1) [of "k + 1969"] k by simp
  have hi: "d < day_from_year (k + 1972)" using day_from_year_bounds(2) [of "k + 1972"] k by simp
  from lo hi show ?thesis unfolding year_of_day_def Let_def k_def [symmetric] by (simp add: algebra_simps)
qed

lemma day_from_year_mono: "y \<le> z \<Longrightarrow> day_from_year y \<le> day_from_year z"
  by (induction z rule: int_ge_induct) (auto simp: day_from_year_next)

lemma year_unique: "day_from_year y \<le> d \<Longrightarrow> d < day_from_year (y + 1) \<Longrightarrow> year_of_day d = y"
  using year_of_day [of d] day_from_year_mono [of "y + 1" "year_of_day d"] day_from_year_mono [of "year_of_day d + 1" y]
  by linarith

text \<open>The scan of a year yields a month of the year and a day of that month.\<close>

lemma month_day_range:
  assumes "0 \<le> n" "n < sum_list ls" "\<forall>l \<in> set ls. 0 < l"
  shows "\<exists>i < length ls. month_day ls m n = (m + int i, snd (month_day ls m n)) \<and> 1 \<le> snd (month_day ls m n)
    \<and> snd (month_day ls m n) \<le> ls ! i"
  using assms
proof (induction ls arbitrary: m n)
  case (Cons l ls)
  show ?case
  proof (cases "n < l")
    case True
    with Cons.prems show ?thesis by (intro exI [of _ 0]) simp
  next
    case False
    with Cons.prems have "0 \<le> n - l" "n - l < sum_list ls" "\<forall>l \<in> set ls. 0 < l" by simp_all
    from Cons.IH [OF this, of "m + 1"] obtain i where "i < length ls" "month_day ls (m + 1) (n - l) = (m + 1 + int i, snd (month_day ls (m + 1) (n - l)))"
      "1 \<le> snd (month_day ls (m + 1) (n - l))" "snd (month_day ls (m + 1) (n - l)) \<le> ls ! i"
      by blast
    with False show ?thesis by (intro exI [of _ "Suc i"]) (simp add: add.assoc)
  qed
qed simp

lemma utc_day_range:
  "wc_month (utc_wall t) \<in> {1..12} \<and> 1 \<le> wc_dayOfMonth (utc_wall t) \<and> wc_dayOfMonth (utc_wall t) \<le> max_day (wc_month (utc_wall t))"
proof -
  define d y where "d = t div 86400000" "y = year_of_day d"
  have b: "day_from_year y \<le> d" "d < day_from_year y + (if leap_year y then 366 else 365)"
    using year_of_day [of d] by (simp_all add: d_y_def day_from_year_next)
  let ?ls = "month_lengths (leap_year y)"
  have "0 \<le> d - day_from_year y" "d - day_from_year y < sum_list ?ls" "\<forall>l \<in> set ?ls. 0 < l"
    using b by (auto simp: month_lengths_def split: if_splits)
  from month_day_range [OF this, of 1] obtain i where i: "i < length ?ls"
    "month_day ?ls 1 (d - day_from_year y) = (1 + int i, snd (month_day ?ls 1 (d - day_from_year y)))"
    "1 \<le> snd (month_day ?ls 1 (d - day_from_year y))" "snd (month_day ?ls 1 (d - day_from_year y)) \<le> ?ls ! i" by blast
  then have w: "wc_month (utc_wall t) = 1 + int i" "wc_dayOfMonth (utc_wall t) = snd (month_day ?ls 1 (d - day_from_year y))"
    by (simp_all add: utc_wall_def d_y_def [symmetric] Let_def case_prod_beta) (metis fst_conv)
  have "length ?ls = 12" by (simp add: month_lengths_def)
  with i(1) have "i < 12" by simp
  moreover from this have "?ls ! i \<le> month_lengths True ! i" by (simp add: month_lengths_def nth_Cons')
  ultimately show ?thesis using w i by (simp add: max_day_def)
qed

section \<open>The search finds the first match\<close>

text \<open>A whole minute strictly after \<open>after\<close>, within the lookahead.\<close>

definition candidate :: "int \<Rightarrow> int \<Rightarrow> bool" where
  "candidate after t \<longleftrightarrow> t mod 60000 = 0 \<and> after < t \<and> t \<le> after div 60000 * 60000 + int max_lookahead * 60000"

lemma first_match_Some:
  "first_match f wall c n = Some t \<longleftrightarrow>
     (\<exists>i < n. t = c + int i * 60000 \<and> cron_matches f (wall t) \<and> (\<forall>j < i. \<not> cron_matches f (wall (c + int j * 60000))))"
proof (induction n arbitrary: c)
  case (Suc n)
  show ?case
  proof (cases "cron_matches f (wall c)")
    case True
    then have "first_match f wall c (Suc n) = Some t \<longleftrightarrow> t = c" by auto
    also have "\<dots> \<longleftrightarrow> (\<exists>i < Suc n. t = c + int i * 60000 \<and> cron_matches f (wall t)
        \<and> (\<forall>j < i. \<not> cron_matches f (wall (c + int j * 60000))))"
    proof
      assume "t = c"
      with True show "\<exists>i < Suc n. t = c + int i * 60000 \<and> cron_matches f (wall t)
        \<and> (\<forall>j < i. \<not> cron_matches f (wall (c + int j * 60000)))" by (intro exI [of _ 0]) simp
    next
      assume "\<exists>i < Suc n. t = c + int i * 60000 \<and> cron_matches f (wall t)
        \<and> (\<forall>j < i. \<not> cron_matches f (wall (c + int j * 60000)))"
      then obtain i where i: "t = c + int i * 60000" "\<forall>j < i. \<not> cron_matches f (wall (c + int j * 60000))" by blast
      have "\<not> 0 < i"
      proof
        assume "0 < i"
        with i(2) have "\<not> cron_matches f (wall (c + int 0 * 60000))" by blast
        with True show False by simp
      qed
      with i(1) show "t = c" by simp
    qed
    finally show ?thesis .
  next
    case False
    have *: "c + 60000 + int i * 60000 = c + int (Suc i) * 60000" for i by (simp add: algebra_simps)
    show ?thesis
    proof
      assume "first_match f wall c (Suc n) = Some t"
      with False Suc obtain i where i: "i < n" "t = c + 60000 + int i * 60000" "cron_matches f (wall t)"
        "\<forall>j < i. \<not> cron_matches f (wall (c + 60000 + int j * 60000))" by auto
      have "\<not> cron_matches f (wall (c + int j * 60000))" if "j < Suc i" for j
        using that False i(4) * by (cases j) auto
      with i * show "\<exists>i < Suc n. t = c + int i * 60000 \<and> cron_matches f (wall t) \<and> (\<forall>j < i. \<not> cron_matches f (wall (c + int j * 60000)))"
        by (metis Suc_mono)
    next
      assume "\<exists>i < Suc n. t = c + int i * 60000 \<and> cron_matches f (wall t) \<and> (\<forall>j < i. \<not> cron_matches f (wall (c + int j * 60000)))"
      then obtain i where i: "i < Suc n" "t = c + int i * 60000" "cron_matches f (wall t)"
        "\<forall>j < i. \<not> cron_matches f (wall (c + int j * 60000))" by blast
      with False obtain k where k: "i = Suc k" by (cases i) auto
      with i * have "k < n \<and> t = c + 60000 + int k * 60000 \<and> cron_matches f (wall t)
          \<and> (\<forall>j < k. \<not> cron_matches f (wall (c + 60000 + int j * 60000)))" by (metis Suc_less_eq)
      with False Suc show "first_match f wall c (Suc n) = Some t" by auto
    qed
  qed
qed simp

lemma first_match_None:
  "first_match f wall c n = None \<longleftrightarrow> (\<forall>i < n. \<not> cron_matches f (wall (c + int i * 60000)))"
proof (induction n arbitrary: c)
  case (Suc n)
  have *: "c + 60000 + int i * 60000 = c + int (Suc i) * 60000" for i by (simp add: algebra_simps)
  show ?case by (auto simp: Suc * All_less_Suc2 simp del: of_nat_Suc)
qed simp

lemma candidate_index:
  "candidate after t \<longleftrightarrow> (\<exists>i < max_lookahead. t = after div 60000 * 60000 + 60000 + int i * 60000)"
proof
  assume c: "candidate after t"
  define q where "q = t div 60000"
  have t: "t = q * 60000" using c by (auto simp: candidate_def q_def)
  define p where "p = after div 60000"
  have p: "p * 60000 \<le> after" "after < p * 60000 + 60000" using div_bounds [of 60000 after] by (simp_all add: p_def)
  have "p < q" "q \<le> p + int max_lookahead" using c p t unfolding candidate_def p_def [symmetric] by linarith+
  then have "nat (q - p - 1) < max_lookahead" "t = p * 60000 + 60000 + int (nat (q - p - 1)) * 60000"
    using t by (simp_all add: algebra_simps)
  then show "\<exists>i < max_lookahead. t = after div 60000 * 60000 + 60000 + int i * 60000" unfolding p_def by blast
next
  assume "\<exists>i < max_lookahead. t = after div 60000 * 60000 + 60000 + int i * 60000"
  then obtain i where i: "i < max_lookahead" "t = (after div 60000 + 1 + int i) * 60000" by (auto simp: algebra_simps)
  have "after < after div 60000 * 60000 + 60000" using div_bounds [of 60000 after] by simp
  with i show "candidate after t" by (auto simp: candidate_def algebra_simps)
qed

text \<open>The pre-check only refuses expressions that match no calendar day.\<close>

lemma impossible_never_matches:
  assumes "domRestricted f" "\<not> dowRestricted f" "\<not> calendar_possible f" "wc_dayOfMonth wc \<le> max_day (wc_month wc)"
  shows "\<not> cron_matches f wc"
  using assms by (auto simp: cron_matches_def calendar_possible_def list_ex_iff Let_def)

lemma next_run_spec:
  assumes "\<And>t. wc_dayOfMonth (wall t) \<le> max_day (wc_month (wall t))"
  shows "(nextCronRun f after wall = Inr t \<longleftrightarrow> candidate after t \<and> cron_matches f (wall t)
            \<and> (\<forall>u. candidate after u \<longrightarrow> u < t \<longrightarrow> \<not> cron_matches f (wall u)))
    \<and> ((\<exists>e. nextCronRun f after wall = Inl e) \<longleftrightarrow> (\<forall>u. candidate after u \<longrightarrow> \<not> cron_matches f (wall u)))"
proof -
  let ?c = "after div 60000 * 60000 + 60000"
  have s: "first_match f wall ?c max_lookahead = Some t \<longleftrightarrow> candidate after t \<and> cron_matches f (wall t)
            \<and> (\<forall>u. candidate after u \<longrightarrow> u < t \<longrightarrow> \<not> cron_matches f (wall u))"
  proof
    assume "first_match f wall ?c max_lookahead = Some t"
    then show "candidate after t \<and> cron_matches f (wall t) \<and> (\<forall>u. candidate after u \<longrightarrow> u < t \<longrightarrow> \<not> cron_matches f (wall u))"
      unfolding first_match_Some candidate_index by auto
  next
    assume r: "candidate after t \<and> cron_matches f (wall t) \<and> (\<forall>u. candidate after u \<longrightarrow> u < t \<longrightarrow> \<not> cron_matches f (wall u))"
    then obtain i where i: "i < max_lookahead" "t = ?c + int i * 60000" unfolding candidate_index by blast
    have "\<not> cron_matches f (wall (?c + int j * 60000))" if "j < i" for j
    proof -
      have "candidate after (?c + int j * 60000)" "?c + int j * 60000 < t"
        using that i unfolding candidate_index by auto
      with r show ?thesis by blast
    qed
    with r i show "first_match f wall ?c max_lookahead = Some t" unfolding first_match_Some by blast
  qed
  have n: "first_match f wall ?c max_lookahead = None \<longleftrightarrow> (\<forall>u. candidate after u \<longrightarrow> \<not> cron_matches f (wall u))"
    unfolding first_match_None candidate_index by blast
  show ?thesis
  proof (cases "domRestricted f \<and> \<not> dowRestricted f \<and> \<not> calendar_possible f")
    case True
    with impossible_never_matches assms have "\<not> cron_matches f (wall u)" for u by blast
    with True show ?thesis by (simp add: nextCronRun_def)
  next
    case False
    then show ?thesis using s n
      by (cases "first_match f wall ?c max_lookahead") (auto simp: nextCronRun_def)
  qed
qed

text \<open>
  C17. \<open>nextCronRun\<close> finds the first match: it returns \<open>t\<close> exactly when \<open>t\<close> is the earliest
  whole minute strictly after \<open>after\<close> within five years whose wall clock the expression
  matches, and it throws exactly when there is none; the calendar pre-check loses nothing for a
  wall clock whose day exists in its month.
\<close>

theorem next_run_first:
  assumes "\<And>t. wc_dayOfMonth (wall t) \<le> max_day (wc_month (wall t))"
  shows "(nextCronRun f after wall = Inr t \<longleftrightarrow> candidate after t \<and> cron_matches f (wall t)
            \<and> (\<forall>u. candidate after u \<longrightarrow> u < t \<longrightarrow> \<not> cron_matches f (wall u)))
    \<and> ((\<exists>e. nextCronRun f after wall = Inl e) \<longleftrightarrow> (\<forall>u. candidate after u \<longrightarrow> \<not> cron_matches f (wall u)))"
  by (rule next_run_spec [OF assms])

text \<open>
  An expression that parses means something: every one of the five sets is non-empty and
  within the range of its field (Sunday is only 0 afterwards), whatever text was given.
\<close>

lemma parsed_in_range:
  assumes "parseCron e = Inr f"
  shows "minute f \<noteq> [] \<and> set (minute f) \<subseteq> {0..59} \<and> hour f \<noteq> [] \<and> set (hour f) \<subseteq> {0..23}
    \<and> dayOfMonth f \<noteq> [] \<and> set (dayOfMonth f) \<subseteq> {1..31} \<and> month f \<noteq> [] \<and> set (month f) \<subseteq> {1..12}
    \<and> dayOfWeek f \<noteq> [] \<and> set (dayOfWeek f) \<subseteq> {0..6}"
proof -
  from assms obtain mi hr dm mon dow where "parse_fields mi hr dm mon dow = Inr f"
    by (auto simp: parseCron_def Let_def split: option.splits list.splits)
  then obtain fmin fhr fdom fmon fdow where p: "parseField mi 0 59 None = Inr fmin" "parseField hr 0 23 None = Inr fhr"
    "parseField dm 1 31 None = Inr fdom" "parseField mon 1 12 (Some month_names) = Inr fmon"
    "parseField dow 0 7 (Some day_names) = Inr fdow"
    "f = \<lparr> minute = fmin, hour = fhr, dayOfMonth = fdom, month = fmon, dayOfWeek = sunday_alias fdow,
              domRestricted = (dm \<noteq> [42]), dowRestricted = (dow \<noteq> [42]) \<rparr>"
    by (auto simp: parse_fields_def split: sum.splits)
  note r = p(1-5) [THEN parseField_range]
  from sunday_alias_range [OF r(5)] r show ?thesis by (simp add: p(6))
qed

lemma utc_run_spec:
  "(nextCronRun f after utc_wall = Inr t \<longleftrightarrow> candidate after t \<and> cron_matches f (utc_wall t)
            \<and> (\<forall>u. candidate after u \<longrightarrow> u < t \<longrightarrow> \<not> cron_matches f (utc_wall u)))
    \<and> ((\<exists>e. nextCronRun f after utc_wall = Inl e) \<longleftrightarrow> (\<forall>u. candidate after u \<longrightarrow> \<not> cron_matches f (utc_wall u)))"
  by (rule next_run_spec) (use utc_day_range in blast)

section \<open>Two searches\<close>

text \<open>The first days of a year and the leap day, by day number.\<close>

lemma utc_month_day:
  assumes "y = year_of_day (t div 86400000)" "k = t div 86400000 - day_from_year y"
  shows "(wc_month (utc_wall t), wc_dayOfMonth (utc_wall t)) = month_day (month_lengths (leap_year y)) 1 k"
  by (simp add: utc_wall_def Let_def case_prod_beta assms)

lemma new_year_iff: "0 \<le> k \<Longrightarrow> month_day (month_lengths b) 1 k = (1, 1) \<longleftrightarrow> k = 0"
  by (auto simp: month_lengths_def)

lemma leap_day_iff: "0 \<le> k \<Longrightarrow> month_day (month_lengths b) 1 k = (2, 29) \<longleftrightarrow> k = 59 \<and> b"
  by (auto simp: month_lengths_def split: if_splits)

lemma new_year_day:
  assumes "wc_month (utc_wall t) = 1" "wc_dayOfMonth (utc_wall t) = 1"
  shows "t div 86400000 = day_from_year (year_of_day (t div 86400000))"
proof -
  have "0 \<le> t div 86400000 - day_from_year (year_of_day (t div 86400000))" using year_of_day [of "t div 86400000"] by simp
  moreover have "month_day (month_lengths (leap_year (year_of_day (t div 86400000)))) 1
      (t div 86400000 - day_from_year (year_of_day (t div 86400000))) = (1, 1)"
    using utc_month_day [OF refl refl, of t] assms by metis
  ultimately show ?thesis by (simp add: new_year_iff)
qed

lemma leap_day:
  assumes "wc_month (utc_wall t) = 2" "wc_dayOfMonth (utc_wall t) = 29"
  shows "t div 86400000 = day_from_year (year_of_day (t div 86400000)) + 59 \<and> leap_year (year_of_day (t div 86400000))"
proof -
  have "0 \<le> t div 86400000 - day_from_year (year_of_day (t div 86400000))" using year_of_day [of "t div 86400000"] by simp
  moreover have "month_day (month_lengths (leap_year (year_of_day (t div 86400000)))) 1
      (t div 86400000 - day_from_year (year_of_day (t div 86400000))) = (2, 29)"
    using utc_month_day [OF refl refl, of t] assms by metis
  ultimately show ?thesis by (simp add: leap_day_iff)
qed

definition yearly_fields :: cron_fields where
  "yearly_fields = \<lparr> minute = [0], hour = [0], dayOfMonth = [1], month = [1], dayOfWeek = [6, 5, 4, 3, 2, 1, 0],
     domRestricted = True, dowRestricted = False \<rparr>"

definition leap_fields :: cron_fields where
  "leap_fields = \<lparr> minute = [0], hour = [0], dayOfMonth = [29], month = [2], dayOfWeek = [6, 5, 4, 3, 2, 1, 0],
     domRestricted = True, dowRestricted = False \<rparr>"

lemma star_values: "step_values 0 7 1 = [0, 1, 2, 3, 4, 5, 6, 7]"
  by (simp add: step_values.simps)

lemma single_value: "step_values n n 1 = [n]"
  by (simp add: step_values.simps)

lemma dec1: "map_option int (decimal_int (js ''0'')) = Some 0" "map_option int (decimal_int (js ''1'')) = Some 1"
  "map_option int (decimal_int (js ''2'')) = Some 2" "map_option int (decimal_int (js ''29'')) = Some 29"
  by (simp_all add: decimal_int_def digits_of_def is_digit_def exponent_of_def scaled_def dec_val_def)

lemmas cron_eval = parseCron_def parse_fields_def parseField_def parse_part_def parse_step_def parse_range_def
  field_number_def js_integer_def js_trim_def is_js_space_def Let_def to_lower_def lower_unit_def month_names_def day_names_def
  star_values single_value sunday_alias_def dec1 [simplified] cron_aliases_def List.insert_def

lemma yearly_parsed: "parseCron (js ''@yearly'') = Inr yearly_fields"
  by (simp add: cron_eval yearly_fields_def)

lemma leap_parsed: "parseCron (js ''0 0 29 2 *'') = Inr leap_fields"
  by (simp add: cron_eval leap_fields_def)

lemma cron_matches_day: "cron_matches yearly_fields wc \<Longrightarrow> wc_month wc = 1 \<and> wc_dayOfMonth wc = 1"
  "cron_matches leap_fields wc \<Longrightarrow> wc_month wc = 2 \<and> wc_dayOfMonth wc = 29"
  by (auto simp: cron_matches_def yearly_fields_def leap_fields_def Let_def split: if_splits)

text \<open>From 2026-01-01T00:00Z the next \<open>@yearly\<close> run is 2027-01-01T00:00Z, 365 days later.\<close>

definition y2026 :: int where "y2026 = 1767225600000"
definition y2027 :: int where "y2027 = 1798761600000"

lemma yearly_next: "nextCronRun yearly_fields y2026 utc_wall = Inr y2027"
proof -
  have yd: "day_from_year 2026 = 20454" "day_from_year 2027 = 20819" by (simp_all add: day_from_year_def)
  have "year_of_day 20819 = 2027" by (rule year_unique) (simp_all add: day_from_year_def)
  then have w: "utc_wall y2027 = \<lparr> wc_minute = 0, wc_hour = 0, wc_dayOfMonth = 1, wc_month = 1, wc_dayOfWeek = 5 \<rparr>"
    by (simp add: utc_wall_def y2027_def Let_def yd month_lengths_def)
  have c: "candidate y2026 y2027" by (simp add: candidate_def y2026_def y2027_def max_lookahead_def)
  moreover have "cron_matches yearly_fields (utc_wall y2027)" by (simp add: w cron_matches_def yearly_fields_def)
  moreover have "\<not> cron_matches yearly_fields (utc_wall u)" if u: "candidate y2026 u" "u < y2027" for u
  proof
    assume m: "cron_matches yearly_fields (utc_wall u)"
    define d where "d = u div 86400000"
    have d: "20454 \<le> d" "d \<le> 20818" using u unfolding d_def candidate_def y2026_def y2027_def
      using div_bounds [of 86400000 u] by linarith+
    then have "year_of_day d = 2026" by (intro year_unique) (simp_all add: day_from_year_def)
    with new_year_day [of u] cron_matches_day(1) [OF m] yd have d0: "d = 20454" by (simp add: d_def)
    have "wc_minute (utc_wall u) = 0" "wc_hour (utc_wall u) = 0"
      using m by (auto simp: cron_matches_def yearly_fields_def split: if_splits)
    then have h: "u div 60000 mod 60 = 0" "u div 3600000 mod 24 = 0" by (simp_all add: utc_wall_def Let_def case_prod_beta)
    define q where "q = u div 60000"
    have uq: "u = q * 60000" using u(1) by (auto simp: candidate_def q_def)
    have e: "u div 3600000 = q div 60" "q div 60 div 24 = d" unfolding q_def d_def by (simp_all add: zdiv_zmult2_eq [symmetric])
    have a1: "q div 60 div 24 = 20454" using e(2) d0 by (rule trans)
    have a2: "q div 60 mod 24 = 0" using h(2) unfolding e(1) .
    have a3: "q mod 60 = 0" using h(1) unfolding q_def .
    have "q div 60 = q div 60 div 24 * 24 + q div 60 mod 24" by (rule div_mult_mod_eq [symmetric])
    also have "\<dots> = 490896" unfolding a1 a2 by simp
    finally have b: "q div 60 = 490896" .
    have "q = q div 60 * 60 + q mod 60" by (rule div_mult_mod_eq [symmetric])
    then have "q = 29453760" unfolding a3 b by simp
    with uq u(1) show False by (simp add: candidate_def y2026_def)
  qed
  ultimately show ?thesis by (intro iffD2 [OF conjunct1 [OF utc_run_spec]]) blast
qed

text \<open>The years after 2096-02-29: 2100 is no leap year, so the next leap day is eight years away.\<close>

definition y2096_march :: int where "y2096_march = 3981398400000"
definition y2104_leap :: int where "y2104_leap = 4233686400000"

lemma leap_gap_none: "candidate y2096_march u \<Longrightarrow> \<not> cron_matches leap_fields (utc_wall u)"
proof
  assume u: "candidate y2096_march u" and m: "cron_matches leap_fields (utc_wall u)"
  define d y where "d = u div 86400000" "y = year_of_day d"
  have d: "46081 \<le> d" "d \<le> 47911"
    using u div_bounds [of 86400000 u] unfolding d_y_def candidate_def y2096_march_def max_lookahead_def by simp_all
  have l: "d = day_from_year y + 59" "leap_year y"
    using leap_day [of u] cron_matches_day(2) [OF m] by (simp_all add: d_y_def)
  note yd = year_of_day [of d, folded d_y_def(2)]
  have v: "day_from_year 2096 = 46021" "day_from_year 2102 = 48212" by (simp_all add: day_from_year_def)
  have "2096 \<le> y" using day_from_year_mono [of "y + 1" 2096] yd d v by linarith
  moreover have "y < 2102" using day_from_year_mono [of 2102 y] yd d v by linarith
  ultimately have "y \<in> {2096, 2097, 2098, 2099, 2100, 2101}" by auto
  with l v d show False by (auto simp: leap_year_def)
qed

text \<open>
  The lookahead of five years is not enough for a leap day: after 2096-02-29 the expression
  \<open>0 0 29 2 *\<close> is reported as unsatisfiable although it matches on 2104-02-29.
\<close>

lemma leap_day_lost:
  "parseCron (js ''0 0 29 2 *'') = Inr leap_fields \<and> (\<exists>e. nextCronRun leap_fields y2096_march utc_wall = Inl e)
   \<and> y2096_march < y2104_leap \<and> cron_matches leap_fields (utc_wall y2104_leap)"
proof (intro conjI)
  show "\<exists>e. nextCronRun leap_fields y2096_march utc_wall = Inl e"
    by (rule iffD2 [OF conjunct2 [OF utc_run_spec]]) (use leap_gap_none in blast)
  show "parseCron (js ''0 0 29 2 *'') = Inr leap_fields" by (rule leap_parsed)
  have "year_of_day 49001 = 2104" by (rule year_unique) (simp_all add: day_from_year_def)
  then show "cron_matches leap_fields (utc_wall y2104_leap)"
    by (simp add: utc_wall_def y2104_leap_def Let_def day_from_year_def leap_year_def month_lengths_def
        cron_matches_def leap_fields_def)
qed (simp add: y2096_march_def y2104_leap_def)

theorem next_run_first_witness: "nextCronRun yearly_fields y2026 utc_wall = Inr y2027"
proof -
  have ok: "wc_dayOfMonth (utc_wall t) \<le> max_day (wc_month (utc_wall t))" for t using utc_day_range by blast
  show ?thesis
    by (rule iffD2 [OF conjunct1 [OF next_run_first [OF ok]] iffD1 [OF conjunct1 [OF utc_run_spec] yearly_next]])
qed

lemma parsed_in_range_example: "set (dayOfWeek yearly_fields) \<subseteq> {0..6} \<and> month yearly_fields \<noteq> []"
  using parsed_in_range [OF yearly_parsed] by blast

text \<open>
  The parser is more lenient than its documentation: further pieces of a range or a step are
  ignored, a missing number reads as 0, and other spellings of a number are taken.
\<close>

lemma lenient_fields:
  "parseField (js ''1-2-9'') 0 59 None = parseField (js ''1-2'') 0 59 None"
  "parseField (js ''-2'') 0 59 None = parseField (js ''0-2'') 0 59 None"
  "parseField (js ''0x10'') 0 59 None = parseField (js ''16'') 0 59 None"
  by (simp_all add: cron_eval decimal_int_def digits_of_def is_digit_def exponent_of_def scaled_def dec_val_def
      radix_digits_def hex_val_def)

end
