(* ===== verification/Scheduler.thy ===== *)
theory Scheduler
  imports Cron
begin

text \<open>
  The \<open>Scheduler\<close> class of \<open>scheduler.ts\<close> over the default timers: definition of tasks,
  arming, ticks, single-flight runs, manual runs and stopping, as steps that overlap freely.

  Timers are those of the platform the module uses by default (\<open>setTimeout\<close> of Node): a
  pending timer has a handle, the time it is due and what it calls; \<open>timer_delay\<close> is the
  documented conversion of the delay.  A run in progress is an entry of \<open>live\<close>.  Logging and the
  \<open>onError\<close> callback have no effect on the state and are left out; the abort at the end of a
  grace period marks the runs.
\<close>

section \<open>Timers of the platform\<close>

text \<open>A delay above \<open>2 ^ 31 - 1\<close> or below 1 is set to 1.\<close>

definition timer_delay :: "int \<Rightarrow> int" where
  "timer_delay d = (if 2147483647 < d \<or> d < 1 then 1 else d)"

datatype purpose = Tick jstr | TimeoutOf jstr

type_synonym pending_timer = "nat \<times> int \<times> purpose"

section \<open>Tasks\<close>

record task_def =
  td_name :: jstr
  td_intervalMs :: "int option"
  td_cron :: "jstr option"
  td_timeZone :: "jstr option"
  td_runOnStart :: bool
  td_timeoutMs :: "int option"

record task =
  tdef :: task_def
  cronFields :: "cron_fields option"
  timer :: "nat option"
  running :: bool
  runs :: nat
  failures :: nat
  skipped :: nat
  lastRunAt :: "int option"
  lastDurationMs :: "int option"
  lastError :: "jstr option"
  nextRunAt :: "int option"

record run_entry =
  rn_name :: jstr
  rn_scheduledFor :: int
  rn_count :: nat
  rn_startedAt :: int
  rn_timer :: "nat option"
  rn_aborted :: bool

record sched =
  tasks :: "(jstr, task) assoc"
  started :: bool
  stopped :: bool
  timers :: "pending_timer list"
  nextHandle :: nat
  live :: "run_entry list"
  arm_failed :: bool

definition new_scheduler :: sched where
  "new_scheduler = \<lparr> tasks = [], started = False, stopped = False, timers = [], nextHandle = 0, live = [], arm_failed = False \<rparr>"

datatype define_error = EmptyName | DuplicateTask | NeedOneSchedule | BadInterval | BadTimeout | BadCron cron_error | NotDefined

definition set_timer :: "int \<Rightarrow> int \<Rightarrow> purpose \<Rightarrow> sched \<Rightarrow> sched" where
  "set_timer now delay p s = s\<lparr>timers := timers s @ [(nextHandle s, now + timer_delay delay, p)], nextHandle := Suc (nextHandle s)\<rparr>"

definition clear_timer :: "nat option \<Rightarrow> sched \<Rightarrow> sched" where
  "clear_timer h s = (case h of None \<Rightarrow> s | Some i \<Rightarrow> s\<lparr>timers := filter (\<lambda>e. fst e \<noteq> i) (timers s)\<rparr>)"

definition put_task :: "jstr \<Rightarrow> task \<Rightarrow> sched \<Rightarrow> sched" where
  "put_task n t s = s\<lparr>tasks := AList.update n t (tasks s)\<rparr>"

text \<open>The wall clock of a zone: UTC, or \<open>zones\<close> for the formatter of another zone.\<close>

definition wall_for :: "(jstr \<Rightarrow> int \<Rightarrow> wall_clock) \<Rightarrow> jstr option \<Rightarrow> int \<Rightarrow> wall_clock" where
  "wall_for zones tz = (case tz of None \<Rightarrow> utc_wall | Some z \<Rightarrow> if z = js ''UTC'' then utc_wall else zones z)"

definition nextDelay :: "(jstr \<Rightarrow> int \<Rightarrow> wall_clock) \<Rightarrow> task \<Rightarrow> int \<Rightarrow> cron_error + int" where
  "nextDelay zones t now =
     (case cronFields t of
        Some f \<Rightarrow> (case nextCronRun f now (wall_for zones (td_timeZone (tdef t))) of
            Inl e \<Rightarrow> Inl e | Inr u \<Rightarrow> Inr (max 0 (u - now)))
      | None \<Rightarrow> Inr (case td_intervalMs (tdef t) of Some i \<Rightarrow> i | None \<Rightarrow> 0))"

definition arm :: "(jstr \<Rightarrow> int \<Rightarrow> wall_clock) \<Rightarrow> jstr \<Rightarrow> task \<Rightarrow> bool \<Rightarrow> int \<Rightarrow> sched \<Rightarrow> cron_error option \<times> sched" where
  "arm zones n t immediate now s =
     (if stopped s then (None, s)
      else if immediate
      then (None, set_timer now 0 (Tick n) (put_task n (t\<lparr>nextRunAt := Some now, timer := Some (nextHandle s)\<rparr>) s))
      else (case nextDelay zones t now of
          Inl e \<Rightarrow> (Some e, s\<lparr>arm_failed := True\<rparr>)
        | Inr delay \<Rightarrow> (None, set_timer now delay (Tick n)
            (put_task n (t\<lparr>nextRunAt := Some (now + delay), timer := Some (nextHandle s)\<rparr>) s))))"

definition check_def :: "task_def \<Rightarrow> sched \<Rightarrow> define_error option" where
  "check_def d s =
     (if js_trim (td_name d) = [] then Some EmptyName
      else if map_of (tasks s) (td_name d) \<noteq> None then Some DuplicateTask
      else if (td_intervalMs d \<noteq> None) = (td_cron d \<noteq> None) then Some NeedOneSchedule
      else if td_intervalMs d \<noteq> None \<and> the (td_intervalMs d) \<le> 0 then Some BadInterval
      else if td_timeoutMs d \<noteq> None \<and> the (td_timeoutMs d) < 0 then Some BadTimeout else None)"

definition compile_cron :: "task_def \<Rightarrow> cron_error + cron_fields option" where
  "compile_cron d =
     (case td_cron d of None \<Rightarrow> Inr None | Some e \<Rightarrow> (case parseCron e of Inl x \<Rightarrow> Inl x | Inr f \<Rightarrow> Inr (Some f)))"

definition fresh_task :: "task_def \<Rightarrow> cron_fields option \<Rightarrow> task" where
  "fresh_task d f = \<lparr> tdef = d, cronFields = f, timer = None, running = False, runs = 0, failures = 0, skipped = 0,
     lastRunAt = None, lastDurationMs = None, lastError = None, nextRunAt = None \<rparr>"

definition define_task :: "(jstr \<Rightarrow> int \<Rightarrow> wall_clock) \<Rightarrow> task_def \<Rightarrow> int \<Rightarrow> sched \<Rightarrow> define_error option \<times> sched" where
  "define_task zones d now s =
     (case check_def d s of Some e \<Rightarrow> (Some e, s)
      | None \<Rightarrow> (case compile_cron d of Inl e \<Rightarrow> (Some (BadCron e), s)
          | Inr f \<Rightarrow>
              (let t = fresh_task d f; s1 = put_task (td_name d) t s in
               if started s1 \<and> \<not> stopped s1
               then (case arm zones (td_name d) t (td_runOnStart d) now s1 of
                   (Some e, s2) \<Rightarrow> (Some (BadCron e), s2) | (None, s2) \<Rightarrow> (None, s2))
               else (None, s1))))"

fun arm_all :: "(jstr \<Rightarrow> int \<Rightarrow> wall_clock) \<Rightarrow> (jstr \<times> task) list \<Rightarrow> int \<Rightarrow> sched \<Rightarrow> cron_error option \<times> sched" where
  "arm_all zones [] now s = (None, s)"
| "arm_all zones ((n, t) # rest) now s =
     (case arm zones n t (td_runOnStart (tdef t)) now s of
        (Some e, s1) \<Rightarrow> (Some e, s1)
      | (None, s1) \<Rightarrow> arm_all zones rest now s1)"

definition start_sched :: "(jstr \<Rightarrow> int \<Rightarrow> wall_clock) \<Rightarrow> int \<Rightarrow> sched \<Rightarrow> cron_error option \<times> sched" where
  "start_sched zones now s =
     (if started s then (None, s)
      else arm_all zones (tasks s) now (s\<lparr>started := True, stopped := False\<rparr>))"

fun disarm_all :: "(jstr \<times> task) list \<Rightarrow> sched \<Rightarrow> sched" where
  "disarm_all [] s = s"
| "disarm_all ((n, t) # rest) s = disarm_all rest (put_task n (t\<lparr>timer := None, nextRunAt := None\<rparr>) (clear_timer (timer t) s))"

definition stop_sched :: "sched \<Rightarrow> sched" where
  "stop_sched s =
     (if \<not> started s \<or> stopped s then s\<lparr>stopped := True\<rparr>
      else disarm_all (tasks s) (s\<lparr>stopped := True\<rparr>))"

text \<open>The end of the grace period: every run still in flight is aborted.\<close>

definition grace_elapsed :: "sched \<Rightarrow> sched" where
  "grace_elapsed s = s\<lparr>live := map (\<lambda>r. r\<lparr>rn_aborted := True\<rparr>) (live s)\<rparr>"

definition run_task :: "jstr \<Rightarrow> task \<Rightarrow> int \<Rightarrow> int \<Rightarrow> sched \<Rightarrow> sched" where
  "run_task n t scheduledFor now s =
     (let s1 = put_task n (t\<lparr>running := True, lastRunAt := Some now\<rparr>) s;
          entry = \<lparr> rn_name = n, rn_scheduledFor = scheduledFor, rn_count = runs t + 1, rn_startedAt = now,
                    rn_timer = None, rn_aborted = False \<rparr>
      in case td_timeoutMs (tdef t) of
           Some tmo \<Rightarrow> (if 0 < tmo
               then (set_timer now tmo (TimeoutOf n) s1)\<lparr>live := live s @ [entry\<lparr>rn_timer := Some (nextHandle s1)\<rparr>]\<rparr>
               else s1\<lparr>live := live s @ [entry]\<rparr>)
         | None \<Rightarrow> s1\<lparr>live := live s @ [entry]\<rparr>)"

text \<open>The \<open>finally\<close> block of a run; \<open>err\<close> is what the handler threw.\<close>

definition end_run :: "jstr \<Rightarrow> jstr option \<Rightarrow> int \<Rightarrow> sched \<Rightarrow> sched option" where
  "end_run n err now s =
     (case (find (\<lambda>r. rn_name r = n) (live s), map_of (tasks s) n) of
        (Some r, Some t) \<Rightarrow>
          Some ((clear_timer (rn_timer r) (put_task n (t\<lparr>running := False, runs := runs t + 1,
                   failures := failures t + (if err = None then 0 else 1), lastError := err,
                   lastDurationMs := Some (now - rn_startedAt r)\<rparr>) s))
                 \<lparr>live := filter (\<lambda>r. rn_name r \<noteq> n) (live s)\<rparr>)
      | _ \<Rightarrow> None)"

definition skip_run :: "jstr \<Rightarrow> task \<Rightarrow> sched \<Rightarrow> sched" where
  "skip_run n t s = put_task n (t\<lparr>skipped := skipped t + 1\<rparr>) s"

definition runNow :: "jstr \<Rightarrow> int \<Rightarrow> sched \<Rightarrow> (define_error + bool) \<times> sched" where
  "runNow n now s =
     (case map_of (tasks s) n of
        None \<Rightarrow> (Inl NotDefined, s)
      | Some t \<Rightarrow> (if running t then (Inr False, skip_run n t s) else (Inr True, run_task n t now now s)))"

definition tick :: "(jstr \<Rightarrow> int \<Rightarrow> wall_clock) \<Rightarrow> jstr \<Rightarrow> int \<Rightarrow> sched \<Rightarrow> sched" where
  "tick zones n now s =
     (case map_of (tasks s) n of
        None \<Rightarrow> s
      | Some t0 \<Rightarrow>
          (let t = t0\<lparr>timer := None\<rparr>; s0 = put_task n t s in
           if stopped s0 then s0
           else (let scheduledFor = (case nextRunAt t of Some u \<Rightarrow> u | None \<Rightarrow> now) in
                 case arm zones n t False now s0 of
                   (Some e, s1) \<Rightarrow> s1
                 | (None, s1) \<Rightarrow>
                     (case map_of (tasks s1) n of
                        None \<Rightarrow> s1
                      | Some t1 \<Rightarrow> (if running t1 then skip_run n t1 s1 else run_task n t1 scheduledFor now s1)))))"

text \<open>A timer fires once it is due.\<close>

definition fire :: "(jstr \<Rightarrow> int \<Rightarrow> wall_clock) \<Rightarrow> nat \<Rightarrow> int \<Rightarrow> sched \<Rightarrow> sched option" where
  "fire zones h now s =
     (case map_of (timers s) h of
        None \<Rightarrow> None
      | Some (due, p) \<Rightarrow>
          (if now < due then None
           else (let s1 = clear_timer (Some h) s in
                 Some (case p of
                     Tick n \<Rightarrow> tick zones n now s1
                   | TimeoutOf n \<Rightarrow> s1\<lparr>live := map (\<lambda>r. if rn_name r = n then r\<lparr>rn_aborted := True\<rparr> else r) (live s)\<rparr>))))"

datatype sched_event = Define task_def int | Start int | Stop | GraceOver | RunNow jstr int | Fire nat int | RunEnds jstr "jstr option" int

definition sched_step :: "(jstr \<Rightarrow> int \<Rightarrow> wall_clock) \<Rightarrow> sched_event \<Rightarrow> sched \<Rightarrow> sched option" where
  "sched_step zones ev s =
     (case ev of
        Define d now \<Rightarrow> Some (snd (define_task zones d now s))
      | Start now \<Rightarrow> Some (snd (start_sched zones now s))
      | Stop \<Rightarrow> Some (stop_sched s)
      | GraceOver \<Rightarrow> Some (grace_elapsed s)
      | RunNow n now \<Rightarrow> Some (snd (runNow n now s))
      | Fire h now \<Rightarrow> fire zones h now s
      | RunEnds n err now \<Rightarrow> end_run n err now s)"

inductive sched_reach :: "(jstr \<Rightarrow> int \<Rightarrow> wall_clock) \<Rightarrow> sched \<Rightarrow> bool" for zones where
  initial: "sched_reach zones new_scheduler"
| event: "sched_reach zones s \<Longrightarrow> sched_step zones ev s = Some s' \<Longrightarrow> sched_reach zones s'"

section \<open>The invariant\<close>

definition timers_ok :: "sched \<Rightarrow> bool" where
  "timers_ok s \<longleftrightarrow> distinct (map fst (timers s)) \<and> (\<forall>e \<in> set (timers s). fst e < nextHandle s)
     \<and> (\<forall>n h. (\<exists>t. map_of (tasks s) n = Some t \<and> timer t = Some h) \<longleftrightarrow> (\<exists>due. (h, due, Tick n) \<in> set (timers s)))
     \<and> (\<forall>r \<in> set (live s). \<forall>h. rn_timer r = Some h \<longrightarrow> h < nextHandle s \<and> (\<forall>due n. (h, due, Tick n) \<notin> set (timers s)))"

definition runs_ok :: "sched \<Rightarrow> bool" where
  "runs_ok s \<longleftrightarrow> distinct (map rn_name (live s))
     \<and> (\<forall>n. n \<in> rn_name ` set (live s) \<longleftrightarrow> (\<exists>t. map_of (tasks s) n = Some t \<and> running t))
     \<and> (\<forall>n t. map_of (tasks s) n = Some t \<longrightarrow> failures t \<le> runs t)"

definition quiet :: "sched \<Rightarrow> bool" where
  "quiet s \<longleftrightarrow> ((\<not> started s \<or> stopped s) \<longrightarrow> (\<forall>n t. map_of (tasks s) n = Some t \<longrightarrow> timer t = None))"

definition all_armed :: "sched \<Rightarrow> bool" where
  "all_armed s \<longleftrightarrow> (started s \<and> \<not> stopped s \<and> \<not> arm_failed s \<longrightarrow> (\<forall>n t. map_of (tasks s) n = Some t \<longrightarrow> timer t \<noteq> None))"

definition sched_inv :: "sched \<Rightarrow> bool" where
  "sched_inv s \<longleftrightarrow> wf_assoc (tasks s) \<and> timers_ok s \<and> runs_ok s \<and> quiet s \<and> all_armed s"

lemma put_task_simps [simp]:
  "tasks (put_task n t s) = AList.update n t (tasks s)" "started (put_task n t s) = started s"
  "stopped (put_task n t s) = stopped s" "timers (put_task n t s) = timers s" "nextHandle (put_task n t s) = nextHandle s"
  "live (put_task n t s) = live s" "arm_failed (put_task n t s) = arm_failed s"
  by (simp_all add: put_task_def)

lemma set_timer_simps [simp]:
  "tasks (set_timer now d p s) = tasks s" "started (set_timer now d p s) = started s"
  "stopped (set_timer now d p s) = stopped s" "live (set_timer now d p s) = live s"
  "timers (set_timer now d p s) = timers s @ [(nextHandle s, now + timer_delay d, p)]"
  "nextHandle (set_timer now d p s) = Suc (nextHandle s)" "arm_failed (set_timer now d p s) = arm_failed s"
  by (simp_all add: set_timer_def)

lemma clear_timer_simps [simp]:
  "tasks (clear_timer h s) = tasks s" "started (clear_timer h s) = started s" "stopped (clear_timer h s) = stopped s"
  "live (clear_timer h s) = live s" "nextHandle (clear_timer h s) = nextHandle s" "arm_failed (clear_timer h s) = arm_failed s"
  "timers (clear_timer h s) = (case h of None \<Rightarrow> timers s | Some i \<Rightarrow> filter (\<lambda>e. fst e \<noteq> i) (timers s))"
  by (simp_all add: clear_timer_def split: option.splits)

text \<open>The states arming leads to.\<close>

definition armed_state :: "jstr \<Rightarrow> task \<Rightarrow> int \<Rightarrow> int \<Rightarrow> int \<Rightarrow> sched \<Rightarrow> sched" where
  "armed_state n t nx now delay s =
     set_timer now delay (Tick n) (put_task n (t\<lparr>nextRunAt := Some nx, timer := Some (nextHandle s)\<rparr>) s)"

lemma arm_cases:
  "arm zones n t im now s = (None, s) \<and> stopped s \<or> (\<exists>e. arm zones n t im now s = (Some e, s\<lparr>arm_failed := True\<rparr>) \<and> \<not> stopped s)
   \<or> (\<exists>nx delay. arm zones n t im now s = (None, armed_state n t nx now delay s) \<and> \<not> stopped s)"
  by (cases "nextDelay zones t now") (auto simp: arm_def armed_state_def)

lemma tick_task: "timers_ok s \<Longrightarrow> (h, due, Tick n) \<in> set (timers s) \<Longrightarrow> \<exists>t. map_of (tasks s) n = Some t \<and> timer t = Some h"
  unfolding timers_ok_def by blast

lemma task_tick: "timers_ok s \<Longrightarrow> map_of (tasks s) n = Some t \<Longrightarrow> timer t = Some h \<Longrightarrow> \<exists>due. (h, due, Tick n) \<in> set (timers s)"
  unfolding timers_ok_def by blast

lemma handle_bound: "timers_ok s \<Longrightarrow> (h, x) \<in> set (timers s) \<Longrightarrow> h < nextHandle s"
  unfolding timers_ok_def by fastforce

lemma run_timer: "timers_ok s \<Longrightarrow> r \<in> set (live s) \<Longrightarrow> rn_timer r = Some h \<Longrightarrow> h < nextHandle s \<and> (h, due, Tick n) \<notin> set (timers s)"
  unfolding timers_ok_def by blast

lemma timers_okI:
  assumes "distinct (map fst (timers s))" "\<And>h x. (h, x) \<in> set (timers s) \<Longrightarrow> h < nextHandle s"
    and "\<And>n h due. (h, due, Tick n) \<in> set (timers s) \<Longrightarrow> \<exists>t. map_of (tasks s) n = Some t \<and> timer t = Some h"
    and "\<And>n t h. map_of (tasks s) n = Some t \<Longrightarrow> timer t = Some h \<Longrightarrow> \<exists>due. (h, due, Tick n) \<in> set (timers s)"
    and "\<And>r h due n. r \<in> set (live s) \<Longrightarrow> rn_timer r = Some h \<Longrightarrow> h < nextHandle s \<and> (h, due, Tick n) \<notin> set (timers s)"
  shows "timers_ok s"
  unfolding timers_ok_def using assms by (auto; blast)

lemma armed_timers:
  assumes "timers_ok s" "map_of (tasks s) n = Some t0" "timer t0 = None"
  shows "timers_ok (armed_state n t nx now delay s)"
proof (rule timers_okI)
  have no: "(h, due, Tick n) \<notin> set (timers s)" for h due
    using tick_task [OF assms(1)] assms(2,3) by fastforce
  have f: "(nextHandle s, x) \<notin> set (timers s)" for x using handle_bound [OF assms(1)] by blast
  have d: "distinct (map fst (timers s))" using assms(1) by (simp add: timers_ok_def)
  show "distinct (map fst (timers (armed_state n t nx now delay s)))"
    using d f by (auto simp: armed_state_def)
  show "h < nextHandle (armed_state n t nx now delay s)" if "(h, x) \<in> set (timers (armed_state n t nx now delay s))" for h x
    using that by (cases x) (auto simp: armed_state_def less_Suc_eq dest: handle_bound [OF assms(1)])
  show "\<exists>u. map_of (tasks (armed_state n t nx now delay s)) m = Some u \<and> timer u = Some h"
    if "(h, due, Tick m) \<in> set (timers (armed_state n t nx now delay s))" for m h due
    using that tick_task [OF assms(1)] no by (cases "m = n") (auto simp: armed_state_def update_conv')
  show "\<exists>due. (h, due, Tick m) \<in> set (timers (armed_state n t nx now delay s))"
    if "map_of (tasks (armed_state n t nx now delay s)) m = Some u" "timer u = Some h" for m u h
    using that task_tick [OF assms(1)] by (cases "m = n") (auto simp: armed_state_def update_conv')
  show "h < nextHandle (armed_state n t nx now delay s) \<and> (h, due, Tick m) \<notin> set (timers (armed_state n t nx now delay s))"
    if "r \<in> set (live (armed_state n t nx now delay s))" "rn_timer r = Some h" for r h due m
    using that run_timer [OF assms(1)] by (fastforce simp: armed_state_def)
qed

lemma armed_task: "map_of (tasks (armed_state n t nx now delay s)) m =
    (if m = n then Some (t\<lparr>nextRunAt := Some nx, timer := Some (nextHandle s)\<rparr>) else map_of (tasks s) m)"
  by (simp add: armed_state_def update_conv')

lemma armed_state_simps [simp]:
  "started (armed_state n t nx now delay s) = started s" "stopped (armed_state n t nx now delay s) = stopped s"
  "live (armed_state n t nx now delay s) = live s" "arm_failed (armed_state n t nx now delay s) = arm_failed s"
  "wf_assoc (tasks s) \<Longrightarrow> wf_assoc (tasks (armed_state n t nx now delay s))"
  by (simp_all add: armed_state_def distinct_update)

text \<open>Updates of one task that leave its timer alone.\<close>

lemma timers_ok_put:
  assumes "timers_ok s" "\<And>h. timer t = Some h \<longleftrightarrow> (\<exists>t0. map_of (tasks s) n = Some t0 \<and> timer t0 = Some h)"
  shows "timers_ok (put_task n t s)"
proof (rule timers_okI)
  show "distinct (map fst (timers (put_task n t s)))" using assms(1) by (simp add: timers_ok_def)
  show "h < nextHandle (put_task n t s)" if "(h, x) \<in> set (timers (put_task n t s))" for h x
    using that handle_bound [OF assms(1), of h x] by simp
  show "\<exists>u. map_of (tasks (put_task n t s)) m = Some u \<and> timer u = Some h"
    if "(h, due, Tick m) \<in> set (timers (put_task n t s))" for m h due
    using that tick_task [OF assms(1), of h due m] assms(2) [of h] by (auto simp: update_conv')
  show "\<exists>due. (h, due, Tick m) \<in> set (timers (put_task n t s))"
    if "map_of (tasks (put_task n t s)) m = Some u" "timer u = Some h" for m u h
    using that task_tick [OF assms(1), of m _ h] assms(2) [of h] by (auto simp: update_conv' split: if_splits)
  show "h < nextHandle (put_task n t s) \<and> (h, due, Tick m) \<notin> set (timers (put_task n t s))"
    if "r \<in> set (live (put_task n t s))" "rn_timer r = Some h" for r h due m
    using that run_timer [OF assms(1), of r h due m] by simp
qed

lemma runs_ok_put:
  assumes "runs_ok s" "map_of (tasks s) n = Some t0" "running t = running t0" "failures t \<le> runs t"
  shows "runs_ok (put_task n t s)"
  using assms by (auto simp: runs_ok_def update_conv')

definition core :: "sched \<Rightarrow> bool" where
  "core s \<longleftrightarrow> wf_assoc (tasks s) \<and> timers_ok s \<and> runs_ok s"

lemma core_put:
  assumes "core s" "map_of (tasks s) n = Some t0" "timer t = timer t0" "running t = running t0" "failures t \<le> runs t"
  shows "core (put_task n t s)"
  using assms timers_ok_put [of s t n] runs_ok_put [of s n t0 t] by (auto simp: core_def distinct_update)

lemma runs_ok_bound: "core s \<Longrightarrow> map_of (tasks s) n = Some t \<Longrightarrow> failures t \<le> runs t"
  by (simp add: core_def runs_ok_def)

lemma armed_core:
  assumes "core s" "map_of (tasks s) n = Some t" "timer t = None"
  shows "core (armed_state n t nx now delay s)"
proof -
  have "runs_ok (put_task n (t\<lparr>nextRunAt := Some nx, timer := Some (nextHandle s)\<rparr>) s)"
    using runs_ok_put [of s n t] assms runs_ok_bound [OF assms(1,2)] by (simp add: core_def)
  then have "runs_ok (armed_state n t nx now delay s)" by (simp add: runs_ok_def armed_state_def)
  with armed_timers [of s n t] assms show ?thesis by (simp add: core_def)
qed

lemma core_cong:
  assumes "core s" "tasks s' = tasks s" "timers s' = timers s" "nextHandle s' = nextHandle s" "live s' = live s"
  shows "core s'"
  using assms(1) unfolding core_def timers_ok_def runs_ok_def assms(2-5) .

lemma arm_core:
  assumes "core s" "map_of (tasks s) n = Some t" "timer t = None" "arm zones n t im now s = (r, s')"
  shows "core s'" "started s' = started s" "stopped s' = stopped s" "m \<noteq> n \<Longrightarrow> map_of (tasks s') m = map_of (tasks s) m"
    "arm_failed s \<Longrightarrow> arm_failed s'" "stopped s \<Longrightarrow> s' = s" "live s' = live s"
    "\<exists>t'. map_of (tasks s') n = Some t' \<and> running t' = running t \<and> (\<not> stopped s \<longrightarrow> arm_failed s' \<or> timer t' \<noteq> None)"
    "r \<noteq> None \<Longrightarrow> arm_failed s'"
proof -
  have f: "core (s\<lparr>arm_failed := True\<rparr>)" by (rule core_cong [OF assms(1)]) simp_all
  have c: "s' = s \<and> r = None \<and> stopped s \<or> (s' = s\<lparr>arm_failed := True\<rparr> \<and> \<not> stopped s)
      \<or> (\<exists>nx delay. s' = armed_state n t nx now delay s \<and> r = None \<and> \<not> stopped s)"
    using arm_cases [of zones n t im now s] assms(4) by auto
  show "core s'" using c assms(1) f armed_core [OF assms(1-3)] by auto
  show "started s' = started s" "stopped s' = stopped s" "live s' = live s" "arm_failed s \<Longrightarrow> arm_failed s'"
    "stopped s \<Longrightarrow> s' = s" "r \<noteq> None \<Longrightarrow> arm_failed s'" using c by auto
  show "m \<noteq> n \<Longrightarrow> map_of (tasks s') m = map_of (tasks s) m" using c armed_task by auto
  show "\<exists>t'. map_of (tasks s') n = Some t' \<and> running t' = running t \<and> (\<not> stopped s \<longrightarrow> arm_failed s' \<or> timer t' \<noteq> None)"
    using c assms(2) by (auto simp: armed_task)
qed

lemma arm_all_core:
  assumes "core s" "distinct (map fst ts)" "\<And>n t. (n, t) \<in> set ts \<Longrightarrow> map_of (tasks s) n = Some t \<and> timer t = None"
    and "arm_all zones ts now s = (r, s')"
  shows "core s' \<and> started s' = started s \<and> stopped s' = stopped s
    \<and> (\<forall>m. m \<notin> fst ` set ts \<longrightarrow> map_of (tasks s') m = map_of (tasks s) m) \<and> (arm_failed s \<longrightarrow> arm_failed s')
    \<and> (\<not> stopped s \<longrightarrow> arm_failed s' \<or> (\<forall>m \<in> fst ` set ts. \<exists>t'. map_of (tasks s') m = Some t' \<and> timer t' \<noteq> None))"
  using assms
proof (induction zones ts now s rule: arm_all.induct)
  case (2 zones n t rest now s)
  obtain r1 s1 where a: "arm zones n t (td_runOnStart (tdef t)) now s = (r1, s1)" by fastforce
  have nt: "map_of (tasks s) n = Some t" "timer t = None" using "2.prems"(3) by auto
  note ac = arm_core [OF "2.prems"(1) nt a]
  show ?case
  proof (cases r1)
    case None
    have all: "\<And>m u. (m, u) \<in> set rest \<Longrightarrow> map_of (tasks s1) m = Some u \<and> timer u = None"
    proof -
      fix m u assume mu: "(m, u) \<in> set rest"
      then have "m \<noteq> n" using "2.prems"(2) by force
      with ac(4) "2.prems"(3) mu show "map_of (tasks s1) m = Some u \<and> timer u = None" by auto
    qed
    from "2.prems"(4) a None have rest: "arm_all zones rest now s1 = (r, s')" by simp
    note ih = "2.IH" [OF a [symmetric] None ac(1) _ all rest]
    have nin: "n \<notin> fst ` set rest" using "2.prems"(2) by simp
    obtain t' where t': "map_of (tasks s1) n = Some t'" "\<not> stopped s \<longrightarrow> arm_failed s1 \<or> timer t' \<noteq> None" using ac(8) by blast
    from ih "2.prems"(2) have ih': "core s'" "started s' = started s1" "stopped s' = stopped s1"
      "\<And>m. m \<notin> fst ` set rest \<Longrightarrow> map_of (tasks s') m = map_of (tasks s1) m" "arm_failed s1 \<longrightarrow> arm_failed s'"
      "\<not> stopped s1 \<Longrightarrow> arm_failed s' \<or> (\<forall>m \<in> fst ` set rest. \<exists>t'. map_of (tasks s') m = Some t' \<and> timer t' \<noteq> None)"
      by auto
    show ?thesis using ih' ac(2,3,4,5) nin t' by auto
  next
    case (Some e)
    with "2.prems"(4) a have "s' = s1" by simp
    with ac Some show ?thesis by auto
  qed
qed simp

text \<open>Clearing the timer of a task, and clearing a timer that is not a tick.\<close>

lemma timer_unique:
  assumes "timers_ok s" "(h, x) \<in> set (timers s)" "(h, y) \<in> set (timers s)"
  shows "x = y"
  using assms eq_key_imp_eq_value [of "timers s" h x y] by (simp add: timers_ok_def)

lemma cleared_timers:
  assumes "timers_ok s" "map_of (tasks s) n = Some t" "timer t' = None"
  shows "timers_ok (put_task n t' (clear_timer (timer t) s))"
proof (cases "timer t")
  case None
  then show ?thesis using timers_ok_put [of s t' n] assms by (simp add: clear_timer_def)
next
  case (Some i)
  obtain due where d: "(i, due, Tick n) \<in> set (timers s)" using task_tick [OF assms(1,2) Some] by blast
  have other: "m = n" if "(i, due', Tick m) \<in> set (timers s)" for m due'
    using timer_unique [OF assms(1) d that] by simp
  show ?thesis
  proof (rule timers_okI)
    show "distinct (map fst (timers (put_task n t' (clear_timer (timer t) s))))"
      using assms(1) by (simp add: Some timers_ok_def distinct_map_filter)
    show "h < nextHandle (put_task n t' (clear_timer (timer t) s))"
      if "(h, x) \<in> set (timers (put_task n t' (clear_timer (timer t) s)))" for h x
      using that handle_bound [OF assms(1), of h x] by (simp add: Some)
    show "\<exists>u. map_of (tasks (put_task n t' (clear_timer (timer t) s))) m = Some u \<and> timer u = Some h"
      if "(h, due, Tick m) \<in> set (timers (put_task n t' (clear_timer (timer t) s)))" for m h due
      using that tick_task [OF assms(1), of h due m] assms(2) Some by (cases "m = n") (auto simp: update_conv')
    show "\<exists>due. (h, due, Tick m) \<in> set (timers (put_task n t' (clear_timer (timer t) s)))"
      if "map_of (tasks (put_task n t' (clear_timer (timer t) s))) m = Some u" "timer u = Some h" for m u h
      using that task_tick [OF assms(1), of m u h] assms(3) other by (cases "m = n") (auto simp: update_conv' Some)
    show "h < nextHandle (put_task n t' (clear_timer (timer t) s))
        \<and> (h, due, Tick m) \<notin> set (timers (put_task n t' (clear_timer (timer t) s)))"
      if "r \<in> set (live (put_task n t' (clear_timer (timer t) s)))" "rn_timer r = Some h" for r h due m
      using that run_timer [OF assms(1), of r h due m] by (simp add: Some)
  qed
qed

lemma cleared_core:
  assumes "core s" "map_of (tasks s) n = Some t" "timer t' = None" "running t' = running t" "failures t' \<le> runs t'"
  shows "core (put_task n t' (clear_timer (timer t) s))"
proof -
  have "runs_ok (clear_timer (timer t) s)" using assms(1) by (simp add: core_def runs_ok_def)
  then have "runs_ok (put_task n t' (clear_timer (timer t) s))" using runs_ok_put assms(2,4,5) by simp
  with cleared_timers [of s n t t'] assms show ?thesis by (simp add: core_def distinct_update)
qed

lemma clear_other:
  assumes "core s" "\<And>h due n. c = Some h \<Longrightarrow> (h, due, Tick n) \<notin> set (timers s)"
  shows "core (clear_timer c s)"
proof -
  have t: "timers_ok s" using assms(1) by (simp add: core_def)
  have "timers_ok (clear_timer c s)"
  proof (rule timers_okI)
    show "distinct (map fst (timers (clear_timer c s)))" using t by (auto simp: timers_ok_def distinct_map_filter split: option.splits)
    show "h < nextHandle (clear_timer c s)" if "(h, x) \<in> set (timers (clear_timer c s))" for h x
      using that handle_bound [OF t, of h x] by (auto split: option.splits)
    show "\<exists>u. map_of (tasks (clear_timer c s)) m = Some u \<and> timer u = Some h"
      if "(h, due, Tick m) \<in> set (timers (clear_timer c s))" for m h due
      using that tick_task [OF t, of h due m] by (auto split: option.splits)
    show "\<exists>due. (h, due, Tick m) \<in> set (timers (clear_timer c s))"
      if "map_of (tasks (clear_timer c s)) m = Some u" "timer u = Some h" for m u h
      using that task_tick [OF t, of m u h] assms(2) by (auto split: option.splits)
    show "h < nextHandle (clear_timer c s) \<and> (h, due, Tick m) \<notin> set (timers (clear_timer c s))"
      if "r \<in> set (live (clear_timer c s))" "rn_timer r = Some h" for r h due m
      using that run_timer [OF t, of r h due m] by (auto split: option.splits)
  qed
  moreover have "runs_ok (clear_timer c s)" using assms(1) by (simp add: core_def runs_ok_def)
  ultimately show ?thesis using assms(1) by (simp add: core_def)
qed

lemma live_map_core:
  assumes "core s" "\<And>r. rn_name (f r) = rn_name r \<and> rn_timer (f r) = rn_timer r"
  shows "core (s\<lparr>live := map f (live s)\<rparr>)"
proof -
  have t: "timers_ok s" using assms(1) by (simp add: core_def)
  have "timers_ok (s\<lparr>live := map f (live s)\<rparr>)"
    by (rule timers_okI)
      (use t handle_bound [OF t] tick_task [OF t] task_tick [OF t] run_timer [OF t] assms(2) in \<open>auto simp: timers_ok_def\<close>)
  moreover have o: "rn_name \<circ> f = rn_name" using assms(2) by (simp add: fun_eq_iff)
  have "runs_ok (s\<lparr>live := map f (live s)\<rparr>)"
    using assms(1) unfolding core_def runs_ok_def by (simp add: image_image assms(2) o)
  ultimately show ?thesis using assms(1) by (simp add: core_def)
qed

lemma disarm_core:
  assumes "core s" "distinct (map fst ts)" "\<And>n t. (n, t) \<in> set ts \<Longrightarrow> map_of (tasks s) n = Some t"
  shows "core (disarm_all ts s) \<and> started (disarm_all ts s) = started s \<and> stopped (disarm_all ts s) = stopped s
    \<and> (\<forall>m. m \<notin> fst ` set ts \<longrightarrow> map_of (tasks (disarm_all ts s)) m = map_of (tasks s) m)
    \<and> (\<forall>m \<in> fst ` set ts. \<exists>t. map_of (tasks (disarm_all ts s)) m = Some t \<and> timer t = None)"
  using assms
proof (induction ts s rule: disarm_all.induct)
  case (2 n t rest s)
  define s1 where "s1 = put_task n (t\<lparr>timer := None, nextRunAt := None\<rparr>) (clear_timer (timer t) s)"
  have nt: "map_of (tasks s) n = Some t" using "2.prems"(3) by simp
  have c: "core s1" unfolding s1_def
    by (rule cleared_core [OF "2.prems"(1) nt]) (simp_all add: runs_ok_bound [OF "2.prems"(1) nt])
  have all: "map_of (tasks s1) m = Some u" if "(m, u) \<in> set rest" for m u
    using that "2.prems"(2) "2.prems"(3) [of m u] by (force simp: s1_def update_conv')
  have s1: "started s1 = started s" "stopped s1 = stopped s" "\<And>m. m \<noteq> n \<Longrightarrow> map_of (tasks s1) m = map_of (tasks s) m"
    "\<exists>u. map_of (tasks s1) n = Some u \<and> timer u = None"
    by (simp_all add: s1_def update_conv')
  have nin: "n \<notin> fst ` set rest" using "2.prems"(2) by simp
  have ih: "core (disarm_all rest s1) \<and> started (disarm_all rest s1) = started s1 \<and> stopped (disarm_all rest s1) = stopped s1
    \<and> (\<forall>m. m \<notin> fst ` set rest \<longrightarrow> map_of (tasks (disarm_all rest s1)) m = map_of (tasks s1) m)
    \<and> (\<forall>m \<in> fst ` set rest. \<exists>t. map_of (tasks (disarm_all rest s1)) m = Some t \<and> timer t = None)"
    unfolding s1_def by (rule "2.IH") (use c all "2.prems"(2) in \<open>simp_all add: s1_def\<close>)
  have "disarm_all ((n, t) # rest) s = disarm_all rest s1" by (simp add: s1_def)
  with ih s1 nin show ?case by auto
qed simp

text \<open>Runs begin and end.\<close>

definition new_entry :: "jstr \<Rightarrow> task \<Rightarrow> int \<Rightarrow> int \<Rightarrow> nat option \<Rightarrow> run_entry" where
  "new_entry n t sf now h = \<lparr> rn_name = n, rn_scheduledFor = sf, rn_count = runs t + 1, rn_startedAt = now,
     rn_timer = h, rn_aborted = False \<rparr>"

lemma run_task_cases:
  "run_task n t sf now s =
     (case td_timeoutMs (tdef t) of
        Some tmo \<Rightarrow> if 0 < tmo
          then (set_timer now tmo (TimeoutOf n) (put_task n (t\<lparr>running := True, lastRunAt := Some now\<rparr>) s))
                 \<lparr>live := live s @ [new_entry n t sf now (Some (nextHandle s))]\<rparr>
          else (put_task n (t\<lparr>running := True, lastRunAt := Some now\<rparr>) s)\<lparr>live := live s @ [new_entry n t sf now None]\<rparr>
      | None \<Rightarrow> (put_task n (t\<lparr>running := True, lastRunAt := Some now\<rparr>) s)\<lparr>live := live s @ [new_entry n t sf now None]\<rparr>)"
  by (simp add: run_task_def new_entry_def Let_def split: option.split)

lemma run_task_fields:
  "tasks (run_task n t sf now s) = AList.update n (t\<lparr>running := True, lastRunAt := Some now\<rparr>) (tasks s)"
  "started (run_task n t sf now s) = started s" "stopped (run_task n t sf now s) = stopped s"
  "arm_failed (run_task n t sf now s) = arm_failed s"
  "\<exists>h. live (run_task n t sf now s) = live s @ [new_entry n t sf now h]
     \<and> (h = None \<and> timers (run_task n t sf now s) = timers s \<and> nextHandle (run_task n t sf now s) = nextHandle s
        \<or> h = Some (nextHandle s) \<and> (\<exists>due. timers (run_task n t sf now s) = timers s @ [(nextHandle s, due, TimeoutOf n)])
          \<and> nextHandle (run_task n t sf now s) = Suc (nextHandle s))"
  by (simp_all add: run_task_cases split: option.split)

lemma run_task_timers:
  assumes "timers_ok s" "map_of (tasks s) n = Some t"
  shows "timers_ok (run_task n t sf now s)"
proof -
  define s' where "s' = run_task n t sf now s"
  obtain h where h: "live s' = live s @ [new_entry n t sf now h]"
    "h = None \<and> timers s' = timers s \<and> nextHandle s' = nextHandle s
     \<or> h = Some (nextHandle s) \<and> (\<exists>due. timers s' = timers s @ [(nextHandle s, due, TimeoutOf n)]) \<and> nextHandle s' = Suc (nextHandle s)"
    using run_task_fields(5) [of n t sf now s, folded s'_def] by (elim exE conjE) (rule that)
  have tick: "(i, due, Tick m) \<in> set (timers s') \<longleftrightarrow> (i, due, Tick m) \<in> set (timers s)" for i due m using h(2) by auto
  have old: "\<exists>t0. map_of (tasks s) m = Some t0 \<and> timer t0 = timer u" if "map_of (tasks s') m = Some u" for m u
    using that assms(2) by (cases "m = n") (auto simp: s'_def run_task_fields update_conv')
  have new: "\<exists>t0. map_of (tasks s') m = Some t0 \<and> timer t0 = timer u" if "map_of (tasks s) m = Some u" for m u
    using that assms(2) by (cases "m = n") (auto simp: s'_def run_task_fields update_conv')
  have fresh: "(nextHandle s, x) \<notin> set (timers s)" for x using handle_bound [OF assms(1)] by blast
  have "timers_ok s'"
  proof (rule timers_okI)
    show "distinct (map fst (timers s'))" using h(2) assms(1) fresh by (auto simp: timers_ok_def)
    show "i < nextHandle s'" if "(i, x) \<in> set (timers s')" for i x
      using that h(2) handle_bound [OF assms(1), of i x] by auto
    show "\<exists>u. map_of (tasks s') m = Some u \<and> timer u = Some i" if "(i, due, Tick m) \<in> set (timers s')" for m i due
      using tick_task [OF assms(1)] that [unfolded tick] new by metis
    show "\<exists>due. (i, due, Tick m) \<in> set (timers s')" if "map_of (tasks s') m = Some u" "timer u = Some i" for m u i
      using task_tick [OF assms(1)] that old unfolding tick by metis
    show "i < nextHandle s' \<and> (i, due, Tick m) \<notin> set (timers s')" if "r \<in> set (live s')" "rn_timer r = Some i" for r i due m
    proof (cases "r \<in> set (live s)")
      case True
      with run_timer [OF assms(1) True that(2), of due m] h(2) show ?thesis by auto
    next
      case False
      with that h(1) have "h = Some i" by (simp add: new_entry_def)
      with h(2) fresh show ?thesis by (auto simp: tick)
    qed
  qed
  then show ?thesis by (simp add: s'_def)
qed

lemma run_task_core:
  assumes "core s" "map_of (tasks s) n = Some t" "\<not> running t"
  shows "core (run_task n t sf now s)"
proof -
  have r: "runs_ok s" using assms(1) by (simp add: core_def)
  obtain h where h: "live (run_task n t sf now s) = live s @ [new_entry n t sf now h]"
    using run_task_fields(5) [of n t sf now s] by (elim exE conjE) (rule that)
  have "n \<notin> rn_name ` set (live s)" using r assms(2,3) by (auto simp: runs_ok_def)
  with r have d: "distinct (map rn_name (live s @ [new_entry n t sf now h]))" by (simp add: runs_ok_def new_entry_def)
  have m: "m \<in> rn_name ` set (live s @ [new_entry n t sf now h])
      \<longleftrightarrow> (\<exists>u. map_of (tasks (run_task n t sf now s)) m = Some u \<and> running u)" for m
    using r by (cases "m = n") (simp_all add: runs_ok_def run_task_fields update_conv' new_entry_def)
  have f: "failures u \<le> runs u" if "map_of (tasks (run_task n t sf now s)) m = Some u" for m u
    using that runs_ok_bound [OF assms(1), of m] runs_ok_bound [OF assms(1,2)]
    by (cases "m = n") (auto simp: run_task_fields update_conv')
  have "runs_ok (run_task n t sf now s)" unfolding runs_ok_def h using d m f by blast
  with run_task_timers [of s n t] assms show ?thesis by (simp add: core_def run_task_fields distinct_update)
qed

lemma clear_put: "clear_timer c (put_task n t s) = put_task n t (clear_timer c s)"
  by (simp add: clear_timer_def put_task_def split: option.split)

lemma live_sub_timers:
  assumes "timers_ok s" "set l \<subseteq> set (live s)"
  shows "timers_ok (s\<lparr>live := l\<rparr>)"
  by (rule timers_okI) (use assms(2) handle_bound [OF assms(1)] tick_task [OF assms(1)] task_tick [OF assms(1)]
    run_timer [OF assms(1)] assms(1) in \<open>auto simp: timers_ok_def\<close>)

lemma end_run_core:
  assumes "core s" "end_run n err now s = Some s'"
  shows "core s'"
proof -
  from assms(2) obtain r t where rt: "find (\<lambda>r. rn_name r = n) (live s) = Some r" "map_of (tasks s) n = Some t"
    unfolding end_run_def by (cases "find (\<lambda>r. rn_name r = n) (live s)"; cases "map_of (tasks s) n") simp_all
  define t' where "t' = t\<lparr>running := False, runs := runs t + 1, failures := failures t + (if err = None then 0 else 1),
    lastError := err, lastDurationMs := Some (now - rn_startedAt r)\<rparr>"
  define l where "l = filter (\<lambda>r. rn_name r \<noteq> n) (live s)"
  have s': "s' = (clear_timer (rn_timer r) (put_task n t' s))\<lparr>live := l\<rparr>"
    using assms(2) by (simp add: end_run_def rt t'_def l_def)
  have r: "r \<in> set (live s)" using rt(1) by (auto simp: find_Some_iff in_set_conv_nth)
  have t: "timers_ok s" and ro: "runs_ok s" using assms(1) by (simp_all add: core_def)
  have "core (clear_timer (rn_timer r) s)" by (rule clear_other [OF assms(1)]) (use run_timer [OF t r] in blast)
  then have tc: "timers_ok (clear_timer (rn_timer r) s)" by (simp add: core_def)
  have "timers_ok (put_task n t' (clear_timer (rn_timer r) s))"
    by (rule timers_ok_put [OF tc]) (simp add: rt t'_def)
  then have "timers_ok s'" unfolding s' clear_put by (rule live_sub_timers) (auto simp: l_def)
  moreover have "runs_ok s'" unfolding runs_ok_def
  proof (intro conjI allI impI)
    show "distinct (map rn_name (live s'))" using ro by (simp add: runs_ok_def s' l_def distinct_map_filter)
    show "(m \<in> rn_name ` set (live s')) = (\<exists>u. map_of (tasks s') m = Some u \<and> running u)" for m
      using ro by (cases "m = n") (auto simp: runs_ok_def s' l_def t'_def update_conv')
    show "failures u \<le> runs u" if "map_of (tasks s') m = Some u" for m u
      using that runs_ok_bound [OF assms(1), of m] runs_ok_bound [OF assms(1) rt(2)]
      by (cases "m = n") (auto simp: s' t'_def update_conv')
  qed
  ultimately show ?thesis using assms(1) by (simp add: core_def s' distinct_update)
qed

text \<open>Steps that keep every task's timer keep the rest of the invariant.\<close>

definition same_timers :: "sched \<Rightarrow> sched \<Rightarrow> bool" where
  "same_timers s s' \<longleftrightarrow> started s' = started s \<and> stopped s' = stopped s \<and> arm_failed s' = arm_failed s
     \<and> (\<forall>m. map_option timer (map_of (tasks s') m) = map_option timer (map_of (tasks s) m))"

lemma same_timersD:
  assumes "same_timers s s'" "map_of (tasks s') m = Some u"
  shows "\<exists>t. map_of (tasks s) m = Some t \<and> timer t = timer u"
proof -
  have "map_option timer (map_of (tasks s) m) = Some (timer u)"
    using assms unfolding same_timers_def by (metis option.simps(9))
  then show ?thesis by auto
qed

lemma same_timers_inv:
  assumes "sched_inv s" "same_timers s s'" "core s'"
  shows "sched_inv s'"
proof -
  have f: "started s' = started s" "stopped s' = stopped s" "arm_failed s' = arm_failed s"
    using assms(2) by (simp_all add: same_timers_def)
  have "quiet s'" unfolding quiet_def f
    using assms(1) same_timersD [OF assms(2)] unfolding sched_inv_def quiet_def by metis
  moreover have "all_armed s'" unfolding all_armed_def f
    using assms(1) same_timersD [OF assms(2)] unfolding sched_inv_def all_armed_def by metis
  ultimately show ?thesis using assms(3) by (simp add: sched_inv_def core_def)
qed

lemma inv_core: "sched_inv s \<Longrightarrow> core s"
  by (simp add: sched_inv_def core_def)

lemma invI:
  assumes "core s" "\<And>n t. \<not> started s \<or> stopped s \<Longrightarrow> map_of (tasks s) n = Some t \<Longrightarrow> timer t = None"
    and "\<And>n t. started s \<Longrightarrow> \<not> stopped s \<Longrightarrow> \<not> arm_failed s \<Longrightarrow> map_of (tasks s) n = Some t \<Longrightarrow> timer t \<noteq> None"
  shows "sched_inv s"
  using assms unfolding sched_inv_def core_def quiet_def all_armed_def by blast

lemma quiet_timer: "sched_inv s \<Longrightarrow> \<not> started s \<or> stopped s \<Longrightarrow> map_of (tasks s) n = Some t \<Longrightarrow> timer t = None"
  unfolding sched_inv_def quiet_def by blast

lemma armed_timer: "sched_inv s \<Longrightarrow> started s \<Longrightarrow> \<not> stopped s \<Longrightarrow> \<not> arm_failed s \<Longrightarrow> map_of (tasks s) n = Some t \<Longrightarrow> timer t \<noteq> None"
  unfolding sched_inv_def all_armed_def by blast

lemma run_inv:
  assumes "sched_inv s" "map_of (tasks s) n = Some t" "\<not> running t"
  shows "sched_inv (run_task n t sf now s)"
  by (rule same_timers_inv [OF assms(1) _ run_task_core [OF inv_core [OF assms(1)] assms(2,3)]])
    (use assms(2) in \<open>simp add: same_timers_def run_task_fields update_conv'\<close>)

lemma skip_inv:
  assumes "sched_inv s" "map_of (tasks s) n = Some t"
  shows "sched_inv (skip_run n t s)"
proof (rule same_timers_inv [OF assms(1)])
  show "same_timers s (skip_run n t s)" using assms(2) by (simp add: skip_run_def same_timers_def update_conv')
  show "core (skip_run n t s)" unfolding skip_run_def
    by (rule core_put [OF inv_core [OF assms(1)] assms(2)]) (simp_all add: runs_ok_bound [OF inv_core [OF assms(1)] assms(2)])
qed

lemma runNow_inv: "sched_inv s \<Longrightarrow> sched_inv (snd (runNow n now s))"
  by (auto simp: runNow_def run_inv skip_inv split: option.split)

lemma end_run_inv:
  assumes "sched_inv s" "end_run n err now s = Some s'"
  shows "sched_inv s'"
proof (rule same_timers_inv [OF assms(1) _ end_run_core [OF inv_core [OF assms(1)] assms(2)]])
  show "same_timers s s'"
    using assms(2) by (auto simp: end_run_def same_timers_def update_conv' split: option.splits)
qed

lemma grace_inv: "sched_inv s \<Longrightarrow> sched_inv (grace_elapsed s)"
  by (rule same_timers_inv [where s = s]) (simp_all add: grace_elapsed_def same_timers_def live_map_core inv_core)

lemma abort_inv:
  assumes "sched_inv s" "(h, due, TimeoutOf n) \<in> set (timers s)"
  shows "sched_inv ((clear_timer (Some h) s)\<lparr>live := map (\<lambda>r. if rn_name r = n then r\<lparr>rn_aborted := True\<rparr> else r) (live s)\<rparr>)"
proof (rule same_timers_inv [OF assms(1)])
  have t: "timers_ok s" using inv_core [OF assms(1)] by (simp add: core_def)
  have c: "core (clear_timer (Some h) s)"
    by (rule clear_other [OF inv_core [OF assms(1)]]) (use timer_unique [OF t assms(2)] in blast)
  show "core ((clear_timer (Some h) s)\<lparr>live := map (\<lambda>r. if rn_name r = n then r\<lparr>rn_aborted := True\<rparr> else r) (live s)\<rparr>)"
    using live_map_core [OF c, of "\<lambda>r. if rn_name r = n then r\<lparr>rn_aborted := True\<rparr> else r"] by simp
qed (simp add: same_timers_def)

lemma define_inv:
  assumes "sched_inv s"
  shows "sched_inv (snd (define_task zones d now s))"
proof (cases "check_def d s")
  case None
  show ?thesis
  proof (cases "compile_cron d")
    case (Inr f)
    define t where "t = fresh_task d f"
    define s1 where "s1 = put_task (td_name d) t s"
    have new: "map_of (tasks s) (td_name d) = None" using None by (auto simp: check_def_def split: if_splits)
    have tt: "timer t = None" "running t = False" "failures t = 0" by (simp_all add: t_def fresh_task_def)
    have c: "core s" by (rule inv_core [OF assms])
    then have "timers_ok s1" unfolding s1_def by (intro timers_ok_put) (simp_all add: core_def new tt)
    moreover have "runs_ok s1" using c new tt unfolding core_def runs_ok_def s1_def by (auto simp: update_conv')
    ultimately have c1: "core s1" using c by (simp add: core_def s1_def distinct_update)
    have s1t: "map_of (tasks s1) (td_name d) = Some t" by (simp add: s1_def update_conv')
    show ?thesis
    proof (cases "started s \<and> \<not> stopped s")
      case False
      then have "sched_inv s1"
        using tt(1) quiet_timer [OF assms] by (intro invI [OF c1]) (auto simp: s1_def update_conv' split: if_splits)
      moreover have "snd (define_task zones d now s) = s1"
        using False None Inr by (auto simp: define_task_def s1_def t_def Let_def)
      ultimately show ?thesis by simp
    next
      case True
      obtain r s2 where a: "arm zones (td_name d) t (td_runOnStart d) now s1 = (r, s2)" by fastforce
      note ac = arm_core [OF c1 s1t tt(1) a]
      have "sched_inv s2"
      proof (rule invI [OF ac(1)])
        show "timer u \<noteq> None" if "\<not> arm_failed s2" "map_of (tasks s2) m = Some u" for m u
          using that True ac(4) [of m] ac(5,8) armed_timer [OF assms, of m u]
          by (cases "m = td_name d") (auto simp: s1_def update_conv')
        show "timer u = None" if "\<not> started s2 \<or> stopped s2" for u
          using that True ac(2,3) by (simp add: s1_def)
      qed
      moreover have "snd (define_task zones d now s) = s2"
        using True None Inr a by (simp add: define_task_def s1_def t_def Let_def split: option.split)
      ultimately show ?thesis by simp
    qed
  qed (simp add: define_task_def None assms)
qed (simp add: define_task_def assms)

lemma start_inv:
  assumes "sched_inv s"
  shows "sched_inv (snd (start_sched zones now s))"
proof (cases "started s")
  case False
  define s1 where "s1 = s\<lparr>started := True, stopped := False\<rparr>"
  obtain r s2 where a: "arm_all zones (tasks s) now s1 = (r, s2)" by fastforce
  have c1: "core s1" by (rule core_cong [OF inv_core [OF assms]]) (simp_all add: s1_def)
  have d: "distinct (map fst (tasks s))" using assms by (simp add: sched_inv_def)
  have all: "map_of (tasks s1) n = Some t \<and> timer t = None" if "(n, t) \<in> set (tasks s)" for n t
    using that map_of_is_SomeI [OF d that] quiet_timer [OF assms] False by (simp add: s1_def)
  note aa = arm_all_core [OF c1 d all a]
  have "sched_inv s2"
  proof (rule invI)
    show "core s2" using aa by blast
    show "timer u = None" if "\<not> started s2 \<or> stopped s2" for u
      using that aa by (simp add: s1_def)
    show "timer u \<noteq> None" if "\<not> arm_failed s2" "map_of (tasks s2) m = Some u" for m u
    proof (cases "m \<in> fst ` set (tasks s)")
      case True
      with aa that show ?thesis by (auto simp: s1_def)
    next
      case False
      then have "map_of (tasks s1) m = None" by (simp add: s1_def map_of_eq_None_iff)
      with aa False that show ?thesis by auto
    qed
  qed
  with False a show ?thesis by (simp add: start_sched_def s1_def)
qed (simp add: start_sched_def assms)

lemma stop_inv:
  assumes "sched_inv s"
  shows "sched_inv (stop_sched s)"
proof -
  have c1: "core (s\<lparr>stopped := True\<rparr>)" by (rule core_cong [OF inv_core [OF assms]]) simp_all
  show ?thesis
  proof (cases "\<not> started s \<or> stopped s")
    case True
    then show ?thesis using quiet_timer [OF assms True] by (auto simp: stop_sched_def intro!: invI [OF c1])
  next
    case False
    have d: "distinct (map fst (tasks s))" using assms by (simp add: sched_inv_def)
    have all: "map_of (tasks (s\<lparr>stopped := True\<rparr>)) n = Some t" if "(n, t) \<in> set (tasks s)" for n t
      using map_of_is_SomeI [OF d that] by simp
    note dc = disarm_core [OF c1 d all]
    have "sched_inv (disarm_all (tasks s) (s\<lparr>stopped := True\<rparr>))"
    proof (rule invI)
      show "core (disarm_all (tasks s) (s\<lparr>stopped := True\<rparr>))" using dc by blast
      show "timer u = None" if "map_of (tasks (disarm_all (tasks s) (s\<lparr>stopped := True\<rparr>))) m = Some u" for m u
      proof (cases "m \<in> fst ` set (tasks s)")
        case True
        with dc that show ?thesis by auto
      next
        case False
        then have "map_of (tasks s) m = None" by (simp add: map_of_eq_None_iff)
        with dc False that show ?thesis by auto
      qed
      show "timer u \<noteq> None" if "\<not> stopped (disarm_all (tasks s) (s\<lparr>stopped := True\<rparr>))" for u
        using that dc by simp
    qed
    with False show ?thesis by (simp add: stop_sched_def)
  qed
qed

lemma count_named:
  "distinct (map rn_name l) \<Longrightarrow> length (filter (\<lambda>r. rn_name r = n) l) = (if n \<in> rn_name ` set l then 1 else 0)"
  by (induction l) (auto simp: filter_empty_conv)

lemma tick_cases:
  assumes "map_of (tasks s) n = Some t0" "\<not> stopped s" "arm zones n (t0\<lparr>timer := None\<rparr>) False now (put_task n (t0\<lparr>timer := None\<rparr>) s) = (r, s1)"
    "map_of (tasks s1) n = Some t1"
  shows "tick zones n now s = s1 \<or> (running t1 \<and> tick zones n now s = skip_run n t1 s1)
    \<or> (\<not> running t1 \<and> (\<exists>sf. tick zones n now s = run_task n t1 sf now s1))"
  using assms by (auto simp: tick_def Let_def split: option.split)

lemma tick_inv:
  assumes "sched_inv s" "(h, due, Tick n) \<in> set (timers s)"
  shows "sched_inv (tick zones n now (clear_timer (Some h) s))"
proof -
  have c: "core s" by (rule inv_core [OF assms(1)])
  then have tok: "timers_ok s" by (simp add: core_def)
  obtain t0 where t0: "map_of (tasks s) n = Some t0" "timer t0 = Some h" using tick_task [OF tok assms(2)] by blast
  have live: "started s" "\<not> stopped s" using quiet_timer [OF assms(1) _ t0(1)] t0(2) by auto
  define s0 where "s0 = put_task n (t0\<lparr>timer := None\<rparr>) (clear_timer (Some h) s)"
  have c0: "core s0"
    using cleared_core [OF c t0(1), of "t0\<lparr>timer := None\<rparr>"] runs_ok_bound [OF c t0(1)] by (simp add: s0_def t0(2))
  have s0t: "map_of (tasks s0) n = Some (t0\<lparr>timer := None\<rparr>)" by (simp add: s0_def update_conv')
  obtain r s1 where a: "arm zones n (t0\<lparr>timer := None\<rparr>) False now s0 = (r, s1)" by fastforce
  note ac = arm_core [OF c0 s0t _ a]
  have ac': "core s1" "started s1 = started s0" "stopped s1 = stopped s0" "arm_failed s0 \<Longrightarrow> arm_failed s1"
    "\<And>m. m \<noteq> n \<Longrightarrow> map_of (tasks s1) m = map_of (tasks s0) m" using ac(1-5) by simp_all
  obtain t1 where t1: "map_of (tasks s1) n = Some t1" "arm_failed s1 \<or> timer t1 \<noteq> None"
    using ac(8) live by (auto simp: s0_def)
  have i1: "sched_inv s1"
  proof (rule invI [OF ac'(1)])
    show "timer u = None" if "\<not> started s1 \<or> stopped s1" for u using that ac'(2,3) live by (simp add: s0_def)
    show "timer u \<noteq> None" if "\<not> arm_failed s1" "map_of (tasks s1) m = Some u" for m u
      using that t1 ac'(4) ac'(5) [of m] live armed_timer [OF assms(1), of m u]
      by (cases "m = n") (auto simp: s0_def update_conv')
  qed
  have "tick zones n now (clear_timer (Some h) s) = s1
      \<or> (running t1 \<and> tick zones n now (clear_timer (Some h) s) = skip_run n t1 s1)
      \<or> (\<not> running t1 \<and> (\<exists>sf. tick zones n now (clear_timer (Some h) s) = run_task n t1 sf now s1))"
    using tick_cases [of "clear_timer (Some h) s" n t0 zones now r s1 t1] t0(1) t1(1) a live by (simp add: s0_def)
  then show ?thesis using i1 skip_inv [OF i1 t1(1)] run_inv [OF i1 t1(1)] by metis
qed

lemma fire_inv:
  assumes "sched_inv s" "fire zones h now s = Some s'"
  shows "sched_inv s'"
proof -
  from assms(2) obtain due p where m: "map_of (timers s) h = Some (due, p)"
    by (cases "map_of (timers s) h") (auto simp: fire_def)
  have e: "(h, due, p) \<in> set (timers s)" using map_of_SomeD [OF m] .
  show ?thesis
  proof (cases p)
    case (Tick n)
    with assms(2) m have "s' = tick zones n now (clear_timer (Some h) s)" by (auto simp: fire_def Let_def split: if_splits)
    with tick_inv [OF assms(1)] e Tick show ?thesis by simp
  next
    case (TimeoutOf n)
    with assms(2) m have "s' = (clear_timer (Some h) s)\<lparr>live := map (\<lambda>r. if rn_name r = n then r\<lparr>rn_aborted := True\<rparr> else r) (live s)\<rparr>"
      by (auto simp: fire_def Let_def split: if_splits)
    with abort_inv [OF assms(1)] e TimeoutOf show ?thesis by simp
  qed
qed

lemma step_inv: "sched_inv s \<Longrightarrow> sched_step zones ev s = Some s' \<Longrightarrow> sched_inv s'"
proof (cases ev)
  case (Fire h now)
  assume "sched_inv s" "sched_step zones ev s = Some s'"
  then show ?thesis using fire_inv [of s zones h now s'] by (simp only: sched_step_def Fire sched_event.case)
next
  case (RunEnds n err now)
  assume "sched_inv s" "sched_step zones ev s = Some s'"
  then show ?thesis using end_run_inv [of s n err now s'] by (simp only: sched_step_def RunEnds sched_event.case)
qed (auto simp: sched_step_def define_inv start_inv stop_inv grace_inv runNow_inv)

lemma sched_reach_inv: "sched_reach zones s \<Longrightarrow> sched_inv s"
proof (induction rule: sched_reach.induct)
  case initial
  show ?case by (simp add: new_scheduler_def sched_inv_def timers_ok_def runs_ok_def quiet_def all_armed_def)
qed (rule step_inv)

section \<open>Properties\<close>

text \<open>
  C18. Single flight.  Whatever the order of definitions, starts, timer callbacks, manual runs,
  handler completions and stops, a task never has two runs in progress and its \<open>running\<close> flag
  says whether it has one; its pending timer is the only pending tick for it; while the scheduler
  runs every task is armed, unless computing a cron time has thrown; after \<open>stop\<close> none is; and
  \<open>failures\<close> never exceeds \<open>runs\<close>.
\<close>

theorem scheduler_single_flight:
  assumes "sched_reach zones s"
  shows "length (filter (\<lambda>r. rn_name r = n) (live s)) =
       (case map_of (tasks s) n of Some t \<Rightarrow> if running t then 1 else 0 | None \<Rightarrow> 0)
    \<and> (\<forall>t. map_of (tasks s) n = Some t \<longrightarrow>
         (\<forall>h. timer t = Some h \<longleftrightarrow> (\<exists>due. (h, due, Tick n) \<in> set (timers s)))
         \<and> (started s \<and> \<not> stopped s \<and> \<not> arm_failed s \<longrightarrow> timer t \<noteq> None) \<and> failures t \<le> runs t)
    \<and> (stopped s \<longrightarrow> (\<forall>h due. (h, due, Tick n) \<notin> set (timers s)))"
proof (intro conjI allI impI)
  note i = sched_reach_inv [OF assms]
  have tok: "timers_ok s" and ro: "runs_ok s" using i by (simp_all add: sched_inv_def)
  show "length (filter (\<lambda>r. rn_name r = n) (live s)) =
       (case map_of (tasks s) n of Some t \<Rightarrow> if running t then 1 else 0 | None \<Rightarrow> 0)"
    using count_named [of "live s" n] ro unfolding runs_ok_def by (simp split: option.split)
  show "(timer t = Some h) = (\<exists>due. (h, due, Tick n) \<in> set (timers s))" if "map_of (tasks s) n = Some t" for t h
    using that tick_task [OF tok, of h _ n] task_tick [OF tok, of n t h] by auto
  show "timer t \<noteq> None" if "map_of (tasks s) n = Some t" "started s \<and> \<not> stopped s \<and> \<not> arm_failed s" for t
    using armed_timer [OF i] that by blast
  show "(h, due, Tick n) \<notin> set (timers s)" if "stopped s" for h due
    using that tick_task [OF tok, of h due n] quiet_timer [OF i, of n] by auto
  show "failures t \<le> runs t" if "map_of (tasks s) n = Some t" for t by (rule runs_ok_bound [OF inv_core [OF i] that])
qed

fun sched_run :: "(jstr \<Rightarrow> int \<Rightarrow> wall_clock) \<Rightarrow> sched_event list \<Rightarrow> sched \<Rightarrow> sched option" where
  "sched_run zones [] s = Some s"
| "sched_run zones (ev # evs) s = (case sched_step zones ev s of None \<Rightarrow> None | Some s' \<Rightarrow> sched_run zones evs s')"

lemma run_reach: "sched_reach zones s \<Longrightarrow> sched_run zones evs s = Some s' \<Longrightarrow> sched_reach zones s'"
  by (induction evs arbitrary: s) (auto split: option.splits intro: sched_reach.event)

definition every :: "int \<Rightarrow> task_def" where
  "every ms = \<lparr> td_name = js ''t'', td_intervalMs = Some ms, td_cron = None, td_timeZone = None, td_runOnStart = False, td_timeoutMs = Some 500 \<rparr>"

definition utc_zones :: "jstr \<Rightarrow> int \<Rightarrow> wall_clock" where
  "utc_zones z = utc_wall"

text \<open>A tick at 1000, a second one while the first run is in progress, and a manual run refused.\<close>

definition busy :: "sched option" where
  "busy = sched_run utc_zones [Define (every 1000) 0, Start 0, Fire 0 1000, Fire 1 2000, RunNow (js ''t'') 2100] new_scheduler"

lemma busy_state:
  "\<exists>s t. busy = Some s \<and> map_of (tasks s) (js ''t'') = Some t \<and> running t \<and> skipped t = 2 \<and> started s \<and> \<not> stopped s \<and> \<not> arm_failed s
     \<and> timer t = Some 3"
  by (simp add: busy_def sched_step_def define_task_def check_def_def every_def compile_cron_def fresh_task_def
      new_scheduler_def put_task_def start_sched_def arm_def nextDelay_def set_timer_def timer_delay_def fire_def
      clear_timer_def tick_def run_task_def skip_run_def runNow_def Let_def js_trim_def is_js_space_def)

theorem scheduler_single_flight_witness:
  "\<exists>s. busy = Some s \<and> length (filter (\<lambda>r. rn_name r = js ''t'') (live s)) = 1 \<and> (\<exists>due. (3, due, Tick (js ''t'')) \<in> set (timers s))"
proof -
  obtain s t where s: "busy = Some s" "map_of (tasks s) (js ''t'') = Some t" "running t" "timer t = Some 3"
    using busy_state by blast
  have r: "sched_reach utc_zones s" by (rule run_reach [OF sched_reach.initial s(1) [unfolded busy_def]])
  note c = scheduler_single_flight [OF r, of "js ''t''"]
  have "length (filter (\<lambda>r. rn_name r = js ''t'') (live s)) = 1" using conjunct1 [OF c] s by simp
  moreover have "\<exists>due. (3, due, Tick (js ''t'')) \<in> set (timers s)"
    using conjunct1 [OF conjunct2 [OF c]] s(2,4) by blast
  ultimately show ?thesis using s(1) by blast
qed

lemma find_timer:
  assumes "timers_ok s" "(h, due, p) \<in> set (timers s)"
  shows "map_of (timers s) h = Some (due, p)"
  using assms by (simp add: timers_ok_def)

lemma tick_interval:
  fixes now :: int
  assumes "map_of (tasks s) n = Some t" "\<not> stopped s" "cronFields t = None" "td_intervalMs (tdef t) = Some d"
  defines "t1 \<equiv> t\<lparr>timer := None, nextRunAt := Some (now + d), timer := Some (nextHandle s)\<rparr>"
  defines "s1 \<equiv> set_timer now d (Tick n) (put_task n t1 (put_task n (t\<lparr>timer := None\<rparr>) s))"
  shows "tick zones n now s = (if running t then skip_run n t1 s1
    else run_task n t1 (case nextRunAt t of Some u \<Rightarrow> u | None \<Rightarrow> now) now s1)"
  using assms(1-4) by (simp add: tick_def arm_def nextDelay_def Let_def t1_def s1_def update_conv')

lemma run_keeps_timers: "e \<in> set (timers s) \<Longrightarrow> e \<in> set (timers (run_task n t sf now s))"
  by (simp add: run_task_cases split: option.split)

text \<open>
  A delay the platform cannot represent.  The timer is set with the whole delay, and a delay
  above \<open>2 ^ 31 - 1\<close> milliseconds is one millisecond to \<open>setTimeout\<close>.  So a tick of a task with
  such an interval (30 days, for instance) sets the next tick one millisecond later, while
  \<open>nextRunAt\<close> announces a whole interval, and unless a run is in progress the handler runs.
\<close>

lemma long_delay_fires_early:
  assumes "sched_reach zones s" "map_of (tasks s) n = Some t" "cronFields t = None" "td_intervalMs (tdef t) = Some d"
    and "2147483647 < d" "(h, due, Tick n) \<in> set (timers s)" "due \<le> now"
  shows "\<exists>s'. fire zones h now s = Some s' \<and> (nextHandle s, now + 1, Tick n) \<in> set (timers s')
    \<and> (\<exists>t'. map_of (tasks s') n = Some t' \<and> nextRunAt t' = Some (now + d) \<and> running t')
    \<and> (\<not> running t \<longrightarrow> (\<exists>r \<in> set (live s'). rn_name r = n \<and> rn_startedAt r = now))"
proof -
  note i = sched_reach_inv [OF assms(1)]
  have tok: "timers_ok s" using i by (simp add: sched_inv_def)
  have th: "timer t = Some h" using tick_task [OF tok assms(6)] assms(2) by simp
  have ns: "\<not> stopped s" using quiet_timer [OF i _ assms(2)] th by auto
  define c where "c = clear_timer (Some h) s"
  have ct: "map_of (tasks c) n = Some t" "\<not> stopped c" "nextHandle c = nextHandle s" using assms(2) ns by (simp_all add: c_def)
  define t1 where "t1 = t\<lparr>timer := None, nextRunAt := Some (now + d), timer := Some (nextHandle c)\<rparr>"
  define s1 where "s1 = set_timer now d (Tick n) (put_task n t1 (put_task n (t\<lparr>timer := None\<rparr>) c))"
  define sf where "sf = (case nextRunAt t of Some u \<Rightarrow> u | None \<Rightarrow> now)"
  have f: "fire zones h now s = Some (if running t then skip_run n t1 s1 else run_task n t1 sf now s1)"
    using find_timer [OF tok assms(6)] assms(7) tick_interval [OF ct(1,2) assms(3,4), of zones now]
    by (simp add: fire_def c_def t1_def s1_def sf_def)
  have e: "(nextHandle s, now + 1, Tick n) \<in> set (timers s1)"
    using assms(5) by (simp add: s1_def timer_delay_def ct(3))
  show ?thesis
  proof (cases "running t")
    case True
    then show ?thesis using f e by (simp add: skip_run_def update_conv' t1_def)
  next
    case False
    obtain hh where l: "live (run_task n t1 sf now s1) = live s1 @ [new_entry n t1 sf now hh]"
      using run_task_fields(5) [of n t1 sf now s1] by (elim exE conjE) (rule that)
    show ?thesis using False f run_keeps_timers [OF e, of n t1 sf now]
      by (simp add: run_task_fields update_conv' t1_def [symmetric] l new_entry_def) (simp add: t1_def)
  qed
qed

definition monthly_scheduler :: "sched option" where
  "monthly_scheduler = sched_run utc_zones [Define (every 2592000000) 0, Start 0] new_scheduler"

lemma long_delay_fires_early_example:
  "\<exists>s s'. monthly_scheduler = Some s \<and> fire utc_zones 0 1 s = Some s' \<and> (1, 2, Tick (js ''t'')) \<in> set (timers s')"
proof -
  have "\<exists>s t. monthly_scheduler = Some s \<and> map_of (tasks s) (js ''t'') = Some t \<and> cronFields t = None
      \<and> td_intervalMs (tdef t) = Some 2592000000 \<and> (0, 1, Tick (js ''t'')) \<in> set (timers s) \<and> nextHandle s = 1"
    by (simp add: monthly_scheduler_def sched_step_def define_task_def check_def_def every_def compile_cron_def fresh_task_def
      new_scheduler_def put_task_def start_sched_def arm_def nextDelay_def set_timer_def timer_delay_def
      Let_def js_trim_def is_js_space_def)
  then obtain s t where s: "monthly_scheduler = Some s" "map_of (tasks s) (js ''t'') = Some t" "cronFields t = None"
    "td_intervalMs (tdef t) = Some 2592000000" "(0, 1, Tick (js ''t'')) \<in> set (timers s)" "nextHandle s = 1" by blast
  have r: "sched_reach utc_zones s" by (rule run_reach [OF sched_reach.initial s(1) [unfolded monthly_scheduler_def]])
  from long_delay_fires_early [OF r s(2-4) _ s(5), of 1] s(1,6) show ?thesis by auto
qed

end
