(* ===== verification/SafeRedirect.thy ===== *)
theory SafeRedirect
  imports JsText
begin

text \<open>
  \<open>safe-redirect.ts\<close>: classification of a redirect target and the redirect response.

  The URL parser is the parameter \<open>url\<close>: what \<open>new URL(s)\<close> makes of an absolute URL, or that it
  throws.  The specification side, \<open>leaves_origin\<close>, is how a browser resolves a
  \<open>Location\<close> against an \<open>http(s)\<close> page (WHATWG URL): leading controls and spaces are
  stripped, tabs and newlines removed, and then two slashes in front, of either direction, or a
  scheme lead to another origin.
\<close>

section \<open>Options and results\<close>

datatype block_reason = EmptyTarget | InvalidControlCharacters | NonLatin1Target | ProtocolRelative | BackslashPath
  | PathNotAllowed | OriginNotAllowed | SchemeNotAllowed | ParseFailed

record safe_opts =
  allowedPaths :: "jstr list"
  allowedOrigins :: "jstr list"
  fallback :: "jstr option"
  status :: nat
  extra_headers :: "(jstr, jstr) assoc"

record parsed_url =
  url_protocol :: jstr
  url_origin :: jstr
  url_href :: jstr

datatype redirect_error = BadStatus nat | BadPath jstr | BadOrigin jstr | NotBareOrigin jstr | BadFallback jstr
  | Blocked block_reason jstr

record redirect_response =
  rr_status :: nat
  rr_headers :: "(jstr, jstr) assoc"

definition forbidden_schemes :: "jstr list" where
  "forbidden_schemes = map js [''javascript:'', ''data:'', ''vbscript:'', ''file:'']"

definition redirect_statuses :: "nat list" where
  "redirect_statuses = [301, 302, 303, 307, 308]"

section \<open>Classification\<close>

definition control_char :: "nat \<Rightarrow> bool" where
  "control_char c \<longleftrightarrow> c \<le> 31 \<or> (127 \<le> c \<and> c \<le> 159)"

text \<open>Does the text hold a percent sign followed by two units with the property?\<close>

fun has_pct :: "(nat \<Rightarrow> nat \<Rightarrow> bool) \<Rightarrow> jstr \<Rightarrow> bool" where
  "has_pct P (c # d # e # s) = (c = 37 \<and> P d e \<or> has_pct P (d # e # s))"
| "has_pct P _ = False"

definition encoded_control :: "nat \<Rightarrow> nat \<Rightarrow> bool" where
  "encoded_control d e \<longleftrightarrow> ((d = 48 \<or> d = 49) \<and> is_hex e) \<or> (d = 55 \<and> (e = 102 \<or> e = 70))"

definition encoded_backslash :: "nat \<Rightarrow> nat \<Rightarrow> bool" where
  "encoded_backslash d e \<longleftrightarrow> d = 53 \<and> (e = 99 \<or> e = 67)"

definition hasEncodedBackslash :: "jstr \<Rightarrow> bool" where
  "hasEncodedBackslash v = has_pct encoded_backslash v"

fun starts_slash_2f :: "jstr \<Rightarrow> bool" where
  "starts_slash_2f (a # b # c # d # s) = (a = 47 \<and> b = 37 \<and> c = 50 \<and> (d = 102 \<or> d = 70))"
| "starts_slash_2f _ = False"

fun starts_two :: "nat \<Rightarrow> nat \<Rightarrow> jstr \<Rightarrow> bool" where
  "starts_two x y (a # b # s) = (a = x \<and> b = y)"
| "starts_two x y _ = False"

fun encoded_prefix_rounds :: "nat \<Rightarrow> jstr \<Rightarrow> bool" where
  "encoded_prefix_rounds 0 raw = starts_two 47 47 raw"
| "encoded_prefix_rounds (Suc n) raw =
     (if starts_slash_2f raw then True
      else (case decodeURIComponent raw of
          None \<Rightarrow> False
        | Some decoded \<Rightarrow> (if decoded = raw then False else encoded_prefix_rounds n decoded)))"

definition hasEncodedProtocolRelativePrefix :: "jstr \<Rightarrow> bool" where
  "hasEncodedProtocolRelativePrefix v = encoded_prefix_rounds 3 v"

definition pathname_of :: "jstr \<Rightarrow> jstr" where
  "pathname_of target = takeWhile (\<lambda>c. c \<noteq> 63 \<and> c \<noteq> 35) target"

definition classify :: "(jstr \<Rightarrow> parsed_url option) \<Rightarrow> jstr \<Rightarrow> jstr list \<Rightarrow> jstr list \<Rightarrow> block_reason + jstr" where
  "classify url target paths origins =
     (if target = [] then Inl EmptyTarget
      else if list_ex control_char target then Inl InvalidControlCharacters
      else if has_pct encoded_control target then Inl InvalidControlCharacters
      else if starts_two 47 47 target then Inl ProtocolRelative
      else if starts_two 47 92 target then Inl BackslashPath
      else if hasEncodedBackslash target then Inl BackslashPath
      else if hasEncodedProtocolRelativePrefix target then Inl ProtocolRelative
      else if hd target = 47 then
        (if 92 \<in> set target then Inl BackslashPath
         else if list_ex (\<lambda>c. 255 < c) target then Inl NonLatin1Target
         else if paths = [] then Inl PathNotAllowed
         else if js ''/*'' \<in> set paths then Inr target
         else if pathname_of target \<notin> set paths then Inl PathNotAllowed
         else Inr target)
      else (case url target of
          None \<Rightarrow> Inl ParseFailed
        | Some u \<Rightarrow>
            (if to_lower (url_protocol u) \<in> set forbidden_schemes then Inl SchemeNotAllowed
             else if url_origin u \<notin> set origins then Inl OriginNotAllowed
             else Inr (url_href u))))"

section \<open>The response\<close>

definition buildResponse :: "jstr \<Rightarrow> nat \<Rightarrow> (jstr, jstr) assoc \<Rightarrow> redirect_response" where
  "buildResponse location st headers =
     (let merged = AList.update (js ''location'') location headers in
      \<lparr> rr_status = st, rr_headers = (if map_of merged (js ''cache-control'') = None
          then AList.update (js ''cache-control'') (js ''no-store'') merged else merged) \<rparr>)"

fun check_paths :: "jstr list \<Rightarrow> redirect_error option" where
  "check_paths [] = None"
| "check_paths (p # ps) = (if p \<noteq> js ''/*'' \<and> (p = [] \<or> hd p \<noteq> 47) then Some (BadPath p) else check_paths ps)"

fun check_origins :: "(jstr \<Rightarrow> parsed_url option) \<Rightarrow> jstr list \<Rightarrow> redirect_error option" where
  "check_origins url [] = None"
| "check_origins url (x # xs) =
     (if x = [] then Some (BadOrigin x)
      else (case url x of
          None \<Rightarrow> Some (BadOrigin x)
        | Some u \<Rightarrow> (if url_origin u \<noteq> x then Some (NotBareOrigin x) else check_origins url xs)))"

definition safeRedirect :: "(jstr \<Rightarrow> parsed_url option) \<Rightarrow> jstr \<Rightarrow> safe_opts \<Rightarrow> redirect_error + redirect_response" where
  "safeRedirect url target o1 =
     (if status o1 \<notin> set redirect_statuses then Inl (BadStatus (status o1))
      else (case check_paths (allowedPaths o1) of
          Some e \<Rightarrow> Inl e
        | None \<Rightarrow>
            (case check_origins url (allowedOrigins o1) of
               Some e \<Rightarrow> Inl e
             | None \<Rightarrow>
                 (case classify url target (allowedPaths o1) (allowedOrigins o1) of
                    Inr location \<Rightarrow> Inr (buildResponse location (status o1) (extra_headers o1))
                  | Inl reason \<Rightarrow>
                      (case fallback o1 of
                         None \<Rightarrow> Inl (Blocked reason target)
                       | Some fb \<Rightarrow>
                           (case classify url fb [js ''/*''] [] of
                              Inl e \<Rightarrow> Inl (BadFallback fb)
                            | Inr location \<Rightarrow>
                                (if fb = [] \<or> hd fb \<noteq> 47 \<or> starts_two 47 47 fb then Inl (BadFallback fb)
                                 else Inr (buildResponse location (status o1) (extra_headers o1)))))))))"

section \<open>How a browser reads a location\<close>

fun scheme_tail :: "jstr \<Rightarrow> bool" where
  "scheme_tail [] = False"
| "scheme_tail (c # s) =
     (if c = 58 then True
      else if is_digit c \<or> (65 \<le> c \<and> c \<le> 90) \<or> (97 \<le> c \<and> c \<le> 122) \<or> c \<in> {43, 45, 46} then scheme_tail s else False)"

definition has_scheme :: "jstr \<Rightarrow> bool" where
  "has_scheme s = (case s of [] \<Rightarrow> False | c # t \<Rightarrow> ((65 \<le> c \<and> c \<le> 90) \<or> (97 \<le> c \<and> c \<le> 122)) \<and> scheme_tail t)"

definition slashes :: "jstr \<Rightarrow> bool" where
  "slashes s = (case s of a # b # _ \<Rightarrow> a \<in> {47, 92} \<and> b \<in> {47, 92} | _ \<Rightarrow> False)"

definition leaves_origin :: "jstr \<Rightarrow> bool" where
  "leaves_origin loc =
     (let s = filter (\<lambda>c. c \<notin> {9, 10, 13}) (dropWhile (\<lambda>c. c \<le> 32) loc) in slashes s \<or> has_scheme s)"

fun decode_times :: "nat \<Rightarrow> jstr \<Rightarrow> jstr option" where
  "decode_times 0 s = Some s"
| "decode_times (Suc n) s = (case decodeURIComponent s of None \<Rightarrow> None | Some d \<Rightarrow> decode_times n d)"

definition safe_path :: "jstr \<Rightarrow> bool" where
  "safe_path loc \<longleftrightarrow> loc \<noteq> [] \<and> hd loc = 47 \<and> \<not> leaves_origin loc \<and> 92 \<notin> set loc
     \<and> list_all (\<lambda>c. \<not> control_char c \<and> c \<le> 255) loc
     \<and> (\<forall>n d. n \<le> 3 \<and> decode_times n loc = Some d \<longrightarrow> \<not> starts_two 47 47 d)"

section \<open>Decoding a leading slash\<close>

lemma utf8_step_high: "utf8_step (b # bs) = Some (cp, r) \<Longrightarrow> 128 \<le> b \<Longrightarrow> 128 \<le> cp"
  by (auto simp: Let_def split: if_splits list.splits)

lemma decode_escape_slash:
  assumes "decode_escape s = Some (47 # u, r)"
  shows "pct_byte s = Some (47, r)"
proof -
  obtain b r1 where b: "pct_byte s = Some (b, r1)" using assms by (auto simp: decode_escape_def split: option.splits)
  show ?thesis
  proof (cases "b < 128")
    case True
    then show ?thesis using assms b by (simp add: decode_escape_ascii)
  next
    case False
    then obtain bs cp where p: "pct_bytes (utf8_len b) s = Some (bs, r)" "utf8_step bs = Some (cp, [])" "utf16 cp = 47 # u" "utf8_len b \<noteq> 0"
      using assms b by (auto simp: decode_escape_ascii split: option.splits if_splits list.splits)
    then obtain bs' where "bs = b # bs'" using b by (cases "utf8_len b") (auto split: option.splits)
    then have "128 \<le> cp" using utf8_step_high p(2) False by simp
    then show ?thesis using p(3) by (auto simp: utf16_def split: if_splits)
  qed
qed

lemma pct_byte_slash: "pct_byte s = Some (47, r) \<Longrightarrow> \<exists>d. s = 37 # 50 # d # r \<and> (d = 102 \<or> d = 70)"
proof (induction s rule: pct_byte.induct)
  case (1 p a b r')
  then obtain h l where hl: "hex_val a = Some h" "hex_val b = Some l" "p = 37" "h * 16 + l = 47" "r' = r"
    by (auto split: option.splits if_splits)
  then have "l < 16" by (auto simp: hex_val_def split: if_splits)
  with hl(4) have "h = 2" "l = 15" by presburger+
  then have "a = 50" "b = 102 \<or> b = 70" using hl(1,2) by (auto simp: hex_val_def split: if_splits)
  then show ?case using hl(3,5) by simp
qed simp_all

text \<open>A decoding that begins with a slash comes from a slash or from \<open>%2f\<close>.\<close>

lemma decoded_slash:
  assumes "decodeURIComponent s = Some (47 # d)"
  shows "(\<exists>t. s = 47 # t) \<or> (\<exists>t x. s = 37 # 50 # x # t \<and> (x = 102 \<or> x = 70))"
proof (cases s)
  case (Cons c t)
  show ?thesis
  proof (cases "c = 37")
    case False
    then show ?thesis using assms Cons by auto
  next
    case True
    then obtain u r where u1: "decode_escape s = Some (u, r)" using assms Cons by (cases "decode_escape s") auto
    then obtain d' where "u @ d' = 47 # d" using assms Cons True by auto
    then have "47 # d = u @ d'" by simp
    with u1 have u: "decode_escape s = Some (u, r)" "47 # d = u @ d'" by blast+
    moreover have "u \<noteq> []"
      using u(1) by (auto simp: decode_escape_def utf16_def split: option.splits if_splits list.splits prod.splits)
    ultimately obtain u' where "decode_escape s = Some (47 # u', r)" by (cases u) auto
    then show ?thesis using pct_byte_slash decode_escape_slash by blast
  qed
qed (use assms in simp)

lemma decode_keeps_slash: "decodeURIComponent (47 # t) = Some d \<Longrightarrow> \<exists>d'. d = 47 # d' \<and> decodeURIComponent t = Some d'"
  by auto

lemma decode_step_safe:
  assumes "\<not> starts_slash_2f (47 # t)" "\<not> starts_two 47 47 (47 # t)" "decodeURIComponent (47 # t) = Some d"
  shows "\<exists>t'. d = 47 # t' \<and> \<not> starts_two 47 47 d"
proof -
  obtain t' where t': "d = 47 # t'" "decodeURIComponent t = Some t'" using decode_keeps_slash [OF assms(3)] by blast
  have "\<not> starts_two 47 47 d"
  proof
    assume "starts_two 47 47 d"
    then obtain e where "t' = 47 # e" using t'(1) by (cases t') auto
    then show False using decoded_slash [of t e] t'(2) assms(1,2) by auto
  qed
  then show ?thesis using t'(1) by blast
qed

lemma decode_fixed: "decodeURIComponent s = Some s \<Longrightarrow> decode_times n s = Some d \<Longrightarrow> d = s"
  by (induction n) auto

lemma rounds_safe:
  assumes "\<not> encoded_prefix_rounds k (47 # t)" "\<not> starts_two 47 47 (47 # t)" "n \<le> k" "decode_times n (47 # t) = Some d"
  shows "\<not> starts_two 47 47 d"
  using assms
proof (induction n arbitrary: k t)
  case (Suc n)
  then obtain k' where k: "k = Suc k'" "n \<le> k'" by (cases k) auto
  obtain e where e: "decodeURIComponent (47 # t) = Some e" "decode_times n e = Some d" using Suc.prems(4) by (auto split: option.splits)
  have ns: "\<not> starts_slash_2f (47 # t)" using Suc.prems(1) k by (auto split: if_splits)
  show ?case
  proof (cases "e = 47 # t")
    case True
    then have "d = 47 # t" using decode_fixed e by metis
    then show ?thesis using Suc.prems(2) by simp
  next
    case False
    obtain t' where t': "e = 47 # t'" "\<not> starts_two 47 47 e" using decode_step_safe [OF ns Suc.prems(2) e(1)] by blast
    have "\<not> encoded_prefix_rounds k' e" using Suc.prems(1) k ns e(1) False by (simp del: decodeURIComponent.simps)
    then show ?thesis using Suc.IH [of k' t'] t' k(2) e(2) by simp
  qed
qed simp

section \<open>Properties\<close>

lemma classify_path:
  assumes "classify url target paths origins = Inr loc" "hd target = 47"
  shows "loc = target \<and> safe_path loc \<and> (js ''/*'' \<in> set paths \<or> pathname_of loc \<in> set paths)"
proof -
  have c: "target \<noteq> []" "\<not> list_ex control_char target" "\<not> starts_two 47 47 target" "\<not> starts_two 47 92 target"
    "\<not> encoded_prefix_rounds 3 target" "92 \<notin> set target" "\<not> list_ex (\<lambda>c. 255 < c) target"
    and r: "loc = target" "js ''/*'' \<in> set paths \<or> pathname_of loc \<in> set paths"
    using assms by (auto simp: classify_def hasEncodedProtocolRelativePrefix_def simp del: encoded_prefix_rounds.simps split: if_splits)
  obtain t where t: "target = 47 # t" using c(1) assms(2) by (cases target) auto
  have nc: "list_all (\<lambda>c. \<not> control_char c \<and> c \<le> 255) target"
    using c(2,7) by (auto simp: list_all_iff list_ex_iff not_less)
  have "filter (\<lambda>c. c \<notin> {9, 10, 13}) (dropWhile (\<lambda>c. c \<le> 32) target) = target"
  proof -
    have "dropWhile (\<lambda>c. c \<le> 32) target = target" by (simp add: t)
    then show ?thesis using nc by (auto simp: filter_id_conv list_all_iff control_char_def)
  qed
  moreover have "\<not> slashes target" using c(3,4) by (cases t) (auto simp: slashes_def t)
  ultimately have "\<not> leaves_origin target" by (simp add: leaves_origin_def has_scheme_def t Let_def)
  moreover have "\<not> starts_two 47 47 d" if "n \<le> 3" "decode_times n target = Some d" for n d
    using rounds_safe [of 3 t n d] that c(3,5) t by metis
  moreover have "target \<noteq> [] \<and> hd target = 47" using t by simp
  ultimately have "safe_path target" unfolding safe_path_def using nc c(6) by blast
  then show ?thesis using r by simp
qed

lemma classify_url:
  assumes "classify url target paths origins = Inr loc" "hd target \<noteq> 47"
  shows "\<exists>u. url target = Some u \<and> loc = url_href u \<and> url_origin u \<in> set origins \<and> to_lower (url_protocol u) \<notin> set forbidden_schemes"
  using assms by (auto simp: classify_def split: if_splits option.splits)

lemma location_header: "map_of (rr_headers (buildResponse loc st hs)) (js ''location'') = Some loc"
  by (simp add: buildResponse_def Let_def update_conv')

text \<open>
  C20. No open redirect.  Every redirect that is built points to a path of the same origin, as a
  browser resolves it and after up to three percent-decodings, whose pathname is allowed (or
  which is the configured fallback), or to an absolute URL with an allowed origin.
\<close>

theorem redirect_stays_allowed:
  assumes "safeRedirect url target o1 = Inr res" "map_of (rr_headers res) (js ''location'') = Some loc"
  shows "rr_status res = status o1 \<and> status o1 \<in> {301, 302, 303, 307, 308}
    \<and> (safe_path loc \<and> (loc = target \<and> (js ''/*'' \<in> set (allowedPaths o1) \<or> pathname_of loc \<in> set (allowedPaths o1)) \<or> fallback o1 = Some loc)
       \<or> (\<exists>u. url target = Some u \<and> loc = url_href u \<and> url_origin u \<in> set (allowedOrigins o1)
              \<and> to_lower (url_protocol u) \<notin> set forbidden_schemes))"
proof -
  from assms(1) obtain l where res: "res = buildResponse l (status o1) (extra_headers o1)" and st: "status o1 \<in> set redirect_statuses"
    and l: "classify url target (allowedPaths o1) (allowedOrigins o1) = Inr l
      \<or> (\<exists>fb. fallback o1 = Some fb \<and> classify url fb [js ''/*''] [] = Inr l \<and> hd fb = 47)"
    by (auto simp: safeRedirect_def split: if_splits option.splits sum.splits)
  have loc: "loc = l" using assms(2) location_header by (simp add: res)
  have s: "rr_status res = status o1 \<and> status o1 \<in> {301, 302, 303, 307, 308}"
    using st by (simp add: res buildResponse_def redirect_statuses_def Let_def)
  from l show ?thesis
  proof
    assume c: "classify url target (allowedPaths o1) (allowedOrigins o1) = Inr l"
    show ?thesis
      by (cases "hd target = 47") (use classify_path [OF c] classify_url [OF c] s loc in blast)+
  next
    assume "\<exists>fb. fallback o1 = Some fb \<and> classify url fb [js ''/*''] [] = Inr l \<and> hd fb = 47"
    then obtain fb where fb: "fallback o1 = Some fb" "classify url fb [js ''/*''] [] = Inr l" "hd fb = 47" by blast
    from classify_path [OF fb(2,3)] fb(1) s loc show ?thesis by blast
  qed
qed

definition next_opts :: safe_opts where
  "next_opts = \<lparr> allowedPaths = [js ''/dashboard''], allowedOrigins = [], fallback = Some (js ''/''), status = 303, extra_headers = [] \<rparr>"

theorem redirect_stays_allowed_witness:
  "\<exists>res. safeRedirect (\<lambda>_. None) (js ''/dashboard?tab=1'') next_opts = Inr res \<and> rr_status res = 303 \<and> safe_path (js ''/dashboard?tab=1'')"
proof -
  have r: "safeRedirect (\<lambda>_. None) (js ''/dashboard?tab=1'') next_opts
      = Inr \<lparr> rr_status = 303, rr_headers = [(js ''location'', js ''/dashboard?tab=1''), (js ''cache-control'', js ''no-store'')] \<rparr>"
    by (simp add: safeRedirect_def next_opts_def redirect_statuses_def classify_def control_char_def encoded_control_def hasEncodedBackslash_def
      hasEncodedProtocolRelativePrefix_def eval_nat_numeral pathname_of_def buildResponse_def)
  from redirect_stays_allowed [OF r, of "js ''/dashboard?tab=1''"] show ?thesis
    using r by (auto simp: next_opts_def)
qed

text \<open>
  Nested escapes.  An encoded backslash is looked for in the target only, while an encoded
  slash is looked for under three decodings; and the search for encoded slashes stops at the
  first malformed escape.  So a target is accepted whose second decoding a browser takes to
  another host.
\<close>

lemma nested_backslash_accepted:
  "classify url (js ''/%255cevil.example'') [js ''/*''] [] = Inr (js ''/%255cevil.example'')
   \<and> decode_times 2 (js ''/%255cevil.example'') = Some (47 # 92 # js ''evil.example'') \<and> leaves_origin (47 # 92 # js ''evil.example'')
   \<and> classify url (js ''/%252fevil.example'') [js ''/*''] [] = Inl ProtocolRelative
   \<and> classify url (js ''/%252fevil.example/%'') [js ''/*''] [] = Inr (js ''/%252fevil.example/%'')"
  by (simp add: classify_def control_char_def encoded_control_def hasEncodedBackslash_def encoded_backslash_def
      hasEncodedProtocolRelativePrefix_def eval_nat_numeral leaves_origin_def slashes_def decode_escape_ascii hex_val_def utf8_len_def is_hex_def)

end
