(* ===== verification/ConnInfo.thy ===== *)
theory ConnInfo
  imports IpMatch
begin

text \<open>
  The client address of \<open>conn-info.ts\<close>: the peer of the socket, the headers proxies set, and
  the trust policies that decide which of them names the client (\<open>behindProxy\<close> of the
  application, \<open>trustedHops\<close> / \<open>trustedProxies\<close> of a middleware), with the resolver that
  \<open>ip-restriction.ts\<close> builds from them.
\<close>

section \<open>The request, as far as the resolvers read it\<close>

record conn_request =
  peer :: "jstr option"
  h_xff :: "jstr option"
  h_forwarded :: "jstr option"
  h_cf :: "jstr option"
  h_realip :: "jstr option"

datatype header_source = XForwardedFor | ForwardedHeader | CfConnectingIp

datatype proxy_config = ProxyNone | Loopback | Hops int "header_source option" | Cidrs "jstr list" "header_source option"

section \<open>Slots\<close>

definition pickByHops :: "jstr list \<Rightarrow> int \<Rightarrow> jstr option" where
  "pickByHops parts hops =
     (if int (length parts) < hops then None
      else (let selected = js_trim (parts ! nat (int (length parts) - hops)) in
            if selected \<noteq> [] \<and> parseIp selected \<noteq> None then Some selected else None))"

definition pickForwardedForByHops :: "jstr option \<Rightarrow> int \<Rightarrow> jstr option" where
  "pickForwardedForByHops header hops =
     (case header of
        None \<Rightarrow> None
      | Some h \<Rightarrow> (if h = [] \<or> hops < 1 then None else pickByHops (split_on 44 h) hops))"

text \<open>The quoted-pair replacement \<open>/\\(.)/g\<close>; the dot excludes line terminators.\<close>

fun unquote_pairs :: "jstr \<Rightarrow> jstr" where
  "unquote_pairs [] = []"
| "unquote_pairs [c] = [c]"
| "unquote_pairs (c # d # s) =
     (if c = 92 \<and> d \<notin> {10, 13, 8232, 8233} then d # unquote_pairs s else c # unquote_pairs (d # s))"

definition strip_port :: "jstr \<Rightarrow> jstr" where
  "strip_port v =
     (let firstColon = takeWhile (\<lambda>c. c \<noteq> 58) v in
      if 58 \<in> set v \<and> firstColon \<noteq> [] \<and> 58 \<notin> set (drop (Suc (length firstColon)) v) then firstColon else v)"

definition node_name :: "jstr \<Rightarrow> jstr" where
  "node_name v0 =
     (let v = (if 2 \<le> length v0 \<and> hd v0 = 34 \<and> last v0 = 34 then unquote_pairs (butlast (tl v0)) else v0) in
      if v \<noteq> [] \<and> hd v = 91
      then (if 93 \<in> set v then takeWhile (\<lambda>c. c \<noteq> 93) (tl v) else v)
      else strip_port v)"

fun for_value :: "jstr list \<Rightarrow> jstr option" where
  "for_value [] = None"
| "for_value (pair # ps) =
     (if 61 \<notin> set pair then for_value ps
      else if to_lower (js_trim (takeWhile (\<lambda>c. c \<noteq> 61) pair)) \<noteq> js ''for'' then for_value ps
      else Some (node_name (js_trim (tl (dropWhile (\<lambda>c. c \<noteq> 61) pair)))))"

definition forwarded_slot :: "jstr \<Rightarrow> jstr" where
  "forwarded_slot element =
     (case for_value (split_on 59 element) of
        None \<Rightarrow> js ''unknown''
      | Some v \<Rightarrow> (if parseIp v \<noteq> None then v else js ''unknown''))"

definition parseForwardedHeader :: "jstr option \<Rightarrow> jstr list" where
  "parseForwardedHeader header =
     (case header of None \<Rightarrow> [] | Some h \<Rightarrow> (if h = [] then [] else map forwarded_slot (split_on 44 h)))"

definition single_address :: "jstr option \<Rightarrow> jstr option" where
  "single_address h =
     (case map_option js_trim h of
        None \<Rightarrow> None
      | Some v \<Rightarrow> (if v \<noteq> [] \<and> parseIp v \<noteq> None then Some v else None))"

definition readForwardedClientIp :: "conn_request \<Rightarrow> header_source \<Rightarrow> int \<Rightarrow> jstr option" where
  "readForwardedClientIp q source hops =
     (if hops < 1 then None
      else (case source of
          ForwardedHeader \<Rightarrow> pickByHops (parseForwardedHeader (h_forwarded q)) hops
        | CfConnectingIp \<Rightarrow> (if hops \<noteq> 1 then None else single_address (h_cf q))
        | XForwardedFor \<Rightarrow> pickForwardedForByHops (h_xff q) hops))"

section \<open>Trust options of a middleware\<close>

record trust_opts =
  trustedHops :: "int option"
  trustProxyHeaders :: "bool option"
  trustedProxies :: "jstr list option"

datatype trust_error = ContradictsProxies | ContradictsHops int | BadHops int | NoProxies | EmptyEntry | BadEntry jstr | WholeSpace jstr

definition stampForwardedTrust :: "trust_opts \<Rightarrow> bool" where
  "stampForwardedTrust o1 \<longleftrightarrow> trustedProxies o1 = None \<and> (trustProxyHeaders o1 = Some True \<or> trustedHops o1 \<noteq> None)"

definition resolveForwardedTrust :: "trust_opts \<Rightarrow> trust_error + int option" where
  "resolveForwardedTrust o1 =
     (if trustProxyHeaders o1 = Some False \<and> trustedProxies o1 \<noteq> None then Inl ContradictsProxies
      else (case trustedHops o1 of
          Some hops \<Rightarrow>
            (if hops < 1 \<or> 64 < hops then Inl (BadHops hops)
             else if trustProxyHeaders o1 = Some False then Inl (ContradictsHops hops) else Inr (Some hops))
        | None \<Rightarrow>
            (if trustedProxies o1 \<noteq> None then Inr (Some 1)
             else Inr (if trustProxyHeaders o1 = Some True then Some 1 else None))))"

text \<open>\<open>/\\/0+$/\<close> on the trimmed entry.\<close>

definition isWholeAddressSpace :: "jstr \<Rightarrow> bool" where
  "isWholeAddressSpace entry =
     (let r = rev (js_trim entry); z = takeWhile (\<lambda>c. c = 48) r; rest = dropWhile (\<lambda>c. c = 48) r
      in z \<noteq> [] \<and> rest \<noteq> [] \<and> hd rest = 47)"

definition compile_entry :: "jstr \<Rightarrow> trust_error + ip_matcher" where
  "compile_entry entry =
     (if entry = [] then Inl EmptyEntry
      else (case compileCidrMatcher entry of
          Inl e \<Rightarrow> Inl (BadEntry entry)
        | Inr m \<Rightarrow> (if isWholeAddressSpace entry then Inl (WholeSpace entry) else Inr m)))"

fun compile_entries :: "jstr list \<Rightarrow> trust_error + ip_matcher list" where
  "compile_entries [] = Inr []"
| "compile_entries (e # es) =
     (case compile_entry e of
        Inl x \<Rightarrow> Inl x
      | Inr m \<Rightarrow> (case compile_entries es of Inl x \<Rightarrow> Inl x | Inr ms \<Rightarrow> Inr (m # ms)))"

definition resolveTrustedProxyMatchers :: "trust_opts \<Rightarrow> trust_error + ip_matcher list option" where
  "resolveTrustedProxyMatchers o1 =
     (case trustedProxies o1 of
        None \<Rightarrow> Inr None
      | Some proxies \<Rightarrow>
          (if proxies = [] then Inl NoProxies
           else (case compile_entries proxies of Inl x \<Rightarrow> Inl x | Inr ms \<Rightarrow> Inr (Some ms))))"

section \<open>Resolvers\<close>

definition in_ranges :: "jstr \<Rightarrow> ip_matcher list \<Rightarrow> bool" where
  "in_ranges addr ms = (case parseIp addr of None \<Rightarrow> False | Some ip \<Rightarrow> list_ex (matchesMatcher ip) ms)"

definition isTrustedPeer :: "conn_request \<Rightarrow> ip_matcher list \<Rightarrow> bool" where
  "isTrustedPeer q trustedPeers =
     (case peer q of None \<Rightarrow> False | Some p \<Rightarrow> (if p = [] then False else in_ranges p trustedPeers))"

definition resolveForwardedClientIp :: "conn_request \<Rightarrow> int \<Rightarrow> ip_matcher list option \<Rightarrow> header_source \<Rightarrow> jstr option" where
  "resolveForwardedClientIp q hops trustedPeers source =
     (if trustedPeers \<noteq> None \<and> \<not> isTrustedPeer q (the trustedPeers) then None
      else if source \<noteq> XForwardedFor then readForwardedClientIp q source hops
      else if h_xff q \<noteq> None then pickForwardedForByHops (h_xff q) hops
      else if hops \<noteq> 1 then None
      else single_address (h_realip q))"

definition header_of :: "header_source option \<Rightarrow> header_source" where
  "header_of h = (case h of None \<Rightarrow> XForwardedFor | Some s \<Rightarrow> s)"

definition or_peer :: "jstr option \<Rightarrow> conn_request \<Rightarrow> jstr option" where
  "or_peer picked q = (case picked of Some ip \<Rightarrow> Some ip | None \<Rightarrow> peer q)"

definition resolveClientIp :: "conn_request \<Rightarrow> proxy_config option \<Rightarrow> jstr option" where
  "resolveClientIp q cfg =
     (case cfg of
        None \<Rightarrow> peer q
      | Some ProxyNone \<Rightarrow> peer q
      | Some Loopback \<Rightarrow>
          (if peer q \<in> {Some (js ''127.0.0.1''), Some (js ''::1''), Some (js ''::ffff:127.0.0.1'')}
           then or_peer (pickForwardedForByHops (h_xff q) 1) q else peer q)
      | Some (Hops n h) \<Rightarrow> or_peer (readForwardedClientIp q (header_of h) n) q
      | Some (Cidrs cs h) \<Rightarrow>
          (case compile_all cs of
             Inl e \<Rightarrow> peer q
           | Inr ms \<Rightarrow>
               (if isTrustedPeer q ms then or_peer (readForwardedClientIp q (header_of h) 1) q else peer q)))"

datatype proxy_error = CfManyHops int | HopsRange int | NoCidrs | EmptyCidr | InvalidCidr jstr | AllAddresses jstr

fun check_cidrs :: "jstr list \<Rightarrow> proxy_error option" where
  "check_cidrs [] = None"
| "check_cidrs (c # cs) =
     (if c = [] then Some EmptyCidr
      else (case compileCidrMatcher c of
          Inl e \<Rightarrow> Some (InvalidCidr c)
        | Inr m \<Rightarrow> (if isWholeAddressSpace c then Some (AllAddresses c) else check_cidrs cs)))"

definition assertBehindProxy :: "proxy_config option \<Rightarrow> proxy_error option" where
  "assertBehindProxy cfg =
     (case cfg of
        Some (Hops n h) \<Rightarrow>
          (if h = Some CfConnectingIp \<and> 1 < n then Some (CfManyHops n)
           else if n < 0 \<or> 64 < n then Some (HopsRange n) else None)
      | Some (Cidrs cs h) \<Rightarrow> (if cs = [] then Some NoCidrs else check_cidrs cs)
      | _ \<Rightarrow> None)"

text \<open>The resolver of \<open>ipRestriction()\<close>: a custom one, the forwarded one, or none.\<close>

definition restriction_resolver :: "(conn_request \<Rightarrow> jstr option) option \<Rightarrow> trust_opts \<Rightarrow> trust_error + (conn_request \<Rightarrow> jstr option)" where
  "restriction_resolver resolveIp o1 =
     (case resolveForwardedTrust o1 of
        Inl e \<Rightarrow> Inl e
      | Inr hops \<Rightarrow>
          (case resolveTrustedProxyMatchers o1 of
             Inl e \<Rightarrow> Inl e
           | Inr proxyMatchers \<Rightarrow>
               Inr (case resolveIp of
                   Some f \<Rightarrow> f
                 | None \<Rightarrow> (case hops of
                     Some h \<Rightarrow> (\<lambda>q. resolveForwardedClientIp q h proxyMatchers XForwardedFor)
                   | None \<Rightarrow> (\<lambda>_. None)))))"

section \<open>Reading from the right\<close>

lemma pick_suffix:
  assumes "1 \<le> hops" "hops \<le> int (length ts)"
  shows "pickByHops (ps @ ts) hops = pickByHops ts hops"
proof -
  have "nat (int (length (ps @ ts)) - hops) = length ps + nat (int (length ts) - hops)" using assms by simp
  moreover have "\<not> int (length (ps @ ts)) < hops" "\<not> int (length ts) < hops" using assms by simp_all
  ultimately show ?thesis by (simp only: pickByHops_def if_False nth_append_length_plus)
qed

text \<open>What stands left of the trusted entries is ignored, in both list headers.\<close>

lemma left_entries_ignored:
  assumes "1 \<le> hops" "hops \<le> int (length (split_on 44 t))" "t \<noteq> []"
  shows "pickForwardedForByHops (Some (a @ 44 # t)) hops = pickForwardedForByHops (Some t) hops"
    and "pickByHops (parseForwardedHeader (Some (a @ 44 # t))) hops = pickByHops (parseForwardedHeader (Some t)) hops"
  using assms pick_suffix [of hops "split_on 44 t" "split_on 44 a"]
    pick_suffix [of hops "map forwarded_slot (split_on 44 t)" "map forwarded_slot (split_on 44 a)"]
  by (simp_all add: pickForwardedForByHops_def parseForwardedHeader_def split_on_app)

text \<open>Every comma-separated element of \<open>Forwarded\<close> holds one slot, an address or a placeholder.\<close>

lemma forwarded_slots:
  "h \<noteq> [] \<Longrightarrow> length (parseForwardedHeader (Some h)) = length (split_on 44 h)"
  "s \<in> set (parseForwardedHeader header) \<Longrightarrow> s = js ''unknown'' \<or> parseIp s \<noteq> None"
  by (auto simp: parseForwardedHeader_def forwarded_slot_def split: option.splits if_splits)

section \<open>A chain of proxies\<close>

text \<open>Each conforming proxy appends the address of the peer it sees.\<close>

definition append_hop :: "jstr option \<Rightarrow> jstr \<Rightarrow> jstr option" where
  "append_hop h a = Some (case h of None \<Rightarrow> a | Some v \<Rightarrow> v @ 44 # 32 # a)"

definition via :: "jstr option \<Rightarrow> jstr list \<Rightarrow> jstr option" where
  "via h observed = foldl append_hop h observed"

lemma via_some:
  assumes "\<forall>a \<in> set obs. 44 \<notin> set a"
  shows "\<exists>h'. via (Some h) obs = Some h' \<and> split_on 44 h' = split_on 44 h @ map (Cons 32) obs \<and> (h \<noteq> [] \<or> obs \<noteq> [] \<longrightarrow> h' \<noteq> [])"
  using assms
proof (induction obs arbitrary: h)
  case (Cons a obs)
  then have a: "split_on 44 (32 # a) = [32 # a]" by (simp add: split_on_plain)
  obtain h' where "via (Some (h @ 44 # 32 # a)) obs = Some h'" "split_on 44 h' = split_on 44 (h @ 44 # 32 # a) @ map (Cons 32) obs" "h' \<noteq> []"
    using Cons.IH [of "h @ 44 # 32 # a"] Cons.prems by auto
  then show ?case using split_on_app [of 44 h "32 # a"] a by (auto simp: via_def append_hop_def)
qed (simp add: via_def)

lemma via_parts:
  assumes "\<forall>a \<in> set obs. 44 \<notin> set a" "obs \<noteq> []" "hd obs \<noteq> []"
  shows "\<exists>h' ps c. via client obs = Some h' \<and> h' \<noteq> [] \<and> split_on 44 h' = ps @ c # map (Cons 32) (tl obs) \<and> (c = hd obs \<or> c = 32 # hd obs)"
proof (cases client)
  case (Some h)
  with via_some [OF assms(1), of h] assms(2) show ?thesis by (cases obs) auto
next
  case None
  obtain a as where o1: "obs = a # as" using assms(2) by (cases obs) auto
  have "via client obs = via (Some a) as" by (simp add: None o1 via_def append_hop_def)
  moreover obtain h' where "via (Some a) as = Some h'" "split_on 44 h' = split_on 44 a @ map (Cons 32) as" "h' \<noteq> []"
    using via_some [of as a] assms o1 by auto
  moreover have "split_on 44 a = [a]" using assms(1) o1 by (simp add: split_on_plain)
  ultimately show ?thesis using o1 by (intro exI [of _ h'] exI [of _ "[]"] exI [of _ a]) simp
qed

lemma trim_space: "js_trim (32 # c) = js_trim c"
  by (simp add: js_trim_def is_js_space_def)

lemma chain_pick:
  assumes "\<forall>a \<in> set obs. 44 \<notin> set a" "obs \<noteq> []" "js_trim (hd obs) = hd obs" "parseIp (hd obs) \<noteq> None" "hd obs \<noteq> []"
  shows "pickForwardedForByHops (via client obs) (int (length obs)) = Some (hd obs)"
proof -
  obtain h' ps c where v: "via client obs = Some h'" "h' \<noteq> []" "split_on 44 h' = ps @ c # map (Cons 32) (tl obs)"
    "c = hd obs \<or> c = 32 # hd obs"
    using via_parts [OF assms(1,2,5), of client] by auto
  have l: "int (length obs) = int (length (c # map (Cons 32) (tl obs)))" using assms(2) by (cases obs) simp_all
  have t: "js_trim c = hd obs" using v(4) trim_space assms(3) by auto
  have "pickByHops (ps @ c # map (Cons 32) (tl obs)) (int (length obs)) = pickByHops (c # map (Cons 32) (tl obs)) (int (length obs))"
    by (rule pick_suffix) (simp_all add: l)
  also have "\<dots> = Some (hd obs)" using t assms(4,5) by (simp add: pickByHops_def l)
  finally show ?thesis using v assms(2) by (simp add: pickForwardedForByHops_def Suc_leI)
qed

section \<open>Properties\<close>

lemma in_ranges_wf: "in_ranges a ms \<Longrightarrow> parseIp a \<noteq> None"
  by (auto simp: in_ranges_def split: option.splits)

text \<open>
  C19. The client cannot choose its address.  When a request passes as many conforming proxies
  as were declared (each appends the address it sees to \<open>X-Forwarded-For\<close>), the address
  resolved for the application and the verdict of \<open>ipRestriction()\<close> are those of the peer of
  the outermost proxy, whatever forwarding headers the client had sent.
\<close>

theorem client_address_unforgeable:
  assumes "h_xff q = via forged obs" "obs \<noteq> []" "\<forall>a \<in> set obs. 44 \<notin> set a"
    and "js_trim (hd obs) = hd obs" "parseIp (hd obs) = Some ip"
    and "restriction_resolver None o1 = Inr resolve" "trustedHops o1 = Some (int (length obs))"
    and "\<forall>ms. resolveTrustedProxyMatchers o1 = Inr (Some ms) \<longrightarrow> isTrustedPeer q ms"
  shows "resolveClientIp q (Some (Hops (int (length obs)) None)) = Some (hd obs) \<and> resolve q = Some (hd obs)
    \<and> (ip_restriction_preBody ls (resolve q) \<longleftrightarrow>
         \<not> list_ex (matchesMatcher ip) (deny ls) \<and> (allow ls = [] \<or> list_ex (matchesMatcher ip) (allow ls)))"
proof -
  have ne: "hd obs \<noteq> []" using assms(5) by (auto simp: parseIp_def parseIPv4_def js_trim_def)
  have pick: "pickForwardedForByHops (h_xff q) (int (length obs)) = Some (hd obs)"
    unfolding assms(1) by (rule chain_pick [OF assms(3,2,4) _ ne]) (simp add: assms(5))
  have pos: "1 \<le> int (length obs)" using assms(2) by (cases obs) simp_all
  have xff: "h_xff q \<noteq> None" using pick by (cases "h_xff q") (simp_all add: pickForwardedForByHops_def)
  have c: "resolveClientIp q (Some (Hops (int (length obs)) None)) = Some (hd obs)"
    using pick pos assms(2) by (simp add: resolveClientIp_def readForwardedClientIp_def header_of_def or_peer_def)
  obtain pm where pm: "resolveTrustedProxyMatchers o1 = Inr pm"
    using assms(6) by (auto simp: restriction_resolver_def split: sum.splits)
  have f: "resolve = (\<lambda>q. resolveForwardedClientIp q (int (length obs)) pm XForwardedFor)"
  proof -
    obtain h where h: "resolveForwardedTrust o1 = Inr h" using assms(6) by (auto simp: restriction_resolver_def split: sum.splits)
    then have "h = Some (int (length obs))" unfolding resolveForwardedTrust_def assms(7) by (simp split: if_splits)
    then show ?thesis using assms(6) h pm by (simp add: restriction_resolver_def)
  qed
  have "pm = None \<or> isTrustedPeer q (the pm)" using assms(8) pm by (cases pm) auto
  then have r: "resolve q = Some (hd obs)"
    using pick xff by (auto simp: f resolveForwardedClientIp_def)
  then show ?thesis using ne assms(5) c by (simp add: ip_restriction_preBody_def)
qed

text \<open>
  A peer that is not a declared proxy is not believed.  With \<open>behindProxy: { cidrs }\<close> the
  application sees the address of the socket, whatever headers came with the request, and a
  middleware with \<open>trustedProxies\<close> resolves no address, so \<open>ipRestriction()\<close> rejects.
\<close>

lemma undeclared_peer_not_believed:
  assumes "peer q = Some p" "compile_all cs = Inr ms" "\<not> in_ranges p ms"
    and "restriction_resolver None o1 = Inr resolve" "trustedProxies o1 = Some cs"
  shows "resolveClientIp q (Some (Cidrs cs h)) = Some p \<and> resolve q = None \<and> \<not> ip_restriction_preBody ls (resolve q)"
proof -
  have comp: "compile_entries es = Inr m1 \<Longrightarrow> compile_all es = Inr m2 \<Longrightarrow> m1 = m2" for es m1 m2
    by (induction es arbitrary: m1 m2) (auto simp: compile_entry_def split: sum.splits if_splits)
  obtain hops pm where hp: "resolveForwardedTrust o1 = Inr hops" "resolveTrustedProxyMatchers o1 = Inr pm"
    using assms(4) by (auto simp: restriction_resolver_def split: sum.splits)
  have pm: "pm = Some ms" using hp(2) assms(2,5) comp by (auto simp: resolveTrustedProxyMatchers_def split: sum.splits if_splits)
  obtain n where n: "hops = Some n"
    using hp(1) assms(5) by (cases hops; cases "trustedHops o1") (simp_all add: resolveForwardedTrust_def split: if_splits)
  have r: "resolve = (\<lambda>q. resolveForwardedClientIp q n (Some ms) XForwardedFor)"
    using assms(4) hp pm n by (simp add: restriction_resolver_def)
  have "\<not> isTrustedPeer q ms" using assms(1,3) by (simp add: isTrustedPeer_def)
  then show ?thesis
    using assms(1,2) by (simp add: resolveClientIp_def r resolveForwardedClientIp_def ip_restriction_preBody_def)
qed

text \<open>The prefix length of an accepted pattern is zero exactly for a \<open>/0\<close> entry.\<close>

lemma dec_val_zero: "list_all is_digit ps \<Longrightarrow> dec_val ps = 0 \<longleftrightarrow> (\<forall>c \<in> set ps. c = 48)"
proof (induction ps rule: rev_induct)
  case (snoc c ps)
  then show ?case by (auto simp: dec_val_snoc is_digit_def)
qed (simp add: dec_val_def)

lemma digits_end: "ps \<noteq> [] \<Longrightarrow> list_all is_digit ps \<Longrightarrow> \<not> is_js_space (last ps)"
  by (cases ps rule: rev_cases) (auto simp: is_digit_def is_js_space_def)

lemma trim_keeps_end:
  assumes "a \<noteq> []" "\<not> is_js_space (last a)"
  shows "js_trim a = dropWhile is_js_space a"
proof -
  define d where "d = dropWhile is_js_space a"
  have ne: "d \<noteq> []" unfolding d_def using assms by (metis dropWhile_eq_Nil_conv last_in_set)
  have "a = takeWhile is_js_space a @ d" by (simp add: d_def)
  then have "last a = last d" using ne by (metis last_appendR)
  then have "dropWhile is_js_space (rev d) = rev d" using assms(2) ne by (simp add: dropWhile_eq_self_iff hd_rev)
  then show ?thesis by (simp add: js_trim_def d_def [symmetric])
qed

lemma whole_space_entry:
  assumes "e = a @ 47 # ps" "ps \<noteq> []" "list_all is_digit ps"
  shows "isWholeAddressSpace e \<longleftrightarrow> dec_val ps = 0"
proof -
  have "js_trim e = dropWhile is_js_space e"
    using trim_keeps_end [of e] digits_end [OF assms(2,3)] assms(1,2) by simp
  moreover have "\<not> is_js_space 47" by (simp add: is_js_space_def)
  then have "dropWhile is_js_space e = dropWhile is_js_space a @ 47 # ps" by (simp add: assms(1) dropWhile_append3 dropWhile_append)
  ultimately have r: "rev (js_trim e) = rev ps @ 47 # rev (dropWhile is_js_space a)" by simp
  show ?thesis
  proof (cases "\<forall>c \<in> set ps. c = 48")
    case True
    then have "takeWhile (\<lambda>c. c = 48) (rev (js_trim e)) = rev ps"
      "dropWhile (\<lambda>c. c = 48) (rev (js_trim e)) = 47 # rev (dropWhile is_js_space a)"
      unfolding r by (subst takeWhile_append2 dropWhile_append2; simp)+
    then show ?thesis using True assms(2,3) by (simp add: isWholeAddressSpace_def dec_val_zero del: dropWhile_eq_Nil_conv)
  next
    case False
    then obtain x where x: "x \<in> set (rev ps)" "x \<noteq> 48" by auto
    then have d: "dropWhile (\<lambda>c. c = 48) (rev (js_trim e)) = dropWhile (\<lambda>c. c = 48) (rev ps) @ 47 # rev (dropWhile is_js_space a)"
      unfolding r by (auto simp: dropWhile_append1)
    have ne: "dropWhile (\<lambda>c. c = 48) (rev ps) \<noteq> []" using x by auto
    then have "hd (dropWhile (\<lambda>c. c = 48) (rev ps)) \<in> set (rev ps)" by (meson hd_in_set set_dropWhileD)
    then have "is_digit (hd (dropWhile (\<lambda>c. c = 48) (rev ps)))" using assms(3) by (simp add: list_all_iff)
    then have "hd (dropWhile (\<lambda>c. c = 48) (rev (js_trim e))) \<noteq> 47" using d ne by (simp add: is_digit_def)
    then show ?thesis using False assms(3) by (simp add: isWholeAddressSpace_def dec_val_zero Let_def del: dropWhile_eq_Nil_conv)
  qed
qed

lemma whole_space_plain: "47 \<notin> set e \<Longrightarrow> \<not> isWholeAddressSpace e"
proof -
  assume n: "47 \<notin> set e"
  have "set (dropWhile (\<lambda>c. c = 48) (rev (js_trim e))) \<subseteq> set e"
    by (auto simp: js_trim_def dest!: set_dropWhileD)
  then have "d \<noteq> [] \<Longrightarrow> hd d \<noteq> 47" if "d = dropWhile (\<lambda>c. c = 48) (rev (js_trim e))" for d
    using n that by (metis hd_in_set subsetD)
  then show ?thesis unfolding isWholeAddressSpace_def Let_def by blast
qed

lemma whole_space_prefix:
  assumes "compileCidrMatcher e = Inr m"
  shows "isWholeAddressSpace e \<longleftrightarrow> m_prefix m = 0"
proof (cases "47 \<in> set e")
  case True
  define a where "a = takeWhile (\<lambda>c. c \<noteq> 47) e"
  define ps where "ps = tl (dropWhile (\<lambda>c. c \<noteq> 47) e)"
  have "dropWhile (\<lambda>c. c \<noteq> 47) e \<noteq> []" using True by auto
  then have "dropWhile (\<lambda>c. c \<noteq> 47) e = 47 # ps"
    using hd_dropWhile [of "\<lambda>c. c \<noteq> 47" e] by (cases "dropWhile (\<lambda>c. c \<noteq> 47) e") (auto simp: ps_def)
  then have e: "e = a @ 47 # ps" unfolding a_def by (metis takeWhile_dropWhile_id)
  have "ps \<noteq> [] \<and> list_all is_digit ps \<and> m_prefix m = dec_val ps"
    using assms True by (auto simp: compileCidrMatcher_def ps_def [symmetric] Let_def split: option.splits if_splits)
  then show ?thesis using whole_space_entry [OF e] by simp
next
  case False
  then have "m_prefix m = total_bits (m_family m)"
    using assms by (auto simp: compileCidrMatcher_def Let_def split: option.splits)
  then show ?thesis using whole_space_plain [OF False] by (simp add: total_bits_def split: if_splits)
qed

lemma complement_differs:
  assumes "ip_bytes a \<noteq> []" "0 < p" "p \<le> 8 * length (ip_bytes a)"
  shows "\<not> matchesMatcher \<lparr> ip_bytes = map NOT (ip_bytes a), ip_family = f \<rparr> \<lparr> m_family = f, m_prefix = p, m_bytes = applyPrefixMask (ip_bytes a) p \<rparr>"
proof -
  obtain b bs where ab: "ip_bytes a = b # bs" using assms(1) by (cases "ip_bytes a") auto
  have r: "p - p div 8 * 8 = p mod 8" by (simp add: modulo_nat_def)
  show ?thesis
  proof (cases "p < 8")
    case True
    then have n: "applyPrefixMask (b # bs) p ! 0 = b AND high_mask p"
      using assms(2) applyPrefixMask_nth [of 0 "b # bs" p] by simp
    have "(NOT b XOR (b AND high_mask p)) AND high_mask p \<noteq> 0"
      using and_mask_absorb [of "NOT b" b "high_mask p"] high_mask_bits [OF assms(2) True, of "NOT b" b] assms(2)
      by (auto simp: byte_bits_def bit_simps take_Cons')
    then show ?thesis using True assms(2,3) n by (simp add: matchesMatcher_def normalizeFamily_def Let_def ab)
  next
    case False
    then have d: "0 < p div 8" by (simp add: div_greater_zero_iff)
    then have n: "applyPrefixMask (b # bs) p ! 0 = b" using applyPrefixMask_nth [of 0 "b # bs" p] by simp
    have "bit (NOT b) 0 \<noteq> bit b 0" by (simp add: bit_simps)
    then have "NOT b \<noteq> b" by metis
    then have "\<not> list_all (\<lambda>i. (map NOT (b # bs)) ! i = applyPrefixMask (b # bs) p ! i) [0..<p div 8]"
      using d n unfolding list_all_iff by (auto intro!: bexI [of _ 0])
    then show ?thesis using assms(3) by (simp add: matchesMatcher_def normalizeFamily_def Let_def ab del: list.map)
  qed
qed

text \<open>
  A proxy range that trusts everybody is refused, and only such a range: an entry that
  compiles is refused by \<open>isWholeAddressSpace\<close> exactly when its matcher accepts every
  address of its family.
\<close>

lemma whole_space_refused:
  assumes "compileCidrMatcher e = Inr m" "e \<noteq> []"
  shows "compile_entry e = Inl (WholeSpace e) \<longleftrightarrow>
    (\<forall>ip. ip_wf ip \<and> ip_family ip = m_family m \<longrightarrow> matchesMatcher ip m)"
proof -
  obtain a where a: "parseIp (takeWhile (\<lambda>c. c \<noteq> 47) e) = Some a"
    using assms(1) by (auto simp: compileCidrMatcher_def Let_def split: option.splits)
  note sh = compile_shape [OF assms(1) a]
  have wf: "ip_wf a" by (rule parseIp_wf [OF a])
  have c: "compile_entry e = Inl (WholeSpace e) \<longleftrightarrow> m_prefix m = 0"
    using assms whole_space_prefix [OF assms(1)] by (simp add: compile_entry_def)
  show ?thesis
  proof (cases "m_prefix m = 0")
    case True
    then show ?thesis using c by (auto simp: matchesMatcher_def normalizeFamily_def)
  next
    case False
    have ne: "ip_bytes a \<noteq> []" using wf by (auto simp: ip_wf_def total_bits_def split: if_splits)
    have w: "ip_wf \<lparr> ip_bytes = map NOT (ip_bytes a), ip_family = m_family m \<rparr>" using wf sh by (simp add: ip_wf_def)
    have "\<not> matchesMatcher \<lparr> ip_bytes = map NOT (ip_bytes a), ip_family = m_family m \<rparr>
       \<lparr> m_family = m_family m, m_prefix = m_prefix m, m_bytes = applyPrefixMask (ip_bytes a) (m_prefix m) \<rparr>"
      by (rule complement_differs [OF ne]) (use False sh wf in \<open>simp_all add: ip_wf_def\<close>)
    moreover have "m = \<lparr> m_family = m_family m, m_prefix = m_prefix m, m_bytes = applyPrefixMask (ip_bytes a) (m_prefix m) \<rparr>"
      using sh by simp
    ultimately show ?thesis using w c False by (metis parsed_ip.select_convs(2))
  qed
qed

definition two_hops :: trust_opts where
  "two_hops = \<lparr> trustedHops = Some 2, trustProxyHeaders = None, trustedProxies = None \<rparr>"

definition listed_proxies :: trust_opts where
  "listed_proxies = \<lparr> trustedHops = None, trustProxyHeaders = None, trustedProxies = Some [js ''10.0.0.0/8''] \<rparr>"

definition forged_request :: conn_request where
  "forged_request = \<lparr> peer = Some (js ''10.0.0.2''), h_xff = via (Some (js ''1.2.3.4, 5.6.7.8'')) [js ''203.0.113.9'', js ''10.0.0.1''],
     h_forwarded = None, h_cf = Some (js ''1.2.3.4''), h_realip = Some (js ''1.2.3.4'') \<rparr>"

theorem client_address_unforgeable_witness:
  "resolveClientIp forged_request (Some (Hops 2 None)) = Some (js ''203.0.113.9'')"
proof -
  obtain f where f: "restriction_resolver None two_hops = Inr f"
    by (simp add: restriction_resolver_def resolveForwardedTrust_def resolveTrustedProxyMatchers_def two_hops_def)
  have p: "parseIp (hd [js ''203.0.113.9'', js ''10.0.0.1'']) = Some \<lparr> ip_bytes = [203, 0, 113, 9], ip_family = V4 \<rparr>"
    by (simp add: eval)
  have "resolveClientIp forged_request (Some (Hops (int (length [js ''203.0.113.9'', js ''10.0.0.1''])) None))
      = Some (hd [js ''203.0.113.9'', js ''10.0.0.1''])"
    by (rule conjunct1 [OF client_address_unforgeable [OF _ _ _ _ p f, where forged = "Some (js ''1.2.3.4, 5.6.7.8'')"
      and ls = "\<lparr> allow = [], deny = [] \<rparr>"]])
      (simp_all add: forged_request_def two_hops_def resolveTrustedProxyMatchers_def js_trim_def is_js_space_def)
  then show ?thesis by simp
qed

lemma undeclared_peer_not_believed_example:
  "resolveClientIp (forged_request\<lparr>peer := Some (js ''198.51.100.7'')\<rparr>) (Some (Cidrs [js ''10.0.0.0/8''] None)) = Some (js ''198.51.100.7'')"
proof -
  have m: "compileCidrMatcher (js ''10.0.0.0/8'') = Inr \<lparr> m_family = V4, m_prefix = 8, m_bytes = [10, 0, 0, 0] \<rparr>" by (simp add: eval)
  have c: "compile_all [js ''10.0.0.0/8''] = Inr [\<lparr> m_family = V4, m_prefix = 8, m_bytes = [10, 0, 0, 0] \<rparr>]"
    by (simp add: m del: js_simps)
  have w: "\<not> isWholeAddressSpace (js ''10.0.0.0/8'')" by (simp add: isWholeAddressSpace_def js_trim_def is_js_space_def)
  have e: "compile_entries [js ''10.0.0.0/8''] = Inr [\<lparr> m_family = V4, m_prefix = 8, m_bytes = [10, 0, 0, 0] \<rparr>]"
    by (simp add: compile_entry_def m w del: js_simps) simp
  obtain f where f: "restriction_resolver None listed_proxies = Inr f"
    using e by (simp add: restriction_resolver_def resolveForwardedTrust_def resolveTrustedProxyMatchers_def listed_proxies_def del: js_simps)
  have n: "\<not> in_ranges (js ''198.51.100.7'') [\<lparr> m_family = V4, m_prefix = 8, m_bytes = [10, 0, 0, 0] \<rparr>]"
    by (simp add: in_ranges_def eval)
  show ?thesis
    by (rule conjunct1 [OF undeclared_peer_not_believed [OF _ c n f, where ls = "\<lparr> allow = [], deny = [] \<rparr>"]])
      (simp_all add: listed_proxies_def)
qed

lemma whole_space_refused_example:
  "\<exists>m. compileCidrMatcher (js ''0.0.0.0/00'') = Inr m \<and> (\<forall>ip. ip_wf ip \<and> ip_family ip = m_family m \<longrightarrow> matchesMatcher ip m)"
proof -
  obtain m where m: "compileCidrMatcher (js ''0.0.0.0/00'') = Inr m" by (simp add: eval)
  have "isWholeAddressSpace (js ''0.0.0.0/00'')" by (simp add: isWholeAddressSpace_def js_trim_def is_js_space_def)
  then have "compile_entry (js ''0.0.0.0/00'') = Inl (WholeSpace (js ''0.0.0.0/00''))"
    using m by (simp add: compile_entry_def del: js_simps) simp
  then show ?thesis using whole_space_refused [OF m] m by auto
qed

text \<open>The application-wide policy ignores \<open>X-Real-IP\<close>, which the middleware resolver accepts for one hop.\<close>

lemma real_ip_ignored:
  "h_xff q = None \<Longrightarrow> resolveClientIp q (Some (Hops n None)) = peer q"
  by (simp add: resolveClientIp_def readForwardedClientIp_def header_of_def or_peer_def pickForwardedForByHops_def)

end
