(* ===== verification/RateLimit.thy ===== *)
theory RateLimit
  imports ConnInfo
begin

text \<open>
  The fixed-window limiter of \<open>middleware.ts\<close>: \<open>MemoryStore\<close>, \<open>rateLimit()\<close>,
  \<open>loginThrottle()\<close> and the keys they derive from the client address.

  \<open>MemoryStore.hit\<close> returns the bucket object that stays in its map, and the caller reads
  \<open>count\<close> from it after an \<open>await\<close>.  Buckets therefore live in a heap, a hit answers an address,
  and reading is a step of its own that other requests may precede.
\<close>

section \<open>The in-memory store\<close>

record wbucket =
  wb_count :: nat
  wb_reset :: int

record rl_store =
  heap :: "wbucket list"
  index :: "(jstr, nat) assoc"

definition new_rl_store :: rl_store where
  "new_rl_store = \<lparr> heap = [], index = [] \<rparr>"

definition live_addr :: "jstr \<Rightarrow> int \<Rightarrow> rl_store \<Rightarrow> nat option" where
  "live_addr k now s =
     (case map_of (index s) k of
        None \<Rightarrow> None
      | Some a \<Rightarrow> (if wb_reset (heap s ! a) \<le> now then None else Some a))"

definition sweep :: "int \<Rightarrow> rl_store \<Rightarrow> rl_store" where
  "sweep now s = (if 10000 < length (index s)
     then s\<lparr>index := filter (\<lambda>(k, a). now < wb_reset (heap s ! a)) (index s)\<rparr> else s)"

definition fresh_bucket :: "jstr \<Rightarrow> int \<Rightarrow> int \<Rightarrow> rl_store \<Rightarrow> rl_store" where
  "fresh_bucket k windowMs now s =
     s\<lparr>heap := heap s @ [\<lparr> wb_count = 1, wb_reset = now + windowMs \<rparr>], index := AList.update k (length (heap s)) (index s)\<rparr>"

definition hit :: "jstr \<Rightarrow> int \<Rightarrow> int \<Rightarrow> rl_store \<Rightarrow> nat \<times> rl_store" where
  "hit k windowMs now s =
     (case live_addr k now s of
        None \<Rightarrow> (length (heap s), sweep now (fresh_bucket k windowMs now s))
      | Some a \<Rightarrow> (a, s\<lparr>heap := (heap s)[a := (heap s ! a)\<lparr>wb_count := Suc (wb_count (heap s ! a))\<rparr>]\<rparr>))"

section \<open>The limiter\<close>

record rl_opts =
  windowMs :: int
  max_hits :: int
  draft8 :: "jstr option"
  legacyHeaders :: bool
  retryAfter :: bool
  rl_groupId :: "jstr option"

datatype rl_error = BadWindow | BadMax | BadStandard | BadSubnet

definition rateLimit_check :: "rl_opts \<Rightarrow> rl_error option" where
  "rateLimit_check o1 =
     (if windowMs o1 \<le> 0 then Some BadWindow
      else if max_hits o1 < 0 then Some BadMax
      else if draft8 o1 \<noteq> None \<and> draft8 o1 \<noteq> Some (js ''draft-8'') then Some BadStandard else None)"

definition ceil_sec :: "int \<Rightarrow> int" where
  "ceil_sec ms = - ((- ms) div 1000)"

definition num_str :: "int \<Rightarrow> jstr" where
  "num_str n = (if n < 0 then 45 # dec_str (nat (- n)) else dec_str (nat n))"

definition policyName :: "rl_opts \<Rightarrow> jstr" where
  "policyName o1 = 34 # num_str (max_hits o1) @ js ''-in-'' @ num_str (ceil_sec (windowMs o1)) @ js ''sec'' @ [34]"

definition policyHeader :: "rl_opts \<Rightarrow> jstr" where
  "policyHeader o1 = policyName o1 @ js ''; q='' @ num_str (max_hits o1) @ js ''; w='' @ num_str (ceil_sec (windowMs o1))"

definition groupPrefix :: "rl_opts \<Rightarrow> jstr" where
  "groupPrefix o1 = (case rl_groupId o1 of None \<Rightarrow> [] | Some g \<Rightarrow> if g = [] then [] else g @ [58])"

datatype verdict = Allowed | TooMany "int option"

definition rl_headers :: "rl_opts \<Rightarrow> wbucket \<Rightarrow> int \<Rightarrow> (jstr, jstr) assoc \<Rightarrow> (jstr, jstr) assoc" where
  "rl_headers o1 b now hs =
     (let remaining = max 0 (max_hits o1 - int (wb_count b));
          h1 = (if legacyHeaders o1
                then AList.update (js ''x-ratelimit-reset'') (num_str (ceil_sec (wb_reset b)))
                       (AList.update (js ''x-ratelimit-remaining'') (num_str remaining)
                         (AList.update (js ''x-ratelimit-limit'') (num_str (max_hits o1)) hs)) else hs)
      in if draft8 o1 = None then h1
         else AList.update (js ''ratelimit'')
                (policyName o1 @ js ''; r='' @ num_str remaining @ js ''; t='' @ num_str (max 0 (ceil_sec (wb_reset b - now))))
                (AList.update (js ''ratelimit-policy'') (policyHeader o1) h1))"

text \<open>What \<open>enforce\<close> decides when it reads the bucket at \<open>now\<close>.\<close>

definition judge :: "rl_opts \<Rightarrow> wbucket \<Rightarrow> int \<Rightarrow> verdict" where
  "judge o1 b now =
     (if max_hits o1 < int (wb_count b)
      then TooMany (if retryAfter o1 then Some (max 0 (ceil_sec (wb_reset b - now))) else None) else Allowed)"

section \<open>Keys\<close>

definition resolveIpv6Subnet :: "int option \<Rightarrow> nat option" where
  "resolveIpv6Subnet v =
     (case v of None \<Rightarrow> Some 64 | Some n \<Rightarrow> (if n < 1 \<or> 128 < n then None else Some (nat n)))"

definition peerRateLimitKey :: "nat \<Rightarrow> conn_request \<Rightarrow> jstr" where
  "peerRateLimitKey subnet q =
     (case peer q of None \<Rightarrow> js ''global'' | Some p \<Rightarrow> js ''peer:'' @ ipRateLimitIdentity p subnet)"

definition defaultForwardedRateLimitKey :: "int option \<Rightarrow> ip_matcher list option \<Rightarrow> bool \<Rightarrow> nat \<Rightarrow> conn_request \<Rightarrow> jstr" where
  "defaultForwardedRateLimitKey hops trustedPeers keyOnPeer subnet q =
     (case hops of
        None \<Rightarrow> (if keyOnPeer then peerRateLimitKey subnet q else js ''global'')
      | Some h \<Rightarrow>
          (case resolveForwardedClientIp q h trustedPeers XForwardedFor of
             Some ip \<Rightarrow> ipRateLimitIdentity ip subnet
           | None \<Rightarrow> peerRateLimitKey subnet q))"

definition declaresNoClientTrust :: "bool \<Rightarrow> trust_opts \<Rightarrow> bool" where
  "declaresNoClientTrust custom_key o1 \<longleftrightarrow>
     \<not> custom_key \<and> trustProxyHeaders o1 = None \<and> trustedHops o1 = None \<and> trustedProxies o1 = None"

text \<open>The posture a guard inherits; two applications that report different ones cancel it.\<close>

record posture_state =
  posture :: "proxy_config option"
  received :: bool
  conflicted :: bool

definition no_posture :: posture_state where
  "no_posture = \<lparr> posture = None, received = False, conflicted = False \<rparr>"

definition receive :: "proxy_config option \<Rightarrow> posture_state \<Rightarrow> posture_state" where
  "receive cfg p =
     (if conflicted p then p
      else if \<not> received p then p\<lparr>received := True, posture := cfg\<rparr>
      else if cfg \<noteq> posture p then p\<lparr>conflicted := True, posture := None\<rparr> else p)"

definition inheritedKey :: "nat \<Rightarrow> posture_state \<Rightarrow> conn_request \<Rightarrow> jstr" where
  "inheritedKey subnet p q =
     (if posture p = None \<or> posture p = Some ProxyNone then peerRateLimitKey subnet q
      else (case resolveClientIp q (posture p) of
          None \<Rightarrow> js ''global''
        | Some ip \<Rightarrow> (if Some ip = peer q then peerRateLimitKey subnet q else ipRateLimitIdentity ip subnet)))"

definition rate_key :: "bool \<Rightarrow> rl_opts \<Rightarrow> trust_opts \<Rightarrow> nat \<Rightarrow> posture_state \<Rightarrow> trust_error + (conn_request \<Rightarrow> jstr)" where
  "rate_key custom_key o1 tr subnet p =
     (case resolveForwardedTrust tr of
        Inl e \<Rightarrow> Inl e
      | Inr hops \<Rightarrow>
          (case resolveTrustedProxyMatchers tr of
             Inl e \<Rightarrow> Inl e
           | Inr pm \<Rightarrow> Inr (\<lambda>q. groupPrefix o1 @
               (if declaresNoClientTrust custom_key tr then inheritedKey subnet p q
                else defaultForwardedRateLimitKey hops pm True subnet q))))"

section \<open>The login throttle\<close>

record throttle_opts =
  t_windowMs :: int
  t_max :: int
  delayAfter :: int
  delayMs :: int
  maxDelayMs :: int

definition throttle_ok :: "throttle_opts \<Rightarrow> bool" where
  "throttle_ok o1 \<longleftrightarrow> 0 < t_windowMs o1 \<and> 0 < t_max o1 \<and> 0 \<le> delayAfter o1 \<and> 0 \<le> delayMs o1 \<and> 0 \<le> maxDelayMs o1"

definition default_throttle :: throttle_opts where
  "default_throttle = \<lparr> t_windowMs = 900000, t_max = 5, delayAfter = 2, delayMs = 250, maxDelayMs = 2000 \<rparr>"

definition slowdown_hit :: "throttle_opts \<Rightarrow> jstr \<Rightarrow> int \<Rightarrow> (jstr, wbucket) assoc \<Rightarrow> nat \<times> (jstr, wbucket) assoc" where
  "slowdown_hit o1 k now bs =
     (let b = (case map_of bs k of
            Some b \<Rightarrow> (if wb_reset b \<le> now then \<lparr> wb_count = 0, wb_reset = now + t_windowMs o1 \<rparr> else b)
          | None \<Rightarrow> \<lparr> wb_count = 0, wb_reset = now + t_windowMs o1 \<rparr>);
          b' = b\<lparr>wb_count := Suc (wb_count b)\<rparr>;
          bs' = AList.update k b' bs
      in (wb_count b', if 10000 < length bs' then filter (\<lambda>(k, v). now < wb_reset v) bs' else bs'))"

definition slowdown :: "throttle_opts \<Rightarrow> nat \<Rightarrow> int" where
  "slowdown o1 count =
     (if delayAfter o1 < int count \<and> 0 < delayMs o1 \<and> 0 < maxDelayMs o1
      then min (maxDelayMs o1) ((int count - delayAfter o1) * delayMs o1) else 0)"

section \<open>Overlapping requests\<close>

text \<open>A request that has hit the store awaits its bucket; reading it decides.\<close>

datatype seat = Waiting jstr nat | Passed jstr nat | Refused jstr nat

fun seat_key :: "seat \<Rightarrow> jstr" where
  "seat_key (Waiting k a) = k" | "seat_key (Passed k a) = k" | "seat_key (Refused k a) = k"

fun seat_addr :: "seat \<Rightarrow> nat" where
  "seat_addr (Waiting k a) = a" | "seat_addr (Passed k a) = a" | "seat_addr (Refused k a) = a"

record rworld =
  rstore :: rl_store
  clock :: int
  seats :: "(nat, seat) assoc"

datatype rl_event = Hit nat jstr int | Read nat int

definition new_rworld :: rworld where
  "new_rworld = \<lparr> rstore = new_rl_store, clock = 0, seats = [] \<rparr>"

definition rl_step :: "rl_opts \<Rightarrow> rl_event \<Rightarrow> rworld \<Rightarrow> rworld option" where
  "rl_step o1 ev w =
     (case ev of
        Hit r k now \<Rightarrow>
          (if now < clock w \<or> map_of (seats w) r \<noteq> None then None
           else (case hit k (windowMs o1) now (rstore w) of
               (a, s) \<Rightarrow> Some (w\<lparr>rstore := s, clock := now, seats := seats w @ [(r, Waiting k a)]\<rparr>)))
      | Read r now \<Rightarrow>
          (if now < clock w then None
           else (case map_of (seats w) r of
               Some (Waiting k a) \<Rightarrow>
                 Some (w\<lparr>clock := now, seats := AList.update r
                   (if judge o1 (heap (rstore w) ! a) now = Allowed then Passed k a else Refused k a) (seats w)\<rparr>)
             | _ \<Rightarrow> None)))"

inductive rl_reach :: "rl_opts \<Rightarrow> rworld \<Rightarrow> bool" for o1 where
  initial: "rl_reach o1 new_rworld"
| event: "rl_reach o1 w \<Longrightarrow> rl_step o1 ev w = Some w' \<Longrightarrow> rl_reach o1 w'"

section \<open>The invariant\<close>

definition seated :: "nat \<Rightarrow> (nat, seat) assoc \<Rightarrow> nat" where
  "seated a xs = length (filter (\<lambda>e. seat_addr (snd e) = a) xs)"

definition passed :: "nat \<Rightarrow> (nat, seat) assoc \<Rightarrow> nat" where
  "passed a xs = length (filter (\<lambda>e. \<exists>k. snd e = Passed k a) xs)"

definition counts_ok :: "rl_opts \<Rightarrow> rworld \<Rightarrow> bool" where
  "counts_ok o1 w \<longleftrightarrow> wf_assoc (seats w)
     \<and> (\<forall>a < length (heap (rstore w)). wb_count (heap (rstore w) ! a) = seated a (seats w))
     \<and> (\<forall>a. int (passed a (seats w)) \<le> max_hits o1)"

text \<open>Every bucket belongs to one key; \<open>ow\<close> lists the owners.\<close>

definition windows_ok :: "rl_opts \<Rightarrow> jstr list \<Rightarrow> rworld \<Rightarrow> bool" where
  "windows_ok o1 ow w \<longleftrightarrow> (let h = heap (rstore w); ix = index (rstore w) in
     length ow = length h
     \<and> (\<forall>e \<in> set (seats w). seat_addr (snd e) < length h \<and> ow ! seat_addr (snd e) = seat_key (snd e))
     \<and> (\<forall>k a. map_of ix k = Some a \<longrightarrow> a < length h \<and> ow ! a = k)
     \<and> (\<forall>a b. a < b \<and> b < length h \<and> ow ! a = ow ! b \<longrightarrow> wb_reset (h ! a) + windowMs o1 \<le> wb_reset (h ! b))
     \<and> (\<forall>a < length h. map_of ix (ow ! a) \<noteq> Some a \<longrightarrow> wb_reset (h ! a) \<le> clock w))"

definition rl_inv :: "rl_opts \<Rightarrow> rworld \<Rightarrow> bool" where
  "rl_inv o1 w \<longleftrightarrow> counts_ok o1 w \<and> (\<exists>ow. windows_ok o1 ow w) \<and> wf_assoc (index (rstore w))"

lemma seated_simps [simp]:
  "seated a [] = 0" "seated a (xs @ [(r, st)]) = seated a xs + (if seat_addr st = a then 1 else 0)"
  by (simp_all add: seated_def)

lemma passed_simps [simp]:
  "passed a [] = 0" "passed a (xs @ [(r, Waiting k b)]) = passed a xs"
  by (simp_all add: passed_def)

lemma passed_seated: "passed a xs \<le> seated a xs"
  unfolding passed_def seated_def by (induction xs) auto

text \<open>A seat that is decided keeps its address.\<close>

lemma decide_counts:
  assumes "map_of xs r = Some (Waiting k a)" "st = Passed k a \<or> st = Refused k a"
  shows "seated b (AList.update r st xs) = seated b xs"
    and "passed b (AList.update r st xs) = passed b xs + (if st = Passed k a \<and> b = a then 1 else 0)"
proof -
  have "seated b (AList.update r st xs) = seated b xs
      \<and> passed b (AList.update r st xs) = passed b xs + (if st = Passed k a \<and> b = a then 1 else 0)"
    using assms by (induction xs) (auto simp: seated_def passed_def split: if_splits)
  then show "seated b (AList.update r st xs) = seated b xs"
    "passed b (AList.update r st xs) = passed b xs + (if st = Passed k a \<and> b = a then 1 else 0)" by simp_all
qed

lemma waiting_room:
  assumes "map_of xs r = Some (Waiting k a)"
  shows "passed a xs < seated a xs"
  using assms
proof (induction xs)
  case (Cons e xs)
  obtain r' st where e: "e = (r', st)" by fastforce
  show ?case
  proof (cases "r' = r")
    case True
    then have "st = Waiting k a" using Cons.prems e by simp
    then show ?thesis using passed_seated [of a xs] by (simp add: e passed_def seated_def)
  next
    case False
    then have "passed a xs < seated a xs" using Cons e by simp
    then show ?thesis by (cases st) (auto simp: e passed_def seated_def)
  qed
qed simp

lemma hit_cases:
  assumes "hit k wd now s = (a, s')"
  obtains (fresh) "live_addr k now s = None" "a = length (heap s)" "heap s' = heap s @ [\<lparr> wb_count = 1, wb_reset = now + wd \<rparr>]"
      "s' = sweep now (fresh_bucket k wd now s)"
    | (again) "live_addr k now s = Some a" "map_of (index s) k = Some a" "now < wb_reset (heap s ! a)" "index s' = index s"
      "heap s' = (heap s)[a := (heap s ! a)\<lparr>wb_count := Suc (wb_count (heap s ! a))\<rparr>]"
proof (cases "live_addr k now s")
  case None
  have "heap s' = heap s @ [\<lparr> wb_count = 1, wb_reset = now + wd \<rparr>]"
    using assms None by (auto simp: hit_def fresh_bucket_def sweep_def)
  with None assms show ?thesis by (intro fresh) (auto simp: hit_def)
next
  case (Some b)
  then have "map_of (index s) k = Some b \<and> now < wb_reset (heap s ! b)"
    by (auto simp: live_addr_def split: option.splits if_splits)
  with Some assms show ?thesis by (intro again) (auto simp: hit_def)
qed

lemma sweep_index:
  assumes "wf_assoc (index s)"
  shows "map_of (index (sweep now s)) k = Some a \<Longrightarrow> map_of (index s) k = Some a"
    and "map_of (index s) k = Some a \<Longrightarrow> map_of (index (sweep now s)) k \<noteq> Some a \<Longrightarrow> wb_reset (heap s ! a) \<le> now"
    and "wf_assoc (index (sweep now s))" "heap (sweep now s) = heap s"
proof -
  note m = map_of_filter_wf [OF assms, of "\<lambda>a. now < wb_reset (heap s ! a)"]
  show "map_of (index (sweep now s)) k = Some a \<Longrightarrow> map_of (index s) k = Some a"
    by (auto simp: sweep_def m split: if_splits option.splits)
  show "map_of (index s) k = Some a \<Longrightarrow> map_of (index (sweep now s)) k \<noteq> Some a \<Longrightarrow> wb_reset (heap s ! a) \<le> now"
    by (auto simp: sweep_def m split: if_splits)
  show "wf_assoc (index (sweep now s))" using assms by (simp add: sweep_def distinct_map_filter)
  show "heap (sweep now s) = heap s" by (simp add: sweep_def)
qed

lemma windowsD:
  assumes "windows_ok o1 ow w"
  shows "length ow = length (heap (rstore w))"
    and "e \<in> set (seats w) \<Longrightarrow> seat_addr (snd e) < length (heap (rstore w)) \<and> ow ! seat_addr (snd e) = seat_key (snd e)"
    and "map_of (index (rstore w)) k = Some a \<Longrightarrow> a < length (heap (rstore w)) \<and> ow ! a = k"
    and "a < b \<Longrightarrow> b < length (heap (rstore w)) \<Longrightarrow> ow ! a = ow ! b
      \<Longrightarrow> wb_reset (heap (rstore w) ! a) + windowMs o1 \<le> wb_reset (heap (rstore w) ! b)"
    and "a < length (heap (rstore w)) \<Longrightarrow> map_of (index (rstore w)) (ow ! a) \<noteq> Some a \<Longrightarrow> wb_reset (heap (rstore w) ! a) \<le> clock w"
  using assms unfolding windows_ok_def Let_def by blast+

lemma no_seat: "windows_ok o1 ow w \<Longrightarrow> length (heap (rstore w)) \<le> a \<Longrightarrow> seated a (seats w) = 0"
  using windowsD(2) by (fastforce simp: seated_def filter_empty_conv)

lemma windowsI:
  assumes "length ow = length (heap (rstore w))"
    and "\<And>r st. (r, st) \<in> set (seats w) \<Longrightarrow> seat_addr st < length (heap (rstore w)) \<and> ow ! seat_addr st = seat_key st"
    and "\<And>k a. map_of (index (rstore w)) k = Some a \<Longrightarrow> a < length (heap (rstore w)) \<and> ow ! a = k"
    and "\<And>a b. a < b \<Longrightarrow> b < length (heap (rstore w)) \<Longrightarrow> ow ! a = ow ! b
      \<Longrightarrow> wb_reset (heap (rstore w) ! a) + windowMs o1 \<le> wb_reset (heap (rstore w) ! b)"
    and "\<And>a. a < length (heap (rstore w)) \<Longrightarrow> map_of (index (rstore w)) (ow ! a) \<noteq> Some a \<Longrightarrow> wb_reset (heap (rstore w) ! a) \<le> clock w"
  shows "windows_ok o1 ow w"
  unfolding windows_ok_def Let_def
proof (intro conjI ballI allI impI)
  fix e assume "e \<in> set (seats w)"
  then show "seat_addr (snd e) < length (heap (rstore w))" "ow ! seat_addr (snd e) = seat_key (snd e)"
    using assms(2) [of "fst e" "snd e"] by simp_all
qed (use assms in blast)+

lemma fresh_windows:
  assumes "windows_ok o1 ow w" "wf_assoc (index (rstore w))" "live_addr k now (rstore w) = None" "clock w \<le> now"
  defines "s' \<equiv> sweep now (fresh_bucket k (windowMs o1) now (rstore w))"
  shows "windows_ok o1 (ow @ [k]) (w\<lparr>rstore := s', clock := now, seats := seats w @ [(r, Waiting k (length (heap (rstore w))))]\<rparr>)"
    and "wf_assoc (index s')"
proof -
  let ?s = "rstore w" and ?f = "fresh_bucket k (windowMs o1) now (rstore w)"
  note W = windowsD [OF assms(1)]
  have wf: "wf_assoc (index ?f)" using assms(2) by (simp add: fresh_bucket_def distinct_update)
  note sw = sweep_index [OF wf, where now = now]
  have h: "heap s' = heap ?s @ [\<lparr> wb_count = 1, wb_reset = now + windowMs o1 \<rparr>]" using sw(4) by (simp add: s'_def fresh_bucket_def)
  have hf: "heap ?f = heap s'" by (simp add: h fresh_bucket_def)
  have ix: "map_of (index ?f) j = (if j = k then Some (length (heap ?s)) else map_of (index ?s) j)" for j
    by (simp add: fresh_bucket_def update_conv')
  show "wf_assoc (index s')" unfolding s'_def by (rule sw(3))
  have old: "wb_reset (heap ?s ! a) \<le> now" if "a < length (heap ?s)" "ow ! a = k" for a
  proof (cases "map_of (index ?s) k = Some a")
    case True
    then show ?thesis using assms(3) by (simp add: live_addr_def split: if_splits)
  next
    case False
    then show ?thesis using W(5) [of a] that assms(4) by auto
  qed
  define w' where "w' = w\<lparr>rstore := s', clock := now, seats := seats w @ [(r, Waiting k (length (heap ?s)))]\<rparr>"
  have rw: "rstore w' = s'" "clock w' = now" "seats w' = seats w @ [(r, Waiting k (length (heap ?s)))]" by (simp_all add: w'_def)
  have "windows_ok o1 (ow @ [k]) w'"
  proof (rule windowsI, unfold rw)
    show "length (ow @ [k]) = length (heap s')" using W(1) by (simp add: h)
  next
    fix q st assume "(q, st) \<in> set (seats w @ [(r, Waiting k (length (heap ?s)))])"
    then show "seat_addr st < length (heap s') \<and> (ow @ [k]) ! seat_addr st = seat_key st"
      using W(1) W(2) [of "(q, st)"] by (auto simp: h nth_append)
  next
    fix j a assume "map_of (index s') j = Some a"
    then have "map_of (index ?f) j = Some a" using sw(1) by (simp add: s'_def)
    then show "a < length (heap s') \<and> (ow @ [k]) ! a = j" using W(1) W(3) [of j a] by (auto simp: ix h nth_append split: if_splits)
  next
    fix a b assume ab: "a < b" "b < length (heap s')" "(ow @ [k]) ! a = (ow @ [k]) ! b"
    show "wb_reset (heap s' ! a) + windowMs o1 \<le> wb_reset (heap s' ! b)"
    proof (cases "b < length (heap ?s)")
      case True
      then show ?thesis using W(1) W(4) [of a b] ab by (simp add: h nth_append)
    next
      case False
      then have "b = length (heap ?s)" "a < length (heap ?s)" using ab by (auto simp: h)
      then show ?thesis using W(1) old [of a] ab by (simp add: h nth_append)
    qed
  next
    fix a assume a: "a < length (heap s')" "map_of (index s') ((ow @ [k]) ! a) \<noteq> Some a"
    show "wb_reset (heap s' ! a) \<le> now"
    proof (cases "map_of (index ?f) ((ow @ [k]) ! a) = Some a")
      case True
      have "wb_reset (heap ?f ! a) \<le> now" by (rule sw(2) [OF True]) (use a(2) in \<open>simp add: s'_def\<close>)
      then show ?thesis by (simp only: hf)
    next
      case False
      then have lt: "a < length (heap ?s)" using a(1) W(1) by (auto simp: ix h nth_append less_Suc_eq)
      show ?thesis
      proof (cases "ow ! a = k")
        case True
        then show ?thesis using old [OF lt] lt by (simp add: h nth_append)
      next
        case False
        then have "map_of (index ?s) (ow ! a) \<noteq> Some a" using \<open>map_of (index ?f) _ \<noteq> _\<close> lt W(1) by (simp add: ix nth_append)
        then show ?thesis using W(5) [OF lt] lt assms(4) by (simp add: h nth_append)
      qed
    qed
  qed
  then show "windows_ok o1 (ow @ [k]) (w\<lparr>rstore := s', clock := now, seats := seats w @ [(r, Waiting k (length (heap ?s)))]\<rparr>)"
    by (simp only: w'_def)
qed

lemma again_windows:
  assumes "windows_ok o1 ow w" "map_of (index (rstore w)) k = Some a" "clock w \<le> now" "index s' = index (rstore w)"
    and "heap s' = (heap (rstore w))[a := (heap (rstore w) ! a)\<lparr>wb_count := Suc (wb_count (heap (rstore w) ! a))\<rparr>]"
  shows "windows_ok o1 ow (w\<lparr>rstore := s', clock := now, seats := seats w @ [(r, Waiting k a)]\<rparr>)"
proof -
  note W = windowsD [OF assms(1)]
  define w' where "w' = w\<lparr>rstore := s', clock := now, seats := seats w @ [(r, Waiting k a)]\<rparr>"
  have rw: "rstore w' = s'" "clock w' = now" "seats w' = seats w @ [(r, Waiting k a)]" by (simp_all add: w'_def)
  have l: "length (heap s') = length (heap (rstore w))" by (simp add: assms(5))
  have rs: "wb_reset (heap s' ! b) = wb_reset (heap (rstore w) ! b)" if "b < length (heap (rstore w))" for b
    using that W(3) [OF assms(2)] by (simp add: assms(5) nth_list_update)
  have "windows_ok o1 ow w'"
  proof (rule windowsI, unfold rw l assms(4))
    fix q st assume "(q, st) \<in> set (seats w @ [(r, Waiting k a)])"
    then show "seat_addr st < length (heap (rstore w)) \<and> ow ! seat_addr st = seat_key st"
      using W(2) [of "(q, st)"] W(3) [OF assms(2)] by auto
  next
    fix b c assume "b < c" "c < length (heap (rstore w))" "ow ! b = ow ! c"
    then show "wb_reset (heap s' ! b) + windowMs o1 \<le> wb_reset (heap s' ! c)" using W(4) [of b c] rs by simp
  next
    fix b assume "b < length (heap (rstore w))" "map_of (index (rstore w)) (ow ! b) \<noteq> Some b"
    then show "wb_reset (heap s' ! b) \<le> now" using W(5) [of b] rs assms(3) by simp
  qed (use W(1,3) in blast)+
  then show ?thesis by (simp only: w'_def)
qed

lemma hit_inv:
  assumes "rl_inv o1 w" "0 \<le> max_hits o1" "hit k (windowMs o1) now (rstore w) = (a, s')" "clock w \<le> now" "map_of (seats w) r = None"
  shows "rl_inv o1 (w\<lparr>rstore := s', clock := now, seats := seats w @ [(r, Waiting k a)]\<rparr>)"
proof -
  obtain ow where ow: "windows_ok o1 ow w" and wf: "wf_assoc (index (rstore w))" and c: "counts_ok o1 w"
    using assms(1) by (auto simp: rl_inv_def)
  have d: "wf_assoc (seats w @ [(r, Waiting k a)])" using c assms(5) by (simp add: counts_ok_def map_of_eq_None_iff)
  from assms(3) show ?thesis
  proof (cases rule: hit_cases)
    case fresh
    note f = fresh_windows(1) [OF ow wf fresh(1) assms(4), of r] fresh_windows(2) [OF ow wf fresh(1) assms(4)]
    have "seated a (seats w) = 0" using no_seat [OF ow] fresh(2) by simp
    then have "counts_ok o1 (w\<lparr>rstore := s', clock := now, seats := seats w @ [(r, Waiting k a)]\<rparr>)"
      using c d by (auto simp: counts_ok_def fresh(2,3) nth_append less_Suc_eq)
    then show ?thesis using f unfolding rl_inv_def fresh(2,4) [symmetric] by (auto simp: fresh(2,4))
  next
    case again
    have "windows_ok o1 ow (w\<lparr>rstore := s', clock := now, seats := seats w @ [(r, Waiting k a)]\<rparr>)"
      by (rule again_windows [OF ow again(2) assms(4) again(4,5)])
    moreover have "counts_ok o1 (w\<lparr>rstore := s', clock := now, seats := seats w @ [(r, Waiting k a)]\<rparr>)"
      using c d by (auto simp: counts_ok_def again(5) nth_list_update)
    ultimately show ?thesis using wf again(4) by (auto simp: rl_inv_def)
  qed
qed

lemma decided_seats:
  "map_of xs r = Some (Waiting k a) \<Longrightarrow> wf_assoc xs \<Longrightarrow> st = Passed k a \<or> st = Refused k a \<Longrightarrow> (q, x) \<in> set (AList.update r st xs)
    \<Longrightarrow> \<exists>y. (q, y) \<in> set xs \<and> seat_addr y = seat_addr x \<and> seat_key y = seat_key x"
proof -
  assume a: "map_of xs r = Some (Waiting k a)" "wf_assoc xs" "st = Passed k a \<or> st = Refused k a" "(q, x) \<in> set (AList.update r st xs)"
  then have m: "map_of (AList.update r st xs) q = Some x" by (simp add: distinct_update)
  show ?thesis
  proof (cases "q = r")
    case True
    then show ?thesis using a(1,3) m map_of_SomeD [OF a(1)] by (auto simp: update_conv' intro!: exI [of _ "Waiting k a"])
  next
    case False
    then show ?thesis using m by (auto simp: update_conv' dest: map_of_SomeD)
  qed
qed

lemma read_inv:
  assumes "rl_inv o1 w" "map_of (seats w) r = Some (Waiting k a)" "clock w \<le> now"
    and "st = (if judge o1 (heap (rstore w) ! a) now = Allowed then Passed k a else Refused k a)"
  shows "rl_inv o1 (w\<lparr>clock := now, seats := AList.update r st (seats w)\<rparr>)"
proof -
  obtain ow where ow: "windows_ok o1 ow w" and wf: "wf_assoc (index (rstore w))" and c: "counts_ok o1 w"
    using assms(1) by (auto simp: rl_inv_def)
  note W = windowsD [OF ow]
  have st: "st = Passed k a \<or> st = Refused k a" using assms(4) by simp
  note dc = decide_counts [OF assms(2) st]
  have al: "a < length (heap (rstore w))" using W(2) [OF map_of_SomeD [OF assms(2)]] by simp
  define w' where "w' = w\<lparr>clock := now, seats := AList.update r st (seats w)\<rparr>"
  have rw: "rstore w' = rstore w" "clock w' = now" "seats w' = AList.update r st (seats w)" by (simp_all add: w'_def)
  have "int (passed b (seats w')) \<le> max_hits o1" for b
  proof (cases "st = Passed k a \<and> b = a")
    case True
    then have "int (wb_count (heap (rstore w) ! a)) \<le> max_hits o1" using assms(4) by (auto simp: judge_def split: if_splits)
    then have "int (seated a (seats w)) \<le> max_hits o1" using c al by (simp add: counts_ok_def)
    moreover have "passed b (seats w') = passed a (seats w) + 1" unfolding rw dc(2) using True by simp
    ultimately show ?thesis using waiting_room [OF assms(2)] by linarith
  next
    case False
    then have "passed b (seats w') = passed b (seats w)" unfolding rw dc(2) by auto
    then show ?thesis using c by (simp add: counts_ok_def)
  qed
  then have "counts_ok o1 w'" using c by (simp add: counts_ok_def rw dc distinct_update)
  moreover have "windows_ok o1 ow w'"
  proof (rule windowsI, unfold rw)
    fix q x assume qx: "(q, x) \<in> set (AList.update r st (seats w))"
    obtain y where "(q, y) \<in> set (seats w)" "seat_addr y = seat_addr x" "seat_key y = seat_key x"
      using decided_seats [OF assms(2) _ st qx] c by (auto simp: counts_ok_def)
    then show "seat_addr x < length (heap (rstore w)) \<and> ow ! seat_addr x = seat_key x" using W(2) [of "(q, y)"] by simp
  next
    fix b assume "b < length (heap (rstore w))" "map_of (index (rstore w)) (ow ! b) \<noteq> Some b"
    then show "wb_reset (heap (rstore w) ! b) \<le> now" using W(5) [of b] assms(3) by simp
  qed (use W(1,3,4) in blast)+
  ultimately show ?thesis using wf unfolding rl_inv_def w'_def [symmetric] rw by blast
qed

lemma rl_step_inv: "rl_inv o1 w \<Longrightarrow> 0 \<le> max_hits o1 \<Longrightarrow> rl_step o1 ev w = Some w' \<Longrightarrow> rl_inv o1 w'"
  by (cases ev) (auto simp: rl_step_def hit_inv read_inv split: prod.splits if_splits option.splits seat.splits)

lemma rl_reach_inv: "rl_reach o1 w \<Longrightarrow> 0 \<le> max_hits o1 \<Longrightarrow> rl_inv o1 w"
proof (induction rule: rl_reach.induct)
  case initial
  show ?case using \<open>0 \<le> max_hits o1\<close>
    by (auto simp: new_rworld_def new_rl_store_def rl_inv_def counts_ok_def windows_ok_def)
qed (use rl_step_inv in blast)

section \<open>The interface of a store\<close>

text \<open>
  What \<open>rateLimit()\<close> relies on in a store (memory or Redis) while no other request of the key
  intervenes: a hit answers one more than the hits of the window so far, keeps that count, and
  leaves other keys alone.  The quota of a window follows for every such store.
\<close>

locale rate_store =
  fixes hitf :: "jstr \<Rightarrow> int \<Rightarrow> int \<Rightarrow> 's \<Rightarrow> wbucket \<times> 's"
    and used :: "jstr \<Rightarrow> int \<Rightarrow> 's \<Rightarrow> nat"
    and sinv :: "'s \<Rightarrow> bool"
  assumes answer: "sinv s \<Longrightarrow> wb_count (fst (hitf k wd now s)) = Suc (used k now s)"
    and counted: "sinv s \<Longrightarrow> 0 < wd \<Longrightarrow> used k now (snd (hitf k wd now s)) = Suc (used k now s)"
    and others: "sinv s \<Longrightarrow> k' \<noteq> k \<Longrightarrow> used k' now (snd (hitf k wd now s)) = used k' now s"
    and keeps: "sinv s \<Longrightarrow> sinv (snd (hitf k wd now s))"
begin

fun burst :: "rl_opts \<Rightarrow> jstr \<Rightarrow> int \<Rightarrow> nat \<Rightarrow> 's \<Rightarrow> verdict list" where
  "burst o1 k now 0 s = []"
| "burst o1 k now (Suc n) s = judge o1 (fst (hitf k (windowMs o1) now s)) now # burst o1 k now n (snd (hitf k (windowMs o1) now s))"

lemma judged:
  "sinv s \<Longrightarrow> judge o1 (fst (hitf k (windowMs o1) now s)) now = Allowed \<longleftrightarrow> int (used k now s) < max_hits o1"
  by (auto simp: judge_def answer)

lemma burst_quota:
  "sinv s \<Longrightarrow> 0 < windowMs o1 \<Longrightarrow> i < n \<Longrightarrow> burst o1 k now n s ! i = Allowed \<longleftrightarrow> int (used k now s + i) < max_hits o1"
proof (induction n arbitrary: s i)
  case (Suc n)
  show ?case
  proof (cases i)
    case 0
    then show ?thesis using judged [OF Suc.prems(1)] by simp
  next
    case (Suc j)
    then show ?thesis
      using Suc.IH [OF keeps [OF Suc.prems(1)], where i = j] Suc.prems counted [OF Suc.prems(1,2)] by (simp add: ac_simps)
  qed
qed simp

end

definition memory_hit :: "jstr \<Rightarrow> int \<Rightarrow> int \<Rightarrow> rl_store \<Rightarrow> wbucket \<times> rl_store" where
  "memory_hit k wd now s = (case hit k wd now s of (a, s') \<Rightarrow> (heap s' ! a, s'))"

definition used_now :: "jstr \<Rightarrow> int \<Rightarrow> rl_store \<Rightarrow> nat" where
  "used_now k now s = (case live_addr k now s of None \<Rightarrow> 0 | Some a \<Rightarrow> wb_count (heap s ! a))"

definition index_ok :: "rl_store \<Rightarrow> bool" where
  "index_ok s \<longleftrightarrow> wf_assoc (index s) \<and> (\<forall>k a. map_of (index s) k = Some a \<longrightarrow> a < length (heap s))
     \<and> (\<forall>k k' a. map_of (index s) k = Some a \<and> map_of (index s) k' = Some a \<longrightarrow> k = k')"

lemma live_addr_index: "live_addr k now s = Some a \<Longrightarrow> map_of (index s) k = Some a \<and> now < wb_reset (heap s ! a)"
  by (auto simp: live_addr_def split: option.splits if_splits)

lemma live_sweep: "wf_assoc (index s) \<Longrightarrow> live_addr k now (sweep now s) = live_addr k now s"
  using map_of_filter_wf [of "index s" "\<lambda>a. now < wb_reset (heap s ! a)" k]
  by (auto simp: live_addr_def sweep_def split: option.splits)

lemma index_okD:
  assumes "index_ok s" "map_of (index s) k = Some a"
  shows "a < length (heap s)" "map_of (index s) k' = Some a \<Longrightarrow> k = k'"
  using assms unfolding index_ok_def by blast+

lemma fresh_index_ok:
  assumes "index_ok s"
  shows "index_ok (fresh_bucket k wd now s)"
proof -
  have m: "map_of (index (fresh_bucket k wd now s)) j = (if j = k then Some (length (heap s)) else map_of (index s) j)" for j
    by (simp add: fresh_bucket_def update_conv')
  have "wf_assoc (index (fresh_bucket k wd now s))" using assms by (simp add: index_ok_def fresh_bucket_def distinct_update)
  moreover have "length (heap (fresh_bucket k wd now s)) = Suc (length (heap s))" by (simp add: fresh_bucket_def)
  ultimately show ?thesis unfolding index_ok_def m
    using index_okD [OF assms] by (metis less_SucI lessI less_irrefl option.inject)
qed

lemma sweep_index_ok:
  assumes "index_ok s"
  shows "index_ok (sweep now s)"
proof -
  have wf: "wf_assoc (index s)" using assms by (simp add: index_ok_def)
  show ?thesis using assms sweep_index [OF wf, where now = now] unfolding index_ok_def by metis
qed

lemma fresh_live:
  assumes "index_ok s"
  shows "live_addr k' now (fresh_bucket k wd now s) = (if k' = k then (if 0 < wd then Some (length (heap s)) else None) else live_addr k' now s)"
  using assms by (auto simp: live_addr_def fresh_bucket_def update_conv' nth_append index_ok_def split: option.split)

interpretation memory_rate: rate_store memory_hit used_now index_ok
proof
  fix s k wd now k'
  assume ok: "index_ok s"
  obtain a s' where h: "hit k wd now s = (a, s')" by fastforce
  have m: "memory_hit k wd now s = (heap s' ! a, s')" by (simp add: memory_hit_def h)
  from h have all: "wb_count (heap s' ! a) = Suc (used_now k now s) \<and> (0 < wd \<longrightarrow> used_now k now s' = Suc (used_now k now s))
      \<and> (k' \<noteq> k \<longrightarrow> used_now k' now s' = used_now k' now s) \<and> index_ok s'"
  proof (cases rule: hit_cases)
    case fresh
    have wf: "wf_assoc (index (fresh_bucket k wd now s))" using fresh_index_ok [OF ok] by (simp add: index_ok_def)
    have l: "live_addr j now s' = live_addr j now (fresh_bucket k wd now s)" for j unfolding fresh(4) by (rule live_sweep [OF wf])
    have "live_addr k' now s \<noteq> None \<Longrightarrow> the (live_addr k' now s) < length (heap s)"
      using live_addr_index [of k' now s] index_okD(1) [OF ok] by fastforce
    then show ?thesis using fresh(1-3) l fresh_live [OF ok] sweep_index_ok [OF fresh_index_ok [OF ok]] fresh(4)
      by (auto simp: used_now_def nth_append split: option.splits)
  next
    case again
    have al: "a < length (heap s)" using again(2) ok by (simp add: index_ok_def)
    have lv: "live_addr j now s' = live_addr j now s" for j
      using al by (auto simp: live_addr_def again(4,5) nth_list_update split: option.split)
    have "live_addr k' now s = Some b \<Longrightarrow> k' \<noteq> k \<Longrightarrow> b \<noteq> a \<and> b < length (heap s)" for b
      using live_addr_index again(2) ok unfolding index_ok_def by metis
    moreover have "index_ok s'" using ok by (simp add: index_ok_def again(4,5))
    ultimately show ?thesis using al again(1) lv
      by (auto simp: used_now_def again(5) nth_list_update split: option.splits)
  qed
  show "wb_count (fst (memory_hit k wd now s)) = Suc (used_now k now s)" using all by (simp add: m)
  show "0 < wd \<Longrightarrow> used_now k now (snd (memory_hit k wd now s)) = Suc (used_now k now s)" using all by (simp add: m)
  show "k' \<noteq> k \<Longrightarrow> used_now k' now (snd (memory_hit k wd now s)) = used_now k' now s" using all by (simp add: m)
  show "index_ok (snd (memory_hit k wd now s))" using all by (simp add: m)
qed

section \<open>Properties\<close>

lemma check_max: "rateLimit_check o1 = None \<Longrightarrow> 0 \<le> max_hits o1 \<and> 0 < windowMs o1"
  by (auto simp: rateLimit_check_def split: if_splits)

text \<open>
  C21. The limit holds under concurrency.  However hits and reads of overlapping requests
  interleave, at most \<open>max\<close> of the requests that share a bucket are let through, and two buckets
  of one key are for disjoint windows.
\<close>

theorem rate_limit_bounded:
  assumes "rl_reach o1 w" "rateLimit_check o1 = None"
  shows "int (passed a (seats w)) \<le> max_hits o1
    \<and> (\<forall>e \<in> set (seats w). \<forall>f \<in> set (seats w). seat_key (snd e) = seat_key (snd f) \<and> seat_addr (snd e) < seat_addr (snd f)
        \<longrightarrow> wb_reset (heap (rstore w) ! seat_addr (snd e)) + windowMs o1 \<le> wb_reset (heap (rstore w) ! seat_addr (snd f)))"
proof -
  have i: "rl_inv o1 w" using rl_reach_inv [OF assms(1)] check_max [OF assms(2)] by blast
  then obtain ow where ow: "windows_ok o1 ow w" by (auto simp: rl_inv_def)
  have "int (passed a (seats w)) \<le> max_hits o1" using i by (simp add: rl_inv_def counts_ok_def)
  moreover have "wb_reset (heap (rstore w) ! seat_addr (snd e)) + windowMs o1 \<le> wb_reset (heap (rstore w) ! seat_addr (snd f))"
    if "e \<in> set (seats w)" "f \<in> set (seats w)" "seat_key (snd e) = seat_key (snd f)" "seat_addr (snd e) < seat_addr (snd f)" for e f
    using windowsD(2) [OF ow that(1)] windowsD(2) [OF ow that(2)] windowsD(4) [OF ow that(4)] that(3) by simp
  ultimately show ?thesis by blast
qed

text \<open>
  The count a request reads is shared.  \<open>hit\<close> returns the bucket itself, so a request whose
  \<open>await\<close> another hit overtakes reads the later count: with \<open>max: 1\<close>, two overlapping requests
  are both refused although the first is within the limit; one after the other, the first is
  let through.
\<close>

definition one_per_second :: rl_opts where
  "one_per_second = \<lparr> windowMs = 1000, max_hits = 1, draft8 = None, legacyHeaders = True, retryAfter = True, rl_groupId = None \<rparr>"

fun rl_run :: "rl_opts \<Rightarrow> rl_event list \<Rightarrow> rworld \<Rightarrow> rworld option" where
  "rl_run o1 [] w = Some w"
| "rl_run o1 (ev # evs) w = (case rl_step o1 ev w of None \<Rightarrow> None | Some w' \<Rightarrow> rl_run o1 evs w')"

lemma rl_run_reach: "rl_reach o1 w \<Longrightarrow> rl_run o1 evs w = Some w' \<Longrightarrow> rl_reach o1 w'"
  by (induction evs arbitrary: w) (auto split: option.splits intro: rl_reach.event)

lemmas rl_eval = rl_step_def hit_def live_addr_def fresh_bucket_def sweep_def judge_def new_rworld_def new_rl_store_def

lemma overtaken_read_refused:
  "map_option seats (rl_run one_per_second [Hit 1 [7] 0, Hit 2 [7] 0, Read 1 0, Read 2 0] new_rworld) = Some [(1, Refused [7] 0), (2, Refused [7] 0)]
   \<and> map_option seats (rl_run one_per_second [Hit 1 [7] 0, Read 1 0, Hit 2 [7] 0, Read 2 0] new_rworld) = Some [(1, Passed [7] 0), (2, Refused [7] 0)]"
  by (simp add: one_per_second_def rl_eval)

theorem rate_limit_bounded_witness:
  "\<exists>w. rl_run one_per_second [Hit 1 [7] 0, Read 1 0, Hit 2 [7] 0, Read 2 0, Hit 3 [7] 1000, Read 3 1000] new_rworld = Some w
     \<and> int (passed 0 (seats w)) \<le> 1 \<and> wb_reset (heap (rstore w) ! 0) + 1000 \<le> wb_reset (heap (rstore w) ! 1)"
proof -
  obtain w where w: "rl_run one_per_second [Hit 1 [7] 0, Read 1 0, Hit 2 [7] 0, Read 2 0, Hit 3 [7] 1000, Read 3 1000] new_rworld = Some w"
    "seats w = [(1, Passed [7] 0), (2, Refused [7] 0), (3, Passed [7] 1)]"
    by (simp add: one_per_second_def rl_eval)
  have c: "rateLimit_check one_per_second = None" by (simp add: rateLimit_check_def one_per_second_def)
  note t = rate_limit_bounded [OF rl_run_reach [OF rl_reach.initial w(1)] c, of 0]
  have "wb_reset (heap (rstore w) ! 0) + windowMs one_per_second \<le> wb_reset (heap (rstore w) ! 1)"
    using t unfolding w(2) by simp
  then show ?thesis using w(1) t by (auto simp: one_per_second_def)
qed

text \<open>
  A window lets through exactly its quota.  When no other request of the key intervenes
  between a hit and its read, the n-th request of a burst is let through exactly while the hits
  of the window before it number fewer than \<open>max\<close>, and requests of other keys do not count.
\<close>

lemma burst_exact:
  assumes "index_ok s" "rateLimit_check o1 = None" "i < n"
  shows "(memory_rate.burst o1 k now n s ! i = Allowed \<longleftrightarrow> int (used_now k now s + i) < max_hits o1)
    \<and> (k' \<noteq> k \<longrightarrow> used_now k now (snd (memory_hit k' (windowMs o1) now s)) = used_now k now s)"
proof (intro conjI impI)
  have w: "0 < windowMs o1" using check_max [OF assms(2)] by blast
  show "memory_rate.burst o1 k now n s ! i = Allowed \<longleftrightarrow> int (used_now k now s + i) < max_hits o1"
    by (rule memory_rate.burst_quota [OF assms(1) w assms(3)])
  show "used_now k now (snd (memory_hit k' (windowMs o1) now s)) = used_now k now s" if "k' \<noteq> k"
    by (rule memory_rate.others [OF assms(1)]) (use that in simp)
qed

lemma burst_exact_example:
  "memory_rate.burst one_per_second [7] 5 3 new_rl_store ! 0 = Allowed \<and> memory_rate.burst one_per_second [7] 5 3 new_rl_store ! 2 \<noteq> Allowed"
proof -
  have ok: "index_ok new_rl_store" by (simp add: index_ok_def new_rl_store_def)
  have c: "rateLimit_check one_per_second = None" by (simp add: rateLimit_check_def one_per_second_def)
  have u: "used_now [7] 5 new_rl_store = 0" by (simp add: used_now_def live_addr_def new_rl_store_def)
  show ?thesis
    using burst_exact [OF ok c, of 0 3 "[7]" 5] burst_exact [OF ok c, of 2 3 "[7]" 5] by (simp add: u one_per_second_def)
qed

text \<open>
  The key of the limiter is not the client's to choose: behind the declared number of proxies,
  it is the canonical identity of the address the outermost proxy saw, whatever forwarding
  headers the client sent; a peer outside the declared proxies is keyed on its own address.
\<close>

lemma rate_key_unforgeable:
  assumes "rate_key False o1 tr subnet p = Inr key" "obs \<noteq> []" "\<forall>a \<in> set obs. 44 \<notin> set a"
    and "js_trim (hd obs) = hd obs" "parseIp (hd obs) \<noteq> None" "hd obs \<noteq> []"
    and "trustedHops tr = Some (int (length obs))" "h_xff q = via forged obs"
  shows "(trustedProxies tr = None \<longrightarrow> key q = groupPrefix o1 @ ipRateLimitIdentity (hd obs) subnet)
    \<and> (\<forall>ms. resolveTrustedProxyMatchers tr = Inr (Some ms) \<and> \<not> isTrustedPeer q ms \<longrightarrow> key q = groupPrefix o1 @ peerRateLimitKey subnet q)"
proof -
  have pick: "pickForwardedForByHops (h_xff q) (int (length obs)) = Some (hd obs)"
    unfolding assms(8) by (rule chain_pick [OF assms(3,2,4,5,6)])
  have xff: "h_xff q \<noteq> None" using pick by (cases "h_xff q") (simp_all add: pickForwardedForByHops_def)
  obtain hops pm where r: "resolveForwardedTrust tr = Inr hops" "resolveTrustedProxyMatchers tr = Inr pm"
    using assms(1) by (auto simp: rate_key_def split: sum.splits)
  have h: "hops = Some (int (length obs))"
    using r(1) unfolding resolveForwardedTrust_def assms(7) by (simp split: if_splits)
  have "key = (\<lambda>q. groupPrefix o1 @ defaultForwardedRateLimitKey hops pm True subnet q)"
    using assms(1,7) r by (auto simp: rate_key_def declaresNoClientTrust_def)
  then have k: "key q = groupPrefix o1 @ (case resolveForwardedClientIp q (int (length obs)) pm XForwardedFor of
      Some ip \<Rightarrow> ipRateLimitIdentity ip subnet | None \<Rightarrow> peerRateLimitKey subnet q)"
    by (simp add: defaultForwardedRateLimitKey_def h)
  have "trustedProxies tr = None \<Longrightarrow> pm = None" using r(2) by (simp add: resolveTrustedProxyMatchers_def)
  then show ?thesis using k pick xff r(2) by (auto simp: resolveForwardedClientIp_def)
qed

lemma rate_key_unforgeable_example:
  "\<exists>key. rate_key False one_per_second two_hops 64 no_posture = Inr key \<and> key forged_request = js ''203.0.113.9''"
proof -
  obtain key where key: "rate_key False one_per_second two_hops 64 no_posture = Inr key"
    by (simp add: rate_key_def resolveForwardedTrust_def resolveTrustedProxyMatchers_def two_hops_def)
  have "key forged_request = groupPrefix one_per_second @ ipRateLimitIdentity (hd [js ''203.0.113.9'', js ''10.0.0.1'']) 64"
    by (rule mp [OF conjunct1 [OF rate_key_unforgeable [OF key, where forged = "Some (js ''1.2.3.4, 5.6.7.8'')"]]])
      (simp_all add: two_hops_def forged_request_def eval)
  then show ?thesis using key by (simp add: one_per_second_def groupPrefix_def eval)
qed

text \<open>The slowdown of the login throttle grows with the attempts up to its ceiling.\<close>

lemma slowdown_bounds:
  assumes "throttle_ok o1"
  shows "0 \<le> slowdown o1 n \<and> slowdown o1 n \<le> maxDelayMs o1" "m \<le> n \<Longrightarrow> slowdown o1 m \<le> slowdown o1 n"
    "int n \<le> delayAfter o1 \<Longrightarrow> slowdown o1 n = 0"
proof -
  have d: "0 \<le> delayMs o1" "0 \<le> maxDelayMs o1" using assms by (simp_all add: throttle_ok_def)
  have nn: "0 \<le> slowdown o1 j" for j using d by (simp add: slowdown_def)
  show "0 \<le> slowdown o1 n \<and> slowdown o1 n \<le> maxDelayMs o1" using nn [of n] d by (simp add: slowdown_def)
  show "int n \<le> delayAfter o1 \<Longrightarrow> slowdown o1 n = 0" by (simp add: slowdown_def)
  assume mn: "m \<le> n"
  show "slowdown o1 m \<le> slowdown o1 n"
  proof (cases "delayAfter o1 < int m")
    case True
    have "(int m - delayAfter o1) * delayMs o1 \<le> (int n - delayAfter o1) * delayMs o1"
      by (rule mult_right_mono) (use mn d in simp_all)
    then show ?thesis using True mn by (simp add: slowdown_def min.coboundedI2)
  next
    case False
    then show ?thesis using nn [of n] by (simp add: slowdown_def)
  qed
qed

end
