(* ===== verification/Cookie.thy ===== *)
theory Cookie
  imports JsText
begin

text \<open>
  \<open>cookie.ts\<close>: validation of cookie attributes, the \<open>Set-Cookie\<close> serializers and the reader of
  the \<open>Cookie\<close> header.

  An attribute that may be \<open>undefined\<close> is an option.  \<open>SameSite\<close> is kept as a string because the
  source checks it at run time; numbers are integers.  What a browser keeps of a \<open>Set-Cookie\<close>
  header is \<open>cookie_pair\<close>, the text before the first semicolon (RFC 6265, 5.2).
\<close>

section \<open>Attributes\<close>

record cookie_attributes =
  ca_sameSite :: "jstr option"
  ca_secure :: "bool option"
  ca_httpOnly :: "bool option"
  ca_path :: "jstr option"
  ca_domain :: "jstr option"
  ca_maxAge :: "int option"
  ca_partitioned :: bool

definition no_attributes :: cookie_attributes where
  "no_attributes = \<lparr> ca_sameSite = None, ca_secure = None, ca_httpOnly = None, ca_path = None,
     ca_domain = None, ca_maxAge = None, ca_partitioned = False \<rparr>"

datatype cookie_error = BadCookieName | BadSameSite | BadCookiePath | PathChars | EmptyDomain | DomainChars
  | BadMaxAge | NoneNeedsSecure | PartitionedNeedsSecure | HostPrefixRules | SecurePrefixRules | LoneSurrogate

definition cookie_name_char :: "nat \<Rightarrow> bool" where
  "cookie_name_char c \<longleftrightarrow> is_digit c \<or> (65 \<le> c \<and> c \<le> 90) \<or> (97 \<le> c \<and> c \<le> 122)
     \<or> c \<in> {33, 35, 36, 37, 38, 39, 42, 43, 45, 46, 94, 95, 96, 124, 126}"

definition valid_cookie_name :: "jstr \<Rightarrow> bool" where
  "valid_cookie_name n \<longleftrightarrow> n \<noteq> [] \<and> list_all cookie_name_char n"

definition path_or_domain_ok :: "jstr \<Rightarrow> bool" where
  "path_or_domain_ok v \<longleftrightarrow> \<not> list_ex (\<lambda>c. c \<in> {59, 13, 10, 0}) v"

definition or_else :: "'a option \<Rightarrow> 'a \<Rightarrow> 'a" where
  "or_else v d = (case v of None \<Rightarrow> d | Some x \<Rightarrow> x)"

definition sameSite_of :: "cookie_attributes \<Rightarrow> jstr" where
  "sameSite_of a = or_else (ca_sameSite a) (js ''Strict'')"

definition secure_of :: "cookie_attributes \<Rightarrow> bool" where
  "secure_of a = or_else (ca_secure a) True"

definition path_of :: "cookie_attributes \<Rightarrow> jstr" where
  "path_of a = or_else (ca_path a) [47]"

definition domain_error :: "cookie_attributes \<Rightarrow> cookie_error option" where
  "domain_error a = (case ca_domain a of None \<Rightarrow> None
     | Some d \<Rightarrow> if d = [] then Some EmptyDomain else if \<not> path_or_domain_ok d then Some DomainChars else None)"

definition truthy :: "jstr option \<Rightarrow> bool" where
  "truthy v \<longleftrightarrow> v \<noteq> None \<and> v \<noteq> Some []"

definition assertCookieAttributes :: "jstr \<Rightarrow> cookie_attributes \<Rightarrow> cookie_error option" where
  "assertCookieAttributes name a =
     (let sameSite = sameSite_of a; secure = secure_of a; path = path_of a in
      if \<not> valid_cookie_name name then Some BadCookieName
      else if sameSite \<notin> {js ''Strict'', js ''Lax'', js ''None''} then Some BadSameSite
      else if take 1 path \<noteq> [47] then Some BadCookiePath
      else if \<not> path_or_domain_ok path then Some PathChars
      else if domain_error a \<noteq> None then domain_error a
      else if (case ca_maxAge a of None \<Rightarrow> False | Some m \<Rightarrow> m < 0) then Some BadMaxAge
      else if sameSite = js ''None'' \<and> \<not> secure then Some NoneNeedsSecure
      else if ca_partitioned a \<and> \<not> secure then Some PartitionedNeedsSecure
      else if prefix (js ''__Host-'') name \<and> (\<not> secure \<or> path \<noteq> [47] \<or> truthy (ca_domain a)) then Some HostPrefixRules
      else if prefix (js ''__Secure-'') name \<and> \<not> secure then Some SecurePrefixRules
      else None)"

section \<open>Writing\<close>

text \<open>The attributes both serializers append, in their order, up to \<open>Max-Age\<close>.\<close>

definition flag :: "bool \<Rightarrow> jstr \<Rightarrow> jstr" where
  "flag b t = (if b then t else [])"

definition common_attributes :: "cookie_attributes \<Rightarrow> jstr" where
  "common_attributes a =
     js ''; Path='' @ path_of a @ js ''; SameSite='' @ sameSite_of a
     @ flag (secure_of a) (js ''; Secure'') @ flag (or_else (ca_httpOnly a) True) (js ''; HttpOnly'')
     @ flag (truthy (ca_domain a)) (js ''; Domain='' @ or_else (ca_domain a) [])"

definition max_age_text :: "int option \<Rightarrow> jstr" where
  "max_age_text m = (case m of None \<Rightarrow> [] | Some s \<Rightarrow> flag (0 < s) (js ''; Max-Age='' @ dec_str (nat s)))"

definition serializeCookie :: "jstr \<Rightarrow> jstr \<Rightarrow> cookie_attributes \<Rightarrow> cookie_error + jstr" where
  "serializeCookie name v a =
     (case assertCookieAttributes name a of Some e \<Rightarrow> Inl e
      | None \<Rightarrow> (case encodeURIComponent v of None \<Rightarrow> Inl LoneSurrogate
        | Some e \<Rightarrow> Inr (name @ 61 # e @ common_attributes a @ max_age_text (ca_maxAge a)
            @ flag (ca_partitioned a) (js ''; Partitioned''))))"

definition serializeClearCookie :: "jstr \<Rightarrow> cookie_attributes \<Rightarrow> cookie_error + jstr" where
  "serializeClearCookie name a =
     (case assertCookieAttributes name a of Some e \<Rightarrow> Inl e
      | None \<Rightarrow> Inr (name @ 61 # common_attributes a @ js ''; Max-Age=0''
            @ flag (ca_partitioned a) (js ''; Partitioned'')))"

section \<open>Reading\<close>

definition decode_cookie :: "jstr \<Rightarrow> jstr" where
  "decode_cookie v = (case decodeURIComponent v of None \<Rightarrow> v | Some d \<Rightarrow> d)"

text \<open>The name and the raw value of one part of the header; \<open>None\<close> without an equals sign.\<close>

definition cookie_part :: "jstr \<Rightarrow> (jstr \<times> jstr) option" where
  "cookie_part part = (if 61 \<notin> set part then None
     else Some (js_trim (takeWhile (\<lambda>c. c \<noteq> 61) part), js_trim (tl (dropWhile (\<lambda>c. c \<noteq> 61) part))))"

fun scan_parts :: "jstr \<Rightarrow> jstr option \<Rightarrow> jstr list \<Rightarrow> jstr option" where
  "scan_parts name found [] = found"
| "scan_parts name found (part # parts) =
     (case cookie_part part of None \<Rightarrow> scan_parts name found parts
      | Some (k, v) \<Rightarrow>
          if k = name then (if found \<noteq> None then None else scan_parts name (Some (decode_cookie v)) parts)
          else scan_parts name found parts)"

definition readRequestCookie :: "jstr option \<Rightarrow> jstr \<Rightarrow> jstr option" where
  "readRequestCookie header name =
     (case header of None \<Rightarrow> None | Some h \<Rightarrow> if h = [] then None else scan_parts name None (split_on 59 h))"

lemmas [eval] = no_attributes_def cookie_name_char_def valid_cookie_name_def path_or_domain_ok_def or_else_def
  sameSite_of_def secure_of_def path_of_def domain_error_def truthy_def assertCookieAttributes_def flag_def
  common_attributes_def max_age_text_def serializeCookie_def serializeClearCookie_def decode_cookie_def
  cookie_part_def readRequestCookie_def

section \<open>The reader picks the only cookie of the name\<close>

definition named :: "jstr \<Rightarrow> jstr \<Rightarrow> bool" where
  "named name part \<longleftrightarrow> (case cookie_part part of None \<Rightarrow> False | Some (k, v) \<Rightarrow> k = name)"

definition value_of :: "jstr \<Rightarrow> jstr" where
  "value_of part = (case cookie_part part of None \<Rightarrow> [] | Some (k, v) \<Rightarrow> decode_cookie v)"

lemma scan_parts_found:
  "scan_parts name (Some d) parts = (if filter (named name) parts = [] then Some d else None)"
  by (induction parts) (auto simp: named_def split: option.splits)

lemma scan_parts_filter:
  "scan_parts name None parts = (case filter (named name) parts of [p] \<Rightarrow> Some (value_of p) | _ \<Rightarrow> None)"
proof (induction parts)
  case (Cons p ps)
  show ?case
  proof (cases "named name p")
    case True
    then obtain v where "cookie_part p = Some (name, v)" by (auto simp: named_def split: option.splits)
    with True show ?thesis by (cases "filter (named name) ps") (simp_all add: scan_parts_found value_of_def)
  next
    case False
    then have "scan_parts name None (p # ps) = scan_parts name None ps"
      by (auto simp: named_def split: option.splits)
    with False Cons show ?thesis by simp
  qed
qed simp

text \<open>
  The reader answers a value exactly when one and only one part of the header has the name:
  a second copy of the cookie, wherever it stands, makes it answer \<open>null\<close> (no copy is preferred), a
  part without an equals sign or of another name has no effect, and the value is the decoded text of
  that one part.
\<close>

lemma cookie_read_unique:
  "readRequestCookie (Some h) name =
     (case filter (named name) (split_on 59 h) of [p] \<Rightarrow> Some (value_of p) | _ \<Rightarrow> None)"
proof (cases "h = []")
  case True
  then show ?thesis by (simp add: readRequestCookie_def named_def cookie_part_def)
next
  case False
  then show ?thesis by (simp add: readRequestCookie_def scan_parts_filter)
qed

section \<open>Serialized cookies\<close>

text \<open>What a browser stores of a \<open>Set-Cookie\<close> header, and how it sends its cookies back.\<close>

definition cookie_pair :: "jstr \<Rightarrow> jstr" where
  "cookie_pair out = takeWhile (\<lambda>c. c \<noteq> 59) out"

fun cookie_header :: "jstr list \<Rightarrow> jstr" where
  "cookie_header [] = []"
| "cookie_header [p] = p"
| "cookie_header (p # q # ps) = p @ js ''; '' @ cookie_header (q # ps)"

definition attribute_list :: "cookie_attributes \<Rightarrow> jstr list" where
  "attribute_list a = [js ''Path='' @ path_of a, js ''SameSite='' @ sameSite_of a]
     @ (if secure_of a then [js ''Secure''] else []) @ (if or_else (ca_httpOnly a) True then [js ''HttpOnly''] else [])
     @ (case ca_domain a of Some (c # d) \<Rightarrow> [js ''Domain='' @ c # d] | _ \<Rightarrow> [])
     @ (case ca_maxAge a of None \<Rightarrow> [] | Some m \<Rightarrow> if 0 < m then [js ''Max-Age='' @ dec_str (nat m)] else [])
     @ (if ca_partitioned a then [js ''Partitioned''] else [])"

lemma name_char_plain: "cookie_name_char c \<Longrightarrow> c \<noteq> 59 \<and> c \<noteq> 61 \<and> \<not> is_js_space c \<and> c \<notin> {0, 10, 13}"
  by (auto simp: cookie_name_char_def is_digit_def is_js_space_def)

lemma uri_char_plain: "uri_char c \<Longrightarrow> c \<noteq> 59 \<and> \<not> is_js_space c \<and> c \<notin> {0, 10, 13}"
proof -
  assume "uri_char c"
  then have "c < 127 \<and> 33 \<le> c \<and> c \<noteq> 59"
    unfolding uri_char_def uri_unreserved_def is_digit_def is_hex_def hex_val_def by (auto split: if_splits)
  then show ?thesis by (simp add: is_js_space_def)
qed

lemma serialize_cases:
  assumes "serializeCookie name v a = Inr out" and "well_formed v"
  obtains e where "encodeURIComponent v = Some e" "decodeURIComponent e = Some v" "\<forall>c \<in> set e. uri_char c"
    "assertCookieAttributes name a = None"
    "out = name @ 61 # e @ common_attributes a @ max_age_text (ca_maxAge a) @ flag (ca_partitioned a) (js ''; Partitioned'')"
proof -
  obtain e where e: "encodeURIComponent v = Some e" "decodeURIComponent e = Some v"
    using uri_roundtrip [OF assms(2)] .
  have "\<forall>c \<in> set e. uri_char c" by (rule encodeURIComponent_chars [OF assms(2) e(1)])
  with e that show ?thesis using assms(1) by (auto simp: serializeCookie_def split: option.splits)
qed

lemma accepted_name: "assertCookieAttributes name a = None \<Longrightarrow> list_all cookie_name_char name"
  by (auto simp: assertCookieAttributes_def Let_def valid_cookie_name_def split: if_splits)

lemma pair_of_out:
  assumes "list_all cookie_name_char name" and "\<forall>c \<in> set e. uri_char c"
  shows "cookie_pair (name @ 61 # e @ common_attributes a @ r) = name @ 61 # e"
proof -
  have "\<forall>c \<in> set (name @ 61 # e). c \<noteq> 59"
    using assms name_char_plain uri_char_plain by (auto simp: list_all_iff)
  then have "takeWhile (\<lambda>c. c \<noteq> 59) ((name @ 61 # e) @ 59 # t) = name @ 61 # e" for t
    by (subst takeWhile_append2) auto
  moreover have "common_attributes a @ r = 59 # tl (common_attributes a @ r)"
    by (simp add: common_attributes_def)
  ultimately show ?thesis
    unfolding cookie_pair_def by (metis append.assoc append_Cons)
qed

lemma part_of_pair:
  assumes "list_all cookie_name_char name" and "\<forall>c \<in> set e. uri_char c"
  shows "cookie_part (name @ 61 # e) = Some (name, e)"
proof -
  have n: "\<forall>c \<in> set name. c \<noteq> 61 \<and> \<not> is_js_space c" and v: "\<forall>c \<in> set e. \<not> is_js_space c"
    using assms name_char_plain uri_char_plain by (auto simp: list_all_iff)
  then have "takeWhile (\<lambda>c. c \<noteq> 61) (name @ 61 # e) = name" "dropWhile (\<lambda>c. c \<noteq> 61) (name @ 61 # e) = 61 # e"
    by (simp_all add: takeWhile_append dropWhile_append)
  with n v show ?thesis by (simp add: cookie_part_def js_trim_id)
qed

lemma part_space: "cookie_part (32 # p) = cookie_part p"
  by (simp add: cookie_part_def js_trim_def is_js_space_def)

lemma named_space [simp]: "named n (32 # p) = named n p" "value_of (32 # p) = value_of p"
  by (simp_all add: named_def value_of_def part_space)

lemma split_header:
  assumes "\<forall>p \<in> set (p # ps). 59 \<notin> set p"
  shows "split_on 59 (cookie_header (p # ps)) = p # map (Cons 32) ps"
  using assms
proof (induction ps arbitrary: p)
  case (Cons q ps)
  have "split_on 59 (cookie_header (p # q # ps)) = p # split_on 59 (32 # cookie_header (q # ps))"
    using Cons.prems by (simp add: split_on_append)
  also have "split_on 59 (32 # cookie_header (q # ps)) = (32 # q) # map (Cons 32) ps"
    using Cons by simp
  finally show ?case by simp
qed (simp add: split_on_plain)

lemma filter_header:
  assumes "\<forall>p \<in> set ps. 59 \<notin> set p" and "ps \<noteq> []"
  shows "map value_of (filter (named n) (split_on 59 (cookie_header ps))) = map value_of (filter (named n) ps)"
proof -
  obtain p qs where ps: "ps = p # qs" using assms(2) by (cases ps) simp_all
  have "map value_of (filter (named n) (map (Cons 32) qs)) = map value_of (filter (named n) qs)"
    by (induction qs) simp_all
  then show ?thesis using assms(1) unfolding ps split_header [OF assms(1) [unfolded ps]] by simp
qed

text \<open>The cookie the browser holds, among cookies of other names, in any order.\<close>

lemma cookie_sent_back:
  assumes "serializeCookie name v a = Inr out" and "well_formed v"
    and "\<forall>p \<in> set before \<union> set after. 59 \<notin> set p \<and> \<not> named name p"
  shows "readRequestCookie (Some (cookie_header (before @ cookie_pair out # after))) name = Some v"
proof -
  obtain e where e: "decodeURIComponent e = Some v" "\<forall>c \<in> set e. uri_char c" "assertCookieAttributes name a = None"
    and out: "out = name @ 61 # e @ common_attributes a @ max_age_text (ca_maxAge a) @ flag (ca_partitioned a) (js ''; Partitioned'')"
    using serialize_cases [OF assms(1,2)] .
  note n = accepted_name [OF e(3)]
  have pair: "cookie_pair out = name @ 61 # e" unfolding out by (rule pair_of_out [OF n e(2)])
  have cp: "cookie_part (cookie_pair out) = Some (name, e)" unfolding pair by (rule part_of_pair [OF n e(2)])
  have plain: "59 \<notin> set (cookie_pair out)" by (auto simp: cookie_pair_def dest: set_takeWhileD)
  let ?ps = "before @ cookie_pair out # after"
  have "map value_of (filter (named name) (split_on 59 (cookie_header ?ps))) = map value_of (filter (named name) ?ps)"
    by (rule filter_header) (use assms(3) plain in auto)
  also have "filter (named name) ?ps = [cookie_pair out]"
    using assms(3) cp by (auto simp: named_def filter_empty_conv)
  also have "map value_of [cookie_pair out] = [v]" using cp e(1) by (simp add: value_of_def decode_cookie_def)
  finally obtain q where "filter (named name) (split_on 59 (cookie_header ?ps)) = [q]" "value_of q = v"
    by (auto simp: Cons_eq_map_conv)
  moreover from this have "cookie_header ?ps \<noteq> []" by (auto simp: named_def cookie_part_def split: if_splits)
  ultimately show ?thesis by (simp add: readRequestCookie_def scan_parts_filter)
qed

text \<open>
  What \<open>serializeCookie\<close> writes, a browser stores and sends back, is read as the value that was
  written: whatever the (well-formed) value is, and whatever other cookies of other names stand in
  front of it or behind it in the header.
\<close>

lemma cookie_roundtrip:
  assumes "serializeCookie name v a = Inr out" and "well_formed v"
    and "\<forall>p \<in> set before \<union> set after. 59 \<notin> set p \<and> \<not> named name p"
  shows "readRequestCookie (Some (cookie_header (before @ cookie_pair out # after))) name = Some v"
  by (rule cookie_sent_back [OF assms])

lemma cookie_roundtrip_witness:
  "readRequestCookie (Some (js ''a=1; sid=x%3By; b='')) (js ''sid'') = Some (js ''x;y'')"
proof -
  have s: "serializeCookie (js ''sid'') (js ''x;y'') no_attributes
      = Inr (js ''sid=x%3By; Path=/; SameSite=Strict; Secure; HttpOnly'')"
    by (simp add: eval is_digit_def hex_digit_upper_def)
  have p: "cookie_pair (js ''sid=x%3By; Path=/; SameSite=Strict; Secure; HttpOnly'') = js ''sid=x%3By''"
    by (simp add: cookie_pair_def)
  show ?thesis
    using cookie_roundtrip [OF s, of "[js ''a=1'']" "[js ''b='']"]
    unfolding p by (simp add: well_formed_def named_def cookie_part_def js_trim_def is_js_space_def is_high_def is_low_def)
qed

section \<open>No attribute can be injected\<close>

definition clean :: "jstr \<Rightarrow> bool" where
  "clean s \<longleftrightarrow> set s \<inter> {59, 0, 10, 13} = {}"

lemma clean_app [simp]: "clean (s @ t) \<longleftrightarrow> clean s \<and> clean t" "clean []"
  "clean (c # s) \<longleftrightarrow> c \<noteq> 59 \<and> c \<noteq> 0 \<and> c \<noteq> 10 \<and> c \<noteq> 13 \<and> clean s"
  by (auto simp: clean_def)

lemma path_ok_plain: "path_or_domain_ok p \<longleftrightarrow> clean p"
  unfolding path_or_domain_ok_def list_ex_iff clean_def by blast

lemma accepted_attributes:
  assumes "assertCookieAttributes name a = None"
  shows "sameSite_of a \<in> {js ''Strict'', js ''Lax'', js ''None''}" "path_or_domain_ok (path_of a)"
    "case ca_domain a of None \<Rightarrow> True | Some d \<Rightarrow> d \<noteq> [] \<and> path_or_domain_ok d"
    "prefix (js ''__Host-'') name \<Longrightarrow> secure_of a \<and> path_of a = [47] \<and> ca_domain a = None"
    "prefix (js ''__Secure-'') name \<or> ca_partitioned a \<or> sameSite_of a = js ''None'' \<Longrightarrow> secure_of a"
  using assms
  by (auto simp: assertCookieAttributes_def Let_def domain_error_def truthy_def split: if_splits option.splits)

lemma clean_attributes:
  assumes "assertCookieAttributes name a = None"
  shows "\<forall>t \<in> set (attribute_list a). clean t"
proof -
  note acc = accepted_attributes [OF assms]
  have "clean (path_of a)" "clean (sameSite_of a)" using acc(1,2) by (auto simp: path_ok_plain)
  moreover have "clean d" if "ca_domain a = Some d" for d
    using acc(3) that by (simp add: path_ok_plain)
  moreover have "clean (dec_str m)" for m
    using dec_str_digits [of m] by (auto simp: clean_def is_digit_def)
  ultimately show ?thesis
    by (cases "ca_domain a"; cases "the (ca_domain a)")
      (auto simp: attribute_list_def split: option.splits if_splits)
qed

lemma attribute_text:
  assumes "case ca_domain a of None \<Rightarrow> True | Some d \<Rightarrow> d \<noteq> []"
  shows "common_attributes a @ max_age_text (ca_maxAge a) @ flag (ca_partitioned a) (js ''; Partitioned'')
    = concat (map (\<lambda>t. 59 # 32 # t) (attribute_list a))"
  using assms
  by (cases "ca_domain a"; cases "ca_maxAge a")
    (auto simp: common_attributes_def max_age_text_def flag_def attribute_list_def truthy_def or_else_def neq_Nil_conv
      split: list.splits)

lemma split_attributes:
  assumes "clean p" and "\<forall>t \<in> set ts. clean t"
  shows "split_on 59 (p @ concat (map (\<lambda>t. 59 # 32 # t) ts)) = p # map (Cons 32) ts"
  using assms
proof (induction ts arbitrary: p)
  case Nil
  then show ?case using split_on_plain [of 59 p] by (auto simp: clean_def)
next
  case (Cons t ts)
  then have "split_on 59 ((32 # t) @ concat (map (\<lambda>t. 59 # 32 # t) ts)) = (32 # t) # map (Cons 32) ts" by simp
  moreover have "59 \<notin> set p" using Cons.prems(1) by (auto simp: clean_def)
  ultimately show ?case by (simp add: split_on_append)
qed

text \<open>
  A value cannot inject: however hostile the cookie value is, the header that
  \<open>serializeCookie\<close> returns splits at its semicolons into the pair and exactly the attributes of the
  configuration, and holds no line break or NUL.  A \<open>__Host-\<close> cookie always goes out \<open>Secure\<close>, with
  \<open>Path=/\<close> and without a domain.
\<close>

lemma set_cookie_not_injectable:
  assumes "serializeCookie name v a = Inr out" and "well_formed v"
  shows "(\<exists>e. split_on 59 out = (name @ 61 # e) # map (Cons 32) (attribute_list a))
    \<and> set out \<inter> {0, 10, 13} = {}
    \<and> (prefix (js ''__Host-'') name \<longrightarrow>
        js ''Secure'' \<in> set (attribute_list a) \<and> js ''Path=/'' \<in> set (attribute_list a) \<and> ca_domain a = None)"
proof -
  obtain e where e: "\<forall>c \<in> set e. uri_char c" "assertCookieAttributes name a = None"
    and out: "out = name @ 61 # e @ common_attributes a @ max_age_text (ca_maxAge a) @ flag (ca_partitioned a) (js ''; Partitioned'')"
    using serialize_cases [OF assms] .
  note acc = accepted_attributes [OF e(2)]
  have cl: "clean (name @ 61 # e)"
    using accepted_name [OF e(2)] e(1) name_char_plain uri_char_plain by (auto simp: list_all_iff clean_def)
  have out': "out = (name @ 61 # e) @ concat (map (\<lambda>t. 59 # 32 # t) (attribute_list a))"
    using attribute_text [of a] acc(3) out by (auto split: option.splits)
  have "split_on 59 out = (name @ 61 # e) # map (Cons 32) (attribute_list a)"
    unfolding out' by (rule split_attributes [OF cl clean_attributes [OF e(2)]])
  moreover have "set out \<inter> {0, 10, 13} = {}"
    using cl clean_attributes [OF e(2)] unfolding out' by (auto simp: clean_def)
  moreover have "js ''Secure'' \<in> set (attribute_list a) \<and> js ''Path=/'' \<in> set (attribute_list a) \<and> ca_domain a = None"
    if "prefix (js ''__Host-'') name"
    using acc(4) [OF that] by (simp add: attribute_list_def)
  ultimately show ?thesis by blast
qed

lemma set_cookie_not_injectable_witness:
  "set (js ''sid=a%3B%20Domain%3Devil; Path=/; SameSite=Strict; Secure; HttpOnly'') \<inter> {0, 10, 13} = {}"
proof -
  have "serializeCookie (js ''sid'') (js ''a; Domain=evil'') no_attributes
      = Inr (js ''sid=a%3B%20Domain%3Devil; Path=/; SameSite=Strict; Secure; HttpOnly'')"
    by (simp add: eval is_digit_def hex_digit_upper_def)
  from set_cookie_not_injectable [OF this] show ?thesis by (simp add: well_formed_def is_high_def is_low_def)
qed

text \<open>
  The name in the header is trimmed of every JavaScript white space, which is more than HTTP's:
  a cookie whose name is \<open>__Host-daloy.sid\<close> behind a no-break space (U+00A0, a byte that a header may
  carry) has another name for the browser, so none of the rules of the \<open>__Host-\<close> prefix apply to it and
  a sibling host may set it; the reader answers it as \<open>__Host-daloy.sid\<close>.
\<close>

lemma host_prefix_evaded:
  "readRequestCookie (Some (160 # js ''__Host-daloy.sid=evil'')) (js ''__Host-daloy.sid'') = Some (js ''evil'')
    \<and> \<not> prefix (js ''__Host-'') (160 # js ''__Host-daloy.sid'')"
  by (simp add: eval)

end
