(* ===== verification/Guards.thy ===== *)
theory Guards
  imports Json Security
begin

unbundle bit_operations_syntax

text \<open>
  The request guards of \<open>security.ts\<close>: the inbound header checks, credential parsing and
  comparison, the structural limits on JSON text and the stripping of dangerous keys.

  \<open>Headers\<close> is an association list of lower-case names; \<open>Headers.forEach\<close> visits it in order.
  String lengths are below \<open>2 ^ 30\<close> and code units below \<open>2 ^ 16\<close>, so the 32-bit \<open>^\<close> and \<open>|\<close> of the
  source are those on natural numbers.  \<open>JSON.parse\<close> is the parameter \<open>parse\<close>.
\<close>

section \<open>Comparison without an early exit\<close>

definition charCodeAt :: "jstr \<Rightarrow> nat \<Rightarrow> nat" where
  "charCodeAt s i = (if i < length s then s ! i else 0)"

definition timingSafeEqual :: "jstr \<Rightarrow> jstr \<Rightarrow> bool" where
  "timingSafeEqual a b =
     (foldl (\<lambda>m i. m OR (charCodeAt a i XOR charCodeAt b i)) (length a XOR length b)
        [0 ..< max (length a) (length b)] = 0)"

lemma xor_zero_iff: "(m :: nat) XOR n = 0 \<longleftrightarrow> m = n"
  by (metis xor.assoc xor.right_neutral xor_self_eq xor.left_neutral)

lemma or_zero_iff: "(m :: nat) OR n = 0 \<longleftrightarrow> m = 0 \<and> n = 0"
  by (simp add: or_eq_0_iff)

lemma fold_or_zero: "foldl (\<lambda>m i. m OR f i) m xs = (0 :: nat) \<longleftrightarrow> m = 0 \<and> (\<forall>x \<in> set xs. f x = 0)"
  by (induction xs arbitrary: m) (auto simp: or_zero_iff)

text \<open>The accumulator is zero exactly when the strings are equal.\<close>

lemma timingSafeEqual_eq [simp]: "timingSafeEqual a b \<longleftrightarrow> a = b"
proof
  assume "timingSafeEqual a b"
  then have "length a = length b" "\<forall>i < length a. charCodeAt a i = charCodeAt b i"
    by (auto simp: timingSafeEqual_def fold_or_zero xor_zero_iff)
  then show "a = b" by (simp add: nth_equalityI charCodeAt_def)
next
  assume "a = b"
  then show "timingSafeEqual a b" unfolding timingSafeEqual_def fold_or_zero by simp
qed

section \<open>Inbound headers\<close>

type_synonym headers = "(jstr, jstr) assoc"

datatype guard_error = DuplicateSingleton jstr | ReservedHeader jstr | TooManyHeaders

definition singleton_headers :: "jstr list" where
  "singleton_headers = [js ''host'', js ''content-length'', js ''transfer-encoding'']"

definition reserved_prefixes :: "jstr list" where
  "reserved_prefixes = [js ''x-daloy-internal-'', js ''x-daloyjs-internal-'']"

fun common_start :: "jstr \<Rightarrow> jstr \<Rightarrow> jstr" where
  "common_start (a # as) (b # bs) = (if a = b then a # common_start as bs else [])"
| "common_start _ _ = []"

definition reserved_common :: jstr where
  "reserved_common = foldl common_start (hd reserved_prefixes) reserved_prefixes"

fun assertNoDuplicateSingletonHeaders :: "jstr list \<Rightarrow> headers \<Rightarrow> guard_error option" where
  "assertNoDuplicateSingletonHeaders [] h = None"
| "assertNoDuplicateSingletonHeaders (n # ns) h =
     (case map_of h n of
        Some v \<Rightarrow> if 44 \<in> set v then Some (DuplicateSingleton n) else assertNoDuplicateSingletonHeaders ns h
      | None \<Rightarrow> assertNoDuplicateSingletonHeaders ns h)"

definition reserved :: "jstr \<Rightarrow> bool" where
  "reserved name \<longleftrightarrow> list_ex (\<lambda>p. prefix p name) reserved_prefixes"

fun assertNoReservedInternalHeaders :: "headers \<Rightarrow> guard_error option" where
  "assertNoReservedInternalHeaders [] = None"
| "assertNoReservedInternalHeaders ((n, v) # h) =
     (if reserved n then Some (ReservedHeader n) else assertNoReservedInternalHeaders h)"

fun count_over :: "int \<Rightarrow> int \<Rightarrow> headers \<Rightarrow> bool" where
  "count_over limit count [] = False"
| "count_over limit count (x # h) = (if count + 1 > limit then True else count_over limit (count + 1) h)"

definition assertHeaderCountWithinLimit :: "headers \<Rightarrow> int \<Rightarrow> guard_error option" where
  "assertHeaderCountWithinLimit h limit =
     (if \<not> limit > 0 then None else if count_over limit 0 h then Some TooManyHeaders else None)"

text \<open>The single walk of the dispatch path: the count is compared to the end, the rest throws at once.\<close>

fun guard_walk :: "int \<Rightarrow> int \<Rightarrow> bool \<Rightarrow> headers \<Rightarrow> guard_error option" where
  "guard_walk limit count overLimit [] = (if overLimit then Some TooManyHeaders else None)"
| "guard_walk limit count overLimit ((n, v) # h) =
     (if n \<in> set singleton_headers \<and> 44 \<in> set v then Some (DuplicateSingleton n)
      else if prefix reserved_common n \<and> reserved n then Some (ReservedHeader n)
      else if limit > 0 then guard_walk limit (count + 1) (overLimit \<or> count + 1 > limit) h
      else guard_walk limit count overLimit h)"

definition assertInboundHeaderGuards :: "headers \<Rightarrow> int \<Rightarrow> guard_error option" where
  "assertInboundHeaderGuards h limit = guard_walk limit 0 False h"

definition status_of :: "guard_error option \<Rightarrow> nat option" where
  "status_of e = (case e of None \<Rightarrow> None | Some TooManyHeaders \<Rightarrow> Some 431 | Some _ \<Rightarrow> Some 400)"

lemmas [eval] = singleton_headers_def reserved_prefixes_def reserved_def status_of_def
  assertInboundHeaderGuards_def assertHeaderCountWithinLimit_def

lemma reserved_common_value: "reserved_common = js ''x-daloy''"
  by (simp add: reserved_common_def reserved_prefixes_def)

lemma reserved_common_sound: "reserved n \<Longrightarrow> prefix reserved_common n"
proof -
  have p: "prefix reserved_common p" if "p \<in> set reserved_prefixes" for p
    using that by (auto simp: reserved_common_value reserved_prefixes_def)
  assume "reserved n"
  then obtain q where "q \<in> set reserved_prefixes" "prefix q n" by (auto simp: reserved_def list_ex_iff)
  with p show ?thesis by (meson prefix_order.order_trans)
qed

lemma status_simps [simp]:
  "status_of None = None" "status_of (Some (DuplicateSingleton n)) = Some 400"
  "status_of (Some (ReservedHeader n)) = Some 400" "status_of (Some TooManyHeaders) = Some 431"
  "status_of e = None \<longleftrightarrow> e = None"
  by (auto simp: status_of_def split: option.splits guard_error.splits)

text \<open>The declarative reading of the three checks.\<close>

definition duplicate_singleton :: "headers \<Rightarrow> bool" where
  "duplicate_singleton h \<longleftrightarrow> (\<exists>(n, v) \<in> set h. n \<in> set singleton_headers \<and> 44 \<in> set v)"

definition reserved_present :: "headers \<Rightarrow> bool" where
  "reserved_present h \<longleftrightarrow> (\<exists>(n, v) \<in> set h. reserved n)"

lemma no_headers [simp]: "\<not> duplicate_singleton []" "\<not> reserved_present []"
  by (simp_all add: duplicate_singleton_def reserved_present_def)

lemma count_over_iff: "0 \<le> count \<Longrightarrow> count \<le> limit \<Longrightarrow> count_over limit count h \<longleftrightarrow> limit < count + int (length h)"
proof (induction h arbitrary: count)
  case (Cons x h)
  then show ?case by (cases "count + 1 \<le> limit") auto
qed simp

lemma guard_walk_status:
  "status_of (guard_walk limit count over h) =
    (if duplicate_singleton h \<or> reserved_present h then Some 400
     else if over \<or> 0 < limit \<and> h \<noteq> [] \<and> limit < count + int (length h) then Some 431 else None)"
proof (induction h arbitrary: count over)
  case Nil
  then show ?case by (simp add: duplicate_singleton_def reserved_present_def)
next
  case (Cons x h)
  obtain n v where x: "x = (n, v)" by (cases x)
  show ?case
  proof (cases "n \<in> set singleton_headers \<and> 44 \<in> set v \<or> reserved n")
    case True
    then show ?thesis
      by (auto simp: x duplicate_singleton_def reserved_present_def reserved_common_sound)
  next
    case False
    then have "duplicate_singleton (x # h) = duplicate_singleton h" "reserved_present (x # h) = reserved_present h"
      by (auto simp: x duplicate_singleton_def reserved_present_def)
    moreover have "guard_walk limit count over (x # h) =
        (if 0 < limit then guard_walk limit (count + 1) (over \<or> count + 1 > limit) h else guard_walk limit count over h)"
      using False by (auto simp: x)
    ultimately show ?thesis by (cases "h = []"; cases "0 < limit"; cases over; simp add: Cons.IH; arith?)
  qed
qed

lemma dup_singleton_status:
  assumes "wf_assoc h"
  shows "status_of (assertNoDuplicateSingletonHeaders ns h)
    = (if \<exists>(n, v) \<in> set h. n \<in> set ns \<and> 44 \<in> set v then Some 400 else None)"
proof (induction ns)
  case (Cons n ns)
  have m: "map_of h n = Some v \<longleftrightarrow> (n, v) \<in> set h" for n v using assms by (simp add: map_of_eq_Some_iff)
  show ?case
  proof (cases "\<exists>v. (n, v) \<in> set h \<and> 44 \<in> set v")
    case True
    then obtain v where v: "(n, v) \<in> set h" "44 \<in> set v" by blast
    then have "assertNoDuplicateSingletonHeaders (n # ns) h = Some (DuplicateSingleton n)" using m [of n v] by simp
    with v show ?thesis by auto
  next
    case False
    then have "assertNoDuplicateSingletonHeaders (n # ns) h = assertNoDuplicateSingletonHeaders ns h"
      using m by (auto split: option.splits)
    with False Cons show ?thesis by auto
  qed
qed simp

lemma reserved_status:
  "status_of (assertNoReservedInternalHeaders h) = (if reserved_present h then Some 400 else None)"
  by (induction h rule: assertNoReservedInternalHeaders.induct) (auto simp: reserved_present_def)

lemma count_status:
  "status_of (assertHeaderCountWithinLimit h limit) = (if 0 < limit \<and> limit < int (length h) then Some 431 else None)"
  by (simp add: assertHeaderCountWithinLimit_def count_over_iff)

definition sequential_guards :: "headers \<Rightarrow> int \<Rightarrow> guard_error option" where
  "sequential_guards h limit =
     (case assertNoDuplicateSingletonHeaders singleton_headers h of Some e \<Rightarrow> Some e
      | None \<Rightarrow> (case assertNoReservedInternalHeaders h of Some e \<Rightarrow> Some e
        | None \<Rightarrow> assertHeaderCountWithinLimit h limit))"

text \<open>
  The fused header walk of the dispatch path rejects exactly what the three public checks
  reject one after the other, with the same status: 400 for a duplicated singleton header or a
  reserved header anywhere in the map, even where the map also exceeds the count limit; 431 only for
  an otherwise clean map that is too large; and the shared-prefix filter never lets a reserved header
  through.
\<close>

lemma guards_equal_sequential:
  assumes "wf_assoc h"
  shows "status_of (assertInboundHeaderGuards h limit) = status_of (sequential_guards h limit)
    \<and> (assertInboundHeaderGuards h limit = None \<longrightarrow>
        \<not> duplicate_singleton h \<and> \<not> reserved_present h \<and> (limit \<le> 0 \<or> int (length h) \<le> limit))"
proof -
  have d: "status_of (assertNoDuplicateSingletonHeaders singleton_headers h) = (if duplicate_singleton h then Some 400 else None)"
    by (simp add: dup_singleton_status [OF assms] duplicate_singleton_def)
  have seq: "status_of (sequential_guards h limit) =
      (if duplicate_singleton h \<or> reserved_present h then Some 400
       else if 0 < limit \<and> limit < int (length h) then Some 431 else None)"
  proof (cases "assertNoDuplicateSingletonHeaders singleton_headers h")
    case None
    with d have "\<not> duplicate_singleton h" by (auto split: if_splits)
    with None reserved_status [of h] show ?thesis
      by (cases "assertNoReservedInternalHeaders h") (auto simp: sequential_guards_def count_status split: if_splits)
  next
    case (Some e)
    have "status_of (Some e) \<noteq> None" by simp
    with d Some show ?thesis by (auto simp: sequential_guards_def simp del: status_simps(5) split: if_splits)
  qed
  have fused: "status_of (assertInboundHeaderGuards h limit) =
      (if duplicate_singleton h \<or> reserved_present h then Some 400
       else if 0 < limit \<and> limit < int (length h) then Some 431 else None)"
    by (auto simp: assertInboundHeaderGuards_def guard_walk_status)
  show ?thesis using seq fused status_simps(5) [of "assertInboundHeaderGuards h limit"] by (auto split: if_splits)
qed

lemma guards_equal_sequential_witness:
  "status_of (assertInboundHeaderGuards [(js ''a'', js ''1''), (js ''b'', js ''2''), (js ''x-daloy-internal-skip'', js ''1'')] 2)
    = status_of (sequential_guards [(js ''a'', js ''1''), (js ''b'', js ''2''), (js ''x-daloy-internal-skip'', js ''1'')] 2)"
  using guards_equal_sequential [of "[(js ''a'', js ''1''), (js ''b'', js ''2''), (js ''x-daloy-internal-skip'', js ''1'')]" 2]
  by simp

section \<open>Media types and bearer credentials\<close>

definition mediaTypeEssence :: "jstr \<Rightarrow> jstr" where
  "mediaTypeEssence value = to_lower (js_trim (takeWhile (\<lambda>c. c \<noteq> 59) value))"

definition isJsonMediaType :: "jstr \<Rightarrow> bool" where
  "isJsonMediaType contentType =
     (let essence = mediaTypeEssence contentType in
      essence = js ''application/json'' \<or> (suffix (js ''+json'') essence \<and> 47 \<in> set essence))"

definition blank :: "nat \<Rightarrow> bool" where
  "blank c \<longleftrightarrow> c = 32 \<or> c = 9"

definition token_unit :: "nat \<Rightarrow> bool" where
  "token_unit c \<longleftrightarrow> \<not> is_js_space c \<and> c \<noteq> 44"

text \<open>\<open>/^Bearer[ \t]+([^\s,]+)[ \t]*$/i\<close>: the classes are disjoint, so the match is determined.\<close>

definition parseBearerToken :: "jstr option \<Rightarrow> jstr option" where
  "parseBearerToken header =
     (case header of None \<Rightarrow> None
      | Some h \<Rightarrow>
          (let gap = takeWhile blank (drop 6 h); r = dropWhile blank (drop 6 h);
               tok = takeWhile token_unit r; rest = dropWhile token_unit r in
           if to_lower (take 6 h) = js ''bearer'' \<and> gap \<noteq> [] \<and> tok \<noteq> [] \<and> list_all blank rest then Some tok else None))"

lemmas [eval] = mediaTypeEssence_def isJsonMediaType_def blank_def token_unit_def parseBearerToken_def

lemma json_type_ignores_parameters:
  assumes "59 \<notin> set t"
  shows "isJsonMediaType (t @ 59 # parameters) = isJsonMediaType t"
proof -
  have "\<forall>c \<in> set t. c \<noteq> 59" using assms by metis
  then have "takeWhile (\<lambda>c. c \<noteq> 59) (t @ 59 # parameters) = t" "takeWhile (\<lambda>c. c \<noteq> 59) t = t"
    by (simp_all add: takeWhile_append)
  then show ?thesis by (simp only: isJsonMediaType_def mediaTypeEssence_def)
qed

lemma text_plain_never_json:
  "isJsonMediaType (js ''text/plain; charset=application/json'') = False"
  by (simp add: eval suffix_def)

text \<open>Two credentials that \<open>Headers\<close> joined with a comma are never read as one.\<close>

lemma bearer_comma:
  assumes "parseBearerToken (Some h) = Some t" shows "44 \<notin> set h \<and> t \<noteq> [] \<and> sublist t h"
proof -
  define r where "r = dropWhile blank (drop 6 h)"
  from assms have t: "t = takeWhile token_unit r" "t \<noteq> []" "list_all blank (dropWhile token_unit r)"
    "to_lower (take 6 h) = js ''bearer''"
    by (auto simp: parseBearerToken_def Let_def r_def split: if_splits)
  have low: "44 \<notin> set (take 6 h)"
  proof
    assume "44 \<in> set (take 6 h)"
    then have "lower_unit 44 \<in> set (to_lower (take 6 h))" by (auto simp: to_lower_def)
    with t(4) show False by (simp add: lower_unit_def)
  qed
  have h: "h = take 6 h @ takeWhile blank (drop 6 h) @ t @ dropWhile token_unit r"
    unfolding t(1) r_def by simp
  have "44 \<notin> set (takeWhile blank (drop 6 h))" by (auto dest: set_takeWhileD simp: blank_def)
  moreover have "44 \<notin> set t" unfolding t(1) by (auto dest: set_takeWhileD simp: token_unit_def)
  moreover have "44 \<notin> set (dropWhile token_unit r)" using t(3) by (auto simp: list_all_iff blank_def)
  ultimately have "44 \<notin> set (take 6 h @ takeWhile blank (drop 6 h) @ t @ dropWhile token_unit r)" using low by simp
  then have "44 \<notin> set h" unfolding h [symmetric] .
  moreover have "sublist t ((take 6 h @ takeWhile blank (drop 6 h)) @ t @ dropWhile token_unit r)" by (rule sublist_appendI)
  then have "sublist t h" using h by simp
  ultimately show ?thesis using t(2) by blast
qed

section \<open>Limits on the structure of JSON text\<close>

datatype json_limit = TooDeep | TooManyKeys

record scan_state =
  sc_depth :: int
  sc_keys :: int
  sc_inString :: bool
  sc_escaped :: bool

definition scan_start :: scan_state where
  "scan_start = \<lparr> sc_depth = 0, sc_keys = 0, sc_inString = False, sc_escaped = False \<rparr>"

text \<open>One iteration of the loop.\<close>

definition scan_unit :: "int \<Rightarrow> int \<Rightarrow> scan_state \<Rightarrow> nat \<Rightarrow> json_limit + scan_state" where
  "scan_unit maxKeys maxDepth s c =
     (if sc_inString s then
        (if sc_escaped s then Inr (s\<lparr>sc_escaped := False\<rparr>)
         else if c = 92 then Inr (s\<lparr>sc_escaped := True\<rparr>)
         else if c = 34 then Inr (s\<lparr>sc_inString := False\<rparr>)
         else Inr s)
      else if c = 34 then Inr (s\<lparr>sc_inString := True\<rparr>)
      else if c = 123 \<or> c = 91 then
        (if maxDepth > 0 \<and> sc_depth s + 1 > maxDepth then Inl TooDeep else Inr (s\<lparr>sc_depth := sc_depth s + 1\<rparr>))
      else if c = 125 \<or> c = 93 then Inr (s\<lparr>sc_depth := sc_depth s - 1\<rparr>)
      else if c = 58 then
        (if maxKeys > 0 then (if sc_keys s + 1 > maxKeys then Inl TooManyKeys else Inr (s\<lparr>sc_keys := sc_keys s + 1\<rparr>))
         else Inr s)
      else Inr s)"

fun scan_text :: "int \<Rightarrow> int \<Rightarrow> scan_state \<Rightarrow> jstr \<Rightarrow> json_limit option" where
  "scan_text maxKeys maxDepth s [] = None"
| "scan_text maxKeys maxDepth s (c # t) =
     (case scan_unit maxKeys maxDepth s c of Inl e \<Rightarrow> Some e | Inr s' \<Rightarrow> scan_text maxKeys maxDepth s' t)"

definition assertJsonTextStructure :: "jstr \<Rightarrow> int \<Rightarrow> int \<Rightarrow> json_limit option" where
  "assertJsonTextStructure text maxKeys maxDepth = scan_text maxKeys maxDepth scan_start text"

lemmas [eval] = scan_start_def scan_unit_def assertJsonTextStructure_def

text \<open>
  The specification side: a parsed value, how deep it nests and how many keys its objects have, and
  the texts of a value (RFC 8259: insignificant white space anywhere, any escape in a string).
\<close>

fun json_depth :: "json \<Rightarrow> nat" where
  "json_depth (JArr xs) = Suc (foldr max (map json_depth xs) 0)"
| "json_depth (JObj ps) = Suc (foldr max (map (\<lambda>(k, v). json_depth v) ps) 0)"
| "json_depth _ = 0"

fun json_keys :: "json \<Rightarrow> nat" where
  "json_keys (JArr xs) = sum_list (map json_keys xs)"
| "json_keys (JObj ps) = sum_list (map (\<lambda>(k, v). Suc (json_keys v)) ps)"
| "json_keys _ = 0"

definition json_space :: "nat \<Rightarrow> bool" where
  "json_space c \<longleftrightarrow> c = 32 \<or> c = 9 \<or> c = 10 \<or> c = 13"

text \<open>The body of a string literal: plain units, and escapes.\<close>

inductive str_body :: "jstr \<Rightarrow> bool" where
  "str_body []"
| "str_body b \<Longrightarrow> c \<noteq> 34 \<Longrightarrow> c \<noteq> 92 \<Longrightarrow> str_body (c # b)"
| "str_body b \<Longrightarrow> str_body (92 # c # b)"

inductive json_text :: "json \<Rightarrow> jstr \<Rightarrow> bool"
  and json_items :: "json list \<Rightarrow> jstr \<Rightarrow> bool"
  and json_members :: "(jstr \<times> json) list \<Rightarrow> jstr \<Rightarrow> bool"
where
  t_null: "json_text JNull (js ''null'')"
| t_true: "json_text (JBool True) (js ''true'')"
| t_false: "json_text (JBool False) (js ''false'')"
| t_num: "\<forall>c \<in> set n. num_char c \<Longrightarrow> json_text (JNum n) n"
| t_str: "str_body b \<Longrightarrow> unesc (b @ [34]) = Some (s, []) \<Longrightarrow> json_text (JStr s) (34 # b @ [34])"
| t_arr0: "\<forall>c \<in> set w. json_space c \<Longrightarrow> json_text (JArr []) (91 # w @ [93])"
| t_arr: "json_items xs t \<Longrightarrow> json_text (JArr xs) (91 # t @ [93])"
| t_obj0: "\<forall>c \<in> set w. json_space c \<Longrightarrow> json_text (JObj []) (123 # w @ [125])"
| t_obj: "json_members ps t \<Longrightarrow> json_text (JObj ps) (123 # t @ [125])"
| t_ws: "json_text v t \<Longrightarrow> \<forall>c \<in> set (w @ w'). json_space c \<Longrightarrow> json_text v (w @ t @ w')"
| i_one: "json_text v t \<Longrightarrow> json_items [v] t"
| i_more: "json_text v t \<Longrightarrow> json_items vs t' \<Longrightarrow> json_items (v # vs) (t @ 44 # t')"
| m_one: "json_text (JStr k) t \<Longrightarrow> json_text v t' \<Longrightarrow> json_members [(k, v)] (t @ 58 # t')"
| m_more: "json_text (JStr k) t \<Longrightarrow> json_text v t' \<Longrightarrow> json_members ps t'' \<Longrightarrow>
    json_members ((k, v) # ps) (t @ 58 # t' @ 44 # t'')"

lemmas json_text_rules = json_text_json_items_json_members.intros
lemmas json_text_induct = json_text_json_items_json_members.inducts

text \<open>The scanner outside a string, as a function of its two counters.\<close>

abbreviation scan_at :: "int \<Rightarrow> int \<Rightarrow> int \<Rightarrow> int \<Rightarrow> jstr \<Rightarrow> json_limit option" where
  "scan_at mk md d k t \<equiv> scan_text mk md \<lparr> sc_depth = d, sc_keys = k, sc_inString = False, sc_escaped = False \<rparr> t"

lemma scan_plain:
  "c \<notin> {34, 123, 91, 125, 93, 58} \<Longrightarrow> scan_at mk md d k (c # t) = scan_at mk md d k t"
  by (simp add: scan_unit_def)

lemma scan_plains:
  "\<forall>c \<in> set w. c \<notin> {34, 123, 91, 125, 93, 58} \<Longrightarrow> scan_at mk md d k (w @ t) = scan_at mk md d k t"
  by (induction w) (simp_all add: scan_plain del: scan_text.simps)

lemma scan_body:
  "str_body b \<Longrightarrow> scan_text mk md \<lparr> sc_depth = d, sc_keys = k, sc_inString = True, sc_escaped = False \<rparr> (b @ 34 # t)
    = scan_at mk md d k t"
  by (induction rule: str_body.induct) (simp_all add: scan_unit_def)

lemma scan_string: "str_body b \<Longrightarrow> scan_at mk md d k (34 # b @ 34 # t) = scan_at mk md d k t"
  by (simp add: scan_unit_def scan_body)

lemma scan_open:
  "c = 123 \<or> c = 91 \<Longrightarrow> scan_at mk md d k (c # t) = (if 0 < md \<and> md < d + 1 then Some TooDeep else scan_at mk md (d + 1) k t)"
  by (auto simp: scan_unit_def)

lemma scan_close: "c = 125 \<or> c = 93 \<Longrightarrow> scan_at mk md d k (c # t) = scan_at mk md (d - 1) k t"
  by (auto simp: scan_unit_def)

lemma scan_colon:
  "scan_at mk md d k (58 # t) =
    (if 0 < mk then (if mk < k + 1 then Some TooManyKeys else scan_at mk md d (k + 1) t) else scan_at mk md d k t)"
  by (simp add: scan_unit_def)

definition fits :: "int \<Rightarrow> int \<Rightarrow> nat \<Rightarrow> bool" where
  "fits m a n \<longleftrightarrow> m \<le> 0 \<or> a + int n \<le> m"

definition cnt :: "int \<Rightarrow> nat \<Rightarrow> int" where
  "cnt m n = (if 0 < m then int n else 0)"

lemma fits_laws:
  "fits m a (max x y) \<longleftrightarrow> fits m a x \<and> fits m a y"
  "fits m a (x + y) \<longleftrightarrow> fits m a x \<and> fits m (a + cnt m x) y"
  "fits m a (Suc x) \<longleftrightarrow> fits m (a + 1) x"
  "cnt m (x + y) = cnt m x + cnt m y" "cnt m 0 = 0"
  "fits m a x \<Longrightarrow> fits m a 0" "fits m (a + cnt m x) 0 \<longleftrightarrow> fits m a x"
  by (auto simp: fits_def cnt_def)

definition scans :: "nat \<Rightarrow> nat \<Rightarrow> jstr \<Rightarrow> bool" where
  "scans dp ks t \<longleftrightarrow> (\<forall>mk md d k r. fits md d 0 \<longrightarrow> fits mk k 0 \<longrightarrow>
     (scan_at mk md d k (t @ r) = None \<longleftrightarrow>
       fits md d dp \<and> fits mk k ks \<and> scan_at mk md d (k + cnt mk ks) r = None))"

lemma scansI:
  "(\<And>mk md d k r. fits md d 0 \<Longrightarrow> fits mk k 0 \<Longrightarrow>
     (scan_at mk md d k (t @ r) = None \<longleftrightarrow>
       fits md d dp \<and> fits mk k ks \<and> scan_at mk md d (k + cnt mk ks) r = None)) \<Longrightarrow> scans dp ks t"
  by (simp add: scans_def)

lemma scansD:
  "scans dp ks t \<Longrightarrow> fits md d 0 \<Longrightarrow> fits mk k 0 \<Longrightarrow>
     scan_at mk md d k (t @ r) = None \<longleftrightarrow>
       fits md d dp \<and> fits mk k ks \<and> scan_at mk md d (k + cnt mk ks) r = None"
  by (simp add: scans_def)

lemma scans_plain: "\<forall>c \<in> set t. c \<notin> {34, 123, 91, 125, 93, 58} \<Longrightarrow> scans 0 0 t"
  by (rule scansI) (simp add: scan_plains fits_laws)

lemma scans_space: "\<forall>c \<in> set w. json_space c \<Longrightarrow> scans 0 0 w"
  by (rule scans_plain) (auto simp: json_space_def)

lemma scans_app:
  assumes "scans d1 k1 s" and "scans d2 k2 t"
  shows "scans (max d1 d2) (k1 + k2) (s @ t)"
proof (rule scansI)
  fix mk md d k r
  assume f: "fits md d 0" "fits mk k 0"
  show "scan_at mk md d k ((s @ t) @ r) = None \<longleftrightarrow>
      fits md d (max d1 d2) \<and> fits mk k (k1 + k2) \<and> scan_at mk md d (k + cnt mk (k1 + k2)) r = None"
  proof (cases "fits mk k k1")
    case True
    then show ?thesis
      using scansD [OF assms(1) f, of "t @ r"] scansD [OF assms(2) f(1), of mk "k + cnt mk k1" r]
      by (auto simp: fits_laws add.assoc)
  next
    case False
    then show ?thesis using scansD [OF assms(1) f, of "t @ r"] by (simp add: fits_laws)
  qed
qed

lemma scans_nest:
  assumes "scans dp ks t" and "(a, b) \<in> {(91, 93), (123, 125)}"
  shows "scans (Suc dp) ks (a # t @ [b])"
proof (rule scansI)
  fix mk md d k r
  assume f: "fits md d 0" "fits mk k 0"
  have ab: "a = 123 \<or> a = 91" "b = 125 \<or> b = 93" using assms(2) by auto
  show "scan_at mk md d k ((a # t @ [b]) @ r) = None \<longleftrightarrow>
      fits md d (Suc dp) \<and> fits mk k ks \<and> scan_at mk md d (k + cnt mk ks) r = None"
  proof (cases "fits md (d + 1) 0")
    case True
    then have "scan_at mk md d k ((a # t @ [b]) @ r) = scan_at mk md (d + 1) k (t @ b # r)"
      using ab(1) by (auto simp: scan_open fits_def simp del: scan_text.simps)
    with scansD [OF assms(1) True f(2), of "b # r"] show ?thesis
      using ab(2) by (simp add: scan_close fits_laws(3) del: scan_text.simps)
  next
    case False
    then have "\<not> fits md d (Suc dp)" "0 < md \<and> md < d + 1" by (auto simp: fits_def)
    with ab(1) show ?thesis by (simp add: scan_open del: scan_text.simps)
  qed
qed

lemma scans_colon: "scans 0 1 [58]"
  by (rule scansI) (auto simp: scan_colon fits_def cnt_def simp del: scan_text.simps)

lemma scans_literal: "str_body b \<Longrightarrow> scans 0 0 (34 # b @ [34])"
  by (rule scansI) (simp add: scan_string fits_laws del: scan_text.simps)

lemma scans_json:
  "json_text v t \<Longrightarrow> scans (json_depth v) (json_keys v) t"
  "json_items vs t \<Longrightarrow> scans (foldr max (map json_depth vs) 0) (sum_list (map json_keys vs)) t"
  "json_members ps t \<Longrightarrow>
    scans (foldr max (map (\<lambda>(k, v). json_depth v) ps) 0) (sum_list (map (\<lambda>(k, v). Suc (json_keys v)) ps)) t"
proof (induction rule: json_text_induct)
  case (t_num n)
  then have "\<forall>c \<in> set n. c \<notin> {34, 123, 91, 125, 93, 58}" by (fastforce simp: num_char_def is_digit_def)
  then show ?case by (simp add: scans_plain)
next
  case (t_arr0 w)
  then have "scans 0 0 w" by (rule scans_space)
  from scans_nest [OF this, of 91 93] show ?case by simp
next
  case (t_obj0 w)
  then have "scans 0 0 w" by (rule scans_space)
  from scans_nest [OF this, of 123 125] show ?case by simp
next
  case (t_arr xs t)
  from scans_nest [OF t_arr.IH, of 91 93] show ?case by simp
next
  case (t_obj ps t)
  from scans_nest [OF t_obj.IH, of 123 125] show ?case by simp
next
  case (t_ws v t w w')
  then have "scans 0 0 w" "scans 0 0 w'" by (simp_all add: scans_space)
  from scans_app [OF this(1) scans_app [OF t_ws.IH this(2)]] show ?case by simp
next
  case (i_more v t vs t')
  have "scans 0 0 [44]" by (rule scans_plain) simp
  from scans_app [OF i_more.IH(1) scans_app [OF this i_more.IH(2)]] show ?case by simp
next
  case (m_one k t v t')
  from scans_app [OF m_one.IH(1) scans_app [OF scans_colon m_one.IH(2)]] show ?case by simp
next
  case (m_more k t v t' ps t'')
  have "scans 0 0 [44]" by (rule scans_plain) simp
  from scans_app [OF m_more.IH(1) scans_app [OF scans_colon scans_app [OF m_more.IH(2) scans_app [OF this m_more.IH(3)]]]]
  show ?case by (simp add: add.commute add.left_commute)
qed (auto intro: scans_plain scans_literal)



section \<open>Stripping dangerous keys\<close>

text \<open>The reviver of \<open>JSON.parse\<close>: bottom-up, a forbidden key is deleted with its value.\<close>

fun strip_forbidden :: "json \<Rightarrow> json" where
  "strip_forbidden (JArr xs) = JArr (map strip_forbidden xs)"
| "strip_forbidden (JObj ps) =
     JObj (map (\<lambda>(k, v). (k, strip_forbidden v)) (filter (\<lambda>(k, v). \<not> isForbiddenObjectKey k) ps))"
| "strip_forbidden v = v"

datatype json_error = InvalidJson | LimitExceeded json_limit

definition safeJsonParse :: "(jstr \<Rightarrow> json option) \<Rightarrow> jstr \<Rightarrow> json_error + json option" where
  "safeJsonParse parse text =
     (if text = [] then Inr None
      else (case parse text of None \<Rightarrow> Inl InvalidJson | Some v \<Rightarrow> Inr (Some (strip_forbidden v))))"

definition safeJsonParseLimited :: "(jstr \<Rightarrow> json option) \<Rightarrow> jstr \<Rightarrow> int \<Rightarrow> int \<Rightarrow> json_error + json option" where
  "safeJsonParseLimited parse text maxKeys maxDepth =
     (if text = [] then Inr None
      else (case (if maxKeys > 0 \<or> maxDepth > 0 then assertJsonTextStructure text maxKeys maxDepth else None) of
          Some e \<Rightarrow> Inl (LimitExceeded e) | None \<Rightarrow> safeJsonParse parse text))"

fun hasMongoOperatorKeys :: "json \<Rightarrow> bool" where
  "hasMongoOperatorKeys (JArr xs) = list_ex hasMongoOperatorKeys xs"
| "hasMongoOperatorKeys (JObj ps) = list_ex (\<lambda>(k, v). (k \<noteq> [] \<and> hd k = 36) \<or> hasMongoOperatorKeys v) ps"
| "hasMongoOperatorKeys v = False"

text \<open>What code reads of a value: the member at a path of keys and indices.\<close>

datatype step = Key jstr | Index nat

fun member_at :: "step list \<Rightarrow> json \<Rightarrow> json option" where
  "member_at [] v = Some v"
| "member_at (Key k # p) (JObj ps) = (case map_of ps k of None \<Rightarrow> None | Some v \<Rightarrow> member_at p v)"
| "member_at (Index i # p) (JArr xs) = (if i < length xs then member_at p (xs ! i) else None)"
| "member_at _ _ = None"

definition forbidden_path :: "step list \<Rightarrow> bool" where
  "forbidden_path p \<longleftrightarrow> (\<exists>k. Key k \<in> set p \<and> isForbiddenObjectKey k)"

lemma map_of_strip:
  "map_of (map (\<lambda>(k, v). (k, f v)) (filter (\<lambda>(k, v). \<not> isForbiddenObjectKey k) ps)) k
    = (if isForbiddenObjectKey k then None else map_option f (map_of ps k))"
  by (induction ps) auto

text \<open>
  A parsed body carries no dangerous key at any depth and loses nothing else: reading the stripped
  value at any path gives nothing when the path passes a key \<open>__proto__\<close>, \<open>constructor\<close> or
  \<open>prototype\<close>, and otherwise what the original value holds there, itself stripped.  So a parser
  result is never changed outside those keys, and one that \<open>safeJsonParseLimited\<close> accepts is within both
  limits.
\<close>

lemma stripped_reads:
  assumes "safeJsonParseLimited parse text maxKeys maxDepth = Inr (Some w)"
  shows "\<exists>v. parse text = Some v
    \<and> (\<forall>p. member_at p w = (if forbidden_path p then None else map_option strip_forbidden (member_at p v)))
    \<and> (json_text v text \<longrightarrow> (maxDepth \<le> 0 \<or> int (json_depth v) \<le> maxDepth) \<and> (maxKeys \<le> 0 \<or> int (json_keys v) \<le> maxKeys))"
proof -
  from assms obtain v where v: "parse text = Some v" "w = strip_forbidden v"
    and lim: "maxKeys > 0 \<or> maxDepth > 0 \<longrightarrow> assertJsonTextStructure text maxKeys maxDepth = None"
    by (auto simp: safeJsonParseLimited_def safeJsonParse_def split: if_splits option.splits)
  have "member_at p (strip_forbidden u) = (if forbidden_path p then None else map_option strip_forbidden (member_at p u))" for p u
  proof (induction p u rule: member_at.induct)
    case (2 k p ps)
    show ?case
    proof (cases "map_of ps k")
      case None
      then show ?thesis by (simp add: map_of_strip)
    next
      case (Some u)
      with 2 [OF Some] show ?thesis by (auto simp: map_of_strip forbidden_path_def)
    qed
  next
    case (3 i p xs)
    then show ?case by (cases "i < length xs") (auto simp: forbidden_path_def split: if_splits)
  qed (auto simp: forbidden_path_def)
  moreover have "json_text v text \<Longrightarrow> (maxDepth \<le> 0 \<or> int (json_depth v) \<le> maxDepth) \<and> (maxKeys \<le> 0 \<or> int (json_keys v) \<le> maxKeys)"
  proof -
    assume t: "json_text v text"
    have "fits maxDepth 0 0" "fits maxKeys 0 0" by (auto simp: fits_def)
    from scansD [OF scans_json(1) [OF t] this, of "[]"] lim show ?thesis
      by (auto simp: assertJsonTextStructure_def scan_start_def fits_def)
  qed
  ultimately show ?thesis using v by blast
qed

lemma stripped_reads_witness:
  "member_at [Key (js ''a''), Key (js ''__proto__'')] (JObj [(js ''a'', JObj [])]) = None"
proof -
  let ?v = "JObj [(js ''a'', JObj [(js ''__proto__'', JBool True)])]"
  have "safeJsonParseLimited (\<lambda>t. Some ?v) (js ''{\"a\":{\"__proto__\":true}}'') 5 5 = Inr (Some (JObj [(js ''a'', JObj [])]))"
    by (simp add: safeJsonParseLimited_def safeJsonParse_def eval)
  from stripped_reads [OF this] show ?thesis by (auto simp: forbidden_path_def isForbiddenObjectKey_def)
qed

fun object_keys :: "json \<Rightarrow> jstr set" where
  "object_keys (JArr xs) = (\<Union>x \<in> set xs. object_keys x)"
| "object_keys (JObj ps) = (\<Union>(k, v) \<in> set ps. insert k (object_keys v))"
| "object_keys v = {}"

lemma mongo_operator_iff: "hasMongoOperatorKeys v \<longleftrightarrow> (\<exists>k \<in> object_keys v. k \<noteq> [] \<and> hd k = 36)"
  by (induction v rule: hasMongoOperatorKeys.induct) (fastforce simp: list_ex_iff)+

end
