(* ===== verification/Session.thy ===== *)
theory Session
  imports Cookie Guards Base64
begin

text \<open>
  Sessions of \<open>session.ts\<close>: the signed cookie, \<open>MemorySessionStore\<close>, and the \<open>beforeHandle\<close> /
  \<open>onSend\<close> hooks with the session API the handler calls, as steps of overlapping requests.

  A session's data is an association list over any type of values (a deep clone is the value itself).
  HMAC-SHA256 under a secret is the parameter \<open>hmac\<close>. A step is the code between two \<open>await\<close>s that
  touch shared state; the handler awaits \<open>regenerate()\<close>. The store is known through a record of its
  methods, as the interface \<open>SessionStore\<close> has them, \<open>touch\<close> and \<open>update\<close> optional.
\<close>

section \<open>Signatures\<close>

type_synonym mac_fun = "jstr \<Rightarrow> nat list \<Rightarrow> nat list"

definition bytesToBase64Url :: "nat list \<Rightarrow> jstr" where
  "bytesToBase64Url bs =
     (let t = map (\<lambda>c. if c = 47 then 95 else c) (map (\<lambda>c. if c = 43 then 45 else c) (case btoa bs of None \<Rightarrow> [] | Some t \<Rightarrow> t)) in
      rev (dropWhile (\<lambda>c. c = 61) (rev t)))"

definition sign :: "mac_fun \<Rightarrow> jstr \<Rightarrow> jstr \<Rightarrow> jstr" where
  "sign hmac secret v = bytesToBase64Url (hmac secret (utf8_encode v))"

definition verify :: "mac_fun \<Rightarrow> jstr \<Rightarrow> jstr \<Rightarrow> jstr \<Rightarrow> bool" where
  "verify hmac secret v signature = timingSafeEqual (sign hmac secret v) signature"

definition secret_ok :: "jstr \<Rightarrow> bool" where
  "secret_ok s \<longleftrightarrow> 16 \<le> length s"

text \<open>\<open>raw.lastIndexOf(".")\<close>, with a non-empty value before it and a non-empty signature behind it.\<close>

definition split_signed :: "jstr \<Rightarrow> (jstr \<times> jstr) option" where
  "split_signed raw =
     (let sig = rev (takeWhile (\<lambda>c. c \<noteq> 46) (rev raw)); v = take (length raw - length sig - 1) raw in
      if 46 \<in> set raw \<and> v \<noteq> [] \<and> sig \<noteq> [] then Some (v, sig) else None)"

definition verified_id :: "mac_fun \<Rightarrow> jstr list \<Rightarrow> jstr \<Rightarrow> jstr option" where
  "verified_id hmac secrets raw =
     (case split_signed raw of None \<Rightarrow> None
      | Some (v, sig) \<Rightarrow> if list_ex (\<lambda>s. verify hmac s v sig) secrets then Some v else None)"

definition signValue :: "mac_fun \<Rightarrow> jstr \<Rightarrow> jstr \<Rightarrow> jstr option" where
  "signValue hmac v secret = (if 46 \<in> set v \<or> \<not> secret_ok secret then None else Some (v @ 46 # sign hmac secret v))"

fun verify_any :: "mac_fun \<Rightarrow> jstr \<Rightarrow> jstr \<Rightarrow> jstr list \<Rightarrow> jstr option option" where
  "verify_any hmac v sig [] = Some None"
| "verify_any hmac v sig (s # ss) =
     (if \<not> secret_ok s then None else if verify hmac s v sig then Some (Some v) else verify_any hmac v sig ss)"

definition verifySignedValue :: "mac_fun \<Rightarrow> jstr \<Rightarrow> jstr list \<Rightarrow> jstr option option" where
  "verifySignedValue hmac signed secrets =
     (case split_signed signed of None \<Rightarrow> Some None | Some (v, sig) \<Rightarrow> verify_any hmac v sig secrets)"

section \<open>The in-memory store\<close>

record 'v session_record =
  sr_data :: "(jstr, 'v) assoc"
  sr_expiresAt :: int

record 'v memory_state =
  ms_map :: "(jstr, 'v session_record) assoc"
  ms_max :: nat

definition new_mem_store :: "int \<Rightarrow> 'v memory_state option" where
  "new_mem_store n = (if n < 1 then None else Some \<lparr> ms_map = [], ms_max = nat n \<rparr>)"

definition mem_get :: "'v memory_state \<Rightarrow> int \<Rightarrow> jstr \<Rightarrow> 'v session_record option \<times> 'v memory_state" where
  "mem_get s now sid =
     (case map_of (ms_map s) sid of None \<Rightarrow> (None, s)
      | Some r \<Rightarrow> if sr_expiresAt r \<le> now then (None, s\<lparr>ms_map := AList.delete sid (ms_map s)\<rparr>) else (Some r, s))"

definition mem_prune :: "(jstr, 'v session_record) assoc \<Rightarrow> int \<Rightarrow> (jstr, 'v session_record) assoc" where
  "mem_prune m now = filter (\<lambda>(k, r). \<not> sr_expiresAt r \<le> now) m"

fun drop_oldest :: "nat \<Rightarrow> (jstr, 'v session_record) assoc \<Rightarrow> (jstr, 'v session_record) assoc" where
  "drop_oldest n [] = []"
| "drop_oldest n (e # m) = (if n \<le> length (e # m) then drop_oldest n m else e # m)"

definition mem_set :: "'v memory_state \<Rightarrow> int \<Rightarrow> jstr \<Rightarrow> 'v session_record \<Rightarrow> 'v memory_state" where
  "mem_set s now sid r =
     (let m = (if sid \<notin> keys (ms_map s) \<and> ms_max s \<le> length (ms_map s)
               then drop_oldest (ms_max s) (mem_prune (ms_map s) now) else ms_map s) in
      s\<lparr>ms_map := AList.update sid r m\<rparr>)"

definition mem_destroy :: "'v memory_state \<Rightarrow> jstr \<Rightarrow> 'v memory_state" where
  "mem_destroy s sid = s\<lparr>ms_map := AList.delete sid (ms_map s)\<rparr>"

definition mem_update :: "'v memory_state \<Rightarrow> int \<Rightarrow> jstr \<Rightarrow> 'v session_record \<Rightarrow> bool \<times> 'v memory_state" where
  "mem_update s now sid r =
     (case mem_get s now sid of (None, s') \<Rightarrow> (False, s')
      | (Some _, s') \<Rightarrow> (True, s'\<lparr>ms_map := AList.update sid r (ms_map s')\<rparr>))"

definition mem_touch :: "'v memory_state \<Rightarrow> int \<Rightarrow> jstr \<Rightarrow> int \<Rightarrow> 'v memory_state" where
  "mem_touch s now sid expiresAt =
     (case mem_get s now sid of (None, s') \<Rightarrow> s'
      | (Some r, s') \<Rightarrow> s'\<lparr>ms_map := AList.update sid (r\<lparr>sr_expiresAt := expiresAt\<rparr>) (ms_map s')\<rparr>)"

section \<open>The store as the middleware knows it\<close>

record ('s, 'v) session_store =
  b_get :: "'s \<Rightarrow> int \<Rightarrow> jstr \<Rightarrow> 'v session_record option \<times> 's"
  b_set :: "'s \<Rightarrow> int \<Rightarrow> jstr \<Rightarrow> 'v session_record \<Rightarrow> 's"
  b_destroy :: "'s \<Rightarrow> jstr \<Rightarrow> 's"
  b_touch :: "('s \<Rightarrow> int \<Rightarrow> jstr \<Rightarrow> int \<Rightarrow> 's) option"
  b_update :: "('s \<Rightarrow> int \<Rightarrow> jstr \<Rightarrow> 'v session_record \<Rightarrow> bool \<times> 's) option"

definition memory_store :: "('v memory_state, 'v) session_store" where
  "memory_store = \<lparr> b_get = mem_get, b_set = mem_set, b_destroy = mem_destroy, b_touch = Some mem_touch,
     b_update = Some mem_update \<rparr>"

section \<open>Options\<close>

record session_cfg =
  sc_secrets :: "jstr list"
  sc_cookieName :: jstr
  sc_cookie :: cookie_attributes
  sc_ttlMs :: int
  sc_rolling :: bool
  sc_saveUninitialized :: bool

datatype session_error = NoSecret | ShortSecret | CookieRefused cookie_error | NotHttpOnly | InsecureInProduction | BadTtl

record session_opts =
  so_secrets :: "jstr list"
  so_cookieName :: "jstr option"
  so_cookie :: cookie_attributes
  so_ttlSeconds :: "int option"
  so_rolling :: bool
  so_saveUninitialized :: bool
  so_allowInsecure :: bool

definition default_cookie_name :: jstr where "default_cookie_name = js ''__Host-daloy.sid''"

definition resolved_cookie :: "cookie_attributes \<Rightarrow> cookie_attributes" where
  "resolved_cookie a = \<lparr> ca_sameSite = Some (or_else (ca_sameSite a) (js ''Lax'')), ca_secure = Some (or_else (ca_secure a) True),
     ca_httpOnly = Some (or_else (ca_httpOnly a) True), ca_path = Some (or_else (ca_path a) [47]),
     ca_domain = (if truthy (ca_domain a) then ca_domain a else None), ca_maxAge = Some (or_else (ca_maxAge a) 0),
     ca_partitioned = ca_partitioned a \<rparr>"

definition session :: "bool \<Rightarrow> session_opts \<Rightarrow> session_error + session_cfg" where
  "session production so =
     (let name = or_else (so_cookieName so) default_cookie_name; a = resolved_cookie (so_cookie so);
          ttl = or_else (so_ttlSeconds so) 86400 in
      if so_secrets so = [] then Inl NoSecret
      else if \<not> list_all secret_ok (so_secrets so) then Inl ShortSecret
      else case assertCookieAttributes name a of Some e \<Rightarrow> Inl (CookieRefused e)
      | None \<Rightarrow>
          if ca_httpOnly a \<noteq> Some True then Inl NotHttpOnly
          else if production \<and> ca_secure a \<noteq> Some True \<and> \<not> so_allowInsecure so then Inl InsecureInProduction
          else if ttl \<le> 0 then Inl BadTtl
          else Inr \<lparr> sc_secrets = so_secrets so, sc_cookieName = name, sc_cookie = a, sc_ttlMs = ttl * 1000,
             sc_rolling = so_rolling so, sc_saveUninitialized = so_saveUninitialized so \<rparr>)"

section \<open>Tombstones\<close>

definition max_tombstones :: nat where "max_tombstones = 10000"

fun drop_expired :: "int \<Rightarrow> (jstr, int) assoc \<Rightarrow> (jstr, int) assoc" where
  "drop_expired now [] = []"
| "drop_expired now ((k, e) # t) = (if e > now then (k, e) # t else drop_expired now t)"

definition addTombstone :: "int \<Rightarrow> int \<Rightarrow> jstr \<Rightarrow> (jstr, int) assoc \<Rightarrow> (jstr, int) assoc" where
  "addTombstone ttlMs now sid t =
     (let t1 = AList.delete sid t; t2 = (if max_tombstones \<le> length t1 then tl t1 else t1) in
      drop_expired now (AList.update sid (now + ttlMs) t2))"

definition isTombstoned :: "int \<Rightarrow> jstr \<Rightarrow> (jstr, int) assoc \<Rightarrow> bool \<times> (jstr, int) assoc" where
  "isTombstoned now sid t =
     (case map_of t sid of None \<Rightarrow> (False, t)
      | Some e \<Rightarrow> if e \<le> now then (False, AList.delete sid t) else (True, t))"

lemmas [eval] = bytesToBase64Url_def sign_def verify_def secret_ok_def split_signed_def verified_id_def signValue_def
  verifySignedValue_def new_mem_store_def mem_get_def mem_prune_def mem_set_def mem_destroy_def mem_update_def mem_touch_def
  memory_store_def default_cookie_name_def resolved_cookie_def session_def addTombstone_def isTombstoned_def

section \<open>A request\<close>

text \<open>
  Where a request stands: the store's answer for its cookie is there (\<open>Got\<close>), the handler runs,
  \<open>regenerate()\<close> waits for the store, the legacy write-back has re-read its record, the writes are done
  (\<open>Finishing\<close>), an exception left the hook, or the response is sent, with or without a session cookie.
\<close>

datatype cookie_out = NoCookie | SetCookie jstr | ClearCookie

datatype 'v session_phase =
    Got jstr "'v session_record option"
  | Running
  | Regenerating bool
  | Rereading "'v session_record" "'v session_record option"
  | Finishing
  | Failed
  | Done cookie_out

record 'v session_req =
  q_phase :: "'v session_phase"
  q_had :: bool
  q_original :: "jstr option"
  q_active :: "jstr option"
  q_dirty :: bool
  q_destroyed :: bool
  q_regenerated :: bool
  q_created :: bool
  q_data :: "(jstr, 'v) assoc"

record ('s, 'v) session_world =
  sw_store :: 's
  sw_tombs :: "(jstr, int) assoc"
  sw_now :: int
  sw_reqs :: "nat \<Rightarrow> 'v session_req option"
  sw_issued :: "jstr list"

definition put_req :: "('s, 'v) session_world \<Rightarrow> nat \<Rightarrow> 'v session_req \<Rightarrow> ('s, 'v) session_world" where
  "put_req w n q = w\<lparr>sw_reqs := (sw_reqs w)(n := Some q)\<rparr>"

definition issue :: "jstr \<Rightarrow> ('s, 'v) session_world \<Rightarrow> ('s, 'v) session_world" where
  "issue i w = w\<lparr>sw_issued := i # sw_issued w\<rparr>"

definition fresh_req :: "bool \<Rightarrow> 'v session_req" where
  "fresh_req had = \<lparr> q_phase = Running, q_had = had, q_original = None, q_active = None, q_dirty = False,
     q_destroyed = False, q_regenerated = False, q_created = False, q_data = [] \<rparr>"

text \<open>\<open>if (!id) { id = generator(); ... }\<close> and the rest of \<open>beforeHandle\<close>.\<close>

definition start_new :: "jstr \<Rightarrow> bool \<Rightarrow> 'v session_req" where
  "start_new fid had = (if fid = [] then (fresh_req had)\<lparr>q_phase := Failed\<rparr>
     else (fresh_req had)\<lparr>q_active := Some fid, q_created := True\<rparr>)"

definition start_loaded :: "jstr \<Rightarrow> 'v session_record \<Rightarrow> bool \<Rightarrow> 'v session_req" where
  "start_loaded sid r had = (fresh_req had)\<lparr>q_active := Some sid, q_original := Some sid, q_data := sr_data r\<rparr>"

definition s_begin :: "session_cfg \<Rightarrow> mac_fun \<Rightarrow> ('s, 'v) session_store \<Rightarrow> ('s, 'v) session_world \<Rightarrow> nat \<Rightarrow> jstr option \<Rightarrow> jstr \<Rightarrow>
    ('s, 'v) session_world option" where
  "s_begin c hmac B w n header fid =
     (let raw = readRequestCookie header (sc_cookieName c); had = (raw \<noteq> None) in
      if sw_reqs w n \<noteq> None then None
      else (case (case raw of None \<Rightarrow> None | Some r \<Rightarrow> verified_id hmac (sc_secrets c) r) of
          None \<Rightarrow> Some (issue fid (put_req w n (start_new fid had)))
        | Some sid \<Rightarrow> (case b_get B (sw_store w) (sw_now w) sid of (r, s) \<Rightarrow>
            Some (put_req (w\<lparr>sw_store := s\<rparr>) n ((fresh_req had)\<lparr>q_phase := Got sid r\<rparr>)))))"

definition s_loaded :: "('s, 'v) session_world \<Rightarrow> nat \<Rightarrow> 'v session_req \<Rightarrow> jstr \<Rightarrow> ('s, 'v) session_world option" where
  "s_loaded w n q fid =
     (case q_phase q of
        Got sid (Some r) \<Rightarrow>
          if sr_expiresAt r > sw_now w then Some (put_req w n (start_loaded sid r (q_had q)))
          else Some (issue fid (put_req w n (start_new fid (q_had q))))
      | Got sid None \<Rightarrow> Some (issue fid (put_req w n (start_new fid (q_had q))))
      | _ \<Rightarrow> None)"

section \<open>The session API\<close>

definition s_set :: "jstr \<Rightarrow> 'v \<Rightarrow> 'v session_req \<Rightarrow> 'v session_req" where
  "s_set k v q = q\<lparr>q_data := AList.update k v (q_data q), q_dirty := True\<rparr>"

definition s_delete :: "jstr \<Rightarrow> 'v session_req \<Rightarrow> 'v session_req" where
  "s_delete k q = (if k \<in> keys (q_data q) then q\<lparr>q_data := AList.delete k (q_data q), q_dirty := True\<rparr> else q)"

definition s_destroy :: "'v session_req \<Rightarrow> 'v session_req" where
  "s_destroy q = q\<lparr>q_data := [], q_destroyed := True, q_dirty := True\<rparr>"

definition bury :: "session_cfg \<Rightarrow> ('s, 'v) session_store \<Rightarrow> jstr \<Rightarrow> ('s, 'v) session_world \<Rightarrow> ('s, 'v) session_world" where
  "bury c B sid w = w\<lparr>sw_tombs := addTombstone (sc_ttlMs c) (sw_now w) sid (sw_tombs w), sw_store := b_destroy B (sw_store w) sid\<rparr>"

definition s_regenerate :: "session_cfg \<Rightarrow> ('s, 'v) session_store \<Rightarrow> ('s, 'v) session_world \<Rightarrow> nat \<Rightarrow> 'v session_req \<Rightarrow> bool \<Rightarrow>
    ('s, 'v) session_world" where
  "s_regenerate c B w n q keepData =
     put_req (case q_active q of None \<Rightarrow> w | Some a \<Rightarrow> if q_original q = Some a then bury c B a w else w)
       n (q\<lparr>q_phase := Regenerating keepData\<rparr>)"

definition regenerated_req :: "jstr \<Rightarrow> bool \<Rightarrow> 'v session_req \<Rightarrow> 'v session_req" where
  "regenerated_req fid keepData q = q\<lparr>q_phase := Running, q_data := (if keepData then q_data q else []), q_active := Some fid,
     q_regenerated := True, q_dirty := True, q_destroyed := False, q_created := False, q_original := None\<rparr>"

definition s_regenerated :: "('s, 'v) session_world \<Rightarrow> nat \<Rightarrow> 'v session_req \<Rightarrow> jstr \<Rightarrow> ('s, 'v) session_world option" where
  "s_regenerated w n q fid =
     (case q_phase q of
        Regenerating keepData \<Rightarrow>
          if fid = [] then Some (put_req w n (q\<lparr>q_phase := Running\<rparr>))
          else Some (issue fid (put_req w n (regenerated_req fid keepData q)))
      | _ \<Rightarrow> None)"

section \<open>The response hook\<close>

text \<open>\<open>writeExisting\<close> up to its first \<open>await\<close>: the conditional write, or the re-read of the legacy path.\<close>

definition write_existing :: "('s, 'v) session_store \<Rightarrow> ('s, 'v) session_world \<Rightarrow> nat \<Rightarrow> 'v session_req \<Rightarrow> jstr \<Rightarrow> 'v session_record \<Rightarrow>
    ('s, 'v) session_world" where
  "write_existing B w n q sid r =
     (case b_update B of
        Some u \<Rightarrow> (case u (sw_store w) (sw_now w) sid r of (ok, s) \<Rightarrow>
          put_req (w\<lparr>sw_store := s\<rparr>) n (q\<lparr>q_phase := (if ok then Finishing else Done NoCookie)\<rparr>))
      | None \<Rightarrow> (case b_get B (sw_store w) (sw_now w) sid of (cur, s) \<Rightarrow>
          put_req (w\<lparr>sw_store := s\<rparr>) n (q\<lparr>q_phase := Rereading r cur\<rparr>)))"

definition persist :: "session_cfg \<Rightarrow> ('s, 'v) session_store \<Rightarrow> ('s, 'v) session_world \<Rightarrow> nat \<Rightarrow> 'v session_req \<Rightarrow> jstr \<Rightarrow>
    ('s, 'v) session_world" where
  "persist c B w n q sid =
     (let record' = \<lparr> sr_data = q_data q, sr_expiresAt = sw_now w + sc_ttlMs c \<rparr> in
      if q_dirty q \<or> q_created q \<or> q_regenerated q then
        (if q_original q = Some sid then write_existing B w n q sid record'
         else put_req (w\<lparr>sw_store := b_set B (sw_store w) (sw_now w) sid record'\<rparr>) n (q\<lparr>q_phase := Finishing\<rparr>))
      else if sc_rolling c then
        (case b_touch B of
           Some t \<Rightarrow> put_req (w\<lparr>sw_store := t (sw_store w) (sw_now w) sid (sw_now w + sc_ttlMs c)\<rparr>) n (q\<lparr>q_phase := Finishing\<rparr>)
         | None \<Rightarrow> write_existing B w n q sid record')
      else put_req w n (q\<lparr>q_phase := Finishing\<rparr>))"

definition s_send :: "session_cfg \<Rightarrow> ('s, 'v) session_store \<Rightarrow> ('s, 'v) session_world \<Rightarrow> nat \<Rightarrow> 'v session_req \<Rightarrow>
    ('s, 'v) session_world" where
  "s_send c B w n q =
     (if q_destroyed q then
        put_req (case q_original q of None \<Rightarrow> w | Some o' \<Rightarrow> bury c B o' w) n
          (q\<lparr>q_phase := Done (if q_had q then ClearCookie else NoCookie)\<rparr>)
      else (case q_active q of
          None \<Rightarrow> w
        | Some sid \<Rightarrow>
            if \<not> (q_dirty q \<or> q_regenerated q \<or> q_original q \<noteq> None) \<and> \<not> sc_saveUninitialized c
            then put_req w n (q\<lparr>q_phase := Done NoCookie\<rparr>)
            else (let (tomb, t) = (if q_original q = Some sid then isTombstoned (sw_now w) sid (sw_tombs w) else (False, sw_tombs w));
                      w' = w\<lparr>sw_tombs := t\<rparr> in
                  if tomb then put_req w' n (q\<lparr>q_phase := Done NoCookie\<rparr>) else persist c B w' n q sid)))"

definition s_reread :: "('s, 'v) session_store \<Rightarrow> ('s, 'v) session_world \<Rightarrow> nat \<Rightarrow> 'v session_req \<Rightarrow> ('s, 'v) session_world option" where
  "s_reread B w n q =
     (case (q_phase q, q_active q) of
        (Rereading r cur, Some sid) \<Rightarrow>
          (case cur of
             None \<Rightarrow> Some (put_req w n (q\<lparr>q_phase := Done NoCookie\<rparr>))
           | Some x \<Rightarrow>
               if sr_expiresAt x \<le> sw_now w then Some (put_req w n (q\<lparr>q_phase := Done NoCookie\<rparr>))
               else Some (put_req (w\<lparr>sw_store := b_set B (sw_store w) (sw_now w) sid r\<rparr>) n (q\<lparr>q_phase := Finishing\<rparr>)))
      | _ \<Rightarrow> None)"

definition s_finish :: "session_cfg \<Rightarrow> mac_fun \<Rightarrow> ('s, 'v) session_store \<Rightarrow> ('s, 'v) session_world \<Rightarrow> nat \<Rightarrow> 'v session_req \<Rightarrow>
    ('s, 'v) session_world option" where
  "s_finish c hmac B w n q =
     (case (q_phase q, q_active q) of
        (Finishing, Some sid) \<Rightarrow>
          (let w' = (case q_original q of None \<Rightarrow> w
                | Some o' \<Rightarrow> if q_regenerated q \<and> o' \<noteq> sid then w\<lparr>sw_store := b_destroy B (sw_store w) o'\<rparr> else w) in
           Some (put_req w' n (q\<lparr>q_phase := Done (if q_created q \<or> q_regenerated q \<or> sc_rolling c
             then SetCookie (sid @ 46 # sign hmac (hd (sc_secrets c)) sid) else NoCookie)\<rparr>)))
      | _ \<Rightarrow> None)"

section \<open>Steps\<close>

datatype 'v session_event =
    Begin nat "jstr option" jstr
  | Loaded nat jstr
  | SetKey nat jstr 'v
  | DeleteKey nat jstr
  | Destroy nat
  | Regenerate nat bool
  | Regenerated nat jstr
  | Send nat
  | Reread nat
  | Finish nat
  | Tick nat

definition running :: "('s, 'v) session_world \<Rightarrow> nat \<Rightarrow> 'v session_req option" where
  "running w n = (case sw_reqs w n of None \<Rightarrow> None | Some q \<Rightarrow> (case q_phase q of Running \<Rightarrow> Some q | _ \<Rightarrow> None))"

definition on_data :: "('v session_req \<Rightarrow> 'v session_req) \<Rightarrow> ('s, 'v) session_world \<Rightarrow> nat \<Rightarrow> ('s, 'v) session_world option" where
  "on_data f w n = map_option (\<lambda>q. put_req w n (f q)) (running w n)"

fun sstep :: "session_cfg \<Rightarrow> mac_fun \<Rightarrow> ('s, 'v) session_store \<Rightarrow> ('s, 'v) session_world \<Rightarrow> 'v session_event \<Rightarrow>
    ('s, 'v) session_world option" where
  "sstep c hmac B w (Begin n header fid) = s_begin c hmac B w n header fid"
| "sstep c hmac B w (Loaded n fid) = (case sw_reqs w n of None \<Rightarrow> None | Some q \<Rightarrow> s_loaded w n q fid)"
| "sstep c hmac B w (SetKey n k v) = on_data (s_set k v) w n"
| "sstep c hmac B w (DeleteKey n k) = on_data (s_delete k) w n"
| "sstep c hmac B w (Destroy n) = on_data s_destroy w n"
| "sstep c hmac B w (Regenerate n keep) = map_option (\<lambda>q. s_regenerate c B w n q keep) (running w n)"
| "sstep c hmac B w (Regenerated n fid) = (case sw_reqs w n of None \<Rightarrow> None | Some q \<Rightarrow> s_regenerated w n q fid)"
| "sstep c hmac B w (Send n) = map_option (s_send c B w n) (running w n)"
| "sstep c hmac B w (Reread n) = (case sw_reqs w n of None \<Rightarrow> None | Some q \<Rightarrow> s_reread B w n q)"
| "sstep c hmac B w (Finish n) = (case sw_reqs w n of None \<Rightarrow> None | Some q \<Rightarrow> s_finish c hmac B w n q)"
| "sstep c hmac B w (Tick d) = Some (w\<lparr>sw_now := sw_now w + int d\<rparr>)"

text \<open>The ids a generator hands out are new (32 random bytes by default).\<close>

definition fresh_event :: "('s, 'v) session_world \<Rightarrow> 'v session_event \<Rightarrow> bool" where
  "fresh_event w e \<longleftrightarrow> (case e of Begin n h fid \<Rightarrow> fid = [] \<or> fid \<notin> set (sw_issued w)
     | Loaded n fid \<Rightarrow> fid = [] \<or> fid \<notin> set (sw_issued w)
     | Regenerated n fid \<Rightarrow> fid = [] \<or> fid \<notin> set (sw_issued w) | _ \<Rightarrow> True)"

inductive sruns :: "session_cfg \<Rightarrow> mac_fun \<Rightarrow> ('s, 'v) session_store \<Rightarrow> ('s, 'v) session_world \<Rightarrow> ('s, 'v) session_world \<Rightarrow> bool"
  for c hmac B w where
  runs_here: "sruns c hmac B w w"
| runs_step: "sruns c hmac B w w1 \<Longrightarrow> fresh_event w1 e \<Longrightarrow> sstep c hmac B w1 e = Some w2 \<Longrightarrow> sruns c hmac B w w2"

definition session_start :: "'s \<Rightarrow> jstr list \<Rightarrow> int \<Rightarrow> ('s, 'v) session_world" where
  "session_start s ids now = \<lparr> sw_store = s, sw_tombs = [], sw_now = now, sw_reqs = (\<lambda>n. None), sw_issued = ids \<rparr>"

fun run_session :: "session_cfg \<Rightarrow> mac_fun \<Rightarrow> ('s, 'v) session_store \<Rightarrow> ('s, 'v) session_world \<Rightarrow> 'v session_event list \<Rightarrow>
    ('s, 'v) session_world option" where
  "run_session c hmac B w [] = Some w"
| "run_session c hmac B w (e # es) =
     (if fresh_event w e then (case sstep c hmac B w e of None \<Rightarrow> None | Some w' \<Rightarrow> run_session c hmac B w' es) else None)"

lemmas [eval] = put_req_def issue_def fresh_req_def start_new_def start_loaded_def s_begin_def s_loaded_def s_set_def s_delete_def
  s_destroy_def bury_def s_regenerate_def regenerated_req_def s_regenerated_def write_existing_def persist_def s_send_def
  s_reread_def s_finish_def running_def on_data_def fresh_event_def session_start_def

section \<open>What a step does to the ids\<close>

text \<open>A request holds an id that it created and has not stored yet.\<close>

definition pending :: "'v session_req \<Rightarrow> jstr \<Rightarrow> bool" where
  "pending q a \<longleftrightarrow> q_active q = Some a \<and> q_original q \<noteq> Some a
     \<and> (case q_phase q of Running \<Rightarrow> True | Regenerating k \<Rightarrow> True | _ \<Rightarrow> False)"

text \<open>
  The five effects a step can have on the ids, given the ids \<open>live\<close> in a store: a new id, a loaded
  record, no new claim on an id, the write of a record, a request that waits for the store (or failed).
\<close>

inductive effect :: "('s \<Rightarrow> jstr set) \<Rightarrow> bool \<Rightarrow> ('s, 'v) session_world \<Rightarrow> ('s, 'v) session_world \<Rightarrow> bool"
  for live legacy w w' where
  e_new: "sw_reqs w' = (sw_reqs w)(n := Some q') \<Longrightarrow> live (sw_store w') \<subseteq> live (sw_store w) \<Longrightarrow>
    sw_issued w' = fid # sw_issued w \<Longrightarrow> fid \<notin> set (sw_issued w) \<Longrightarrow> q_active q' = Some fid \<Longrightarrow> q_original q' = None \<Longrightarrow>
    q_phase q' = Running \<Longrightarrow> effect live legacy w w'"
| e_loaded: "sw_reqs w' = (sw_reqs w)(n := Some q') \<Longrightarrow> live (sw_store w') \<subseteq> live (sw_store w) \<Longrightarrow>
    sw_issued w' = sw_issued w \<Longrightarrow> sw_reqs w n = Some q \<Longrightarrow> q_phase q = Got sid (Some r) \<Longrightarrow>
    q_active q' = Some sid \<Longrightarrow> q_original q' = Some sid \<Longrightarrow> q_phase q' = Running \<Longrightarrow> effect live legacy w w'"
| e_keep: "sw_reqs w' = (sw_reqs w)(n := Some q') \<Longrightarrow> live (sw_store w') \<subseteq> live (sw_store w) \<Longrightarrow>
    sw_issued w' = sw_issued w \<Longrightarrow> sw_reqs w n = Some q \<Longrightarrow> q_active q' = q_active q \<Longrightarrow> q_original q' = q_original q \<Longrightarrow>
    (\<And>a. pending q' a \<Longrightarrow> pending q a) \<Longrightarrow> (\<And>s x. q_phase q' \<noteq> Got s x) \<Longrightarrow>
    (\<And>x y. q_phase q' = Rereading x y \<Longrightarrow> legacy \<and> q_original q' = q_active q') \<Longrightarrow> effect live legacy w w'"
| e_write: "sw_reqs w' = (sw_reqs w)(n := Some q') \<Longrightarrow> live (sw_store w') \<subseteq> insert a (live (sw_store w)) \<Longrightarrow>
    sw_issued w' = sw_issued w \<Longrightarrow> sw_reqs w n = Some q \<Longrightarrow> q_active q = Some a \<Longrightarrow> q_active q' = Some a \<Longrightarrow>
    q_original q' = q_original q \<Longrightarrow> q_phase q' = Finishing \<Longrightarrow>
    pending q a \<or> (legacy \<and> q_original q = Some a) \<Longrightarrow> effect live legacy w w'"
| e_wait: "sw_reqs w' = (sw_reqs w)(n := Some q') \<Longrightarrow> live (sw_store w') \<subseteq> live (sw_store w) \<Longrightarrow>
    sw_issued w' = sw_issued w \<or> sw_issued w' = [] # sw_issued w \<Longrightarrow> q_active q' = None \<Longrightarrow> q_original q' = None \<Longrightarrow>
    q_phase q' = Failed \<or> (\<exists>sid r. q_phase q' = Got sid r \<and> (r \<noteq> None \<longrightarrow> sid \<in> live (sw_store w))) \<Longrightarrow> effect live legacy w w'"
| e_time: "sw_reqs w' = sw_reqs w \<Longrightarrow> sw_store w' = sw_store w \<Longrightarrow> sw_issued w' = sw_issued w \<Longrightarrow> effect live legacy w w'"

lemma put_req_simps [simp]:
  "sw_reqs (put_req w n q) = (sw_reqs w)(n := Some q)" "sw_store (put_req w n q) = sw_store w"
  "sw_issued (put_req w n q) = sw_issued w" "sw_now (put_req w n q) = sw_now w" "sw_tombs (put_req w n q) = sw_tombs w"
  "sw_reqs (issue i w) = sw_reqs w" "sw_store (issue i w) = sw_store w" "sw_issued (issue i w) = i # sw_issued w"
  by (simp_all add: put_req_def issue_def)

lemma bury_simps [simp]:
  "sw_reqs (bury c B sid w) = sw_reqs w" "sw_issued (bury c B sid w) = sw_issued w"
  "sw_store (bury c B sid w) = b_destroy B (sw_store w) sid"
  by (simp_all add: bury_def)

lemma running_Some: "running w n = Some q \<longleftrightarrow> sw_reqs w n = Some q \<and> q_phase q = Running"
  by (auto simp: running_def split: option.splits session_phase.splits)

lemma pending_running: "q_phase q = Running \<Longrightarrow> pending q a \<longleftrightarrow> q_active q = Some a \<and> q_original q \<noteq> Some a"
  by (simp add: pending_def)

section \<open>The contract of a session store\<close>

text \<open>
  \<open>live s\<close> are the ids a store holds a record for. Reading, extending and the conditional write never
  add an id, \<open>set\<close> adds only its own, \<open>destroy\<close> removes its own.
\<close>

locale session_contract =
  fixes B :: "('s, 'v) session_store"
    and live :: "'s \<Rightarrow> jstr set"
  assumes get_shrinks: "b_get B s now sid = (r, s') \<Longrightarrow> live s' \<subseteq> live s \<and> (r \<noteq> None \<longrightarrow> sid \<in> live s)"
    and set_adds: "live (b_set B s now sid rec) \<subseteq> insert sid (live s)"
    and destroy_removes: "live (b_destroy B s sid) \<subseteq> live s - {sid}"
    and touch_shrinks: "b_touch B = Some t \<Longrightarrow> live (t s now sid e) \<subseteq> live s"
    and update_shrinks: "b_update B = Some u \<Longrightarrow> u s now sid rec = (ok, s') \<Longrightarrow> live s' \<subseteq> live s"
begin

abbreviation effect_of :: "('s, 'v) session_world \<Rightarrow> ('s, 'v) session_world \<Rightarrow> bool" where
  "effect_of \<equiv> effect live (b_update B = None)"

lemma new_effect:
  assumes "fid = [] \<or> fid \<notin> set (sw_issued w)"
  shows "effect_of w (issue fid (put_req w n (start_new fid had)))"
proof (cases "fid = []")
  case True
  show ?thesis
    by (rule e_wait [where n = n and q' = "start_new fid had"]) (simp_all add: True start_new_def fresh_req_def)
next
  case False
  with assms show ?thesis
    by (intro e_new [where n = n and q' = "start_new fid had" and fid = fid]) (simp_all add: start_new_def fresh_req_def)
qed

lemma begin_effect:
  assumes "fid = [] \<or> fid \<notin> set (sw_issued w)" and "s_begin c hmac B w n header fid = Some w'"
  shows "effect_of w w'"
proof (cases "case readRequestCookie header (sc_cookieName c) of None \<Rightarrow> None | Some r \<Rightarrow> verified_id hmac (sc_secrets c) r")
  case None
  with assms(2) new_effect [OF assms(1)] show ?thesis by (auto simp: s_begin_def Let_def split: if_splits)
next
  case (Some sid)
  obtain r s where g: "b_get B (sw_store w) (sw_now w) sid = (r, s)" by (cases "b_get B (sw_store w) (sw_now w) sid")
  let ?q = "(fresh_req (readRequestCookie header (sc_cookieName c) \<noteq> None))\<lparr>q_phase := Got sid r\<rparr>"
  have "w' = put_req (w\<lparr>sw_store := s\<rparr>) n ?q"
    using assms(2) Some g by (auto simp: s_begin_def Let_def split: if_splits)
  with get_shrinks [OF g] show ?thesis
    by (intro e_wait [where n = n and q' = ?q]) (simp_all add: fresh_req_def)
qed

lemma loaded_effect:
  assumes "fid = [] \<or> fid \<notin> set (sw_issued w)" and "sw_reqs w n = Some q" and "s_loaded w n q fid = Some w'"
  shows "effect_of w w'"
proof (cases "q_phase q")
  case (Got sid x)
  show ?thesis
  proof (cases "\<exists>r. x = Some r \<and> sr_expiresAt r > sw_now w")
    case True
    then obtain r where r: "x = Some r" "sr_expiresAt r > sw_now w" by blast
    with assms(3) Got have "w' = put_req w n (start_loaded sid r (q_had q))" by (simp add: s_loaded_def)
    with assms(2) Got r show ?thesis
      by (intro e_loaded [where n = n and q = q and sid = sid and r = r and q' = "start_loaded sid r (q_had q)"])
        (simp_all add: start_loaded_def fresh_req_def)
  next
    case False
    with assms(3) Got have "w' = issue fid (put_req w n (start_new fid (q_had q)))"
      by (cases x) (auto simp: s_loaded_def)
    with new_effect [OF assms(1)] show ?thesis by simp
  qed
qed (use assms(3) in \<open>simp_all add: s_loaded_def\<close>)

lemma data_effect:
  assumes "on_data f w n = Some w'"
    and "\<And>q. q_active (f q) = q_active q \<and> q_original (f q) = q_original q \<and> q_phase (f q) = q_phase q"
  shows "effect_of w w'"
proof -
  from assms(1) obtain q where q: "sw_reqs w n = Some q" "q_phase q = Running" "w' = put_req w n (f q)"
    by (auto simp: on_data_def running_Some)
  with assms(2) [of q] show ?thesis
    by (intro e_keep [where n = n and q = q and q' = "f q"]) (simp_all add: pending_def)
qed

lemma regenerate_effect:
  assumes "sw_reqs w n = Some q" and "q_phase q = Running"
  shows "effect_of w (s_regenerate c B w n q keep)"
proof -
  have "live (b_destroy B (sw_store w) a) \<subseteq> live (sw_store w)" for a using destroy_removes by blast
  with assms show ?thesis
    by (intro e_keep [where n = n and q = q and q' = "q\<lparr>q_phase := Regenerating keep\<rparr>"])
      (auto simp: s_regenerate_def pending_def split: option.splits)
qed

lemma regenerated_effect:
  assumes "fid = [] \<or> fid \<notin> set (sw_issued w)" and "sw_reqs w n = Some q" and "s_regenerated w n q fid = Some w'"
  shows "effect_of w w'"
proof (cases "q_phase q")
  case (Regenerating keep)
  show ?thesis
  proof (cases "fid = []")
    case True
    with assms(2,3) Regenerating show ?thesis
      by (intro e_keep [where n = n and q = q and q' = "q\<lparr>q_phase := Running\<rparr>"]) (auto simp: s_regenerated_def pending_def)
  next
    case False
    with assms Regenerating show ?thesis
      by (intro e_new [where n = n and fid = fid and q' = "regenerated_req fid keep q"])
        (auto simp: s_regenerated_def regenerated_req_def)
  qed
qed (use assms(3) in \<open>simp_all add: s_regenerated_def\<close>)

end

text \<open>An id a request did not load is one it created or rotated to.\<close>

definition coherent :: "'v session_req \<Rightarrow> bool" where
  "coherent q \<longleftrightarrow> (q_active q \<noteq> None \<and> q_original q \<noteq> q_active q \<longrightarrow> q_created q \<or> q_regenerated q)"

context session_contract
begin

lemma finishing_effect:
  assumes "sw_reqs w n = Some q" and "q_phase q = Running" and "live s \<subseteq> live (sw_store w)"
  shows "effect_of w (put_req (w\<lparr>sw_store := s\<rparr>) n (q\<lparr>q_phase := Finishing\<rparr>))"
  using assms by (intro e_keep [where n = n and q = q and q' = "q\<lparr>q_phase := Finishing\<rparr>"]) (simp_all add: pending_def)

lemma done_effect:
  assumes "sw_reqs w n = Some q" and "sw_reqs w' = sw_reqs w" and "sw_issued w' = sw_issued w"
    and "live (sw_store w') \<subseteq> live (sw_store w)"
  shows "effect_of w (put_req w' n (q\<lparr>q_phase := Done x\<rparr>))"
  using assms by (intro e_keep [where n = n and q = q and q' = "q\<lparr>q_phase := Done x\<rparr>"]) (simp_all add: pending_def)

text \<open>Writing on behalf of a request that runs: its record exists, or the id is its own.\<close>

lemma write_existing_effect:
  assumes "sw_reqs w n = Some q" and "q_phase q = Running" and "q_active q = Some sid" and "q_original q = Some sid"
  shows "effect_of w (write_existing B w n q sid rec)"
proof (cases "b_update B")
  case None
  obtain cur s where g: "b_get B (sw_store w) (sw_now w) sid = (cur, s)" by (cases "b_get B (sw_store w) (sw_now w) sid")
  with assms get_shrinks [OF g] None show ?thesis
    by (intro e_keep [where n = n and q = q and q' = "q\<lparr>q_phase := Rereading rec cur\<rparr>"])
      (simp_all add: write_existing_def pending_def)
next
  case (Some u)
  obtain ok s where u: "u (sw_store w) (sw_now w) sid rec = (ok, s)" by (cases "u (sw_store w) (sw_now w) sid rec")
  with assms update_shrinks [OF Some u] Some show ?thesis
    by (intro e_keep [where n = n and q = q and q' = "q\<lparr>q_phase := (if ok then Finishing else Done NoCookie)\<rparr>"])
      (auto simp: write_existing_def pending_def split: if_splits)
qed

lemma persist_effect:
  assumes "sw_reqs w n = Some q" and "q_phase q = Running" and "q_active q = Some sid" and "coherent q"
  shows "effect_of w (persist c B w n q sid)"
proof (cases "q_original q = Some sid")
  case True
  note wr = write_existing_effect [OF assms(1-3) True]
  have tch: "effect_of w (put_req (w\<lparr>sw_store := t (sw_store w) (sw_now w) sid e\<rparr>) n (q\<lparr>q_phase := Finishing\<rparr>))"
    if "b_touch B = Some t" for t e
    by (rule finishing_effect [OF assms(1,2) touch_shrinks [OF that]])
  have "effect_of w (put_req w n (q\<lparr>q_phase := Finishing\<rparr>))"
    using finishing_effect [OF assms(1,2), of "sw_store w"] by simp
  with True wr tch show ?thesis by (auto simp: persist_def Let_def split: option.splits)
next
  case False
  then have new: "q_created q \<or> q_regenerated q" using assms(3,4) by (auto simp: coherent_def)
  let ?rec = "\<lparr> sr_data = q_data q, sr_expiresAt = sw_now w + sc_ttlMs c \<rparr>"
  have "effect_of w (put_req (w\<lparr>sw_store := b_set B (sw_store w) (sw_now w) sid ?rec\<rparr>) n (q\<lparr>q_phase := Finishing\<rparr>))"
    using False assms set_adds [of "sw_store w" "sw_now w" sid ?rec]
    by (intro e_write [where n = n and q = q and a = sid and q' = "q\<lparr>q_phase := Finishing\<rparr>"]) (simp_all add: pending_def)
  with new False show ?thesis by (auto simp: persist_def Let_def)
qed

lemma effect_tombs: "effect_of (w\<lparr>sw_tombs := t\<rparr>) w' \<longleftrightarrow> effect_of w w'"
  by (simp add: effect.simps)

lemma send_effect:
  assumes "sw_reqs w n = Some q" and "q_phase q = Running" and "coherent q"
  shows "effect_of w (s_send c B w n q)"
proof (cases "q_destroyed q")
  case True
  have "live (b_destroy B (sw_store w) a) \<subseteq> live (sw_store w)" for a using destroy_removes by blast
  then have "effect_of w (put_req (case q_original q of None \<Rightarrow> w | Some o' \<Rightarrow> bury c B o' w) n (q\<lparr>q_phase := Done x\<rparr>))" for x
    by (intro done_effect [OF assms(1)]) (simp_all split: option.splits)
  with True show ?thesis by (simp add: s_send_def)
next
  case False
  show ?thesis
  proof (cases "q_active q")
    case None
    with False show ?thesis by (simp add: s_send_def e_time)
  next
    case (Some sid)
    obtain tomb t where tt: "(if q_original q = Some sid then isTombstoned (sw_now w) sid (sw_tombs w) else (False, sw_tombs w)) = (tomb, t)"
      by (cases "if q_original q = Some sid then isTombstoned (sw_now w) sid (sw_tombs w) else (False, sw_tombs w)")
    have d: "effect_of w (put_req (w\<lparr>sw_tombs := t\<rparr>) n (q\<lparr>q_phase := Done NoCookie\<rparr>))" "effect_of w (put_req w n (q\<lparr>q_phase := Done NoCookie\<rparr>))"
      by (rule done_effect [OF assms(1)]; simp)+
    have "effect_of (w\<lparr>sw_tombs := t\<rparr>) (persist c B (w\<lparr>sw_tombs := t\<rparr>) n q sid)"
      by (rule persist_effect) (use assms Some in simp_all)
    then have "effect_of w (persist c B (w\<lparr>sw_tombs := t\<rparr>) n q sid)" by (simp only: effect_tombs)
    with False Some tt d show ?thesis by (simp add: s_send_def Let_def)
  qed
qed

lemma reread_effect:
  assumes "sw_reqs w n = Some q" and "s_reread B w n q = Some w'"
    and "\<And>x y. q_phase q = Rereading x y \<Longrightarrow> b_update B = None \<and> q_original q = q_active q"
  shows "effect_of w w'"
proof -
  from assms(2) obtain r cur sid where ph: "q_phase q = Rereading r cur" "q_active q = Some sid"
    by (auto simp: s_reread_def split: session_phase.splits option.splits)
  have d: "effect_of w (put_req w n (q\<lparr>q_phase := Done NoCookie\<rparr>))" by (rule done_effect [OF assms(1)]) simp_all
  have "effect_of w (put_req (w\<lparr>sw_store := b_set B (sw_store w) (sw_now w) sid r\<rparr>) n (q\<lparr>q_phase := Finishing\<rparr>))"
    using assms(1,3) ph set_adds [of "sw_store w" "sw_now w" sid r]
    by (intro e_write [where n = n and q = q and a = sid and q' = "q\<lparr>q_phase := Finishing\<rparr>"]) simp_all
  with d assms(2) ph show ?thesis by (auto simp: s_reread_def split: option.splits if_splits)
qed

lemma finish_effect:
  assumes "sw_reqs w n = Some q" and "s_finish c hmac B w n q = Some w'"
  shows "effect_of w w'"
proof -
  have "live (b_destroy B (sw_store w) a) \<subseteq> live (sw_store w)" for a using destroy_removes by blast
  then have d1: "effect_of w (put_req (w\<lparr>sw_store := b_destroy B (sw_store w) a\<rparr>) n (q\<lparr>q_phase := Done x\<rparr>))" for x a
    by (intro done_effect [OF assms(1)]) simp_all
  have d2: "effect_of w (put_req w n (q\<lparr>q_phase := Done x\<rparr>))" for x
    by (rule done_effect [OF assms(1)]) simp_all
  from d1 d2 assms(2) show ?thesis by (auto simp: s_finish_def Let_def split: session_phase.splits option.splits if_splits)
qed

end

section \<open>Destroyed ids stay out\<close>

definition world_ok :: "('s \<Rightarrow> jstr set) \<Rightarrow> bool \<Rightarrow> ('s, 'v) session_world \<Rightarrow> bool" where
  "world_ok live legacy w \<longleftrightarrow>
     live (sw_store w) \<subseteq> set (sw_issued w)
     \<and> (\<forall>n q. sw_reqs w n = Some q \<longrightarrow>
          (\<forall>a. q_active q = Some a \<or> q_original q = Some a \<or> (\<exists>r. q_phase q = Got a (Some r)) \<longrightarrow> a \<in> set (sw_issued w))
        \<and> (\<forall>x y. q_phase q = Rereading x y \<longrightarrow> legacy \<and> q_original q = q_active q)
        \<and> (\<forall>a. pending q a \<longrightarrow> a \<notin> live (sw_store w)
            \<and> (\<forall>m p. m \<noteq> n \<longrightarrow> sw_reqs w m = Some p \<longrightarrow>
                \<not> pending p a \<and> q_original p \<noteq> Some a \<and> (\<forall>r. q_phase p \<noteq> Got a (Some r)))))"

text \<open>An id that was given out, that no record has and that no request may still store.\<close>

definition gone :: "('s \<Rightarrow> jstr set) \<Rightarrow> jstr \<Rightarrow> ('s, 'v) session_world \<Rightarrow> bool" where
  "gone live a w \<longleftrightarrow> a \<in> set (sw_issued w) \<and> a \<notin> live (sw_store w) \<and> (\<forall>n q. sw_reqs w n = Some q \<longrightarrow> \<not> pending q a)"

lemma world_okD:
  assumes "world_ok live legacy w"
  shows "live (sw_store w) \<subseteq> set (sw_issued w)"
    "sw_reqs w n = Some q \<Longrightarrow> q_active q = Some a \<or> q_original q = Some a \<or> q_phase q = Got a (Some r) \<Longrightarrow> a \<in> set (sw_issued w)"
    "sw_reqs w n = Some q \<Longrightarrow> q_phase q = Rereading x y \<Longrightarrow> legacy \<and> q_original q = q_active q"
    "sw_reqs w n = Some q \<Longrightarrow> pending q a \<Longrightarrow> a \<notin> live (sw_store w)"
    "sw_reqs w n = Some q \<Longrightarrow> pending q a \<Longrightarrow> m \<noteq> n \<Longrightarrow> sw_reqs w m = Some p \<Longrightarrow>
      \<not> pending p a \<and> q_original p \<noteq> Some a \<and> q_phase p \<noteq> Got a (Some r)"
  using assms unfolding world_ok_def by blast+

lemma pending_active: "pending q a \<Longrightarrow> q_active q = Some a \<and> q_original q \<noteq> Some a"
  by (simp add: pending_def)

lemma world_okI:
  assumes "live (sw_store w) \<subseteq> set (sw_issued w)"
    and "\<And>n q a r. sw_reqs w n = Some q \<Longrightarrow> q_active q = Some a \<or> q_original q = Some a \<or> q_phase q = Got a (Some r) \<Longrightarrow> a \<in> set (sw_issued w)"
    and "\<And>n q x y. sw_reqs w n = Some q \<Longrightarrow> q_phase q = Rereading x y \<Longrightarrow> legacy \<and> q_original q = q_active q"
    and "\<And>n q a. sw_reqs w n = Some q \<Longrightarrow> pending q a \<Longrightarrow> a \<notin> live (sw_store w)"
    and "\<And>n q a m p r. sw_reqs w n = Some q \<Longrightarrow> pending q a \<Longrightarrow> m \<noteq> n \<Longrightarrow> sw_reqs w m = Some p \<Longrightarrow>
      \<not> pending p a \<and> q_original p \<noteq> Some a \<and> q_phase p \<noteq> Got a (Some r)"
  shows "world_ok live legacy w"
  using assms unfolding world_ok_def by blast

text \<open>Only request \<open>n\<close> changes; what is left to show is about its new state.\<close>

lemma world_ok_upd:
  assumes ok: "world_ok live legacy w" and reqs: "sw_reqs w' = (sw_reqs w)(n := Some q')"
    and store: "live (sw_store w') \<subseteq> set (sw_issued w')" and issued: "set (sw_issued w) \<subseteq> set (sw_issued w')"
    and ids: "\<And>a r. q_active q' = Some a \<or> q_original q' = Some a \<or> q_phase q' = Got a (Some r) \<Longrightarrow> a \<in> set (sw_issued w')"
    and reread: "\<And>x y. q_phase q' = Rereading x y \<Longrightarrow> legacy \<and> q_original q' = q_active q'"
    and mine: "\<And>a m p r. pending q' a \<Longrightarrow> a \<notin> live (sw_store w') \<and>
        (m \<noteq> n \<longrightarrow> sw_reqs w m = Some p \<longrightarrow> \<not> pending p a \<and> q_original p \<noteq> Some a \<and> q_phase p \<noteq> Got a (Some r))"
    and others: "\<And>a m p r. m \<noteq> n \<Longrightarrow> sw_reqs w m = Some p \<Longrightarrow> pending p a \<Longrightarrow> a \<notin> live (sw_store w') \<and> \<not> pending q' a
        \<and> q_original q' \<noteq> Some a \<and> q_phase q' \<noteq> Got a (Some r)"
  shows "world_ok live legacy w'"
proof (rule world_okI)
  note D = world_okD [OF ok]
  have cases: "(m = n \<and> p = q') \<or> (m \<noteq> n \<and> sw_reqs w m = Some p)" if "sw_reqs w' m = Some p" for m p
    using that reqs by (auto split: if_splits)
  show "live (sw_store w') \<subseteq> set (sw_issued w')" by (rule store)
  fix m p a r x y
  assume m: "sw_reqs w' m = Some p"
  show "a \<in> set (sw_issued w')" if "q_active p = Some a \<or> q_original p = Some a \<or> q_phase p = Got a (Some r)"
    using cases [OF m] ids D(2) that issued by blast
  show "legacy \<and> q_original p = q_active p" if "q_phase p = Rereading x y"
    using cases [OF m] reread D(3) that by blast
  assume pend: "pending p a"
  show "a \<notin> live (sw_store w')" using cases [OF m] mine others pend by blast
  fix m' p'
  assume m': "m' \<noteq> m" "sw_reqs w' m' = Some p'"
  show "\<not> pending p' a \<and> q_original p' \<noteq> Some a \<and> q_phase p' \<noteq> Got a (Some r)"
    using cases [OF m] cases [OF m'(2)] m'(1) pend mine others D(5) by blast
qed

lemma effect_world_ok:
  assumes "effect live legacy w w'" and ok: "world_ok live legacy w"
  shows "world_ok live legacy w'"
  using assms(1)
proof cases
  case (e_new n q' fid)
  note D = world_okD [OF ok]
  have fresh: "q_original p \<noteq> Some fid \<and> q_phase p \<noteq> Got fid (Some r) \<and> \<not> pending p fid"
    if "sw_reqs w m = Some p" for m p r
    using D(2) [OF that, of fid] e_new(4) pending_active by blast
  have "fid \<notin> live (sw_store w')" using D(1) e_new by blast
  with D(1,4) fresh e_new show ?thesis
    by (intro world_ok_upd [OF ok e_new(1)]) (auto simp: pending_running)
next
  case (e_loaded n q' q sid r)
  note D = world_okD [OF ok]
  have "\<not> pending p sid" if "m \<noteq> n" "sw_reqs w m = Some p" for m p
    using D(5) [OF that(2) _ _ e_loaded(4), of sid r] that(1) e_loaded(5) by auto
  moreover have "sid \<in> set (sw_issued w)" using D(2) [OF e_loaded(4)] e_loaded(5) by blast
  ultimately show ?thesis
    using D(1,4) e_loaded by (intro world_ok_upd [OF ok e_loaded(1)]) (auto simp: pending_running)
next
  case (e_keep n q' q)
  note D = world_okD [OF ok]
  have other: "q_original q' \<noteq> Some a \<and> \<not> pending q' a" if "m \<noteq> n" "sw_reqs w m = Some p" "pending p a" for m p a
    using D(5) [OF that(2,3) _ e_keep(4)] that(1) e_keep(6,7) by auto
  have mine: "\<not> pending p a \<and> q_original p \<noteq> Some a \<and> q_phase p \<noteq> Got a (Some r)"
    if "pending q' a" "m \<noteq> n" "sw_reqs w m = Some p" for a m p r
    using D(5) [OF e_keep(4) e_keep(7) [OF that(1)]] that(2,3) by blast
  have dead: "a \<notin> live (sw_store w')" if "pending q' a" for a
    using D(4) [OF e_keep(4) e_keep(7) [OF that]] e_keep(2) by blast
  have ids: "q_active q' = Some a \<or> q_original q' = Some a \<Longrightarrow> a \<in> set (sw_issued w)" for a
    using D(2) [OF e_keep(4)] e_keep(5,6) by auto
  show ?thesis
  proof (rule world_ok_upd [OF ok e_keep(1)])
    show "live (sw_store w') \<subseteq> set (sw_issued w')" using D(1) e_keep(2,3) by simp
    show "a \<in> set (sw_issued w')" if "q_active q' = Some a \<or> q_original q' = Some a \<or> q_phase q' = Got a (Some r)" for a r
      using that ids e_keep(3,8) by auto
    show "a \<notin> live (sw_store w') \<and> (m \<noteq> n \<longrightarrow> sw_reqs w m = Some p \<longrightarrow>
        \<not> pending p a \<and> q_original p \<noteq> Some a \<and> q_phase p \<noteq> Got a (Some r))" if "pending q' a" for a m p r
      using dead [OF that] mine [OF that] by blast
    show "a \<notin> live (sw_store w') \<and> \<not> pending q' a \<and> q_original q' \<noteq> Some a \<and> q_phase q' \<noteq> Got a (Some r)"
      if "m \<noteq> n" "sw_reqs w m = Some p" "pending p a" for a m p r
      using other [OF that] D(4) [OF that(2,3)] e_keep(2,8) by blast
  qed (use e_keep(3,9) in auto)
next
  case (e_write n q' a q)
  note D = world_okD [OF ok]
  have "p_a \<noteq> a" if "m \<noteq> n" "sw_reqs w m = Some p" "pending p p_a" for m p p_a
    using D(5) [OF that(2,3) _ e_write(4)] that(1) e_write(9) by auto
  moreover have "\<not> pending q' b" for b using e_write(8) by (simp add: pending_def)
  moreover have "q_original q' \<noteq> Some b" if "m \<noteq> n" "sw_reqs w m = Some p" "pending p b" for m p b
    using D(5) [OF that(2,3) _ e_write(4)] that(1) e_write(7) by auto
  moreover have "a \<in> set (sw_issued w)" using D(2) [OF e_write(4)] e_write(5) by blast
  moreover have "b \<in> set (sw_issued w)" if "q_original q' = Some b" for b using D(2) [OF e_write(4)] e_write(7) that by auto
  ultimately show ?thesis
    using D(1,4) e_write(2,3,6,8) by (intro world_ok_upd [OF ok e_write(1)]) (simp_all, blast+)
next
  case (e_wait n q')
  note D = world_okD [OF ok]
  have "\<not> pending q' a" for a using e_wait(4) by (simp add: pending_def)
  moreover have "q_phase q' \<noteq> Got a (Some r)" if "sw_reqs w m = Some p" "pending p a" for m p a r
    using D(4) [OF that] e_wait(6) by auto
  moreover have "a \<in> set (sw_issued w')" if "q_phase q' = Got a (Some r)" for a r
    using e_wait(3,6) that D(1) by auto
  moreover have "q_phase q' \<noteq> Rereading x y" for x y using e_wait(6) by auto
  ultimately show ?thesis
  proof (intro world_ok_upd [OF ok e_wait(1)])
    show "live (sw_store w') \<subseteq> set (sw_issued w')" "set (sw_issued w) \<subseteq> set (sw_issued w')"
      using D(1) e_wait(2,3) by auto
    show "a \<notin> live (sw_store w') \<and> \<not> pending q' a \<and> q_original q' \<noteq> Some a \<and> q_phase q' \<noteq> Got a (Some r)"
      if "sw_reqs w m = Some p" "pending p a" "\<And>m p a r. sw_reqs w m = Some p \<Longrightarrow> pending p a \<Longrightarrow> q_phase q' \<noteq> Got a (Some r)" for a m p r
      using that D(4) [OF that(1,2)] e_wait(2,4,5) by (auto simp: pending_def)
  qed (use e_wait(4,5) in auto)
next
  case e_time
  with ok show ?thesis by (simp add: world_ok_def)
qed

lemma effect_gone:
  assumes "effect live False w w'" and "world_ok live False w" and "gone live a w"
  shows "gone live a w'"
  using assms(1)
proof cases
  case (e_new n q' fid)
  with assms(3) show ?thesis by (auto simp: gone_def pending_running split: if_splits)
next
  case (e_loaded n q' q sid r)
  with assms(3) show ?thesis by (auto simp: gone_def pending_running split: if_splits)
next
  case (e_keep n q' q)
  have "\<not> pending q' a" using e_keep(4,7) assms(3) by (auto simp: gone_def)
  with e_keep(1-3) assms(3) show ?thesis by (auto simp: gone_def split: if_splits)
next
  case (e_write n q' b q)
  have "\<not> pending q' x" for x using e_write(8) by (simp add: pending_def)
  moreover have "b \<noteq> a" using e_write(4,9) assms(3) by (auto simp: gone_def)
  ultimately show ?thesis using e_write(1-3) assms(3) by (auto simp: gone_def split: if_splits)
next
  case (e_wait n q')
  have "\<not> pending q' x" for x using e_wait(4) by (simp add: pending_def)
  with e_wait(1-3) assms(3) show ?thesis by (auto simp: gone_def split: if_splits)
next
  case e_time
  with assms(3) show ?thesis by (simp add: gone_def)
qed

section \<open>Every step has one of the effects\<close>

definition all_coherent :: "('s, 'v) session_world \<Rightarrow> bool" where
  "all_coherent w \<longleftrightarrow> (\<forall>n q. sw_reqs w n = Some q \<longrightarrow> coherent q)"

lemma coherent_simps [simp]:
  "coherent (q\<lparr>q_phase := x\<rparr>) = coherent q" "coherent (start_new fid had)" "coherent (start_loaded sid r had)"
  "coherent (fresh_req had)" "coherent (s_set k v q) = coherent q" "coherent (s_delete k q) = coherent q"
  "coherent (s_destroy q) = coherent q" "coherent (regenerated_req fid keep q)"
  by (simp_all add: coherent_def start_new_def start_loaded_def fresh_req_def s_set_def s_delete_def s_destroy_def regenerated_req_def)

lemma all_coherent_upd:
  "all_coherent w \<Longrightarrow> coherent q \<Longrightarrow> sw_reqs w' = (sw_reqs w)(n := Some q) \<Longrightarrow> all_coherent w'"
  by (simp add: all_coherent_def)

lemma all_coherent_simps [simp]:
  "all_coherent w \<Longrightarrow> coherent q \<Longrightarrow> all_coherent (put_req w n q)" "all_coherent (issue i w) = all_coherent w"
  "all_coherent (w\<lparr>sw_store := s\<rparr>) = all_coherent w" "all_coherent (bury c B a w) = all_coherent w"
  by (simp_all add: all_coherent_def)

lemma write_existing_reqs: "\<exists>x. sw_reqs (write_existing B w n q sid r) = (sw_reqs w)(n := Some (q\<lparr>q_phase := x\<rparr>))"
  by (auto simp: write_existing_def split: option.splits prod.splits)

lemma persist_reqs: "\<exists>x. sw_reqs (persist c B w n q sid) = (sw_reqs w)(n := Some (q\<lparr>q_phase := x\<rparr>))"
  using write_existing_reqs [of B w n q sid] by (auto simp: persist_def Let_def split: option.splits)

lemma send_reqs: "sw_reqs (s_send c B w n q) = sw_reqs w \<or> (\<exists>x. sw_reqs (s_send c B w n q) = (sw_reqs w)(n := Some (q\<lparr>q_phase := x\<rparr>)))"
proof (cases "q_destroyed q \<or> q_active q = None")
  case True
  then show ?thesis by (auto simp: s_send_def split: option.splits)
next
  case False
  then obtain sid where sid: "q_active q = Some sid" by auto
  obtain tomb t where tt: "(if q_original q = Some sid then isTombstoned (sw_now w) sid (sw_tombs w) else (False, sw_tombs w)) = (tomb, t)"
    by (cases "if q_original q = Some sid then isTombstoned (sw_now w) sid (sw_tombs w) else (False, sw_tombs w)")
  have "\<exists>x. sw_reqs (persist c B (w\<lparr>sw_tombs := t\<rparr>) n q sid) = (sw_reqs w)(n := Some (q\<lparr>q_phase := x\<rparr>))"
    using persist_reqs [of c B "w\<lparr>sw_tombs := t\<rparr>" n q sid] by simp
  with False sid tt show ?thesis by (auto simp: s_send_def Let_def)
qed

lemma coherent_step:
  assumes "sstep c hmac B w e = Some w'" and ok: "all_coherent w"
  shows "all_coherent w'"
proof -
  have co: "coherent q" if "sw_reqs w n = Some q" for n q using that ok by (simp add: all_coherent_def)
  show ?thesis
  proof (cases e)
    case (Send n)
    with assms(1) obtain q where q: "sw_reqs w n = Some q" "w' = s_send c B w n q" by (auto simp: running_Some)
    with send_reqs [of c B w n q] co [OF q(1)] ok show ?thesis by (auto simp: all_coherent_def split: if_splits)
  next
    case (Tick d)
    with assms(1) ok show ?thesis by (auto simp: all_coherent_def)
  qed (use assms(1) co ok in \<open>auto simp: s_begin_def s_loaded_def s_regenerated_def s_reread_def s_finish_def s_regenerate_def
      on_data_def running_Some Let_def split: option.splits session_phase.splits if_splits prod.splits\<close>)
qed

context session_contract
begin

lemma step_effect:
  assumes "sstep c hmac B w e = Some w'" and "fresh_event w e" and "all_coherent w" and "world_ok live (b_update B = None) w"
  shows "effect_of w w'"
proof (cases e)
  case (Begin n h fid)
  with assms(1,2) show ?thesis by (intro begin_effect [of fid]) (auto simp: fresh_event_def)
next
  case (Loaded n fid)
  with assms(1,2) show ?thesis by (auto simp: fresh_event_def split: option.splits intro: loaded_effect)
next
  case (Regenerated n fid)
  with assms(1,2) show ?thesis by (auto simp: fresh_event_def split: option.splits intro: regenerated_effect)
next
  case (Send n)
  with assms(1,3) show ?thesis by (auto simp: running_Some all_coherent_def intro: send_effect)
next
  case (Reread n)
  with assms(1) obtain q where q: "sw_reqs w n = Some q" "s_reread B w n q = Some w'" by (auto split: option.splits)
  show ?thesis by (rule reread_effect [OF q]) (use world_okD(3) [OF assms(4) q(1)] in auto)
next
  case (Finish n)
  with assms(1) show ?thesis by (auto split: option.splits intro: finish_effect)
next
  case (Regenerate n k)
  with assms(1) show ?thesis by (auto simp: running_Some intro: regenerate_effect)
next
  case (Tick d)
  with assms(1) show ?thesis by (intro e_time) auto
next
  case (SetKey n k v)
  with assms(1) show ?thesis by (intro data_effect [of "s_set k v" w n]) (simp_all add: s_set_def)
next
  case (DeleteKey n k)
  with assms(1) show ?thesis by (intro data_effect [of "s_delete k" w n]) (simp_all add: s_delete_def)
next
  case (Destroy n)
  with assms(1) show ?thesis by (intro data_effect [of s_destroy w n]) (simp_all add: s_destroy_def)
qed

definition good :: "('s, 'v) session_world \<Rightarrow> bool" where
  "good w \<longleftrightarrow> all_coherent w \<and> world_ok live (b_update B = None) w"

lemma good_start: "live s \<subseteq> set ids \<Longrightarrow> good (session_start s ids now)"
  by (simp add: good_def all_coherent_def world_ok_def session_start_def)

lemma good_step: "sstep c hmac B w e = Some w' \<Longrightarrow> fresh_event w e \<Longrightarrow> good w \<Longrightarrow> good w'"
  using coherent_step step_effect effect_world_ok unfolding good_def by blast

lemma good_runs: "sruns c hmac B w w' \<Longrightarrow> good w \<Longrightarrow> good w'"
  by (induction rule: sruns.induct) (auto intro: good_step)

lemma gone_runs:
  assumes "sruns c hmac B w w'" and "good w" and "gone live a w" and "b_update B \<noteq> None"
  shows "gone live a w'"
  using assms(1)
proof (induction rule: sruns.induct)
  case (runs_step w1 e w2)
  have g: "good w1" by (rule good_runs [OF runs_step(1) assms(2)])
  have "effect live False w1 w2" using step_effect [OF runs_step(3,2)] g assms(4) by (auto simp: good_def)
  then show ?case by (rule effect_gone) (use g assms(4) runs_step.IH in \<open>auto simp: good_def\<close>)
qed (rule assms(3))

text \<open>A request that loaded an id and destroys it, or rotates away from it, leaves the id gone.\<close>

lemma gone_destroyed:
  assumes "good w" and "sw_reqs w n = Some q" and "q_original q = Some a"
    and "sw_store w' = b_destroy B (sw_store w) a" and "sw_issued w' = sw_issued w"
    and "sw_reqs w' = (sw_reqs w)(n := Some q')" and "q_original q' = Some a"
  shows "gone live a w'"
proof -
  have ok: "world_ok live (b_update B = None) w" using assms(1) by (simp add: good_def)
  have "a \<in> set (sw_issued w)" using world_okD(2) [OF ok assms(2)] assms(3) by blast
  moreover have "\<not> pending p a" if "m \<noteq> n" "sw_reqs w m = Some p" for m p
    using world_okD(5) [OF ok that(2) _ _ assms(2)] that(1) assms(3) by blast
  moreover have "\<not> pending q' a" using assms(7) by (simp add: pending_def)
  moreover have "a \<notin> live (sw_store w')" using destroy_removes unfolding assms(4) by blast
  ultimately show ?thesis by (auto simp: gone_def assms(5,6))
qed

lemma gone_logout:
  assumes "good w" and "sw_reqs w n = Some q" and "q_phase q = Running" and "q_original q = Some a" and "q_destroyed q"
  shows "gone live a (s_send c B w n q)"
  by (rule gone_destroyed [OF assms(1,2,4), where q' = "q\<lparr>q_phase := Done (if q_had q then ClearCookie else NoCookie)\<rparr>"])
    (simp_all add: s_send_def assms)

lemma gone_rotated:
  assumes "good w" and "sw_reqs w n = Some q" and "q_phase q = Running" and "q_original q = Some a" and "q_active q = Some a"
  shows "gone live a (s_regenerate c B w n q keep)"
  by (rule gone_destroyed [OF assms(1,2,4), where q' = "q\<lparr>q_phase := Regenerating keep\<rparr>"])
    (simp_all add: s_regenerate_def assms)

end

section \<open>The in-memory store keeps the contract\<close>

definition mem_ids :: "'v memory_state \<Rightarrow> jstr set" where
  "mem_ids s = keys (ms_map s)"

lemma mem_get_keys: "mem_get s now sid = (r, s') \<Longrightarrow> mem_ids s' \<subseteq> mem_ids s \<and> (r \<noteq> None \<longrightarrow> sid \<in> mem_ids s)"
proof -
  assume g: "mem_get s now sid = (r, s')"
  have d: "mem_ids (s\<lparr>ms_map := AList.delete sid (ms_map s)\<rparr>) \<subseteq> mem_ids s"
    by (simp add: mem_ids_def keys_delete Diff_subset)
  have k: "sid \<in> mem_ids s" if "map_of (ms_map s) sid = Some x" for x
    unfolding mem_ids_def by (rule map_of_Some_keys [OF that])
  show ?thesis
    using g d k by (cases "map_of (ms_map s) sid") (auto simp: mem_get_def split: if_splits)
qed

lemma mem_get_same: "mem_get s now sid = (r, s') \<Longrightarrow> r \<noteq> None \<Longrightarrow> s' = s"
  by (auto simp: mem_get_def split: option.splits if_splits)

lemma mem_ids_update: "sid \<in> mem_ids s \<Longrightarrow> mem_ids (s\<lparr>ms_map := AList.update sid rec (ms_map s)\<rparr>) = mem_ids s"
  by (simp add: mem_ids_def keys_update insert_absorb)

lemma drop_oldest_suffix: "\<exists>k. drop_oldest n m = drop k m"
proof (induction m)
  case (Cons e m)
  then obtain k where "drop_oldest n m = drop k m" by blast
  then have "drop_oldest n m = drop (Suc k) (e # m)" by simp
  then show ?case by (cases "n \<le> length (e # m)") (auto intro: exI [of _ "Suc k"] exI [of _ 0])
qed simp

lemma drop_oldest_keys: "keys (drop_oldest n m) \<subseteq> keys m"
  using drop_oldest_suffix [of n m] by (metis image_mono set_drop_subset)

lemma mem_set_keys: "mem_ids (mem_set s now sid rec) \<subseteq> insert sid (mem_ids s)"
proof -
  have "keys (drop_oldest (ms_max s) (mem_prune (ms_map s) now)) \<subseteq> keys (ms_map s)"
    using drop_oldest_keys [of "ms_max s" "mem_prune (ms_map s) now"] by (auto simp: mem_prune_def)
  then show ?thesis by (auto simp: mem_set_def mem_ids_def Let_def keys_update)
qed

interpretation memory_sessions: session_contract memory_store mem_ids
proof unfold_locales
  show "mem_ids (b_set memory_store s now sid rec) \<subseteq> insert sid (mem_ids s)" for s now sid rec
    using mem_set_keys by (simp add: memory_store_def)
  show "mem_ids s' \<subseteq> mem_ids s \<and> (r \<noteq> None \<longrightarrow> sid \<in> mem_ids s)" if "b_get memory_store s now sid = (r, s')" for s now sid r s'
    using mem_get_keys [of s now sid r s'] that by (simp add: memory_store_def)
  show "mem_ids (b_destroy memory_store s sid) \<subseteq> mem_ids s - {sid}" for s sid
    by (simp add: memory_store_def mem_destroy_def mem_ids_def keys_delete)
  show "mem_ids (t s now sid e) \<subseteq> mem_ids s" if t: "b_touch memory_store = Some t" for t s now sid e
  proof -
    obtain r s' where g: "mem_get s now sid = (r, s')" by (cases "mem_get s now sid")
    from t have "t = mem_touch" by (simp add: memory_store_def)
    with g mem_get_keys [OF g] mem_get_same [OF g] show ?thesis
      by (cases r) (simp_all add: mem_touch_def mem_ids_update)
  qed
  show "mem_ids s' \<subseteq> mem_ids s" if "b_update memory_store = Some u" "u s now sid rec = (ok, s')" for u s now sid rec ok s'
  proof -
    obtain r s1 where g: "mem_get s now sid = (r, s1)" by (cases "mem_get s now sid")
    from that(1) have "u = mem_update" by (simp add: memory_store_def)
    with g mem_get_keys [OF g] mem_get_same [OF g] that(2) show ?thesis
      by (cases r) (auto simp: mem_update_def mem_ids_update)
  qed
qed

lemma memory_update: "b_update memory_store \<noteq> None"
  by (simp add: memory_store_def)

text \<open>A request destroys the session it loaded: the logout is sent, or \<open>regenerate()\<close> leaves the id.\<close>

definition leaves :: "jstr \<Rightarrow> ('s, 'v) session_world \<Rightarrow> 'v session_event \<Rightarrow> bool" where
  "leaves a w e \<longleftrightarrow> (case e of
       Send n \<Rightarrow> (case running w n of None \<Rightarrow> False | Some q \<Rightarrow> q_original q = Some a \<and> q_destroyed q)
     | Regenerate n k \<Rightarrow> (case running w n of None \<Rightarrow> False | Some q \<Rightarrow> q_original q = Some a \<and> q_active q = Some a)
     | _ \<Rightarrow> False)"

text \<open>
  C22. A session id that was logged out, or that \<open>regenerate()\<close> left, stays out: with the in-memory store
  no interleaving of overlapping requests, however many had loaded the session before, ever brings a
  record for the id back, so from then on no request that presents its cookie is given the session. The
  generator's ids are new; the tombstones may be forgotten, expired or evicted.
\<close>

theorem logged_out_stays_out:
  assumes "sruns c hmac memory_store (session_start s ids now) w" and "mem_ids s \<subseteq> set ids"
    and "leaves a w e" and "sstep c hmac memory_store w e = Some w1" and "sruns c hmac memory_store w1 w2"
  shows "a \<notin> mem_ids (sw_store w2) \<and> fst (mem_get (sw_store w2) (sw_now w2) a) = None"
proof -
  have g: "memory_sessions.good w"
    by (rule memory_sessions.good_runs [OF assms(1) memory_sessions.good_start [OF assms(2)]])
  have fresh: "fresh_event w e" using assms(3) by (auto simp: leaves_def fresh_event_def split: session_event.splits)
  have "gone mem_ids a w1"
  proof (cases e)
    case (Send n)
    with assms(3,4) obtain q where q: "sw_reqs w n = Some q" "q_phase q = Running" "q_original q = Some a" "q_destroyed q"
      "w1 = s_send c memory_store w n q"
      by (auto simp: leaves_def running_Some split: option.splits)
    show ?thesis unfolding q(5) by (rule memory_sessions.gone_logout [OF g q(1-4)])
  next
    case (Regenerate n k)
    with assms(3,4) obtain q where q: "sw_reqs w n = Some q" "q_phase q = Running" "q_original q = Some a" "q_active q = Some a"
      "w1 = s_regenerate c memory_store w n q k"
      by (auto simp: leaves_def running_Some split: option.splits)
    show ?thesis unfolding q(5) by (rule memory_sessions.gone_rotated [OF g q(1-4)])
  qed (use assms(3) in \<open>simp_all add: leaves_def\<close>)
  with memory_sessions.gone_runs [OF assms(5) memory_sessions.good_step [OF assms(4) fresh g] _ memory_update]
  have "gone mem_ids a w2" by blast
  then have out: "a \<notin> mem_ids (sw_store w2)" by (simp add: gone_def)
  then have "map_of (ms_map (sw_store w2)) a = None" by (simp add: mem_ids_def map_of_None_keys)
  with out show ?thesis by (simp add: mem_get_def)
qed

lemma run_sruns: "sruns c hmac B w0 w \<Longrightarrow> run_session c hmac B w es = Some w' \<Longrightarrow> sruns c hmac B w0 w'"
  by (induction es arbitrary: w) (auto split: if_splits option.splits intro: runs_step)

section \<open>Concrete runs\<close>

definition idA :: jstr where "idA = js ''A''"
definition idB :: jstr where "idB = js ''B''"
definition idC :: jstr where "idC = js ''C''"
definition cookieA :: "jstr option" where "cookieA = Some (js ''sid=A.QQ'')"
definition cookieB :: "jstr option" where "cookieB = Some (js ''sid=B.Qg'')"
definition user :: jstr where "user = js ''user''"

definition sample_session :: session_cfg where
  "sample_session = \<lparr> sc_secrets = [js ''0123456789abcdef''], sc_cookieName = js ''sid'', sc_cookie = no_attributes,
     sc_ttlMs = 50, sc_rolling = True, sc_saveUninitialized = False \<rparr>"

definition sample_mac :: mac_fun where
  "sample_mac secret v = v"

definition legacy_store :: "('v memory_state, 'v) session_store" where
  "legacy_store = memory_store\<lparr>b_update := None\<rparr>"

text \<open>The session \<open>A\<close> of a logged-in user is in the store.\<close>

definition sample_world :: "(nat memory_state, nat) session_world" where
  "sample_world = session_start \<lparr> ms_map = [(idA, \<lparr> sr_data = [(user, 7)], sr_expiresAt = 100 \<rparr>)], ms_max = 10 \<rparr> [idA] 0"

lemma sample_ids [simp]: "idA \<noteq> idB" "idB \<noteq> idA" "idA \<noteq> []" "idB \<noteq> []" "idC \<noteq> idA" "idC \<noteq> idB" "idC \<noteq> []"
  by (simp_all add: idA_def idB_def idC_def)

definition rawA :: jstr where "rawA = js ''A.QQ''"
definition rawB :: jstr where "rawB = js ''B.Qg''"

lemma sample_cookies [simp]:
  "readRequestCookie cookieA (sc_cookieName sample_session) = Some rawA"
  "readRequestCookie cookieB (sc_cookieName sample_session) = Some rawB"
  "verified_id sample_mac (sc_secrets sample_session) rawA = Some idA"
  "verified_id sample_mac (sc_secrets sample_session) rawB = Some idB"
  by (simp_all add: eval sample_mac_def sample_session_def btoa_def pad_def b64_char_def code_points_lossy.simps
      cookieA_def cookieB_def idA_def idB_def rawA_def rawB_def)

lemma sample_session_simps [simp]:
  "sc_ttlMs sample_session = 50" "sc_rolling sample_session" "\<not> sc_saveUninitialized sample_session"
  by (simp_all add: sample_session_def)

lemmas session_eval = Let_def fresh_event_def session_start_def s_begin_def memory_store_def legacy_store_def mem_get_def mem_set_def
  mem_destroy_def mem_update_def mem_touch_def put_req_def issue_def fresh_req_def s_loaded_def start_loaded_def on_data_def running_def
  s_destroy_def s_set_def s_send_def bury_def addTombstone_def max_tombstones_def isTombstoned_def persist_def write_existing_def
  s_reread_def s_finish_def s_regenerate_def s_regenerated_def regenerated_req_def sample_world_def leaves_def mem_ids_def

text \<open>Two requests load the session, the second logs out.\<close>

definition two_readers :: "nat session_event list" where
  "two_readers = [Begin 1 cookieA idB, Loaded 1 idB, Begin 2 cookieA idB, Loaded 2 idB, Destroy 2]"

lemma logged_out_stays_out_witness:
  "\<exists>w w1 w2. run_session sample_session sample_mac memory_store sample_world two_readers = Some w
    \<and> run_session sample_session sample_mac memory_store w [Send 2] = Some w1
    \<and> run_session sample_session sample_mac memory_store w1 [SetKey 1 user 8, Send 1] = Some w2
    \<and> idA \<notin> mem_ids (sw_store w2)"
proof -
  let ?run = "run_session sample_session sample_mac memory_store"
  have "\<exists>w w1 w2. ?run sample_world two_readers = Some w \<and> leaves idA w (Send 2) \<and> ?run w [Send 2] = Some w1
      \<and> ?run w1 [SetKey 1 user 8, Send 1] = Some w2"
    by (simp add: two_readers_def session_eval)
  then obtain w w1 w2 where w: "?run sample_world two_readers = Some w" "leaves idA w (Send 2)" "?run w [Send 2] = Some w1"
      "?run w1 [SetKey 1 user 8, Send 1] = Some w2" by blast
  have start: "sample_world = session_start (sw_store sample_world) [idA] 0" "mem_ids (sw_store sample_world) \<subseteq> set [idA]"
    by (simp_all add: session_eval)
  have "sstep sample_session sample_mac memory_store w (Send 2) = Some w1"
    using w(3) by (auto split: option.splits if_splits)
  moreover have "sruns sample_session sample_mac memory_store (session_start (sw_store sample_world) [idA] 0) w"
    by (subst start(1) [symmetric]) (rule run_sruns [OF runs_here w(1)])
  ultimately show ?thesis
    using logged_out_stays_out [OF _ start(2) w(2) _ run_sruns [OF runs_here w(4)]] w(1,3,4) by blast
qed

text \<open>
  Without \<open>update()\<close> one process does not close the logout race, although its warning says so: the
  write-back of request 1 has passed the tombstone check and re-read the record before request 2 logs
  out; after the logout it stores the record again, and the next request with the old cookie is logged
  in.
\<close>

lemma legacy_logout_undone:
  "\<exists>w w'. run_session sample_session sample_mac legacy_store sample_world
        [Begin 1 cookieA idB, Loaded 1 idB, SetKey 1 user 7, Begin 2 cookieA idB, Loaded 2 idB, Destroy 2, Send 1] = Some w
    \<and> leaves idA w (Send 2)
    \<and> run_session sample_session sample_mac legacy_store w [Send 2, Reread 1, Begin 3 cookieA idB, Loaded 3 idB] = Some w'
    \<and> map_option q_original (sw_reqs w' 3) = Some (Some idA) \<and> map_option q_data (sw_reqs w' 3) = Some [(user, 7)]"
  by (simp add: session_eval)

text \<open>
  Even with an atomic \<open>update()\<close> a logout can be undone through \<open>regenerate()\<close>: request 1 has
  loaded the session, request 2 logs out, request 1 rotates its id (as after any change of a watched key)
  and stores the data of the destroyed session under the new id, whose cookie it returns. The rotation
  never looks at the tombstone nor at the store.
\<close>

lemma regenerate_undoes_logout:
  "\<exists>w w'. run_session sample_session sample_mac memory_store sample_world two_readers = Some w
    \<and> leaves idA w (Send 2)
    \<and> run_session sample_session sample_mac memory_store w
        [Send 2, Regenerate 1 True, Regenerated 1 idB, Send 1, Finish 1, Begin 3 cookieB idC, Loaded 3 idC] = Some w'
    \<and> map_option q_original (sw_reqs w' 3) = Some (Some idB) \<and> map_option q_data (sw_reqs w' 3) = Some [(user, 7)]"
  by (simp add: two_readers_def session_eval)

section \<open>The signed cookie\<close>

lemma b64url_no_dot: "46 \<notin> set (bytesToBase64Url bs)"
proof -
  have "46 \<notin> set (case btoa bs of None \<Rightarrow> [] | Some t \<Rightarrow> t)"
    by (auto simp: btoa_def b64_char_def pad_def split: option.splits if_splits)
  moreover define u where "u = map (\<lambda>c. if c = 47 then 95 else c) (map (\<lambda>c. if c = 43 then 45 else c) (case btoa bs of None \<Rightarrow> [] | Some t \<Rightarrow> t))"
  ultimately have "46 \<notin> set u" by auto
  moreover have "set (rev (dropWhile (\<lambda>c. c = 61) (rev u))) \<subseteq> set u" using set_dropWhileD by fastforce
  ultimately show ?thesis unfolding bytesToBase64Url_def Let_def u_def [symmetric] by blast
qed

lemma split_signed_app: "46 \<notin> set s \<Longrightarrow> s \<noteq> [] \<Longrightarrow> v \<noteq> [] \<Longrightarrow> split_signed (v @ 46 # s) = Some (v, s)"
proof -
  assume s: "46 \<notin> set s" "s \<noteq> []" "v \<noteq> []"
  then have "takeWhile (\<lambda>c. c \<noteq> 46) (rev s @ 46 # rev v) = rev s" by (subst takeWhile_append2) auto
  with s show ?thesis by (simp add: split_signed_def)
qed

lemma split_signedD: "split_signed raw = Some (v, s) \<Longrightarrow> raw = v @ 46 # s \<and> 46 \<notin> set s \<and> v \<noteq> [] \<and> s \<noteq> []"
proof -
  assume a: "split_signed raw = Some (v, s)"
  then have h: "46 \<in> set raw" "s = rev (takeWhile (\<lambda>c. c \<noteq> 46) (rev raw))" "v = take (length raw - length s - 1) raw" "v \<noteq> []" "s \<noteq> []"
    by (auto simp: split_signed_def Let_def split: if_splits)
  obtain a' b where ab: "raw = a' @ 46 # b" "46 \<notin> set b" using split_list_last [OF h(1)] by blast
  then have "takeWhile (\<lambda>c. c \<noteq> 46) (rev b @ 46 # rev a') = rev b" by (subst takeWhile_append2) auto
  with ab(1) h(2) have "s = b" by simp
  with ab h show ?thesis by simp
qed

lemma verified_iff:
  "verified_id hmac secrets raw = Some v \<longleftrightarrow>
    v \<noteq> [] \<and> (\<exists>s \<in> set secrets. sign hmac s v \<noteq> [] \<and> raw = v @ 46 # sign hmac s v)"
proof
  assume "verified_id hmac secrets raw = Some v"
  then obtain sig where sp: "split_signed raw = Some (v, sig)" and ex: "\<exists>s \<in> set secrets. sign hmac s v = sig"
    by (auto simp: verified_id_def verify_def list_ex_iff split: option.splits if_splits)
  from split_signedD [OF sp] ex show "v \<noteq> [] \<and> (\<exists>s \<in> set secrets. sign hmac s v \<noteq> [] \<and> raw = v @ 46 # sign hmac s v)" by auto
next
  assume "v \<noteq> [] \<and> (\<exists>s \<in> set secrets. sign hmac s v \<noteq> [] \<and> raw = v @ 46 # sign hmac s v)"
  then obtain s where s: "v \<noteq> []" "s \<in> set secrets" "sign hmac s v \<noteq> []" "raw = v @ 46 # sign hmac s v" by blast
  have "split_signed raw = Some (v, sign hmac s v)"
    unfolding s(4) by (rule split_signed_app) (use s b64url_no_dot in \<open>simp_all add: sign_def\<close>)
  with s(2) show "verified_id hmac secrets raw = Some v" by (auto simp: verified_id_def verify_def list_ex_iff)
qed

text \<open>
  C23. A cookie names a session exactly when it is an id followed by the HMAC of that id under one of
  the configured secrets, split at the last dot: nothing else is believed. And the cookie the response
  hook sets comes back as that id, through serialization, a browser's header with other cookies around
  it, parsing and verification, as long as the signing secret is still among the secrets (rotation).
\<close>

theorem session_cookie_genuine:
  assumes "serializeCookie name (sid @ 46 # sign hmac s sid) a = Inr out" and "well_formed (sid @ 46 # sign hmac s sid)"
    and "\<forall>p \<in> set before \<union> set after. 59 \<notin> set p \<and> \<not> named name p"
    and "s \<in> set secrets" and "sid \<noteq> []" and "sign hmac s sid \<noteq> []"
  shows "(\<forall>raw v. verified_id hmac secrets raw = Some v \<longleftrightarrow> v \<noteq> [] \<and> (\<exists>s \<in> set secrets. sign hmac s v \<noteq> [] \<and> raw = v @ 46 # sign hmac s v))
    \<and> (case readRequestCookie (Some (cookie_header (before @ cookie_pair out # after))) name of
         None \<Rightarrow> None | Some raw \<Rightarrow> verified_id hmac secrets raw) = Some sid"
proof -
  have "verified_id hmac secrets (sid @ 46 # sign hmac s sid) = Some sid"
    using assms(4-6) by (auto simp: verified_iff)
  with verified_iff cookie_sent_back [OF assms(1-3)] show ?thesis by simp
qed

lemma session_cookie_genuine_witness:
  "(case readRequestCookie (Some (cookie_header [js ''a=1'', js ''sid=A.QQ''])) (js ''sid'') of
      None \<Rightarrow> None | Some raw \<Rightarrow> verified_id sample_mac [js ''old'', js ''new''] raw) = Some (js ''A'')"
proof -
  have sg: "sign sample_mac (js ''old'') (js ''A'') = js ''QQ''"
    by (simp add: eval sample_mac_def btoa_def pad_def b64_char_def code_points_lossy.simps)
  have s: "serializeCookie (js ''sid'') (js ''A'' @ 46 # sign sample_mac (js ''old'') (js ''A'')) no_attributes
      = Inr (js ''sid=A.QQ; Path=/; SameSite=Strict; Secure; HttpOnly'')"
    unfolding sg by (simp add: eval)
  have p: "cookie_pair (js ''sid=A.QQ; Path=/; SameSite=Strict; Secure; HttpOnly'') = js ''sid=A.QQ''"
    by (simp add: cookie_pair_def)
  have "well_formed (js ''A'' @ 46 # sign sample_mac (js ''old'') (js ''A''))"
    unfolding sg by (simp add: well_formed_def is_high_def is_low_def)
  moreover have "\<forall>q \<in> set [js ''a=1''] \<union> set []. 59 \<notin> set q \<and> \<not> named (js ''sid'') q" by (simp add: named_def eval)
  moreover have "js ''old'' \<in> set [js ''old'', js ''new'']" "js ''A'' \<noteq> []" "sign sample_mac (js ''old'') (js ''A'') \<noteq> []"
    unfolding sg by simp_all
  ultimately have "(case readRequestCookie (Some (cookie_header ([js ''a=1''] @ cookie_pair (js ''sid=A.QQ; Path=/; SameSite=Strict; Secure; HttpOnly'') # []))) (js ''sid'') of
      None \<Rightarrow> None | Some raw \<Rightarrow> verified_id sample_mac [js ''old'', js ''new''] raw) = Some (js ''A'')"
    by (intro conjunct2 [OF session_cookie_genuine [OF s]])
  then show ?thesis unfolding p by simp
qed

lemma signed_value_roundtrip:
  assumes "signValue hmac v secret = Some t" and "v \<noteq> []" and "sign hmac secret v \<noteq> []" and "\<forall>s \<in> set before. secret_ok s"
  shows "verifySignedValue hmac t (before @ secret # after) = Some (Some v)"
proof -
  have t: "t = v @ 46 # sign hmac secret v" "secret_ok secret" using assms(1) by (auto simp: signValue_def split: if_splits)
  have "split_signed t = Some (v, sign hmac secret v)"
    unfolding t(1) by (rule split_signed_app) (use assms b64url_no_dot in \<open>simp_all add: sign_def\<close>)
  moreover have "verify_any hmac v (sign hmac secret v) (before @ secret # after) = Some (Some v)"
    using assms(4) t(2) by (induction before) (auto simp: verify_def)
  ultimately show ?thesis by (simp add: verifySignedValue_def)
qed

end
