(* ===== verification/SessionRotation.thy ===== *)
theory SessionRotation
  imports Session
begin

text \<open>
  \<open>rotateSession\<close> of \<open>session.ts\<close>: the snapshot of the watched session keys before the handler, and
  the comparison after it that decides whether the id is rotated. The session's values are JSON; a key
  that is not set is \<open>undefined\<close>. A custom selector is not modelled.

  With it, the bound and the read-after-write behaviour of \<open>MemorySessionStore\<close>.
\<close>

section \<open>Snapshots\<close>

definition default_watch :: "jstr list" where
  "default_watch = map js [''userId'', ''accountId'', ''tenantId'', ''role'', ''roles'', ''scopes'', ''permissions'',
     ''privileges'', ''isAdmin'']"

definition undefined_or :: "json option \<Rightarrow> jstr" where
  "undefined_or v = (case v of None \<Rightarrow> js ''undefined'' | Some x \<Rightarrow> stableStringify x)"

definition member_text :: "jstr \<times> json option \<Rightarrow> jstr" where
  "member_text m = quote (fst m) @ 58 # undefined_or (snd m)"

text \<open>\<open>readRotationWatchValue\<close>: an object with the watched keys; \<open>stableSnapshot\<close> of it.\<close>

definition watched :: "jstr list \<Rightarrow> (jstr, json) assoc \<Rightarrow> (jstr \<times> json option) list" where
  "watched ks data = map (\<lambda>k. (k, map_of data k)) (sort (remdups ks))"

definition stableSnapshot :: "jstr list \<Rightarrow> (jstr, json) assoc \<Rightarrow> jstr" where
  "stableSnapshot ks data = 123 # join_on 44 (map member_text (watched ks data)) @ [125]"

record snapshot =
  sn_id :: "jstr option"
  sn_value :: jstr

definition take_snapshot :: "jstr list \<Rightarrow> json session_req \<Rightarrow> snapshot" where
  "take_snapshot ks q = \<lparr> sn_id = q_active q, sn_value = stableSnapshot ks (q_data q) \<rparr>"

definition rotate_needed :: "jstr list \<Rightarrow> snapshot \<Rightarrow> json session_req \<Rightarrow> bool" where
  "rotate_needed ks s q \<longleftrightarrow> q_active q = sn_id s \<and> stableSnapshot ks (q_data q) \<noteq> sn_value s"

text \<open>\<open>afterHandle\<close>: starts \<open>regenerate({ keepData })\<close>, or leaves the world alone.\<close>

definition after_handle :: "session_cfg \<Rightarrow> ('s, json) session_store \<Rightarrow> jstr list \<Rightarrow> bool \<Rightarrow> snapshot \<Rightarrow>
    ('s, json) session_world \<Rightarrow> nat \<Rightarrow> json session_req \<Rightarrow> ('s, json) session_world" where
  "after_handle c B ks keepData s w n q = (if rotate_needed ks s q then s_regenerate c B w n q keepData else w)"

section \<open>The snapshot determines the watched values\<close>

definition same_value :: "json option \<Rightarrow> json option \<Rightarrow> bool" where
  "same_value x y \<longleftrightarrow> map_option canon x = map_option canon y"

definition wf_data :: "(jstr, json) assoc \<Rightarrow> bool" where
  "wf_data d \<longleftrightarrow> (\<forall>(k, v) \<in> set d. wf_json v)"

lemma render_not_u: "wf_json v \<Longrightarrow> render v \<noteq> [] \<and> hd (render v) \<noteq> 117"
  by (cases v) (auto simp: quote_def is_digit_def)

lemma undefined_or_render: "undefined_or v = (case map_option canon v of None \<Rightarrow> js ''undefined'' | Some x \<Rightarrow> render x)"
  by (cases v) (simp_all add: undefined_or_def stable_canon)

definition opt_text :: "json option \<Rightarrow> jstr" where
  "opt_text v = (case v of None \<Rightarrow> js ''undefined'' | Some x \<Rightarrow> render x)"

lemma opt_text_inj:
  assumes "\<And>v. x = Some v \<Longrightarrow> wf_json v" "\<And>v. y = Some v \<Longrightarrow> wf_json v" "delim s" "delim t" "opt_text x @ s = opt_text y @ t"
  shows "x = y \<and> s = t"
proof (cases x; cases y)
  fix v assume "x = None" "y = Some v"
  with assms(2,5) render_not_u [of v] show ?thesis by (cases "render v") (auto simp: opt_text_def)
next
  fix v assume "x = Some v" "y = None"
  with assms(1,5) render_not_u [of v] show ?thesis by (cases "render v") (auto simp: opt_text_def)
next
  fix v v' assume "x = Some v" "y = Some v'"
  with assms render_inj [of v v' s t] show ?thesis by (simp add: opt_text_def)
qed (use assms(5) in \<open>simp_all add: opt_text_def\<close>)

lemma member_prefix:
  assumes "\<forall>c \<in> set k. c < 65536" "\<forall>c \<in> set k'. c < 65536"
    and "\<And>v. x = Some v \<Longrightarrow> wf_json v" "\<And>v. y = Some v \<Longrightarrow> wf_json v" "delim s" "delim t"
    and "(quote k @ 58 # opt_text x) @ s = (quote k' @ 58 # opt_text y) @ t"
  shows "(k, x) = (k', y) \<and> s = t"
proof -
  have "k = k' \<and> 58 # opt_text x @ s = 58 # opt_text y @ t"
    by (rule quote_prefix [OF assms(1,2)]) (use assms(7) in simp)
  with opt_text_inj [OF assms(3-6)] show ?thesis by simp
qed

lemma snapshot_members:
  "stableSnapshot ks d = 123 # join_on 44 (map (\<lambda>(k, x). quote k @ 58 # opt_text x)
     (map (\<lambda>k. (k, map_option canon (map_of d k))) (sort (remdups ks)))) @ [125]"
  by (simp add: stableSnapshot_def watched_def member_text_def undefined_or_render opt_text_def o_def)

lemma snapshot_eq_iff:
  assumes "\<forall>k \<in> set ks. \<forall>c \<in> set k. c < 65536" and "wf_data d" and "wf_data d'"
  shows "stableSnapshot ks d = stableSnapshot ks d' \<longleftrightarrow> (\<forall>k \<in> set ks. same_value (map_of d k) (map_of d' k))"
proof
  let ?m = "\<lambda>d. map (\<lambda>k. (k, map_option canon (map_of d k))) (sort (remdups ks))"
  let ?f = "\<lambda>(k, x). quote k @ 58 # opt_text x"
  assume "stableSnapshot ks d = stableSnapshot ks d'"
  then have eq: "join_on 44 (map ?f (?m d)) @ 125 # [] = join_on 44 (map ?f (?m d')) @ 125 # []"
    unfolding snapshot_members by simp
  have wf: "wf_json v" if "(k, Some v) \<in> set (?m d) \<union> set (?m d')" for k v
  proof -
    from that obtain e where e: "e = d \<or> e = d'" "Some v = map_option canon (map_of e k)" by auto
    then obtain u where u: "map_of e k = Some u" "v = canon u" by (cases "map_of e k") auto
    from e(1) assms(2,3) map_of_SomeD [OF u(1)] have "wf_json u" by (auto simp: wf_data_def)
    with u(2) show ?thesis by (simp add: wf_canon)
  qed
  have "?m d = ?m d' \<and> [] = ([] :: jstr)"
  proof (rule join_prefix [OF _ _ _ eq])
    fix x y s t
    assume a: "x \<in> set (?m d)" "y \<in> set (?m d')" "delim s" "delim t" "?f x @ s = ?f y @ t"
    obtain k u k' u' where xy: "x = (k, u)" "y = (k', u')" by (cases x; cases y)
    have a5: "(quote k @ 58 # opt_text u) @ s = (quote k' @ 58 # opt_text u') @ t"
      using a(5) unfolding xy by (simp only: prod.case)
    have "\<forall>c \<in> set k. c < 65536" "\<forall>c \<in> set k'. c < 65536" using a(1,2) xy assms(1) by auto
    moreover have "wf_json v" if "u = Some v" for v using wf [of k v] a(1) xy that by blast
    moreover have "wf_json v" if "u' = Some v" for v using wf [of k' v] a(2) xy that by blast
    ultimately show "x = y \<and> s = t" unfolding xy using member_prefix [OF _ _ _ _ a(3,4) a5] by blast
  qed (auto simp: quote_def)
  then show "\<forall>k \<in> set ks. same_value (map_of d k) (map_of d' k)" by (auto simp: same_value_def)
next
  assume "\<forall>k \<in> set ks. same_value (map_of d k) (map_of d' k)"
  then have "map (\<lambda>k. (k, map_option canon (map_of d k))) (sort (remdups ks)) = map (\<lambda>k. (k, map_option canon (map_of d' k))) (sort (remdups ks))"
    by (auto simp: same_value_def)
  then show "stableSnapshot ks d = stableSnapshot ks d'" unfolding snapshot_members by (simp only:)
qed

section \<open>Rotation\<close>

lemma rotate_needed_iff:
  assumes "\<forall>k \<in> set ks. \<forall>c \<in> set k. c < 65536" and "wf_data (q_data p)" and "wf_data (q_data q)"
  shows "rotate_needed ks (take_snapshot ks p) q \<longleftrightarrow>
    q_active q = q_active p \<and> (\<exists>k \<in> set ks. \<not> same_value (map_of (q_data p) k) (map_of (q_data q) k))"
  using snapshot_eq_iff [OF assms] by (auto simp: rotate_needed_def take_snapshot_def)

text \<open>
  \<open>rotateSession\<close> rotates exactly when it must: the session \<open>p\<close> before the handler and \<open>q\<close> after it
  have the same id and some watched key holds another JSON value (the order of an object's members does
  not count). When it does not, nothing happens; when it does, the id that the client held before the
  change names no record ever again, whatever overlapping requests do.
\<close>

lemma privilege_rotates:
  assumes "\<forall>k \<in> set ks. \<forall>c \<in> set k. c < 65536" and "wf_data (q_data p)" and "wf_data (q_data q)"
    and "sruns c hmac memory_store (session_start s ids now) w" and "mem_ids s \<subseteq> set ids"
    and "running w n = Some q" and "q_original q = Some a" and "q_active p = Some a" and "q_active q = Some a"
    and "after_handle c memory_store ks keep (take_snapshot ks p) w n q = w1"
  shows "if \<forall>k \<in> set ks. same_value (map_of (q_data p) k) (map_of (q_data q) k) then w1 = w
    else sstep c hmac memory_store w (Regenerate n keep) = Some w1
      \<and> (\<forall>w2. sruns c hmac memory_store w1 w2 \<longrightarrow> fst (mem_get (sw_store w2) (sw_now w2) a) = None)"
proof (cases "\<forall>k \<in> set ks. same_value (map_of (q_data p) k) (map_of (q_data q) k)")
  case True
  with assms(10) show ?thesis by (auto simp: after_handle_def rotate_needed_iff [OF assms(1-3)])
next
  case False
  then have w1: "w1 = s_regenerate c memory_store w n q keep"
    using assms(8,9,10) by (auto simp: after_handle_def rotate_needed_iff [OF assms(1-3)])
  then have st: "sstep c hmac memory_store w (Regenerate n keep) = Some w1" using assms(6) by simp
  have g: "memory_sessions.good w"
    by (rule memory_sessions.good_runs [OF assms(4) memory_sessions.good_start [OF assms(5)]])
  have q: "sw_reqs w n = Some q" "q_phase q = Running" using assms(6) by (simp_all add: running_Some)
  have gone: "gone mem_ids a w1" unfolding w1 by (rule memory_sessions.gone_rotated [OF g q assms(7,9)])
  have g1: "memory_sessions.good w1" by (rule memory_sessions.good_step [OF st _ g]) (simp add: fresh_event_def)
  have "fst (mem_get (sw_store w2) (sw_now w2) a) = None" if "sruns c hmac memory_store w1 w2" for w2
  proof -
    have "a \<notin> mem_ids (sw_store w2)"
      using memory_sessions.gone_runs [OF that g1 gone memory_update] by (simp add: gone_def)
    then have "map_of (ms_map (sw_store w2)) a = None" by (simp add: mem_ids_def map_of_None_keys)
    then show ?thesis by (simp add: mem_get_def)
  qed
  with False st show ?thesis by auto
qed

definition json_world :: "(json memory_state, json) session_world" where
  "json_world = session_start \<lparr> ms_map = [(idA, \<lparr> sr_data = [(user, JBool False)], sr_expiresAt = 100 \<rparr>)], ms_max = 10 \<rparr> [idA] 0"

definition logged_in :: "json session_req" where
  "logged_in = (start_loaded idA \<lparr> sr_data = [(user, JBool True)], sr_expiresAt = 100 \<rparr> True)\<lparr>q_dirty := True\<rparr>"

lemma privilege_rotates_witness:
  "\<exists>w w1. run_session sample_session sample_mac memory_store json_world
        [Begin 1 cookieA idB, Loaded 1 idB, SetKey 1 user (JBool True)] = Some w
    \<and> sstep sample_session sample_mac memory_store w (Regenerate 1 True) = Some w1
    \<and> fst (mem_get (sw_store w1) (sw_now w1) idA) = None"
proof -
  let ?p = "start_loaded idA \<lparr> sr_data = [(user, JBool False)], sr_expiresAt = 100 \<rparr> True"
  have "\<exists>w. run_session sample_session sample_mac memory_store json_world
        [Begin 1 cookieA idB, Loaded 1 idB, SetKey 1 user (JBool True)] = Some w \<and> running w 1 = Some logged_in"
    by (simp add: session_eval json_world_def logged_in_def)
  then obtain w where w: "run_session sample_session sample_mac memory_store json_world
        [Begin 1 cookieA idB, Loaded 1 idB, SetKey 1 user (JBool True)] = Some w" "running w 1 = Some logged_in" by blast
  define s where "s = sw_store json_world"
  have s: "json_world = session_start s [idA] 0" "mem_ids s \<subseteq> set [idA]"
    by (simp_all add: s_def json_world_def session_start_def mem_ids_def)
  have run: "sruns sample_session sample_mac memory_store (session_start s [idA] 0) w"
    by (subst s(1) [symmetric]) (rule run_sruns [OF runs_here w(1)])
  have data: "wf_data (q_data ?p)" "wf_data (q_data logged_in)" "q_active ?p = Some idA"
      "q_original logged_in = Some idA" "q_active logged_in = Some idA"
      "\<not> same_value (map_of (q_data ?p) user) (map_of (q_data logged_in) user)"
    by (simp_all add: wf_data_def start_loaded_def logged_in_def fresh_req_def same_value_def)
  have k: "\<forall>k \<in> set [user]. \<forall>c \<in> set k. c < 65536" by (simp add: user_def)
  define w1 where "w1 = after_handle sample_session memory_store [user] True (take_snapshot [user] ?p) w 1 logged_in"
  have "\<not> (\<forall>k \<in> set [user]. same_value (map_of (q_data ?p) k) (map_of (q_data logged_in) k))"
    using data(6) by simp
  with privilege_rotates [OF k data(1,2) run s(2) w(2) data(4,3,5) w1_def [symmetric]]
  have "sstep sample_session sample_mac memory_store w (Regenerate 1 True) = Some w1"
      "\<forall>w2. sruns sample_session sample_mac memory_store w1 w2 \<longrightarrow> fst (mem_get (sw_store w2) (sw_now w2) idA) = None"
    by (metis (lifting), metis (lifting))
  with w(1) runs_here [of sample_session sample_mac memory_store w1] show ?thesis by blast
qed

section \<open>The bound of the in-memory store\<close>

lemma drop_oldest_length: "0 < n \<Longrightarrow> length (drop_oldest n m) < n"
  by (induction m) auto

lemma mem_set_bounded:
  assumes "0 < ms_max s" and "length (ms_map s) \<le> ms_max s"
  shows "length (ms_map (mem_set s now sid r)) \<le> ms_max s"
proof (cases "sid \<in> keys (ms_map s)")
  case True
  with assms show ?thesis by (simp add: mem_set_def length_update_present)
next
  case False
  define m where "m = (if ms_max s \<le> length (ms_map s) then drop_oldest (ms_max s) (mem_prune (ms_map s) now) else ms_map s)"
  have "length m < ms_max s" using drop_oldest_length [OF assms(1)] by (auto simp: m_def)
  with length_update_le [of sid r m] have "length (AList.update sid r m) \<le> ms_max s" by linarith
  with False show ?thesis by (simp add: mem_set_def m_def Let_def)
qed

text \<open>What was stored is read until it expires, and storing it again makes it no younger.\<close>

lemma mem_set_get: "now' < sr_expiresAt r \<Longrightarrow> fst (mem_get (mem_set s now sid r) now' sid) = Some r"
  by (simp add: mem_get_def mem_set_def Let_def update_conv')

end
