(* ===== verification/FileNames.thy ===== *)
theory FileNames
  imports JsText
begin

text \<open>
  File names and relative paths of \<open>security.ts\<close>: \<open>sanitizeFilename\<close>, \<open>contentDisposition\<close>,
  \<open>assertSafeRelativePath\<close>, and the strength check of secrets.

  A regular expression that deletes or replaces single units is a filter or a map; the look-around
  of the surrogate pattern is the flag \<open>afterHigh\<close>.  \<open>toLowerCase\<close> is ASCII lowering: the names it
  is compared with are ASCII, and no other unit lowers to one of their letters.
\<close>

section \<open>Character classes\<close>

definition separator :: "nat \<Rightarrow> bool" where "separator c \<longleftrightarrow> c = 47 \<or> c = 92"
definition control :: "nat \<Rightarrow> bool" where "control c \<longleftrightarrow> c \<le> 31 \<or> c = 127"

definition bidi_format :: "nat \<Rightarrow> bool" where
  "bidi_format c \<longleftrightarrow> (128 \<le> c \<and> c \<le> 159) \<or> c = 173 \<or> c = 1564 \<or> c = 6158 \<or> (8203 \<le> c \<and> c \<le> 8207)
     \<or> (8234 \<le> c \<and> c \<le> 8238) \<or> (8288 \<le> c \<and> c \<le> 8292) \<or> (8294 \<le> c \<and> c \<le> 8303) \<or> c = 65279
     \<or> (65529 \<le> c \<and> c \<le> 65531)"

definition windows_reserved :: "nat \<Rightarrow> bool" where
  "windows_reserved c \<longleftrightarrow> c \<in> {60, 62, 58, 34, 124, 63, 42}"

definition windows_names :: "jstr list" where
  "windows_names = map js [''con'', ''prn'', ''aux'', ''nul'', ''com1'', ''com2'', ''com3'', ''com4'', ''com5'',
     ''com6'', ''com7'', ''com8'', ''com9'', ''lpt1'', ''lpt2'', ''lpt3'', ''lpt4'', ''lpt5'', ''lpt6'', ''lpt7'',
     ''lpt8'', ''lpt9'']"

fun drop_lone :: "bool \<Rightarrow> jstr \<Rightarrow> jstr" where
  "drop_lone afterHigh [] = []"
| "drop_lone afterHigh (c # s) =
     (if is_high c \<and> (s = [] \<or> \<not> is_low (hd s)) then drop_lone True s
      else if is_low c \<and> \<not> afterHigh then drop_lone False s
      else c # drop_lone (is_high c) s)"

definition drop_end :: "(nat \<Rightarrow> bool) \<Rightarrow> jstr \<Rightarrow> jstr" where
  "drop_end P s = rev (dropWhile P (rev s))"

section \<open>File names\<close>

datatype name_error = InvalidFilename | ReservedFilename | UriMalformed

definition base_name :: "jstr \<Rightarrow> jstr" where
  "base_name name = rev (takeWhile (\<lambda>c. \<not> separator c) (rev name))"

definition clean_units :: "jstr \<Rightarrow> jstr" where
  "clean_units s = map (\<lambda>c. if windows_reserved c then 95 else c)
     (drop_lone False (filter (\<lambda>c. \<not> bidi_format c) (filter (\<lambda>c. \<not> control c) s)))"

definition trim_dots :: "jstr \<Rightarrow> jstr" where
  "trim_dots s = drop_end (\<lambda>c. is_js_space c \<or> c = 46) (dropWhile (\<lambda>c. c = 46) s)"

definition stem :: "jstr \<Rightarrow> jstr" where
  "stem s = to_lower (takeWhile (\<lambda>c. c \<noteq> 46) s)"

definition sanitizeFilename :: "jstr \<Rightarrow> name_error + jstr" where
  "sanitizeFilename name =
     (let base = trim_dots (clean_units (base_name name)) in
      if base = [] then Inl InvalidFilename
      else if stem base \<in> set windows_names then Inl ReservedFilename
      else Inr base)"

datatype disposition = Attachment | Inline

definition disposition_text :: "disposition \<Rightarrow> jstr" where
  "disposition_text d = (case d of Attachment \<Rightarrow> js ''attachment'' | Inline \<Rightarrow> js ''inline'')"

definition ascii_fallback :: "jstr \<Rightarrow> jstr" where
  "ascii_fallback s = map (\<lambda>c. if c = 34 \<or> c = 92 then 95 else c) (map (\<lambda>c. if 32 \<le> c \<and> c \<le> 126 then c else 95) s)"

definition escape_ext :: "jstr \<Rightarrow> jstr" where
  "escape_ext e = concat (map (\<lambda>c. if c \<in> {39, 40, 41, 42} then pct c else [c]) e)"

definition contentDisposition :: "jstr \<Rightarrow> disposition \<Rightarrow> name_error + jstr" where
  "contentDisposition filename d =
     (case sanitizeFilename filename of Inl e \<Rightarrow> Inl e
      | Inr safe \<Rightarrow>
          (let fb = ascii_fallback safe in
           if fb = safe \<and> 37 \<notin> set safe then Inr (disposition_text d @ js ''; filename='' @ 34 # safe @ [34])
           else (case encodeURIComponent safe of None \<Rightarrow> Inl UriMalformed
             | Some e \<Rightarrow> Inr (disposition_text d @ js ''; filename='' @ 34 # map (\<lambda>c. if c = 37 then 95 else c) fb @ [34]
                 @ js ''; filename*=UTF-8'' @ [39, 39] @ escape_ext e))))"

section \<open>Relative paths\<close>

definition assertSafeRelativePath :: "jstr \<Rightarrow> jstr option" where
  "assertSafeRelativePath input =
     (if input = [] \<or> 0 \<in> set input \<or> 92 \<in> set input \<or> take 1 input = [47]
         \<or> (2 \<le> length input \<and> input ! 1 = 58)
         \<or> list_ex (\<lambda>seg. seg = [46, 46]) (split_on 47 input)
      then None else Some input)"

lemmas [eval] = separator_def control_def bidi_format_def windows_reserved_def windows_names_def drop_end_def
  base_name_def clean_units_def trim_dots_def stem_def sanitizeFilename_def disposition_text_def
  ascii_fallback_def escape_ext_def contentDisposition_def assertSafeRelativePath_def

section \<open>What the sanitizer leaves\<close>

lemma drop_lone_set: "set (drop_lone b s) \<subseteq> set s"
  by (induction b s rule: drop_lone.induct) auto

definition paired :: "jstr \<Rightarrow> bool" where
  "paired s \<longleftrightarrow> code_points s \<noteq> None"

lemma paired_simps:
  "paired []" "\<not> is_high c \<Longrightarrow> \<not> is_low c \<Longrightarrow> paired (c # s) \<longleftrightarrow> paired s"
  "is_high c \<Longrightarrow> is_low d \<Longrightarrow> paired (c # d # s) \<longleftrightarrow> paired s"
  "is_low c \<Longrightarrow> \<not> paired (c # s)" "is_high c \<Longrightarrow> s = [] \<or> \<not> is_low (hd s) \<Longrightarrow> \<not> paired (c # s)"
  by (cases s; auto simp: paired_def is_high_def is_low_def)+

lemma high_not_low: "is_high c \<Longrightarrow> \<not> is_low c"
  by (simp add: is_high_def is_low_def)

lemma drop_lone_pair:
  "is_high c \<Longrightarrow> is_low d \<Longrightarrow> drop_lone b (c # d # u) = c # d # drop_lone False u"
proof -
  assume h: "is_high c" "is_low d"
  then have "\<not> is_high d" "\<not> is_low c" using high_not_low by blast+
  with h show ?thesis by simp
qed

lemma drop_lone_odd: "is_high c \<Longrightarrow> t = [] \<or> \<not> is_low (hd t) \<Longrightarrow> drop_lone b (c # t) = drop_lone False t"
  by (cases t) auto

lemma surrogate_cases [case_names Nil odd pair low plain]:
  assumes "s = [] \<Longrightarrow> P" "\<And>c t. s = c # t \<Longrightarrow> is_high c \<Longrightarrow> t = [] \<or> \<not> is_low (hd t) \<Longrightarrow> P"
    "\<And>c d u. s = c # d # u \<Longrightarrow> is_high c \<Longrightarrow> is_low d \<Longrightarrow> P"
    "\<And>c t. s = c # t \<Longrightarrow> is_low c \<Longrightarrow> \<not> is_high c \<Longrightarrow> P" "\<And>c t. s = c # t \<Longrightarrow> \<not> is_high c \<Longrightarrow> \<not> is_low c \<Longrightarrow> P"
  shows P
proof (cases s)
  case (Cons c t)
  then show ?thesis using assms(2-5) high_not_low by (cases t) (metis list.sel(1))+
qed (rule assms(1))

lemma drop_lone_paired: "paired (drop_lone False s)"
proof (induction s rule: length_induct)
  case (1 s)
  show ?case
    by (cases s rule: surrogate_cases)
      (use 1 in \<open>simp_all add: paired_simps(1-3) drop_lone_pair drop_lone_odd del: drop_lone.simps(2)\<close>; simp add: paired_simps)+
qed

lemma drop_lone_id: "paired s \<Longrightarrow> drop_lone False s = s"
proof (induction s rule: length_induct)
  case (1 s)
  show ?case
  proof (cases s rule: surrogate_cases)
    case (odd c t)
    with 1 paired_simps(5) show ?thesis by blast
  next
    case (pair c d u)
    with 1 show ?thesis by (simp add: paired_simps drop_lone_pair del: drop_lone.simps(2))
  next
    case (low c t)
    with 1 paired_simps(4) show ?thesis by blast
  next
    case (plain c t)
    with 1 show ?thesis by (simp add: paired_simps)
  qed simp
qed

lemma paired_app: "\<forall>c \<in> set t. \<not> is_high c \<and> \<not> is_low c \<Longrightarrow> paired (s @ t) \<longleftrightarrow> paired s"
proof (induction s rule: length_induct)
  case (1 s)
  show ?case
  proof (cases s rule: surrogate_cases)
    case Nil
    with 1(2) show ?thesis by (induction t arbitrary: s) (simp_all add: paired_simps)
  next
    case (odd c u)
    then have "u @ t = [] \<or> \<not> is_low (hd (u @ t))" using 1(2) by (cases u; cases t) auto
    with odd paired_simps(5) [OF odd(2)] show ?thesis by simp
  qed (use 1 in \<open>simp_all add: paired_simps\<close>)
qed

lemma paired_plain_tail: "paired (c # s) \<Longrightarrow> \<not> is_high c \<Longrightarrow> paired s"
  using paired_simps(2,4) by blast

lemma paired_dropWhile: "(\<And>c. P c \<Longrightarrow> \<not> is_high c) \<Longrightarrow> paired s \<Longrightarrow> paired (dropWhile P s)"
  by (induction s) (auto dest: paired_plain_tail)

lemma drop_end_split: "\<exists>t. s = drop_end P s @ t \<and> (\<forall>c \<in> set t. P c)"
proof -
  have "s = drop_end P s @ rev (takeWhile P (rev s))"
    unfolding drop_end_def by (metis rev_append rev_rev_ident takeWhile_dropWhile_id)
  moreover have "\<forall>c \<in> set (rev (takeWhile P (rev s))). P c" by (auto dest: set_takeWhileD)
  ultimately show ?thesis by blast
qed

lemma paired_map:
  assumes "\<And>c. is_high c \<or> is_low c \<Longrightarrow> f c = c" "\<And>c. \<not> is_high c \<Longrightarrow> \<not> is_low c \<Longrightarrow> \<not> is_high (f c) \<and> \<not> is_low (f c)"
  shows "paired (map f s) \<longleftrightarrow> paired s"
proof (induction s rule: length_induct)
  case (1 s)
  show ?case
  proof (cases s rule: surrogate_cases)
    case (odd c t)
    then have "map f t = [] \<or> \<not> is_low (hd (map f t))" using assms by (cases t) (auto, metis)
    with odd paired_simps(5) assms(1) show ?thesis by simp
  next
    case (pair c d u)
    with 1 assms(1) show ?thesis by (simp add: paired_simps)
  next
    case (low c t)
    with assms(1) paired_simps(4) show ?thesis by simp
  next
    case (plain c t)
    with 1 assms(2) show ?thesis by (simp add: paired_simps)
  qed simp
qed

lemma last_drop_end: "drop_end P s \<noteq> [] \<Longrightarrow> \<not> P (last (drop_end P s))"
proof -
  assume "drop_end P s \<noteq> []"
  then have "dropWhile P (rev s) \<noteq> []" by (simp add: drop_end_def del: dropWhile_eq_Nil_conv)
  then have "\<not> P (hd (dropWhile P (rev s)))" by (rule hd_dropWhile)
  then show ?thesis by (simp add: drop_end_def last_rev)
qed

definition safe_file_name :: "jstr \<Rightarrow> bool" where
  "safe_file_name r \<longleftrightarrow> r \<noteq> []
     \<and> (\<forall>c \<in> set r. \<not> separator c \<and> \<not> control c \<and> \<not> bidi_format c \<and> \<not> windows_reserved c)
     \<and> hd r \<noteq> 46 \<and> last r \<noteq> 46 \<and> \<not> is_js_space (last r) \<and> paired r \<and> stem r \<notin> set windows_names"

lemma base_name_units: "\<forall>c \<in> set (base_name s). \<not> separator c"
  by (auto simp: base_name_def dest: set_takeWhileD)

lemma clean_units_ok:
  assumes "\<forall>c \<in> set s. \<not> separator c"
  shows "\<forall>c \<in> set (clean_units s). \<not> separator c \<and> \<not> control c \<and> \<not> bidi_format c \<and> \<not> windows_reserved c"
    "paired (clean_units s)"
proof -
  let ?f = "\<lambda>c. if windows_reserved c then 95 else c"
  have "\<not> separator 95" "\<not> control 95" "\<not> bidi_format 95" "\<not> windows_reserved 95" by (simp_all add: eval)
  then show "\<forall>c \<in> set (clean_units s). \<not> separator c \<and> \<not> control c \<and> \<not> bidi_format c \<and> \<not> windows_reserved c"
    using assms drop_lone_set by (fastforce simp: clean_units_def)
  have "paired (map ?f t) \<longleftrightarrow> paired t" for t
    by (rule paired_map) (auto simp: is_high_def is_low_def windows_reserved_def)
  with drop_lone_paired show "paired (clean_units s)" by (simp add: clean_units_def)
qed

lemma trim_dots_parts:
  "\<exists>a t. s = a @ trim_dots s @ t \<and> (\<forall>c \<in> set a. c = 46) \<and> (\<forall>c \<in> set t. is_js_space c \<or> c = 46)"
proof -
  obtain t where "dropWhile (\<lambda>c. c = 46) s = trim_dots s @ t" "\<forall>c \<in> set t. is_js_space c \<or> c = 46"
    using drop_end_split [of "dropWhile (\<lambda>c. c = 46) s" "\<lambda>c. is_js_space c \<or> c = 46"] unfolding trim_dots_def by blast
  moreover have "\<forall>c \<in> set (takeWhile (\<lambda>c. c = 46) s). c = 46" by (auto dest: set_takeWhileD)
  ultimately show ?thesis by (metis takeWhile_dropWhile_id)
qed

lemma trim_dots_paired: "paired s \<Longrightarrow> paired (trim_dots s)"
proof -
  assume s: "paired s"
  obtain t where t: "dropWhile (\<lambda>c. c = 46) s = trim_dots s @ t" "\<forall>c \<in> set t. is_js_space c \<or> c = 46"
    using drop_end_split [of "dropWhile (\<lambda>c. c = 46) s" "\<lambda>c. is_js_space c \<or> c = 46"] unfolding trim_dots_def by blast
  have "paired (dropWhile (\<lambda>c. c = 46) s)" by (rule paired_dropWhile [OF _ s]) (simp add: is_high_def)
  moreover have "\<forall>c \<in> set t. \<not> is_high c \<and> \<not> is_low c"
    using t(2) by (auto simp: is_js_space_def is_high_def is_low_def)
  ultimately show ?thesis unfolding t(1) by (simp add: paired_app)
qed

lemma trim_dots_ends:
  assumes "trim_dots s \<noteq> []"
  shows "hd (trim_dots s) \<noteq> 46" "last (trim_dots s) \<noteq> 46 \<and> \<not> is_js_space (last (trim_dots s))"
proof -
  show "last (trim_dots s) \<noteq> 46 \<and> \<not> is_js_space (last (trim_dots s))"
    using last_drop_end assms unfolding trim_dots_def by blast
  obtain t where t: "dropWhile (\<lambda>c. c = 46) s = trim_dots s @ t"
    using drop_end_split unfolding trim_dots_def by blast
  with assms have ne: "dropWhile (\<lambda>c. c = 46) s \<noteq> []" by (simp del: dropWhile_eq_Nil_conv)
  have "hd (dropWhile (\<lambda>c. c = 46) s) \<noteq> 46" by (rule hd_dropWhile [OF ne])
  then show "hd (trim_dots s) \<noteq> 46" unfolding t using assms by simp
qed

lemma sanitize_safe: "sanitizeFilename name = Inr r \<Longrightarrow> safe_file_name r"
proof -
  assume a: "sanitizeFilename name = Inr r"
  then have r: "r = trim_dots (clean_units (base_name name))" "r \<noteq> []" "stem r \<notin> set windows_names"
    by (auto simp: sanitizeFilename_def Let_def split: if_splits)
  note cl = clean_units_ok [OF base_name_units, of name]
  have "set r \<subseteq> set (clean_units (base_name name))"
    using trim_dots_parts [of "clean_units (base_name name)"] unfolding r(1) by (metis Un_subset_iff order_refl set_append)
  moreover have "paired r" unfolding r(1) by (rule trim_dots_paired [OF cl(2)])
  ultimately show ?thesis
    using cl(1) trim_dots_ends [of "clean_units (base_name name)"] r unfolding safe_file_name_def by blast
qed

lemma safe_fixed: "safe_file_name r \<Longrightarrow> sanitizeFilename r = Inr r"
proof -
  assume s: "safe_file_name r"
  then have u: "\<forall>c \<in> set r. \<not> separator c \<and> \<not> control c \<and> \<not> bidi_format c \<and> \<not> windows_reserved c" "paired r"
    "r \<noteq> []" "hd r \<noteq> 46" "\<not> (is_js_space (last r) \<or> last r = 46)"
    by (auto simp: safe_file_name_def)
  have "base_name r = r" using u(1) by (simp add: base_name_def takeWhile_eq_all_conv [THEN iffD2])
  moreover have "filter (\<lambda>c. \<not> control c) r = r" "filter (\<lambda>c. \<not> bidi_format c) r = r"
    "map (\<lambda>c. if windows_reserved c then 95 else c) r = r"
    using u(1) by (auto simp: filter_id_conv map_idI)
  moreover have "dropWhile (\<lambda>c. c = 46) r = r" using u(3,4) by (cases r) auto
  then have "trim_dots r = r" using u(3,5) by (cases r rule: rev_cases) (auto simp: trim_dots_def drop_end_def)
  ultimately show ?thesis
    using s drop_lone_id [OF u(2)] by (simp add: sanitizeFilename_def clean_units_def safe_file_name_def Let_def)
qed

text \<open>
  C25. Whatever name a client supplies, \<open>sanitizeFilename\<close> refuses it or returns a single path segment
  that is safe to store: no separator, control, invisible or Windows-reserved unit, no leading dot, no
  trailing dot or space, no unpaired surrogate, and no device name as its stem. Safe names are left
  alone, so the function is idempotent and its results are exactly the safe names.
\<close>

theorem filename_safe:
  "(sanitizeFilename name = Inr r \<longrightarrow> safe_file_name r \<and> sanitizeFilename r = Inr r)
    \<and> (safe_file_name name \<longleftrightarrow> sanitizeFilename name = Inr name)"
  using sanitize_safe safe_fixed by blast

lemma filename_safe_witness:
  "safe_file_name (js ''fdp.exe'') \<and> sanitizeFilename (js ''fdp.exe'') = Inr (js ''fdp.exe'')"
proof -
  have "sanitizeFilename (js ''../..'' @ [92] @ js ''.fd'' @ [8238] @ js ''p.exe. '') = Inr (js ''fdp.exe'')"
    by (simp add: eval is_high_def is_low_def)
  with filename_safe [of "js ''../..'' @ [92] @ js ''.fd'' @ [8238] @ js ''p.exe. ''" "js ''fdp.exe''"] show ?thesis by blast
qed

text \<open>The stem is compared with its trailing spaces, which Windows drops before it looks for a device.\<close>

lemma device_name_with_space: "sanitizeFilename (js ''con .txt'') = Inr (js ''con .txt'')"
  by (simp add: eval is_high_def is_low_def)

section \<open>The download header\<close>

lemma decode_escaped_cps:
  "\<forall>cp \<in> set cps. is_scalar cp \<Longrightarrow>
   decodeURIComponent (escape_ext (concat (map encode_cp cps))) = Some (concat (map utf16 cps))"
proof (induction cps)
  case (Cons cp cps)
  have app: "escape_ext (a @ b) = escape_ext a @ escape_ext b" for a b by (simp add: escape_ext_def)
  have pc: "escape_ext (pct b) = pct b" if "b < 256" for b
    using that by (simp add: escape_ext_def pct_def hex_digit_upper_def)
  have pcs: "escape_ext (concat (map pct bs)) = concat (map pct bs)" if "\<forall>b \<in> set bs. b < 256" for bs
    using that by (induction bs) (simp_all add: app pc, simp add: escape_ext_def)
  have sc: "is_scalar cp" using Cons.prems by simp
  show ?case
  proof (cases "uri_unreserved cp \<and> cp \<notin> {39, 40, 41, 42}")
    case True
    then have "cp \<noteq> 37" "cp < 65536" "escape_ext (encode_cp cp) = [cp]"
      by (auto simp: uri_unreserved_def is_digit_def encode_cp_def escape_ext_def)
    with Cons show ?thesis by (simp add: app utf16_def)
  next
    case False
    have "escape_ext (encode_cp cp) = concat (map pct (utf8_cp cp))"
    proof (cases "uri_unreserved cp")
      case True
      with False have "encode_cp cp = [cp]" "cp \<in> {39, 40, 41, 42}" by (auto simp: encode_cp_def)
      then show ?thesis by (auto simp: escape_ext_def utf8_cp_def)
    next
      case False
      then show ?thesis using pcs [OF utf8_cp_bytes [OF sc]] by (simp add: encode_cp_def)
    qed
    with Cons sc show ?thesis by (simp add: app decode_pct_cp)
  qed
qed (simp add: escape_ext_def)

lemma fallback_units: "c \<in> set (ascii_fallback s) \<Longrightarrow> 32 \<le> c \<and> c \<le> 126 \<and> c \<noteq> 34 \<and> c \<noteq> 92"
  by (auto simp: ascii_fallback_def split: if_splits)

lemma escape_ext_units:
  assumes "\<forall>c \<in> set e. uri_char c"
  shows "\<forall>c \<in> set (escape_ext e). 32 \<le> c \<and> c \<le> 126 \<and> c \<notin> {32, 34, 39, 40, 41, 42, 59, 92}"
proof
  fix c
  assume "c \<in> set (escape_ext e)"
  then obtain d where d: "uri_char d" "c \<in> set (if d \<in> {39, 40, 41, 42} then pct d else [d])"
    using assms by (auto simp: escape_ext_def)
  show "32 \<le> c \<and> c \<le> 126 \<and> c \<notin> {32, 34, 39, 40, 41, 42, 59, 92}"
  proof (cases "d \<in> {39, 40, 41, 42}")
    case True
    with d(2) show ?thesis by (auto simp: pct_def hex_digit_upper_def)
  next
    case False
    with d have "c = d" by simp
    with d(1) False show ?thesis
      unfolding uri_char_def uri_unreserved_def is_digit_def is_hex_def hex_val_def by (auto split: if_splits)
  qed
qed

lemma sanitize_units:
  assumes "sanitizeFilename name = Inr r" shows "set r \<subseteq> insert 95 (set name)"
proof -
  let ?c = "clean_units (base_name name)"
  have "r = trim_dots ?c" using assms by (auto simp: sanitizeFilename_def Let_def split: if_splits)
  then have "set r \<subseteq> set ?c" using trim_dots_parts [of ?c] by (metis Un_subset_iff order_refl set_append)
  also have "\<dots> \<subseteq> insert 95 (set (base_name name))"
    using drop_lone_set [of False] unfolding clean_units_def by fastforce
  also have "set (base_name name) \<subseteq> set name" by (auto simp: base_name_def dest: set_takeWhileD)
  finally show ?thesis by blast
qed

text \<open>
  Every name that passes the sanitizer gets a download header, of printable ASCII only, whose
  quoted \<open>filename\<close> ends at its own closing quote; and the exact name is recoverable: it is the quoted
  text itself, or the percent-decoded \<open>filename*\<close> parameter, which holds no unit that could end it.
\<close>

lemma content_disposition_roundtrip:
  assumes "sanitizeFilename name = Inr safe" and "\<forall>c \<in> set name. c < 65536"
  shows "\<exists>q rest. contentDisposition name d = Inr (disposition_text d @ js ''; filename='' @ 34 # q @ 34 # rest)
    \<and> (\<forall>c \<in> set (q @ rest). 32 \<le> c \<and> c \<le> 126 \<and> c \<notin> {34, 92})
    \<and> (rest = [] \<and> q = safe
       \<or> (\<exists>e. rest = js ''; filename*=UTF-8'' @ [39, 39] @ e \<and> decodeURIComponent e = Some safe \<and> set e \<inter> {32, 39, 59} = {}))"
proof -
  have safe: "safe_file_name safe" by (rule sanitize_safe [OF assms(1)])
  have b: "\<forall>c \<in> set safe. c < 65536" using sanitize_units [OF assms(1)] assms(2) by auto
  then have wf: "well_formed safe" using safe by (simp add: well_formed_def safe_file_name_def paired_def)
  obtain cps where cps: "code_points safe = Some cps" using wf by (auto simp: well_formed_def)
  define e where "e = escape_ext (concat (map encode_cp cps))"
  have enc: "encodeURIComponent safe = Some (concat (map encode_cp cps))" by (simp add: encodeURIComponent_def cps)
  have dec: "decodeURIComponent e = Some safe"
    using decode_escaped_cps [OF code_points_scalar [OF cps b]] code_points_utf16 [OF cps b] by (simp add: e_def)
  have eu: "\<forall>c \<in> set e. 32 \<le> c \<and> c \<le> 126 \<and> c \<notin> {32, 34, 39, 40, 41, 42, 59, 92}"
    unfolding e_def by (rule escape_ext_units [OF encodeURIComponent_chars [OF wf enc]])
  show ?thesis
  proof (cases "ascii_fallback safe = safe \<and> 37 \<notin> set safe")
    case True
    then have "\<forall>c \<in> set safe. 32 \<le> c \<and> c \<le> 126 \<and> c \<notin> {34, 92}" using fallback_units [of _ safe] by auto
    moreover have "contentDisposition name d = Inr (disposition_text d @ js ''; filename='' @ 34 # safe @ 34 # [])"
      using True assms(1) by (simp add: contentDisposition_def)
    ultimately show ?thesis by (intro exI [of _ safe] exI [of _ "[]"]) simp
  next
    case False
    let ?q = "map (\<lambda>c. if c = 37 then 95 else c) (ascii_fallback safe)"
    have "\<forall>c \<in> set ?q. 32 \<le> c \<and> c \<le> 126 \<and> c \<notin> {34, 92}" using fallback_units [of _ safe] by auto
    moreover have "contentDisposition name d
        = Inr (disposition_text d @ js ''; filename='' @ 34 # ?q @ 34 # js ''; filename*=UTF-8'' @ [39, 39] @ e)"
      using False assms(1) enc by (simp add: contentDisposition_def e_def Let_def)
    moreover have "set e \<inter> {32, 39, 59} = {}" using eu by auto
    moreover have "\<forall>c \<in> set (js ''; filename*=UTF-8'' @ [39, 39] @ e). 32 \<le> c \<and> c \<le> 126 \<and> c \<notin> {34, 92}"
      using eu by simp
    ultimately show ?thesis using dec
      by (intro exI [of _ ?q] exI [of _ "js ''; filename*=UTF-8'' @ [39, 39] @ e"] conjI disjI2 exI [of _ e] refl)
        (simp_all only: set_append Un_iff ball_Un)
  qed
qed

lemma content_disposition_roundtrip_witness:
  "\<exists>q rest. contentDisposition (js ''a/100%.txt'') Attachment = Inr (disposition_text Attachment @ js ''; filename='' @ 34 # q @ 34 # rest)"
proof -
  have "sanitizeFilename (js ''a/100%.txt'') = Inr (js ''100%.txt'')" by (simp add: eval is_high_def is_low_def)
  from content_disposition_roundtrip [OF this, of Attachment] show ?thesis by auto
qed

section \<open>Relative paths stay below their base\<close>

text \<open>POSIX resolution of a path against a directory: \<open>..\<close> drops a component.\<close>

fun resolve_path :: "jstr list \<Rightarrow> jstr list \<Rightarrow> jstr list" where
  "resolve_path dir [] = dir"
| "resolve_path dir (seg # segs) =
     (if seg = [] \<or> seg = [46] then resolve_path dir segs
      else if seg = [46, 46] then resolve_path (butlast dir) segs
      else resolve_path (dir @ [seg]) segs)"

lemma resolve_below: "[46, 46] \<notin> set segs \<Longrightarrow> prefix dir (resolve_path dir segs)"
proof (induction dir segs rule: resolve_path.induct)
  case (2 dir seg segs)
  then show ?case by (auto intro: append_prefixD)
qed simp

lemma safe_path_contained:
  "assertSafeRelativePath input = Some out \<Longrightarrow>
    out = input \<and> 0 \<notin> set out \<and> 92 \<notin> set out \<and> prefix dir (resolve_path dir (split_on 47 out))"
  by (auto simp: assertSafeRelativePath_def list_ex_iff resolve_below split: if_splits)

end
