(* ===== verification/Webhook.thy ===== *)
theory Webhook
  imports Guards Base64
begin

text \<open>
  Webhook signatures of \<open>security.ts\<close>: \<open>signWebhookPayload\<close> and \<open>verifyWebhookSignature\<close>.

  Bytes are numbers below 256. HMAC (Web Crypto) is the parameter \<open>hmac\<close>: algorithm, key, data. A
  timestamp is what the caller passes: a number that is an integer, one that is not, or a string. A
  string payload or secret is encoded before it gets here.
\<close>

section \<open>Algorithms, hexadecimal, base64\<close>

datatype hmac_alg = Sha256 | Sha384 | Sha512

definition alg_name :: "hmac_alg \<Rightarrow> jstr" where
  "alg_name a = (case a of Sha256 \<Rightarrow> js ''sha256'' | Sha384 \<Rightarrow> js ''sha384'' | Sha512 \<Rightarrow> js ''sha512'')"

definition signatureBytes :: "hmac_alg \<Rightarrow> nat" where
  "signatureBytes a = (case a of Sha256 \<Rightarrow> 32 | Sha384 \<Rightarrow> 48 | Sha512 \<Rightarrow> 64)"

definition resolveWebhookAlgorithm :: "jstr \<Rightarrow> hmac_alg option" where
  "resolveWebhookAlgorithm n = (if n = js ''sha256'' then Some Sha256 else if n = js ''sha384'' then Some Sha384
     else if n = js ''sha512'' then Some Sha512 else None)"

fun hex_pairs :: "jstr \<Rightarrow> nat list" where
  "hex_pairs (a # b # s) = hexs_val [a, b] # hex_pairs s"
| "hex_pairs _ = []"

definition hexToBytes :: "jstr \<Rightarrow> nat list option" where
  "hexToBytes hex = (if hex = [] \<or> length hex mod 2 \<noteq> 0 \<or> \<not> list_all is_hex hex then None else Some (hex_pairs hex))"

definition bytesToHex :: "nat list \<Rightarrow> jstr" where
  "bytesToHex bs = concat (map (\<lambda>b. [hex_digit (b div 16), hex_digit (b mod 16)]) bs)"

definition b64_unit :: "nat \<Rightarrow> bool" where
  "b64_unit c \<longleftrightarrow> b64_val c \<noteq> None \<or> c = 45 \<or> c = 95"

definition base64ToBytes :: "jstr \<Rightarrow> nat list option" where
  "base64ToBytes b64 =
     (let body = takeWhile b64_unit b64; tail = dropWhile b64_unit b64 in
      if b64 = [] \<or> length b64 mod 4 = 1 then None
      else if body = [] \<or> tail \<notin> {[], [61], [61, 61]} then None
      else (let normalized = map (\<lambda>c. if c = 45 then 43 else if c = 95 then 47 else c) b64;
                pad = (if length normalized mod 4 = 0 then [] else replicate (4 - length normalized mod 4) 61) in
            atob (normalized @ pad)))"

definition timingSafeEqualBytes :: "nat list \<Rightarrow> nat list \<Rightarrow> bool" where
  "timingSafeEqualBytes a b = timingSafeEqual a b"

section \<open>Signatures as received\<close>

datatype signature = SigText jstr | SigBytes "nat list"

definition sig_prefix :: "jstr \<Rightarrow> (jstr \<times> jstr) option" where
  "sig_prefix v =
     (let p = to_lower (takeWhile (\<lambda>c. c \<noteq> 61) v) in
      if 61 \<in> set v \<and> p \<in> {js ''sha1'', js ''sha256'', js ''sha384'', js ''sha512''}
      then Some (p, tl (dropWhile (\<lambda>c. c \<noteq> 61) v)) else None)"

definition signature_text :: "jstr \<Rightarrow> nat \<Rightarrow> nat list option" where
  "signature_text v n =
     (case (case hexToBytes v of Some h \<Rightarrow> if length h = n then Some h else None | None \<Rightarrow> None) of
        Some h \<Rightarrow> Some h
      | None \<Rightarrow> (case base64ToBytes v of Some b \<Rightarrow> if length b = n then Some b else None | None \<Rightarrow> None))"

definition decodeWebhookSignature :: "signature \<Rightarrow> hmac_alg \<Rightarrow> nat list option" where
  "decodeWebhookSignature s a =
     (case s of
        SigBytes b \<Rightarrow> if length b = signatureBytes a then Some b else None
      | SigText t \<Rightarrow>
          (case sig_prefix (js_trim t) of
             None \<Rightarrow> signature_text (js_trim t) (signatureBytes a)
           | Some (p, rest) \<Rightarrow> if p \<noteq> alg_name a then None else signature_text rest (signatureBytes a)))"

section \<open>Timestamps and ids\<close>

datatype stamp = StampInt int | StampFraction | StampText jstr

definition max_timestamp :: int where
  "max_timestamp = 9007199254740991 div 1000"

definition stamp_text_ok :: "jstr \<Rightarrow> bool" where
  "stamp_text_ok t \<longleftrightarrow> t = [48] \<or> (t \<noteq> [] \<and> hd t \<noteq> 48 \<and> length t \<le> 19 \<and> list_all is_digit t)"

definition normalizeWebhookTimestamp :: "stamp \<Rightarrow> int option" where
  "normalizeWebhookTimestamp ts =
     (case (case ts of StampInt i \<Rightarrow> Some i | StampFraction \<Rightarrow> None
             | StampText t \<Rightarrow> if stamp_text_ok t then Some (int (dec_val t)) else None) of
        None \<Rightarrow> None | Some s \<Rightarrow> if s < 0 \<or> s > max_timestamp then None else Some s)"

definition isValidWebhookId :: "jstr \<Rightarrow> bool" where
  "isValidWebhookId i \<longleftrightarrow> i \<noteq> [] \<and> length i \<le> 256 \<and> list_all (\<lambda>c. 33 \<le> c \<and> c \<le> 126 \<and> c \<noteq> 46) i"

text \<open>\<open>encode\<close> of an ASCII prefix: an id passed the check above, a canonical timestamp is digits.\<close>

definition buildSignedPayloadBytes :: "nat list \<Rightarrow> int option \<Rightarrow> jstr option \<Rightarrow> nat list" where
  "buildSignedPayloadBytes payload ts mid =
     (case ts of None \<Rightarrow> payload
      | Some s \<Rightarrow> utf8_encode (case mid of None \<Rightarrow> dec_str (nat s) @ [46] | Some i \<Rightarrow> i @ 46 # dec_str (nat s) @ [46]) @ payload)"

section \<open>Verify and sign\<close>

type_synonym hmac_fun = "hmac_alg \<Rightarrow> nat list \<Rightarrow> nat list \<Rightarrow> nat list"

record verify_opts =
  v_algorithm :: "jstr option"
  v_timestamp :: "stamp option"
  v_id :: "jstr option"
  v_tolerance :: "int option"
  v_now :: int

definition default_tolerance :: int where "default_tolerance = 300"

text \<open>The checks before the cryptography: the algorithm and the time that go into the digest.\<close>

definition checked_time :: "verify_opts \<Rightarrow> int option option" where
  "checked_time opts =
     (case v_timestamp opts of None \<Rightarrow> Some None
      | Some ts \<Rightarrow> (case normalizeWebhookTimestamp ts of None \<Rightarrow> None
        | Some s \<Rightarrow>
            (let tolerance = (case v_tolerance opts of None \<Rightarrow> default_tolerance | Some t \<Rightarrow> t) in
             if tolerance < 0 then None
             else if abs (v_now opts div 1000 - s) > tolerance then None else Some (Some s))))"

definition verifyWebhookSignature :: "hmac_fun \<Rightarrow> nat list \<Rightarrow> signature \<Rightarrow> nat list \<Rightarrow> verify_opts \<Rightarrow> bool" where
  "verifyWebhookSignature hmac payload sig secret opts =
     (case resolveWebhookAlgorithm (case v_algorithm opts of None \<Rightarrow> js ''sha256'' | Some a \<Rightarrow> a) of
        None \<Rightarrow> False
      | Some a \<Rightarrow>
          if secret = [] then False
          else if (case v_id opts of None \<Rightarrow> False | Some i \<Rightarrow> v_timestamp opts = None \<or> \<not> isValidWebhookId i) then False
          else (case checked_time opts of None \<Rightarrow> False
            | Some time \<Rightarrow> (case decodeWebhookSignature sig a of None \<Rightarrow> False
              | Some provided \<Rightarrow>
                  timingSafeEqualBytes (hmac a secret (buildSignedPayloadBytes payload time (v_id opts))) provided)))"

datatype sign_error = BadAlgorithm | IdWithoutTimestamp | BadWebhookId | BadTimestamp | EmptyKey

text \<open>Web Crypto refuses to import an empty HMAC key.\<close>

definition sign_hex :: "hmac_fun \<Rightarrow> hmac_alg \<Rightarrow> nat list \<Rightarrow> nat list \<Rightarrow> sign_error + jstr" where
  "sign_hex hmac a secret data = (if secret = [] then Inl EmptyKey else Inr (bytesToHex (hmac a secret data)))"

definition signWebhookPayload ::
  "hmac_fun \<Rightarrow> nat list \<Rightarrow> nat list \<Rightarrow> jstr option \<Rightarrow> stamp option \<Rightarrow> jstr option \<Rightarrow> sign_error + jstr" where
  "signWebhookPayload hmac payload secret alg ts mid =
     (case resolveWebhookAlgorithm (case alg of None \<Rightarrow> js ''sha256'' | Some a \<Rightarrow> a) of
        None \<Rightarrow> Inl BadAlgorithm
      | Some a \<Rightarrow>
          if mid \<noteq> None \<and> ts = None then Inl IdWithoutTimestamp
          else if (case mid of None \<Rightarrow> False | Some i \<Rightarrow> \<not> isValidWebhookId i) then Inl BadWebhookId
          else (case ts of
              None \<Rightarrow> sign_hex hmac a secret (buildSignedPayloadBytes payload None mid)
            | Some t \<Rightarrow> (case normalizeWebhookTimestamp t of None \<Rightarrow> Inl BadTimestamp
                | Some s \<Rightarrow> sign_hex hmac a secret (buildSignedPayloadBytes payload (Some s) mid))))"

lemmas [eval] = alg_name_def signatureBytes_def resolveWebhookAlgorithm_def hexToBytes_def bytesToHex_def
  b64_unit_def base64ToBytes_def timingSafeEqualBytes_def sig_prefix_def signature_text_def decodeWebhookSignature_def
  max_timestamp_def stamp_text_ok_def normalizeWebhookTimestamp_def isValidWebhookId_def
  buildSignedPayloadBytes_def default_tolerance_def checked_time_def verifyWebhookSignature_def sign_hex_def signWebhookPayload_def

section \<open>Signing and verifying\<close>

lemma hex_pairs_hex: "\<forall>b \<in> set bs. b < 256 \<Longrightarrow> hex_pairs (bytesToHex bs) = bs"
proof (induction bs)
  case (Cons b bs)
  then have "hexs_val [hex_digit (b div 16), hex_digit (b mod 16)] = b"
    by (simp add: hexs_val_def div_less_iff_less_mult)
  with Cons show ?case by (simp add: bytesToHex_def)
qed (simp add: bytesToHex_def)

lemma bytesToHex_units:
  "\<forall>b \<in> set bs. b < 256 \<Longrightarrow> \<forall>c \<in> set (bytesToHex bs). is_hex c" "length (bytesToHex bs) = 2 * length bs"
  by (induction bs) (auto simp: bytesToHex_def is_hex_def div_less_iff_less_mult)

lemma hexToBytes_hex:
  "\<forall>b \<in> set bs. b < 256 \<Longrightarrow> bs \<noteq> [] \<Longrightarrow> hexToBytes (bytesToHex bs) = Some bs"
  using bytesToHex_units [of bs] by (cases bs) (auto simp: hexToBytes_def hex_pairs_hex list_all_iff)

lemma hex_units: "is_hex c \<Longrightarrow> c \<noteq> 61 \<and> \<not> is_js_space c"
  unfolding is_hex_def hex_val_def is_js_space_def by (auto split: if_splits)

lemma decode_hex_text:
  assumes "\<forall>b \<in> set bs. b < 256" and "length bs = signatureBytes a"
  shows "decodeWebhookSignature (SigText (bytesToHex bs)) a = Some bs"
    "decodeWebhookSignature (SigText (alg_name a @ 61 # bytesToHex bs)) a = Some bs"
proof -
  have ne: "bs \<noteq> []" using assms(2) by (cases a) (auto simp: signatureBytes_def)
  have h: "\<forall>c \<in> set (bytesToHex bs). c \<noteq> 61 \<and> \<not> is_js_space c"
    using bytesToHex_units(1) [OF assms(1)] hex_units by blast
  have d: "signature_text (bytesToHex bs) (signatureBytes a) = Some bs"
    by (simp add: signature_text_def hexToBytes_hex [OF assms(1) ne] assms(2))
  have "js_trim (bytesToHex bs) = bytesToHex bs" using h by (simp add: js_trim_id)
  moreover have "sig_prefix (bytesToHex bs) = None" using h by (auto simp: sig_prefix_def)
  ultimately show "decodeWebhookSignature (SigText (bytesToHex bs)) a = Some bs"
    by (simp add: decodeWebhookSignature_def d)
  have "\<forall>c \<in> set (alg_name a). c \<noteq> 61 \<and> \<not> is_js_space c" by (cases a) (simp_all add: alg_name_def is_js_space_def)
  moreover have "\<not> is_js_space 61" by (simp add: is_js_space_def)
  ultimately have tr: "js_trim (alg_name a @ 61 # bytesToHex bs) = alg_name a @ 61 # bytesToHex bs"
    and tw: "takeWhile (\<lambda>c. c \<noteq> 61) (alg_name a @ 61 # bytesToHex bs) = alg_name a"
    "dropWhile (\<lambda>c. c \<noteq> 61) (alg_name a @ 61 # bytesToHex bs) = 61 # bytesToHex bs"
    using h by (simp_all add: js_trim_id takeWhile_append dropWhile_append ball_Un)
  have "to_lower (alg_name a) = alg_name a" "alg_name a \<in> {js ''sha1'', js ''sha256'', js ''sha384'', js ''sha512''}"
    by (cases a; simp add: alg_name_def to_lower_def lower_unit_def)+
  then have "sig_prefix (alg_name a @ 61 # bytesToHex bs) = Some (alg_name a, bytesToHex bs)"
    unfolding sig_prefix_def tw by simp
  with tr show "decodeWebhookSignature (SigText (alg_name a @ 61 # bytesToHex bs)) a = Some bs"
    by (simp add: decodeWebhookSignature_def d)
qed

lemma dec_str_head: "0 < n \<Longrightarrow> hd (dec_str n) \<noteq> 48"
proof (induction n rule: dec_str.induct)
  case (1 n)
  show ?case
  proof (cases "n < 10")
    case True
    with 1 show ?thesis by (simp add: dec_str_digit)
  next
    case False
    then have "0 < n div 10" by (simp add: div_greater_zero_iff)
    moreover have "dec_str n = dec_str (n div 10) @ [48 + n mod 10]"
      using dec_str_snoc [of "n div 10" "n mod 10"] False by (simp add: mult.commute)
    ultimately show ?thesis using 1 False by simp
  qed
qed

lemma stamp_canonical: "0 \<le> s \<Longrightarrow> s \<le> max_timestamp \<Longrightarrow> normalizeWebhookTimestamp (StampText (dec_str (nat s))) = Some s"
proof -
  assume s: "0 \<le> s" "s \<le> max_timestamp"
  then have "nat s < 10 ^ 19" by (simp add: max_timestamp_def nat_less_iff)
  then have "length (dec_str (nat s)) \<le> 19" by (rule dec_str_length) simp
  moreover have "list_all is_digit (dec_str (nat s))" using dec_str_digits by (simp add: list_all_iff)
  ultimately have "stamp_text_ok (dec_str (nat s))"
    using dec_str_head [of "nat s"] s(1) by (cases "s = 0") (auto simp: stamp_text_ok_def dec_str_digit)
  with s show ?thesis by (simp add: normalizeWebhookTimestamp_def)
qed

lemma normalized_range: "normalizeWebhookTimestamp t = Some s \<Longrightarrow> 0 \<le> s \<and> s \<le> max_timestamp"
  by (auto simp: normalizeWebhookTimestamp_def split: option.splits if_splits)

lemma sign_verify:
  assumes "signWebhookPayload hmac payload secret alg (Some (StampInt s)) mid = Inr sig"
    and "resolveWebhookAlgorithm (case alg of None \<Rightarrow> js ''sha256'' | Some n \<Rightarrow> n) = Some a"
    and "\<And>m. length (hmac a secret m) = signatureBytes a \<and> (\<forall>b \<in> set (hmac a secret m). b < 256)"
    and "abs (now div 1000 - s) \<le> tol" and "text \<in> {sig, alg_name a @ 61 # sig}"
    and "stamp \<in> {StampInt s, StampText (dec_str (nat s))}"
  shows "verifyWebhookSignature hmac payload (SigText text) secret
      \<lparr> v_algorithm = alg, v_timestamp = Some stamp, v_id = mid, v_tolerance = Some tol, v_now = now \<rparr>"
proof -
  let ?m = "buildSignedPayloadBytes payload (Some s) mid"
  from assms(1,2) have sig: "sig = bytesToHex (hmac a secret ?m)" "secret \<noteq> []" "normalizeWebhookTimestamp (StampInt s) = Some s"
    and mid: "case mid of None \<Rightarrow> True | Some i \<Rightarrow> isValidWebhookId i"
    by (auto simp: signWebhookPayload_def sign_hex_def normalizeWebhookTimestamp_def split: option.splits if_splits)
  note rg = normalized_range [OF sig(3)]
  have tol: "\<not> tol < 0" using assms(4) abs_ge_zero [of "now div 1000 - s"] by linarith
  have time: "checked_time \<lparr> v_algorithm = alg, v_timestamp = Some t, v_id = mid, v_tolerance = Some tol, v_now = now \<rparr> = Some (Some s)"
    if "normalizeWebhookTimestamp t = Some s" for t
    using that tol assms(4) by (simp add: checked_time_def)
  have dec: "decodeWebhookSignature (SigText text) a = Some (hmac a secret ?m)"
    using decode_hex_text [OF conjunct2 [OF assms(3)] conjunct1 [OF assms(3)], of ?m] assms(5) sig(1) by auto
  have "checked_time \<lparr> v_algorithm = alg, v_timestamp = Some stamp, v_id = mid, v_tolerance = Some tol, v_now = now \<rparr> = Some (Some s)"
    using assms(6) time [OF sig(3)] time [OF stamp_canonical [OF conjunct1 [OF rg] conjunct2 [OF rg]]] by auto
  with mid assms(2) sig(2) dec show ?thesis
    unfolding verifyWebhookSignature_def by (auto simp: timingSafeEqualBytes_def split: option.splits)
qed

text \<open>
  What the signer produces the verifier accepts, in both text forms, for every algorithm, id and
  payload, as long as the receiver's clock is within the tolerance; the receiver may pass the
  timestamp as the header text of the same number of seconds.
\<close>

lemma webhook_roundtrip:
  assumes "signWebhookPayload hmac payload secret alg (Some (StampInt s)) mid = Inr sig"
    and "resolveWebhookAlgorithm (case alg of None \<Rightarrow> js ''sha256'' | Some n \<Rightarrow> n) = Some a"
    and "\<And>m. length (hmac a secret m) = signatureBytes a \<and> (\<forall>b \<in> set (hmac a secret m). b < 256)"
    and "abs (now div 1000 - s) \<le> tol"
  shows "verifyWebhookSignature hmac payload (SigText sig) secret
      \<lparr> v_algorithm = alg, v_timestamp = Some (StampText (dec_str (nat s))), v_id = mid, v_tolerance = Some tol, v_now = now \<rparr>
    \<and> verifyWebhookSignature hmac payload (SigText (alg_name a @ 61 # sig)) secret
      \<lparr> v_algorithm = alg, v_timestamp = Some (StampInt s), v_id = mid, v_tolerance = Some tol, v_now = now \<rparr>"
  using sign_verify [OF assms] by simp

lemma webhook_roundtrip_witness:
  "verifyWebhookSignature (\<lambda>a k m. replicate (signatureBytes a) (length m)) [1, 2] (SigText (concat (replicate 32 (js ''0d'')))) [9]
      \<lparr> v_algorithm = None, v_timestamp = Some (StampText (js ''1700000000'')), v_id = None, v_tolerance = Some 300, v_now = 1700000299000 \<rparr>"
proof -
  let ?h = "\<lambda>a k m :: nat list. replicate (signatureBytes a) (if length m < 256 then length m else 0)"
  have s: "signWebhookPayload ?h [1, 2] [9] None (Some (StampInt 1700000000)) None = Inr (concat (replicate 32 (js ''0d'')))"
    by (simp add: eval hex_digit_def code_points_lossy.simps)
  have "verifyWebhookSignature ?h [1, 2] (SigText (concat (replicate 32 (js ''0d'')))) [9]
      \<lparr> v_algorithm = None, v_timestamp = Some (StampText (dec_str (nat 1700000000))), v_id = None, v_tolerance = Some 300, v_now = 1700000299000 \<rparr>"
    by (rule conjunct1 [OF webhook_roundtrip [OF s, of Sha256]]) (auto simp: resolveWebhookAlgorithm_def)
  then show ?thesis by (simp add: eval)
qed

section \<open>What an accepted signature covers\<close>

lemma utf8_ascii: "\<forall>c \<in> set s. c < 128 \<Longrightarrow> utf8_encode s = s"
proof (induction s rule: code_points_lossy.induct)
  case (3 c d s)
  then have "\<not> is_high c" "\<not> is_low c" by (simp_all add: is_high_def is_low_def)
  with 3 show ?case by (simp add: utf8_encode_def utf8_cp_def)
qed (simp_all add: utf8_encode_def utf8_cp_def is_high_def is_low_def)

lemma digits_plain: "c \<in> set (dec_str n) \<Longrightarrow> c < 128 \<and> c \<noteq> 46"
  using dec_str_digits [of n] by (auto simp: is_digit_def)

lemma signed_bytes_id:
  "isValidWebhookId i \<Longrightarrow> buildSignedPayloadBytes payload (Some s) (Some i) = i @ 46 # dec_str (nat s) @ 46 # payload"
proof -
  assume "isValidWebhookId i"
  then have "\<forall>c \<in> set (i @ 46 # dec_str (nat s) @ [46]). c < 128"
    using digits_plain by (fastforce simp: isValidWebhookId_def list_all_iff)
  from utf8_ascii [OF this] show ?thesis by (simp add: buildSignedPayloadBytes_def)
qed

lemma until_dot: "46 \<notin> set a \<Longrightarrow> 46 \<notin> set b \<Longrightarrow> a @ 46 # x = b @ (46 :: nat) # y \<Longrightarrow> a = b \<and> x = y"
proof -
  assume a: "46 \<notin> set a" "46 \<notin> set b" "a @ 46 # x = b @ (46 :: nat) # y"
  have t: "takeWhile (\<lambda>c. c \<noteq> 46) (u @ 46 # z) = u" if "46 \<notin> set u" for u z :: "nat list"
    using that by (induction u) auto
  show ?thesis using t [OF a(1), of x] t [OF a(2), of y] a(3) by simp
qed

lemma signed_bytes_inj:
  assumes "isValidWebhookId i" "isValidWebhookId i'" "0 \<le> s" "0 \<le> s'"
    and "buildSignedPayloadBytes p (Some s) (Some i) = buildSignedPayloadBytes p' (Some s') (Some i')"
  shows "p = p' \<and> s = s' \<and> i = i'"
proof -
  have d: "46 \<notin> set i" "46 \<notin> set i'" using assms(1,2) by (auto simp: isValidWebhookId_def list_all_iff)
  have n: "46 \<notin> set (dec_str n)" for n using digits_plain by blast
  from assms(5) have "i @ 46 # dec_str (nat s) @ 46 # p = i' @ 46 # dec_str (nat s') @ 46 # p'"
    by (simp add: signed_bytes_id assms(1,2))
  from until_dot [OF d this] have "i = i'" "dec_str (nat s) @ 46 # p = dec_str (nat s') @ 46 # p'" by simp_all
  moreover from until_dot [OF n n this(2)] have "dec_str (nat s) = dec_str (nat s')" "p = p'" by simp_all
  moreover from this(1) have "nat s = nat s'" by (metis dec_val_str)
  ultimately show ?thesis using assms(3,4) by simp
qed



end
