(* ===== verification/WebhookDelivery.thy ===== *)
theory WebhookDelivery
  imports Webhook
begin

text \<open>
  The webhook sender of \<open>webhook-delivery.ts\<close>: one signature per delivery, the attempts with their
  backoff, and the dead letters.

  What the transport answers to attempt \<open>n\<close>, and after how many milliseconds, is \<open>net n\<close>; a sleep
  takes the delay it was asked for. \<open>rnd n cap\<close> is \<open>Math.random() * cap\<close> at attempt \<open>n\<close>, in whole
  milliseconds as a timer takes it; \<open>date\<close> is \<open>Date.parse\<close>. The generated id is an argument.
\<close>

section \<open>Options\<close>

record sender_opts =
  s_secret :: "nat list"
  s_algorithm :: jstr
  s_maxAttempts :: nat
  s_retryDelayMs :: int
  s_maxRetryDelayMs :: int
  s_backoffFactor :: int
  s_jitter :: bool
  s_timeoutMs :: int
  s_respectRetryAfter :: bool
  s_retryStatuses :: "nat list"
  s_idHeader :: jstr
  s_timestampHeader :: jstr
  s_signatureHeader :: jstr
  s_eventTypeHeader :: jstr
  s_userAgent :: jstr

definition default_retry_statuses :: "nat list" where
  "default_retry_statuses = [408, 429, 500, 502, 503, 504]"

definition default_sender :: "nat list \<Rightarrow> sender_opts" where
  "default_sender secret = \<lparr> s_secret = secret, s_algorithm = js ''sha256'', s_maxAttempts = 5, s_retryDelayMs = 500,
     s_maxRetryDelayMs = 30000, s_backoffFactor = 2, s_jitter = True, s_timeoutMs = 10000, s_respectRetryAfter = True,
     s_retryStatuses = default_retry_statuses, s_idHeader = js ''webhook-id'', s_timestampHeader = js ''webhook-timestamp'',
     s_signatureHeader = js ''webhook-signature'', s_eventTypeHeader = js ''webhook-event-type'',
     s_userAgent = js ''DaloyJS-Webhook/1.0'' \<rparr>"

datatype sender_error = EmptySecret | BadMaxAttempts | BadTimeout | Unsigned sign_error

definition createWebhookSender :: "sender_opts \<Rightarrow> sender_error option" where
  "createWebhookSender o' = (if s_secret o' = [] then Some EmptySecret
     else if s_maxAttempts o' < 1 then Some BadMaxAttempts else if s_timeoutMs o' < 0 then Some BadTimeout else None)"

section \<open>Backoff\<close>

definition retry_after_ms :: "(jstr \<Rightarrow> int option) \<Rightarrow> jstr option \<Rightarrow> int \<Rightarrow> int option" where
  "retry_after_ms date v now =
     (case v of None \<Rightarrow> None
      | Some t \<Rightarrow>
          (let trimmed = js_trim t in
           if t = [] then None
           else if trimmed \<noteq> [] \<and> list_all is_digit trimmed then Some (int (dec_val trimmed) * 1000)
           else (case date trimmed of None \<Rightarrow> None | Some d \<Rightarrow> Some (max 0 (d - now)))))"

definition capped_backoff :: "sender_opts \<Rightarrow> (nat \<Rightarrow> int \<Rightarrow> int) \<Rightarrow> nat \<Rightarrow> int" where
  "capped_backoff o' rnd attempt =
     (let capped = min (s_maxRetryDelayMs o') (s_retryDelayMs o' * s_backoffFactor o' ^ (attempt - 1)) in
      if s_jitter o' then rnd attempt capped else capped)"

definition backoff_for :: "sender_opts \<Rightarrow> (jstr \<Rightarrow> int option) \<Rightarrow> (nat \<Rightarrow> int \<Rightarrow> int) \<Rightarrow> nat \<Rightarrow> jstr option option \<Rightarrow> int \<Rightarrow> int" where
  "backoff_for o' date rnd attempt response now =
     (case (case response of Some ra \<Rightarrow> if s_respectRetryAfter o' then retry_after_ms date ra now else None | None \<Rightarrow> None) of
        Some d \<Rightarrow> min (s_maxRetryDelayMs o') d
      | None \<Rightarrow> capped_backoff o' rnd attempt)"

section \<open>The attempts\<close>

datatype answer = Response nat "jstr option" | Thrown bool jstr

type_synonym network = "nat \<Rightarrow> answer \<times> int"

record delivery =
  dl_ok :: bool
  dl_attempts :: nat
  dl_status :: "nat option"
  dl_error :: "jstr option"
  dl_starts :: "int list"
  dl_end :: int

definition add_start :: "int \<Rightarrow> delivery \<Rightarrow> delivery" where
  "add_start t d = d\<lparr>dl_starts := t # dl_starts d\<rparr>"

definition sleep_until :: "int \<Rightarrow> int \<Rightarrow> int" where
  "sleep_until now delay = now + max 0 delay"

text \<open>The loop over \<open>attempt <= maxAttempts\<close>; the first argument is the number of attempts left.\<close>

fun attempts_loop :: "sender_opts \<Rightarrow> (jstr \<Rightarrow> int option) \<Rightarrow> (nat \<Rightarrow> int \<Rightarrow> int) \<Rightarrow> network \<Rightarrow> nat \<Rightarrow> nat \<Rightarrow> int \<Rightarrow> delivery" where
  "attempts_loop o' date rnd net 0 attempt now =
     \<lparr> dl_ok = False, dl_attempts = attempt - 1, dl_status = None, dl_error = None, dl_starts = [], dl_end = now \<rparr>"
| "attempts_loop o' date rnd net (Suc left) attempt now =
     (let (ans, took) = net attempt; now' = now + took in
      case ans of
        Response st ra \<Rightarrow>
          if 200 \<le> st \<and> st \<le> 299 then
            \<lparr> dl_ok = True, dl_attempts = attempt, dl_status = Some st, dl_error = None, dl_starts = [now], dl_end = now' \<rparr>
          else if st \<in> set (s_retryStatuses o') \<and> attempt < s_maxAttempts o' then
            add_start now (attempts_loop o' date rnd net left (attempt + 1)
              (sleep_until now' (backoff_for o' date rnd attempt (Some ra) now')))
          else
            \<lparr> dl_ok = False, dl_attempts = attempt, dl_status = Some st, dl_error = None, dl_starts = [now], dl_end = now' \<rparr>
      | Thrown ssrf msg \<Rightarrow>
          if \<not> ssrf \<and> attempt < s_maxAttempts o' then
            add_start now (attempts_loop o' date rnd net left (attempt + 1)
              (sleep_until now' (backoff_for o' date rnd attempt None now')))
          else
            \<lparr> dl_ok = False, dl_attempts = attempt, dl_status = None, dl_error = Some msg, dl_starts = [now], dl_end = now' \<rparr>)"

section \<open>One delivery\<close>

record webhook_event =
  ev_url :: jstr
  ev_body :: "nat list"
  ev_contentType :: jstr
  ev_type :: "jstr option"
  ev_id :: "jstr option"
  ev_headers :: "(jstr, jstr) assoc"

record dead_letter =
  lt_id :: jstr
  lt_url :: jstr
  lt_type :: "jstr option"
  lt_payload :: "nat list"
  lt_contentType :: jstr
  lt_attempts :: nat
  lt_status :: "nat option"
  lt_error :: "jstr option"
  lt_timestamp :: int
  lt_failedAt :: int

definition base_headers :: "sender_opts \<Rightarrow> webhook_event \<Rightarrow> jstr \<Rightarrow> int \<Rightarrow> jstr \<Rightarrow> (jstr, jstr) assoc" where
  "base_headers o' ev mid ts sig =
     (let h = AList.update (s_signatureHeader o') (s_algorithm o' @ 61 # sig)
         (AList.update (s_timestampHeader o') (dec_str (nat ts))
           (AList.update (s_idHeader o') mid
             [(js ''content-type'', ev_contentType ev), (js ''user-agent'', s_userAgent o')])) in
      case ev_type ev of None \<Rightarrow> h | Some t \<Rightarrow> AList.update (s_eventTypeHeader o') t h)"

definition reserved_names :: "sender_opts \<Rightarrow> jstr set" where
  "reserved_names o' = {js ''content-type'', to_lower (s_idHeader o'), to_lower (s_timestampHeader o'),
     to_lower (s_signatureHeader o'), to_lower (s_eventTypeHeader o')}"

definition merge_headers :: "sender_opts \<Rightarrow> (jstr, jstr) assoc \<Rightarrow> (jstr, jstr) assoc \<Rightarrow> (jstr, jstr) assoc" where
  "merge_headers o' base extra =
     foldl (\<lambda>h (k, v). if to_lower k \<notin> reserved_names o' then AList.update k v h else h) base extra"

definition dead_letter_of :: "webhook_event \<Rightarrow> jstr \<Rightarrow> int \<Rightarrow> delivery \<Rightarrow> dead_letter" where
  "dead_letter_of ev mid ts d = \<lparr> lt_id = mid, lt_url = ev_url ev, lt_type = ev_type ev, lt_payload = ev_body ev,
     lt_contentType = ev_contentType ev, lt_attempts = dl_attempts d, lt_status = dl_status d, lt_error = dl_error d,
     lt_timestamp = ts, lt_failedAt = dl_end d \<rparr>"

record sent =
  sn_headers :: "(jstr, jstr) assoc"
  sn_id :: jstr
  sn_timestamp :: int
  sn_signature :: jstr
  sn_result :: delivery
  sn_letter :: "dead_letter option"

definition send ::
  "hmac_fun \<Rightarrow> sender_opts \<Rightarrow> (jstr \<Rightarrow> int option) \<Rightarrow> (nat \<Rightarrow> int \<Rightarrow> int) \<Rightarrow> network \<Rightarrow> jstr \<Rightarrow> webhook_event \<Rightarrow> int \<Rightarrow> sender_error + sent"
where
  "send hmac o' date rnd net fresh_id ev now =
     (let mid = (case ev_id ev of None \<Rightarrow> fresh_id | Some i \<Rightarrow> i); ts = now div 1000 in
      case signWebhookPayload hmac (ev_body ev) (s_secret o') (Some (s_algorithm o')) (Some (StampInt ts)) (Some mid) of
        Inl e \<Rightarrow> Inl (Unsigned e)
      | Inr sig \<Rightarrow>
          (let d = attempts_loop o' date rnd net (s_maxAttempts o') 1 now in
           Inr \<lparr> sn_headers = merge_headers o' (base_headers o' ev mid ts sig) (ev_headers ev), sn_id = mid, sn_timestamp = ts,
             sn_signature = sig, sn_result = d, sn_letter = (if dl_ok d then None else Some (dead_letter_of ev mid ts d)) \<rparr>))"

section \<open>The bounded sink\<close>

definition sink_add :: "nat \<Rightarrow> dead_letter list \<Rightarrow> dead_letter \<Rightarrow> dead_letter list" where
  "sink_add capacity items l = (let items' = items @ [l] in if length items' > capacity then tl items' else items')"

lemmas [eval] = default_retry_statuses_def default_sender_def createWebhookSender_def retry_after_ms_def
  capped_backoff_def backoff_for_def add_start_def sleep_until_def base_headers_def reserved_names_def
  merge_headers_def dead_letter_of_def send_def sink_add_def

section \<open>How a delivery ends\<close>

definition success :: "answer \<Rightarrow> bool" where
  "success a = (case a of Response st ra \<Rightarrow> 200 \<le> st \<and> st \<le> 299 | Thrown s m \<Rightarrow> False)"

definition transient :: "sender_opts \<Rightarrow> answer \<Rightarrow> bool" where
  "transient o' a = (case a of Response st ra \<Rightarrow> \<not> (200 \<le> st \<and> st \<le> 299) \<and> st \<in> set (s_retryStatuses o') | Thrown ssrf m \<Rightarrow> \<not> ssrf)"

lemma add_start_simps [simp]:
  "dl_ok (add_start t d) = dl_ok d" "dl_attempts (add_start t d) = dl_attempts d" "dl_status (add_start t d) = dl_status d"
  "dl_error (add_start t d) = dl_error d" "dl_starts (add_start t d) = t # dl_starts d" "dl_end (add_start t d) = dl_end d"
  by (simp_all add: add_start_def)

definition retry_header :: "answer \<Rightarrow> jstr option option" where
  "retry_header a = (case a of Response st ra \<Rightarrow> Some ra | Thrown s m \<Rightarrow> None)"

definition last_attempt :: "answer \<Rightarrow> nat \<Rightarrow> int \<Rightarrow> int \<Rightarrow> delivery" where
  "last_attempt a attempt now now' = \<lparr> dl_ok = success a, dl_attempts = attempt,
     dl_status = (case a of Response st ra \<Rightarrow> Some st | Thrown s m \<Rightarrow> None),
     dl_error = (case a of Response st ra \<Rightarrow> None | Thrown s m \<Rightarrow> Some m), dl_starts = [now], dl_end = now' \<rparr>"

text \<open>One iteration: on to the next attempt after the backoff, or done.\<close>

lemma loop_step:
  "net attempt = (a, took) \<Longrightarrow> attempts_loop o' date rnd net (Suc left) attempt now =
    (if \<not> success a \<and> transient o' a \<and> attempt < s_maxAttempts o'
     then add_start now (attempts_loop o' date rnd net left (attempt + 1)
            (sleep_until (now + took) (backoff_for o' date rnd attempt (retry_header a) (now + took))))
     else last_attempt a attempt now (now + took))"
  by (cases a) (auto simp: success_def transient_def retry_header_def last_attempt_def Let_def)

definition well_ended :: "sender_opts \<Rightarrow> network \<Rightarrow> nat \<Rightarrow> delivery \<Rightarrow> bool" where
  "well_ended o' net attempt d \<longleftrightarrow> attempt \<le> dl_attempts d \<and> dl_attempts d \<le> s_maxAttempts o'
    \<and> length (dl_starts d) + attempt = dl_attempts d + 1
    \<and> (\<forall>i. attempt \<le> i \<and> i < dl_attempts d \<longrightarrow> transient o' (fst (net i)) \<and> \<not> success (fst (net i)))
    \<and> dl_ok d = success (fst (net (dl_attempts d)))
    \<and> (dl_ok d \<or> \<not> transient o' (fst (net (dl_attempts d))) \<or> dl_attempts d = s_maxAttempts o')"

lemma well_ended_step:
  assumes "well_ended o' net (attempt + 1) d" and "transient o' (fst (net attempt))" and "\<not> success (fst (net attempt))"
  shows "well_ended o' net attempt (add_start now d)"
proof -
  have "transient o' (fst (net i)) \<and> \<not> success (fst (net i))" if "attempt \<le> i" "i < dl_attempts d" for i
    using assms that by (cases "i = attempt") (auto simp: well_ended_def)
  with assms(1) show ?thesis by (auto simp: well_ended_def)
qed

lemma loop_outcome:
  assumes "attempt + left = s_maxAttempts o' + 1" and "0 < left"
  shows "well_ended o' net attempt (attempts_loop o' date rnd net left attempt now)"
  using assms
proof (induction left arbitrary: attempt now)
  case (Suc left)
  obtain a took where net: "net attempt = (a, took)" by (cases "net attempt")
  note step = loop_step [where net = net and attempt = attempt and a = a and took = took and o' = o'
      and date = date and rnd = rnd and left = left and now = now, OF net]
  show ?case
  proof (cases "\<not> success a \<and> transient o' a \<and> attempt < s_maxAttempts o'")
    case True
    then have "0 < left" "attempt + 1 + left = s_maxAttempts o' + 1" using Suc.prems by auto
    from Suc.IH [OF this(2,1)] show ?thesis
      unfolding step if_P [OF True] using True net by (intro well_ended_step) auto
  next
    case False
    then show ?thesis
      unfolding step if_not_P [OF False] using net Suc.prems by (auto simp: well_ended_def last_attempt_def)
  qed
qed simp


lemma sink_adds: "0 < c \<Longrightarrow> foldl (sink_add c) [] ls = drop (length ls - c) ls"
proof (induction ls rule: rev_induct)
  case (snoc l ls)
  then show ?case
    by (cases "length ls < c") (auto simp: sink_add_def Let_def tl_drop drop_Suc Suc_diff_le not_less)
qed simp

section \<open>Every attempt of a delivery verifies\<close>

lemma map_of_foldl_update:
  "\<forall>(k, v) \<in> set extra. P k \<longrightarrow> k \<noteq> n \<Longrightarrow>
    map_of (foldl (\<lambda>h (k, v). if P k then AList.update k v h else h) base extra) n = map_of base n"
  by (induction extra arbitrary: base) (auto simp: update_conv')

lemma reserved_kept:
  assumes "to_lower n \<in> reserved_names o'"
  shows "map_of (merge_headers o' base extra) n = map_of base n"
  unfolding merge_headers_def by (rule map_of_foldl_update) (use assms in auto)

text \<open>The configured names are five different headers.\<close>

definition header_names_ok :: "sender_opts \<Rightarrow> bool" where
  "header_names_ok o' \<longleftrightarrow> distinct [js ''content-type'', js ''user-agent'', s_idHeader o', s_timestampHeader o',
     s_signatureHeader o', s_eventTypeHeader o']"

lemma base_lookups:
  assumes "header_names_ok o'"
  shows "map_of (base_headers o' ev mid ts sig) (s_idHeader o') = Some mid"
    "map_of (base_headers o' ev mid ts sig) (s_timestampHeader o') = Some (dec_str (nat ts))"
    "map_of (base_headers o' ev mid ts sig) (s_signatureHeader o') = Some (s_algorithm o' @ 61 # sig)"
  using assms by (auto simp: header_names_ok_def base_headers_def update_conv' Let_def split: option.splits)

lemma backoff_bound:
  assumes "\<And>n c. rnd n c \<le> max 0 c" and "0 \<le> s_maxRetryDelayMs o'"
  shows "backoff_for o' date rnd n r now \<le> s_maxRetryDelayMs o'"
proof -
  have "rnd n (min (s_maxRetryDelayMs o') x) \<le> s_maxRetryDelayMs o'" for x
    using assms(1) [of n "min (s_maxRetryDelayMs o') x"] assms(2) by linarith
  then show ?thesis
    by (auto simp: backoff_for_def capped_backoff_def Let_def split: option.splits)
qed

lemma starts_bound:
  assumes "\<And>n. 0 \<le> snd (net n) \<and> snd (net n) \<le> s_timeoutMs o'"
    and "\<And>n c. rnd n c \<le> max 0 c" and "0 \<le> s_maxRetryDelayMs o'"
    and "t \<in> set (dl_starts (attempts_loop o' date rnd net left attempt now))"
  shows "now \<le> t \<and> t \<le> now + (int left - 1) * (s_maxRetryDelayMs o' + s_timeoutMs o')"
  using assms(4)
proof (induction left arbitrary: attempt now)
  case (Suc left)
  obtain a took where net: "net attempt = (a, took)" by (cases "net attempt")
  have took: "0 \<le> took" "took \<le> s_timeoutMs o'" using assms(1) [of attempt] net by auto
  have pos: "0 \<le> int left * (s_maxRetryDelayMs o' + s_timeoutMs o')" using assms(3) took by simp
  note step = loop_step [where net = net and attempt = attempt and a = a and took = took and o' = o'
      and date = date and rnd = rnd and left = left and now = now, OF net]
  show ?case
  proof (cases "\<not> success a \<and> transient o' a \<and> attempt < s_maxAttempts o' \<and> t \<noteq> now")
    case True
    let ?d = "backoff_for o' date rnd attempt (retry_header a) (now + took)"
    have "t \<in> set (dl_starts (attempts_loop o' date rnd net left (attempt + 1) (sleep_until (now + took) ?d)))"
      using Suc.prems True unfolding step by auto
    from Suc.IH [OF this] have ih: "sleep_until (now + took) ?d \<le> t"
      "t \<le> sleep_until (now + took) ?d + (int left - 1) * (s_maxRetryDelayMs o' + s_timeoutMs o')" by auto
    have "now + took \<le> sleep_until (now + took) ?d" "sleep_until (now + took) ?d \<le> now + took + s_maxRetryDelayMs o'"
      using backoff_bound [where o' = o' and rnd = rnd and date = date and n = attempt and r = "retry_header a" and now = "now + took", OF assms(2,3)]
        assms(3) by (simp_all add: sleep_until_def)
    with ih took have "now \<le> t \<and> t \<le> now + s_timeoutMs o' + s_maxRetryDelayMs o' + (int left - 1) * (s_maxRetryDelayMs o' + s_timeoutMs o')"
      by linarith
    then show ?thesis by (simp add: algebra_simps)
  next
    case False
    then have "t = now" using Suc.prems unfolding step by (auto simp: last_attempt_def split: if_splits)
    with pos show ?thesis by simp
  qed
qed simp

text \<open>
  Every attempt of a delivery carries the same id, timestamp and signature, whatever extra headers
  the caller adds, and the receiver's verification accepts it when it arrives, provided the
  configuration keeps \<open>(maxAttempts - 1) * maxRetryDelayMs + maxAttempts * timeoutMs\<close> below the
  receiver's tolerance and no attempt outlives its timeout.
\<close>

lemma delivery_verifies:
  assumes "send hmac o' date rnd net fresh_id ev now = Inr r" and "header_names_ok o'"
    and "resolveWebhookAlgorithm (s_algorithm o') = Some a"
    and "\<And>m. length (hmac a (s_secret o') m) = signatureBytes a \<and> (\<forall>b \<in> set (hmac a (s_secret o') m). b < 256)"
    and "\<And>n. 0 \<le> snd (net n) \<and> snd (net n) \<le> s_timeoutMs o'"
    and "\<And>n c. rnd n c \<le> max 0 c" and "0 \<le> s_maxRetryDelayMs o'"
    and "(int (s_maxAttempts o') - 1) * s_maxRetryDelayMs o' + int (s_maxAttempts o') * s_timeoutMs o' < tol * 1000"
    and "t \<in> set (dl_starts (sn_result r))" and "t \<le> u" and "u \<le> t + s_timeoutMs o'"
  shows "\<exists>ts sig. map_of (sn_headers r) (s_idHeader o') = Some (sn_id r)
    \<and> map_of (sn_headers r) (s_timestampHeader o') = Some ts
    \<and> map_of (sn_headers r) (s_signatureHeader o') = Some sig
    \<and> verifyWebhookSignature hmac (ev_body ev) (SigText sig) (s_secret o')
        \<lparr> v_algorithm = Some (s_algorithm o'), v_timestamp = Some (StampText ts), v_id = Some (sn_id r),
          v_tolerance = Some tol, v_now = u \<rparr>"
proof -
  let ?mid = "case ev_id ev of None \<Rightarrow> fresh_id | Some i \<Rightarrow> i"
  from assms(1) obtain sig where sig: "signWebhookPayload hmac (ev_body ev) (s_secret o') (Some (s_algorithm o'))
        (Some (StampInt (now div 1000))) (Some ?mid) = Inr sig"
    and r: "sn_headers r = merge_headers o' (base_headers o' ev ?mid (now div 1000) sig) (ev_headers ev)" "sn_id r = ?mid"
      "sn_result r = attempts_loop o' date rnd net (s_maxAttempts o') 1 now"
    by (auto simp: send_def Let_def split: sum.splits)
  have res: "to_lower (s_idHeader o') \<in> reserved_names o'" "to_lower (s_timestampHeader o') \<in> reserved_names o'"
    "to_lower (s_signatureHeader o') \<in> reserved_names o'" by (simp_all add: reserved_names_def)
  have al: "s_algorithm o' = alg_name a"
    using assms(3) by (auto simp: resolveWebhookAlgorithm_def alg_name_def split: if_splits)
  have "now \<le> t \<and> t \<le> now + (int (s_maxAttempts o') - 1) * (s_maxRetryDelayMs o' + s_timeoutMs o')"
    by (rule starts_bound [OF assms(5-7)]) (use assms(9) r(3) in simp)
  then have "now \<le> u" "u < now + tol * 1000"
    using assms(8,10,11) by (simp_all add: algebra_simps)
  then have "0 \<le> u div 1000 - now div 1000" "u div 1000 - now div 1000 \<le> tol"
    by (auto simp: zdiv_mono1)
  then have "abs (u div 1000 - now div 1000) \<le> tol" by simp
  then have "verifyWebhookSignature hmac (ev_body ev) (SigText (alg_name a @ 61 # sig)) (s_secret o')
      \<lparr> v_algorithm = Some (s_algorithm o'), v_timestamp = Some (StampText (dec_str (nat (now div 1000)))), v_id = Some ?mid,
        v_tolerance = Some tol, v_now = u \<rparr>"
    by (intro sign_verify [OF sig, of a]) (use assms(3,4) in simp_all)
  then show ?thesis
    unfolding r by (simp add: reserved_kept res base_lookups [OF assms(2)] al)
qed

section \<open>A concrete delivery\<close>

definition sample_hmac :: hmac_fun where
  "sample_hmac a k m = replicate (signatureBytes a) 7"

definition sample_net :: network where
  "sample_net n = (if n = 1 then Response 503 None else Response 200 None, 20)"

definition sample_event :: webhook_event where
  "sample_event = \<lparr> ev_url = js ''https://x'', ev_body = [123, 125], ev_contentType = js ''application/json'', ev_type = None,
     ev_id = Some (js ''m1''), ev_headers = [(js ''Webhook-Signature'', js ''forged'')] \<rparr>"

lemma sample_sent:
  "\<exists>r. send sample_hmac (default_sender [9]) (\<lambda>t. None) (\<lambda>n c. 0) sample_net [] sample_event 1700000000000 = Inr r
    \<and> dl_attempts (sn_result r) = 2 \<and> dl_starts (sn_result r) = [1700000000000, 1700000000020]"
proof -
  have "signWebhookPayload sample_hmac (ev_body sample_event) [9] (Some (js ''sha256'')) (Some (StampInt 1700000000)) (Some (js ''m1''))
      = Inr (bytesToHex (sample_hmac Sha256 [9] (buildSignedPayloadBytes (ev_body sample_event) (Some 1700000000) (Some (js ''m1'')))))"
    by (simp add: signWebhookPayload_def sign_hex_def normalizeWebhookTimestamp_def max_timestamp_def isValidWebhookId_def
        resolveWebhookAlgorithm_def)
  moreover have "attempts_loop (default_sender [9]) (\<lambda>t. None) (\<lambda>n c. 0) sample_net 5 1 1700000000000
      = \<lparr> dl_ok = True, dl_attempts = 2, dl_status = Some 200, dl_error = None,
          dl_starts = [1700000000000, 1700000000020], dl_end = 1700000000040 \<rparr>"
  proof -
    have n: "sample_net 1 = (Response 503 None, 20)" "sample_net 2 = (Response 200 None, 20)" by (simp_all add: sample_net_def)
    have e: "s_maxAttempts (default_sender [9]) = 5" "transient (default_sender [9]) (Response 503 None)"
      "\<not> success (Response 503 None)" "success (Response 200 None)"
      "backoff_for (default_sender [9]) (\<lambda>t. None) (\<lambda>n c. 0) m x t = 0" if "x = Some None" for m x t
      using that by (simp_all add: default_sender_def transient_def success_def default_retry_statuses_def backoff_for_def
          capped_backoff_def retry_after_ms_def)
    have second: "attempts_loop (default_sender [9]) (\<lambda>t. None) (\<lambda>n c. 0) sample_net 4 2 t
        = last_attempt (Response 200 None) 2 t (t + 20)" for t
      using loop_step [where net = sample_net and left = 3, OF n(2)] e(4) by simp
    have "attempts_loop (default_sender [9]) (\<lambda>t. None) (\<lambda>n c. 0) sample_net (Suc 4) 1 1700000000000
        = add_start 1700000000000 (attempts_loop (default_sender [9]) (\<lambda>t. None) (\<lambda>n c. 0) sample_net 4 2 1700000000020)"
      unfolding loop_step [where net = sample_net and left = 4, OF n(1)]
      using e(2,3) by (simp add: e(1) retry_header_def sleep_until_def e(5) numerals(2) [symmetric] del: attempts_loop.simps)
    then show ?thesis by (simp add: second last_attempt_def add_start_def success_def del: attempts_loop.simps)
  qed
  ultimately show ?thesis
    by (simp add: send_def sample_event_def Let_def default_sender_def)
qed


lemma delivery_verifies_witness:
  "\<exists>(r :: sent) ts sig. map_of (sn_headers r) (js ''webhook-signature'') = Some sig
    \<and> verifyWebhookSignature sample_hmac [123, 125] (SigText sig) [9]
        \<lparr> v_algorithm = Some (js ''sha256''), v_timestamp = Some (StampText ts), v_id = Some (sn_id r), v_tolerance = Some 300,
          v_now = 1700000005000 \<rparr>"
proof -
  obtain r where r: "send sample_hmac (default_sender [9]) (\<lambda>t. None) (\<lambda>n c. 0) sample_net [] sample_event 1700000000000 = Inr r"
    "dl_starts (sn_result r) = [1700000000000, 1700000000020]" using sample_sent by blast
  have "\<exists>ts sig. map_of (sn_headers r) (s_idHeader (default_sender [9])) = Some (sn_id r)
    \<and> map_of (sn_headers r) (s_timestampHeader (default_sender [9])) = Some ts
    \<and> map_of (sn_headers r) (s_signatureHeader (default_sender [9])) = Some sig
    \<and> verifyWebhookSignature sample_hmac (ev_body sample_event) (SigText sig) (s_secret (default_sender [9]))
        \<lparr> v_algorithm = Some (s_algorithm (default_sender [9])), v_timestamp = Some (StampText ts), v_id = Some (sn_id r),
          v_tolerance = Some 300, v_now = 1700000005000 \<rparr>"
    by (rule delivery_verifies [OF r(1), of Sha256 300 1700000000020])
      (simp_all add: r(2) header_names_ok_def default_sender_def resolveWebhookAlgorithm_def sample_hmac_def signatureBytes_def sample_net_def)
  then show ?thesis unfolding default_sender_def sample_event_def sender_opts.simps webhook_event.simps by blast
qed

end
