(* ===== verification/EventLoop.thy ===== *)
theory EventLoop
  imports Prelude
begin

text \<open>
  Asynchronous code of one request. A computation runs from one \<open>await\<close> to the next as one step of the
  event loop: it settles with a value or an exception, or it suspends with the world it leaves behind
  and what it does with the world it is resumed in. \<open>run\<close> resumes it in the world it left;
  \<open>ends R Q\<close> allows any change of the world by others that \<open>R\<close> permits at each suspension.
\<close>

datatype ('e, 'w, 'a) proc = Settled 'w "'e + 'a" | Await 'w "'w \<Rightarrow> ('e, 'w, 'a) proc"

type_synonym ('e, 'w, 'a) comp = "'w \<Rightarrow> ('e, 'w, 'a) proc"

primrec settle :: "('e, 'w, 'a) proc \<Rightarrow> ('w \<Rightarrow> 'e + 'a \<Rightarrow> ('f, 'w, 'b) proc) \<Rightarrow> ('f, 'w, 'b) proc" where
  "settle (Settled w r) f = f w r"
| "settle (Await w k) f = Await w (\<lambda>w'. settle (k w') f)"

definition ret :: "'a \<Rightarrow> ('e, 'w, 'a) comp" where
  "ret a w = Settled w (Inr a)"

definition throw :: "'e \<Rightarrow> ('e, 'w, 'a) comp" where
  "throw e w = Settled w (Inl e)"

definition bind_comp :: "('e, 'w, 'a) comp \<Rightarrow> ('a \<Rightarrow> ('e, 'w, 'b) comp) \<Rightarrow> ('e, 'w, 'b) comp" where
  "bind_comp m f w = settle (m w) (\<lambda>w' r. case r of Inl e \<Rightarrow> Settled w' (Inl e) | Inr a \<Rightarrow> f a w')"

definition modify :: "('w \<Rightarrow> 'w) \<Rightarrow> ('e, 'w, unit) comp" where
  "modify f w = Settled (f w) (Inr ())"

definition catch :: "('e, 'w, 'a) comp \<Rightarrow> ('e \<Rightarrow> ('e, 'w, 'a) comp) \<Rightarrow> ('e, 'w, 'a) comp" where
  "catch m h w = settle (m w) (\<lambda>w' r. case r of Inl e \<Rightarrow> h e w' | Inr a \<Rightarrow> Settled w' (Inr a))"

text \<open>An \<open>async\<close> function answers through a promise, so whoever awaits it is suspended.\<close>

definition async :: "('e, 'w, 'a) comp \<Rightarrow> ('e, 'w, 'a) comp" where
  "async m w = settle (m w) (\<lambda>w' r. Await w' (\<lambda>w''. Settled w'' r))"

text \<open>\<open>await f(...)\<close>: suspends also when \<open>f\<close> answered at once; an exception thrown at once does not wait.\<close>

definition awaited :: "('e, 'w, 'a) comp \<Rightarrow> ('e, 'w, 'a) comp" where
  "awaited m w = (case m w of
       Settled w' (Inr a) \<Rightarrow> Await w' (\<lambda>w''. Settled w'' (Inr a))
     | p \<Rightarrow> p)"

primrec run :: "('e, 'w, 'a) proc \<Rightarrow> 'w \<times> ('e + 'a)" where
  "run (Settled w r) = (w, r)"
| "run (Await w k) = run (k w)"

primrec ends :: "('w \<Rightarrow> 'w \<Rightarrow> bool) \<Rightarrow> ('w \<Rightarrow> 'e + 'a \<Rightarrow> bool) \<Rightarrow> ('e, 'w, 'a) proc \<Rightarrow> bool" where
  "ends R Q (Settled w r) = Q w r"
| "ends R Q (Await w k) = (\<forall>w'. R w w' \<longrightarrow> ends R Q (k w'))"

text \<open>The ends a computation can have under interference: the dual of \<open>ends\<close>.\<close>

inductive reaches :: "('w \<Rightarrow> 'w \<Rightarrow> bool) \<Rightarrow> ('e, 'w, 'a) proc \<Rightarrow> 'w \<Rightarrow> 'e + 'a \<Rightarrow> bool" for R where
  reaches_settled: "reaches R (Settled w r) w r"
| reaches_await: "R w w' \<Longrightarrow> reaches R (k w') w2 r \<Longrightarrow> reaches R (Await w k) w2 r"

inductive_simps reaches_simps [simp]: "reaches R (Settled w r) w2 r2" "reaches R (Await w k) w2 r2"

section \<open>Laws\<close>

lemma settle_settle: "settle (settle p f) g = settle p (\<lambda>w r. settle (f w r) g)"
  by (induction p) auto

lemma settle_id [simp]: "settle p Settled = p"
  by (induction p) auto

lemma run_settle: "run (settle p f) = (case run p of (w, r) \<Rightarrow> run (f w r))"
  by (induction p) auto

lemma bind_ret [simp]: "bind_comp (ret a) f = f a"
  by (simp add: fun_eq_iff bind_comp_def ret_def)

lemma bind_throw [simp]: "bind_comp (throw e) f = throw e"
  by (simp add: fun_eq_iff bind_comp_def throw_def)

lemma settle_ret [simp]: "settle p (\<lambda>w' r. case r of Inl e \<Rightarrow> Settled w' (Inl e) | Inr a \<Rightarrow> ret a w') = p"
  by (induction p) (auto simp: ret_def split: sum.splits)

lemma ret_bind [simp]: "bind_comp m ret = m"
  by (simp add: fun_eq_iff bind_comp_def)

lemma bind_assoc: "bind_comp (bind_comp m f) g = bind_comp m (\<lambda>a. bind_comp (f a) g)"
  by (auto simp: fun_eq_iff bind_comp_def settle_settle intro!: arg_cong [of _ _ "settle _"] split: sum.splits)

lemma run_ret [simp]: "run (ret a w) = (w, Inr a)"
  by (simp add: ret_def)

lemma run_throw [simp]: "run (throw e w) = (w, Inl e)"
  by (simp add: throw_def)

lemma run_modify [simp]: "run (modify f w) = (f w, Inr ())"
  by (simp add: modify_def)

lemma run_bind: "run (bind_comp m f w) = (case run (m w) of (w', Inl e) \<Rightarrow> (w', Inl e) | (w', Inr a) \<Rightarrow> run (f a w'))"
  by (auto simp: bind_comp_def run_settle split: prod.splits sum.splits)

lemma run_catch: "run (catch m h w) = (case run (m w) of (w', Inl e) \<Rightarrow> run (h e w') | (w', Inr a) \<Rightarrow> (w', Inr a))"
  by (auto simp: catch_def run_settle split: prod.splits sum.splits)

lemma run_async [simp]: "run (async m w) = run (m w)"
  by (simp add: async_def run_settle split: prod.splits)

lemma run_awaited [simp]: "run (awaited m w) = run (m w)"
  by (simp add: awaited_def split: proc.splits sum.splits)

lemmas run_simps = run_ret run_throw run_modify run_bind run_catch run_async run_awaited

text \<open>Rules for what holds at every end.\<close>

lemma ends_mono: "ends R Q p \<Longrightarrow> (\<And>w r. Q w r \<Longrightarrow> Q' w r) \<Longrightarrow> ends R Q' p"
  by (induction p) auto

lemma ends_settle: "ends R (\<lambda>w r. ends R Q (f w r)) p \<Longrightarrow> ends R Q (settle p f)"
  by (induction p) auto

lemma ends_run: "ends R Q p \<Longrightarrow> (\<And>w. R w w) \<Longrightarrow> Q (fst (run p)) (snd (run p))"
  by (induction p) auto

lemma ends_bind:
  assumes "ends R (\<lambda>w r. case r of Inl e \<Rightarrow> Q w (Inl e) | Inr a \<Rightarrow> ends R Q (f a w)) (m w)"
  shows "ends R Q (bind_comp m f w)"
  unfolding bind_comp_def by (rule ends_settle, rule ends_mono [OF assms]) (simp split: sum.splits)

lemma ends_catch:
  assumes "ends R (\<lambda>w r. case r of Inl e \<Rightarrow> ends R Q (h e w) | Inr a \<Rightarrow> Q w (Inr a)) (m w)"
  shows "ends R Q (catch m h w)"
  unfolding catch_def by (rule ends_settle, rule ends_mono [OF assms]) (simp split: sum.splits)

lemma ends_awaited:
  assumes "ends R Q (m w)" and "\<And>w w' r. Q w r \<Longrightarrow> R w w' \<Longrightarrow> Q w' r"
  shows "ends R Q (awaited m w)"
proof (cases "m w")
  case (Settled w' r)
  with assms show ?thesis by (cases r) (auto simp: awaited_def)
next
  case (Await w' k)
  with assms(1) show ?thesis by (simp add: awaited_def)
qed

lemma ends_async:
  assumes "ends R Q (m w)" and "\<And>w w' r. Q w r \<Longrightarrow> R w w' \<Longrightarrow> Q w' r"
  shows "ends R Q (async m w)"
  unfolding async_def by (rule ends_settle, rule ends_mono [OF assms(1)]) (auto intro: assms(2))

lemma reaches_ends: "ends R Q p \<longleftrightarrow> (\<forall>w r. reaches R p w r \<longrightarrow> Q w r)"
  by (induction p) auto

lemma reaches_settle: "reaches R (settle p f) w r \<longleftrightarrow> (\<exists>w1 r1. reaches R p w1 r1 \<and> reaches R (f w1 r1) w r)"
  by (induction p) auto

lemma reaches_run: "(\<And>w. R w w) \<Longrightarrow> reaches R p (fst (run p)) (snd (run p))"
  by (induction p) auto

lemma reaches_bind: "reaches R (bind_comp m f w) w2 r \<longleftrightarrow>
    (\<exists>w1 r1. reaches R (m w) w1 r1 \<and> (case r1 of Inl e \<Rightarrow> w2 = w1 \<and> r = Inl e | Inr a \<Rightarrow> reaches R (f a w1) w2 r))"
  unfolding bind_comp_def reaches_settle by (rule arg_cong [of _ _ Ex], rule ext, rule arg_cong [of _ _ Ex], rule ext)
    (auto split: sum.splits)

lemma reaches_catch: "reaches R (catch m h w) w2 r \<longleftrightarrow>
    (\<exists>w1 r1. reaches R (m w) w1 r1 \<and> (case r1 of Inl e \<Rightarrow> reaches R (h e w1) w2 r | Inr a \<Rightarrow> w2 = w1 \<and> r = Inr a))"
  unfolding catch_def reaches_settle by (rule arg_cong [of _ _ Ex], rule ext, rule arg_cong [of _ _ Ex], rule ext)
    (auto split: sum.splits)

lemma reaches_ret [simp]: "reaches R (ret a w) w2 r \<longleftrightarrow> w2 = w \<and> r = Inr a"
  by (auto simp: ret_def)

lemma reaches_throw [simp]: "reaches R (throw e w) w2 r \<longleftrightarrow> w2 = w \<and> r = Inl e"
  by (auto simp: throw_def)

lemma reaches_modify [simp]: "reaches R (modify f w) w2 r \<longleftrightarrow> w2 = f w \<and> r = Inr ()"
  by (auto simp: modify_def)

section \<open>The finally block\<close>

text \<open>
  \<open>try { body } catch (e) { prepare; return finish } finally { g }\<close>, where the \<open>try\<close> part awaits what it
  returns and the \<open>catch\<close> part returns the promise of \<open>finish\<close> without awaiting it: then \<open>g\<close> runs as soon as
  \<open>finish\<close> first suspends.
\<close>

definition unawaited :: "('w \<Rightarrow> 'w) \<Rightarrow> ('e, 'w, 'a) proc \<Rightarrow> ('e, 'w, 'a) proc" where
  "unawaited g p = (case p of Settled w r \<Rightarrow> Settled (g w) r | Await w k \<Rightarrow> Await (g w) k)"

definition try_catch_finally :: "('e, 'w, 'a) comp \<Rightarrow> ('e \<Rightarrow> ('e, 'w, 'b) comp) \<Rightarrow> ('b \<Rightarrow> ('e, 'w, 'a) comp) \<Rightarrow> ('w \<Rightarrow> 'w) \<Rightarrow>
    ('e, 'w, 'a) comp" where
  "try_catch_finally body prepare finish g w =
     settle (body w) (\<lambda>w1 r. case r of
         Inr a \<Rightarrow> Settled (g w1) (Inr a)
       | Inl e \<Rightarrow> settle (prepare e w1) (\<lambda>w2 r2. case r2 of
             Inl e' \<Rightarrow> Settled (g w2) (Inl e')
           | Inr b \<Rightarrow> unawaited g (finish b w2)))"

end
