(* ===== verification/HookChain.thy ===== *)
theory HookChain
  imports EventLoop Json "HOL-Library.Multiset"
begin

text \<open>
  How the hooks of several layers become one: \<open>mergeHooks\<close> and its helpers of \<open>app.ts\<close>, the order of
  stored-response hooks and the pre-body composition of \<open>middleware.ts\<close>, and \<open>every_of\<close>, \<open>some\<close>, \<open>except\<close>
  of \<open>combine.ts\<close>, with the finalizers of \<open>request-finalizers.ts\<close>. A hook is a computation over the
  world shared by all requests and the context of its own request; user code is arbitrary. The identity
  of a \<open>beforeHandle\<close> function (\<open>===\<close>) is a number.
\<close>

section \<open>The context of a request\<close>

text \<open>
  What a schema, a parser or a handler hands on: nothing, a JSON value, or a value JSON has no form for.
\<close>

datatype jvalue = Undefined | Value json | Bytes "nat list" | Stream nat | Opaque nat

text \<open>The bytes of a body that has not been read, in the pieces they arrive in.\<close>

datatype body_stream = NoStream | Unread "nat list list" | Disturbed

text \<open>\<open>cx_requestId\<close> to \<open>cx_state\<close> is \<open>ctx.state\<close>, \<open>cx_headers\<close> is \<open>ctx.set.headers\<close>.\<close>

record 'u ctx =
  cx_requestId :: jstr
  cx_authRan :: bool
  cx_authOptional :: bool
  cx_scopes :: "jstr list"
  cx_finalizers :: "nat list"
  cx_state :: 'u
  cx_headers :: "(jstr, jstr) assoc"
  cx_params :: jvalue
  cx_query :: jvalue
  cx_reqHeaders :: jvalue
  cx_body :: jvalue
  cx_raw :: "nat list option"
  cx_stream :: body_stream

type_synonym ('s, 'u) hook_world = "'s \<times> 'u ctx option"

definition on_ctx :: "('u ctx \<Rightarrow> 'u ctx) \<Rightarrow> ('s, 'u) hook_world \<Rightarrow> ('s, 'u) hook_world" where
  "on_ctx f w = (fst w, map_option f (snd w))"

definition registerRequestFinalizer :: "nat \<Rightarrow> 'u ctx \<Rightarrow> 'u ctx" where
  "registerRequestFinalizer n c = c\<lparr>cx_finalizers := cx_finalizers c @ [n]\<rparr>"

text \<open>The effect of a finalizer on the shared world; one that throws has the effect it had until then.\<close>

definition runRequestFinalizers :: "(nat \<Rightarrow> 's \<Rightarrow> 's) \<Rightarrow> ('s, 'u) hook_world \<Rightarrow> ('s, 'u) hook_world" where
  "runRequestFinalizers fin w = (case snd w of None \<Rightarrow> w
     | Some c \<Rightarrow> (fold fin (cx_finalizers c) (fst w), Some (c\<lparr>cx_finalizers := []\<rparr>)))"

definition rollbackRequestFinalizers :: "(nat \<Rightarrow> 's \<Rightarrow> 's) \<Rightarrow> nat \<Rightarrow> ('s, 'u) hook_world \<Rightarrow> ('s, 'u) hook_world" where
  "rollbackRequestFinalizers fin mark w = (case snd w of None \<Rightarrow> w
     | Some c \<Rightarrow> (fold fin (drop mark (cx_finalizers c)) (fst w), Some (c\<lparr>cx_finalizers := take mark (cx_finalizers c)\<rparr>)))"

section \<open>Layers\<close>

type_synonym ('e, 'w, 'r) hook_gate = "('e, 'w, 'r option) comp"

record ('e, 'w, 'r, 'v) layer =
  l_onRequest :: "('e, 'w, unit) comp option"
  l_preBody :: "('e, 'w, 'r) hook_gate option"
  l_beforeHandle :: "(nat \<times> ('e, 'w, 'r) hook_gate) option"
  l_afterHandle :: "('v \<Rightarrow> ('e, 'w, 'v) hook_gate) option"
  l_onError :: "('e \<Rightarrow> ('e, 'w, 'r) hook_gate) option"
  l_onSend :: "('r \<Rightarrow> ('e, 'w, 'r) hook_gate) option"
  l_onResponse :: "('r \<Rightarrow> ('e, 'w, unit) comp) option"
  l_early :: "('e, 'w, 'r) hook_gate list"
  l_deferred :: "('e, 'w, 'r) hook_gate list"
  l_deferredOnly :: bool
  l_replay :: bool
  l_auth :: bool
  l_requiredScopes :: "jstr list"

datatype ('e, 'w, 'r, 'v) hooks =
  Hooks (base: "('e, 'w, 'r, 'v) layer") (combined: "(nat \<times> ('e, 'w, 'r, 'v) hooks list) option")

definition no_hooks :: "('e, 'w, 'r, 'v) layer" where
  "no_hooks = \<lparr> l_onRequest = None, l_preBody = None, l_beforeHandle = None, l_afterHandle = None, l_onError = None,
     l_onSend = None, l_onResponse = None, l_early = [], l_deferred = [], l_deferredOnly = False, l_replay = False,
     l_auth = False, l_requiredScopes = [] \<rparr>"

definition pick :: "(('e, 'w, 'r, 'v) layer \<Rightarrow> 'f option) \<Rightarrow> ('e, 'w, 'r, 'v) hooks list \<Rightarrow> 'f list" where
  "pick key layers = List.map_filter (\<lambda>h. key (base h)) layers"

section \<open>Sequencing\<close>

fun each :: "('a \<Rightarrow> ('e, 'w, unit) comp) list \<Rightarrow> 'a \<Rightarrow> ('e, 'w, unit) comp" where
  "each [] a = ret ()"
| "each (f # fs) a = bind_comp (awaited (f a)) (\<lambda>_. each fs a)"

fun first_of :: "('a \<Rightarrow> ('e, 'w, 'r) hook_gate) list \<Rightarrow> 'a \<Rightarrow> ('e, 'w, 'r) hook_gate" where
  "first_of [] a = ret None"
| "first_of (f # fs) a = bind_comp (awaited (f a)) (\<lambda>r. case r of Some x \<Rightarrow> ret (Some x) | None \<Rightarrow> first_of fs a)"

fun pipe :: "('v \<Rightarrow> ('e, 'w, 'v) hook_gate) list \<Rightarrow> 'v \<Rightarrow> ('e, 'w, 'v) comp" where
  "pipe [] v = ret v"
| "pipe (f # fs) v = bind_comp (awaited (f v)) (\<lambda>r. pipe fs (case r of Some v' \<Rightarrow> v' | None \<Rightarrow> v))"

definition chain :: "('a \<Rightarrow> ('e, 'w, unit) comp) list \<Rightarrow> ('a \<Rightarrow> ('e, 'w, unit) comp) option" where
  "chain fs = (case fs of [] \<Rightarrow> None | [f] \<Rightarrow> Some f | _ \<Rightarrow> Some (\<lambda>a. async (each fs a)))"

definition firstResponse :: "('a \<Rightarrow> ('e, 'w, 'r) hook_gate) list \<Rightarrow> ('a \<Rightarrow> ('e, 'w, 'r) hook_gate) option" where
  "firstResponse fs = (case fs of [] \<Rightarrow> None | [f] \<Rightarrow> Some f | _ \<Rightarrow> Some (\<lambda>a. async (first_of fs a)))"

definition pipeline :: "('v \<Rightarrow> ('e, 'w, 'v) hook_gate) list \<Rightarrow> ('v \<Rightarrow> ('e, 'w, 'v) hook_gate) option" where
  "pipeline fs = (case fs of [] \<Rightarrow> None | [f] \<Rightarrow> Some f
     | _ \<Rightarrow> Some (\<lambda>v. async (bind_comp (pipe fs v) (\<lambda>v'. ret (Some v')))))"

definition responsePipeline :: "('r \<Rightarrow> ('e, 'w, 'r) hook_gate) list \<Rightarrow> ('r \<Rightarrow> ('e, 'w, 'r) hook_gate) option" where
  "responsePipeline fs = (case fs of [] \<Rightarrow> None | [f] \<Rightarrow> Some f
     | _ \<Rightarrow> Some (\<lambda>v. async (bind_comp (pipe fs v) (\<lambda>v'. ret (Some v')))))"

definition add_scopes :: "jstr list \<Rightarrow> jstr list \<Rightarrow> jstr list" where
  "add_scopes out scopes = fold (\<lambda>s out. if s \<in> set out then out else out @ [s]) scopes out"

definition requiredScopesFromHooks :: "('e, 'w, 'r, 'v) hooks list \<Rightarrow> jstr list" where
  "requiredScopesFromHooks layers = fold (\<lambda>h out. add_scopes out (l_requiredScopes (base h))) layers []"

definition mergeBeforeHandle :: "('e, ('s, 'u) hook_world, 'r) hook_gate option \<Rightarrow> jstr list \<Rightarrow>
    ('e, ('s, 'u) hook_world, 'r) hook_gate option" where
  "mergeBeforeHandle f scopes =
     (if scopes = [] then f
      else Some (async (bind_comp (modify (on_ctx (\<lambda>c. c\<lparr>cx_scopes := add_scopes (cx_scopes c) scopes\<rparr>)))
        (\<lambda>_. case f of None \<Rightarrow> ret None | Some g \<Rightarrow> g))))"

section \<open>The order of \<open>beforeHandle\<close> hooks\<close>

record ('e, 'w, 'r) entry =
  en_gate :: "('e, 'w, 'r) hook_gate"
  en_replay :: bool
  en_auth :: bool

fun collect :: "('e, 'w, 'r, 'v) hooks \<Rightarrow> ('e, 'w, 'r) entry list" where
  "collect (Hooks l c) =
     (case l_beforeHandle l of None \<Rightarrow> []
      | Some (i, g) \<Rightarrow>
          (case c of
             Some (j, ls) \<Rightarrow> if i = j then concat (map collect ls)
               else [\<lparr> en_gate = g, en_replay = l_replay l, en_auth = l_auth l \<rparr>]
           | None \<Rightarrow> [\<lparr> en_gate = g, en_replay = l_replay l, en_auth = l_auth l \<rparr>]))"

definition first_index :: "('a \<Rightarrow> bool) \<Rightarrow> 'a list \<Rightarrow> nat option" where
  "first_index P xs = (if list_ex P xs then Some (length (takeWhile (\<lambda>x. \<not> P x) xs)) else None)"

definition last_index :: "('a \<Rightarrow> bool) \<Rightarrow> 'a list \<Rightarrow> nat option" where
  "last_index P xs = (case first_index P (rev xs) of None \<Rightarrow> None | Some i \<Rightarrow> Some (length xs - Suc i))"

definition order_entries :: "('e, 'w, 'r) entry list \<Rightarrow> ('e, 'w, 'r) entry list" where
  "order_entries es =
     (case (first_index en_replay es, last_index en_auth es) of
        (Some firstReplay, Some lastAuth) \<Rightarrow>
          if lastAuth \<le> firstReplay then es
          else (let span = drop firstReplay (take (Suc lastAuth) es) in
            take firstReplay es
            @ filter (\<lambda>e. \<not> en_replay e) span
            @ filter (\<lambda>e. en_replay e \<and> en_auth e) span
            @ filter (\<lambda>e. en_replay e \<and> \<not> en_auth e) span
            @ drop (Suc lastAuth) es)
      | _ \<Rightarrow> es)"

definition orderBeforeHandleForReplay :: "('e, 'w, 'r, 'v) hooks list \<Rightarrow> ('e, 'w, 'r) hook_gate list" where
  "orderBeforeHandleForReplay layers = map en_gate (order_entries (concat (map collect layers)))"

section \<open>Pre-body hooks\<close>

text \<open>Charge the pending request budgets; the last one that answers replaces the response.\<close>

fun charge :: "('e, 'w, 'r) hook_gate list \<Rightarrow> 'r option \<Rightarrow> ('e, 'w, 'r) hook_gate" where
  "charge [] response = ret response"
| "charge (h # hs) response = bind_comp (awaited h) (\<lambda>r. charge hs (case r of Some x \<Rightarrow> Some x | None \<Rightarrow> response))"

datatype 'r guard_result = Passed | Rejected 'r | Replaced 'r

definition run_guard :: "('e, 'w, 'r) hook_gate \<Rightarrow> ('e, 'w, 'r) hook_gate list \<Rightarrow> ('e, 'w, 'r guard_result) comp" where
  "run_guard f pending =
     catch (bind_comp (awaited f) (\<lambda>r. ret (case r of None \<Rightarrow> Passed | Some x \<Rightarrow> Rejected x)))
       (\<lambda>err. bind_comp (charge pending None) (\<lambda>r. case r of Some x \<Rightarrow> ret (Replaced x) | None \<Rightarrow> throw err))"

fun pre_body_walk :: "('e, 'w, 'r, 'v) hooks list \<Rightarrow> ('e, 'w, 'r) hook_gate list \<Rightarrow> ('e, 'w, 'r) hook_gate list \<Rightarrow> ('e, 'w, 'r) hook_gate" where
  "pre_body_walk [] pending deferred = first_of (map (\<lambda>g _. g) deferred) ()"
| "pre_body_walk (h # hs) pending deferred =
     (let pending' = pending @ l_early (base h) in
      case (if l_deferredOnly (base h) then None else l_preBody (base h)) of
        None \<Rightarrow> pre_body_walk hs pending' deferred
      | Some f \<Rightarrow> bind_comp (run_guard f pending') (\<lambda>r. case r of
            Passed \<Rightarrow> pre_body_walk hs pending' deferred
          | Rejected x \<Rightarrow> charge pending' (Some x)
          | Replaced x \<Rightarrow> ret (Some x)))"

definition mergePreBodyWithEarlyRejections :: "('e, 'w, 'r, 'v) hooks list \<Rightarrow> bool \<Rightarrow> ('e, 'w, 'r) hook_gate option" where
  "mergePreBodyWithEarlyRejections layers includeDeferred =
     (let hasNormal = list_ex (\<lambda>h. l_preBody (base h) \<noteq> None \<and> \<not> l_deferredOnly (base h)) layers;
          deferred = (if includeDeferred then concat (map (\<lambda>h. l_deferred (base h)) layers) else []) in
      if \<not> hasNormal \<and> deferred = [] then None
      else Some (async (pre_body_walk layers [] deferred)))"

section \<open>Merging\<close>

text \<open>The merged bundle of a route; \<open>i\<close> is the identity of its \<open>beforeHandle\<close>.\<close>

definition mergeHooks :: "nat \<Rightarrow> ('e, ('s, 'u) hook_world, 'r, 'v) hooks list \<Rightarrow> ('e, ('s, 'u) hook_world, 'r, 'v) hooks" where
  "mergeHooks i layers =
     (let scopes = requiredScopesFromHooks layers in
      Hooks (no_hooks\<lparr>
        l_onRequest := map_option (\<lambda>f. f ()) (chain (map (\<lambda>f _. f) (pick l_onRequest layers))),
        l_preBody := mergePreBodyWithEarlyRejections layers True,
        l_beforeHandle := map_option (Pair i) (mergeBeforeHandle
          (map_option (\<lambda>f. f ()) (firstResponse (map (\<lambda>g _. g) (orderBeforeHandleForReplay layers)))) scopes),
        l_afterHandle := pipeline (pick l_afterHandle layers),
        l_onError := firstResponse (pick l_onError layers),
        l_onSend := responsePipeline (pick l_onSend layers),
        l_onResponse := chain (pick l_onResponse layers),
        l_requiredScopes := scopes\<rparr>) None)"

definition optional :: "'f list \<Rightarrow> 'g \<Rightarrow> 'g option" where
  "optional fs g = (if fs = [] then None else Some g)"

text \<open>\<open>mergeCombineHooks\<close> of \<open>combine.ts\<close>, which is \<open>every_of\<close>.\<close>

definition every_of :: "nat \<Rightarrow> ('e, 'w, 'r, 'v) hooks list \<Rightarrow> ('e, 'w, 'r, 'v) hooks" where
  "every_of i layers =
     (let perimeter = mergePreBodyWithEarlyRejections layers False;
          inflating = mergePreBodyWithEarlyRejections layers True;
          gates = orderBeforeHandleForReplay layers in
      Hooks \<lparr>
        l_onRequest = optional (pick l_onRequest layers) (async (each (map (\<lambda>f _. f) (pick l_onRequest layers)) ())),
        l_preBody = (if perimeter \<noteq> None then perimeter else inflating),
        l_beforeHandle = optional gates (i, async (first_of (map (\<lambda>g _. g) gates) ())),
        l_afterHandle = optional (pick l_afterHandle layers)
          (\<lambda>v. async (bind_comp (pipe (pick l_afterHandle layers) v) (\<lambda>v'. ret (Some v')))),
        l_onError = optional (pick l_onError layers) (\<lambda>e. async (first_of (pick l_onError layers) e)),
        l_onSend = optional (pick l_onSend layers)
          (\<lambda>v. async (bind_comp (pipe (pick l_onSend layers) v) (\<lambda>v'. ret (Some v')))),
        l_onResponse = optional (pick l_onResponse layers) (\<lambda>r. async (each (pick l_onResponse layers) r)),
        l_early = (if perimeter \<noteq> None then [] else concat (map (\<lambda>h. l_early (base h)) layers)),
        l_deferred = concat (map (\<lambda>h. l_deferred (base h)) layers),
        l_deferredOnly = (perimeter = None \<and> inflating \<noteq> None),
        l_replay = list_ex (\<lambda>h. l_replay (base h)) layers,
        l_auth = list_ex (\<lambda>h. l_auth (base h)) layers,
        l_requiredScopes = requiredScopesFromHooks layers\<rparr>
       (if gates = [] then None else Some (i, layers)))"

section \<open>\<open>some\<close>\<close>

text \<open>\<open>snapshotState\<close> and \<open>restoreState\<close>: everything on \<open>ctx.state\<close>; the rest of the context is not part of it.\<close>

definition restoreState :: "'u ctx \<Rightarrow> 'u ctx \<Rightarrow> 'u ctx" where
  "restoreState snapshot c = c\<lparr>cx_requestId := cx_requestId snapshot, cx_authRan := cx_authRan snapshot,
     cx_authOptional := cx_authOptional snapshot, cx_scopes := cx_scopes snapshot, cx_state := cx_state snapshot\<rparr>"

definition undo_branch :: "(nat \<Rightarrow> 's \<Rightarrow> 's) \<Rightarrow> 'u ctx \<Rightarrow> ('s, 'u) hook_world \<Rightarrow> ('s, 'u) hook_world" where
  "undo_branch fin snapshot w =
     on_ctx (restoreState snapshot) (rollbackRequestFinalizers fin (length (cx_finalizers snapshot)) w)"

fun run_candidates :: "(nat \<Rightarrow> 's \<Rightarrow> 's) \<Rightarrow> 'u ctx \<Rightarrow> ('e, ('s, 'u) hook_world, 'r) hook_gate list \<Rightarrow> ('e + 'r) option \<Rightarrow>
    ('e, ('s, 'u) hook_world, 'r) hook_gate" where
  "run_candidates fin snapshot [] firstFailure =
     (case firstFailure of Some (Inr res) \<Rightarrow> ret (Some res) | Some (Inl err) \<Rightarrow> throw err | None \<Rightarrow> ret None)"
| "run_candidates fin snapshot (f # fs) firstFailure =
     bind_comp (catch (bind_comp (awaited f) (\<lambda>r. ret (case r of None \<Rightarrow> None | Some x \<Rightarrow> Some (Inr x))))
         (\<lambda>err. ret (Some (Inl err))))
       (\<lambda>r. case r of None \<Rightarrow> ret None
          | Some failure \<Rightarrow> bind_comp (modify (undo_branch fin snapshot))
              (\<lambda>_. run_candidates fin snapshot fs (if firstFailure = None then Some failure else firstFailure)))"

definition with_snapshot :: "('u ctx \<Rightarrow> ('e, ('s, 'u) hook_world, 'r) hook_gate) \<Rightarrow> ('e, ('s, 'u) hook_world, 'r) hook_gate" where
  "with_snapshot f w = (case snd w of None \<Rightarrow> Settled w (Inr None) | Some c \<Rightarrow> f c w)"

definition both_gates :: "('e, 'w, 'r) hook_gate \<Rightarrow> ('e, 'w, 'r) hook_gate \<Rightarrow> ('e, 'w, 'r) hook_gate" where
  "both_gates p b = async (bind_comp (awaited p) (\<lambda>r. case r of Some x \<Rightarrow> ret (Some x) | None \<Rightarrow> b))"

definition candidate_gate :: "('e, 'w, 'r, 'v) hooks \<Rightarrow> ('e, 'w, 'r) hook_gate list" where
  "candidate_gate h = (case (l_preBody (base h), l_beforeHandle (base h)) of
       (Some p, Some (i, b)) \<Rightarrow> [both_gates p b]
     | (Some p, None) \<Rightarrow> [p]
     | (None, Some (i, b)) \<Rightarrow> [b]
     | (None, None) \<Rightarrow> [])"

definition some_of :: "(nat \<Rightarrow> 's \<Rightarrow> 's) \<Rightarrow> nat \<Rightarrow> ('e, ('s, 'u) hook_world, 'r, 'v) hooks list \<Rightarrow>
    ('e, ('s, 'u) hook_world, 'r, 'v) hooks" where
  "some_of fin i layers =
     (if layers = [] then Hooks no_hooks None
      else (let b = every_of i (map (\<lambda>h. Hooks ((base h)\<lparr>l_preBody := None, l_beforeHandle := None\<rparr>) (combined h)) layers);
          pre = pick l_preBody layers; before = pick l_beforeHandle layers;
          usePreBody = (pre \<noteq> [] \<and> before = []);
          candidates = (if usePreBody then pre else concat (map candidate_gate layers));
          hook_gate = async (with_snapshot (\<lambda>c. run_candidates fin c candidates None)) in
        if candidates = [] then b
        else if usePreBody then Hooks ((base b)\<lparr>l_preBody := Some hook_gate\<rparr>) (combined b)
        else Hooks ((base b)\<lparr>l_beforeHandle := Some (i, hook_gate)\<rparr>) (combined b)))"

section \<open>\<open>except\<close>\<close>

datatype pattern_token = Char nat | OneSegment | AnyPath

fun pattern_tokens :: "jstr \<Rightarrow> pattern_token list" where
  "pattern_tokens [] = []"
| "pattern_tokens (c # s) =
     (if c = 42 then (case s of d # t \<Rightarrow> if d = 42 then AnyPath # pattern_tokens t else OneSegment # pattern_tokens s
        | [] \<Rightarrow> [OneSegment])
      else Char c # pattern_tokens s)"

function glob :: "pattern_token list \<Rightarrow> jstr \<Rightarrow> bool" where
  "glob [] s = (s = [])"
| "glob (Char c # t) s = (case s of [] \<Rightarrow> False | x # s' \<Rightarrow> x = c \<and> glob t s')"
| "glob (OneSegment # t) s = (case s of [] \<Rightarrow> False | x # s' \<Rightarrow> x \<noteq> 47 \<and> (glob t s' \<or> glob (OneSegment # t) s'))"
| "glob (AnyPath # t) s = (glob t s \<or> (case s of [] \<Rightarrow> False | x # s' \<Rightarrow> x \<notin> {10, 13, 8232, 8233} \<and> glob (AnyPath # t) s'))"
  by pat_completeness auto
termination by (relation "measure (\<lambda>(t, s). length t + length s)") auto

fun strip_slashes_rev :: "jstr \<Rightarrow> jstr" where
  "strip_slashes_rev (c # d # s) = (if c = 47 then strip_slashes_rev (d # s) else c # d # s)"
| "strip_slashes_rev s = s"

definition trim_path :: "jstr \<Rightarrow> jstr" where
  "trim_path s = rev (strip_slashes_rev (rev s))"

definition compilePathPattern :: "jstr \<Rightarrow> (jstr \<Rightarrow> bool) option" where
  "compilePathPattern p =
     (if p = [] \<or> hd p \<noteq> 47 then None
      else if 42 \<notin> set p then Some (\<lambda>s. s = trim_path p)
      else Some (glob (pattern_tokens p)))"

definition exempt_path :: "jstr list \<Rightarrow> jstr \<Rightarrow> bool" where
  "exempt_path patterns pathname =
     list_ex (\<lambda>p. case compilePathPattern p of None \<Rightarrow> False | Some m \<Rightarrow> m (trim_path pathname)) patterns"

definition unless :: "('e, 'w, bool) comp \<Rightarrow> ('e, 'w, 'r) hook_gate \<Rightarrow> ('e, 'w, 'r) hook_gate" where
  "unless matches g = async (bind_comp (awaited matches) (\<lambda>m. if m then ret None else g))"

text \<open>\<open>i\<close> is the identity of the wrapped \<open>beforeHandle\<close>.\<close>

definition except :: "nat \<Rightarrow> ('e, 'w, bool) comp \<Rightarrow> ('e, 'w, 'r, 'v) hooks \<Rightarrow> ('e, 'w, 'r, 'v) hooks" where
  "except i matches h =
     (let l = base h in
      if l_preBody l = None \<and> l_beforeHandle l = None \<and> l_early l = [] \<and> l_deferred l = [] then h
      else Hooks (l\<lparr>
        l_early := map (unless matches) (l_early l),
        l_deferred := map (unless matches) (l_deferred l),
        l_preBody := map_option (unless matches) (l_preBody l),
        l_beforeHandle := map_option (\<lambda>(j, g). (i, unless matches g)) (l_beforeHandle l)\<rparr>) None)"

section \<open>Replays come after authentication\<close>

lemma first_index_split:
  assumes "first_index P es = Some i"
  shows "\<forall>x \<in> set (take i es). \<not> P x" and "i < length es" and "P (es ! i)"
proof -
  from assms have ex: "\<exists>x \<in> set es. P x" and i: "i = length (takeWhile (\<lambda>x. \<not> P x) es)"
    by (auto simp: first_index_def list_ex_iff split: if_splits)
  have "take i es = takeWhile (\<lambda>x. \<not> P x) es" unfolding i by (rule takeWhile_eq_take [symmetric])
  then show "\<forall>x \<in> set (take i es). \<not> P x" by (auto dest: set_takeWhileD)
  have "takeWhile (\<lambda>x. \<not> P x) es \<noteq> es" using ex by (metis set_takeWhileD)
  then show "i < length es" unfolding i by (metis le_neq_implies_less length_takeWhile_le takeWhile_eq_take take_all_iff)
  then show "P (es ! i)" unfolding i using nth_length_takeWhile by blast
qed

lemma last_index_split:
  assumes "last_index P es = Some j"
  shows "\<forall>x \<in> set (drop (Suc j) es). \<not> P x" and "j < length es" and "P (es ! j)"
proof -
  from assms obtain i where i: "first_index P (rev es) = Some i" and j: "j = length es - Suc i"
    by (auto simp: last_index_def split: option.splits)
  have "i < length es" using first_index_split(2) [OF i] by simp
  then have "Suc j = length es - i" using j by simp
  then have "drop (Suc j) es = rev (take i (rev es))" by (simp add: rev_take)
  then show "\<forall>x \<in> set (drop (Suc j) es). \<not> P x" using first_index_split(1) [OF i] by simp
  show "j < length es" using j \<open>i < length es\<close> by simp
  show "P (es ! j)" using first_index_split(3) [OF i] \<open>i < length es\<close> by (simp add: j rev_nth)
qed

lemma no_first_index: "first_index P es = None \<longleftrightarrow> (\<forall>x \<in> set es. \<not> P x)"
  by (auto simp: first_index_def list_ex_iff)

lemma no_last_index: "last_index P es = None \<longleftrightarrow> (\<forall>x \<in> set es. \<not> P x)"
proof -
  have "last_index P es = None \<longleftrightarrow> first_index P (rev es) = None" by (simp add: last_index_def split: option.splits)
  then show ?thesis by (simp add: no_first_index)
qed

lemma behind_front: "xs @ e # ys = F @ G \<Longrightarrow> e \<notin> set F \<Longrightarrow> set ys \<subseteq> set G"
proof (induction F arbitrary: xs)
  case Nil
  then show ?case by (auto simp flip: Nil(1))
next
  case (Cons x F)
  then show ?case by (cases xs) auto
qed

lemma three_parts:
  "mset (filter (\<lambda>e. \<not> P e) S) + (mset (filter (\<lambda>e. P e \<and> Q e) S) + mset (filter (\<lambda>e. P e \<and> \<not> Q e) S)) = mset S"
  by (induction S) auto

text \<open>Three parts: no replay before the span, no authentication behind it.\<close>

lemma order_entries_cases:
  obtains (same) "order_entries es = es" "\<And>xs e ys. es = xs @ e # ys \<Longrightarrow> en_replay e \<Longrightarrow> \<not> en_auth e \<Longrightarrow> \<forall>a \<in> set ys. \<not> en_auth a"
  | (moved) A S C r T a where "es = A @ S @ C" "\<forall>x \<in> set A. \<not> en_replay x" "\<forall>x \<in> set C. \<not> en_auth x"
      "S = r # T @ [a]" "en_replay r" "en_auth a"
      "order_entries es = A @ filter (\<lambda>e. \<not> en_replay e) S @ filter (\<lambda>e. en_replay e \<and> en_auth e) S
         @ filter (\<lambda>e. en_replay e \<and> \<not> en_auth e) S @ C"
proof (cases "first_index en_replay es")
  case None
  then have "\<forall>x \<in> set es. \<not> en_replay x" by (simp add: no_first_index)
  with None show ?thesis by (intro same) (auto simp: order_entries_def)
next
  case (Some i)
  show ?thesis
  proof (cases "last_index en_auth es")
    case None
    then have "\<forall>x \<in> set es. \<not> en_auth x" by (simp add: no_last_index)
    with None show ?thesis by (intro same) (auto simp: order_entries_def split: option.splits)
  next
    case (Some j)
    note i = first_index_split [OF \<open>first_index en_replay es = Some i\<close>] and j = last_index_split [OF Some]
    show ?thesis
    proof (cases "j \<le> i")
      case True
      show ?thesis
      proof (rule same)
        show "order_entries es = es" using True \<open>first_index en_replay es = Some i\<close> Some by (simp add: order_entries_def)
        fix xs e ys
        assume es: "es = xs @ e # ys" and e: "en_replay e"
        have "i \<le> length xs"
        proof (rule ccontr)
          assume "\<not> i \<le> length xs"
          then have "e \<in> set (take i es)" using es by (cases i) (auto simp: take_Cons' nat_le_linear)
          with i(1) e show False by blast
        qed
        then have "drop (Suc (length xs)) es = drop (length xs - j) (drop (Suc j) es)" using True by simp
        then have "set ys \<subseteq> set (drop (Suc j) es)" using es set_drop_subset [of "length xs - j" "drop (Suc j) es"] by simp
        then show "\<forall>a \<in> set ys. \<not> en_auth a" using j(1) by blast
      qed
    next
      case False
      have whole: "es = take i es @ drop i (take (Suc j) es) @ drop (Suc j) es"
      proof -
        have "take i (take (Suc j) es) = take i es" using False by (simp add: min_def)
        with append_take_drop_id [of i "take (Suc j) es"] have "take i es @ drop i (take (Suc j) es) = take (Suc j) es" by simp
        with append_take_drop_id [of "Suc j" es] show ?thesis by (metis append.assoc)
      qed
      have span: "drop i (take (Suc j) es) = es ! i # drop (Suc i) (take j es) @ [es ! j]"
        using False i(2) j(2) by (simp add: take_Suc_conv_app_nth Cons_nth_drop_Suc [symmetric] nth_append)
      show ?thesis
        by (rule moved [OF whole i(1) j(1) span i(3) j(3)])
          (use False \<open>first_index en_replay es = Some i\<close> Some in \<open>simp add: order_entries_def Let_def\<close>)
    qed
  qed
qed

lemma replay_order_mset: "mset (order_entries es) = mset es"
proof (rule order_entries_cases [of es])
  fix A S C r T a
  assume m: "es = A @ S @ C" and out: "order_entries es = A @ filter (\<lambda>e. \<not> en_replay e) S @ filter (\<lambda>e. en_replay e \<and> en_auth e) S
         @ filter (\<lambda>e. en_replay e \<and> \<not> en_auth e) S @ C"
  show ?thesis unfolding out unfolding m using three_parts [of en_replay S en_auth] by simp
qed simp

text \<open>
  C32. Reordering the gates of a route loses and duplicates none, keeps the relative order of the hooks that
  replay nothing, of the replays that authenticate and of the pure replays, and in the result no gate that
  authenticates comes behind a pure replay: a stored response is never served before a gate that could
  have refused the caller.
\<close>

theorem replay_after_auth:
  fixes es :: "('e, 'w, 'r) entry list"
  shows "mset (order_entries es) = mset es
    \<and> (\<forall>xs e ys. order_entries es = xs @ e # ys \<longrightarrow> en_replay e \<longrightarrow> \<not> en_auth e \<longrightarrow> (\<forall>a \<in> set ys. \<not> en_auth a))
    \<and> filter (\<lambda>e. \<not> en_replay e) (order_entries es) = filter (\<lambda>e. \<not> en_replay e) es
    \<and> filter (\<lambda>e. en_replay e \<and> \<not> en_auth e) (order_entries es) = filter (\<lambda>e. en_replay e \<and> \<not> en_auth e) es
    \<and> filter (\<lambda>e. en_replay e \<and> en_auth e) (order_entries es) = filter (\<lambda>e. en_replay e \<and> en_auth e) es
    \<and> ((\<forall>xs e ys. es = xs @ e # ys \<longrightarrow> en_replay e \<longrightarrow> (\<forall>a \<in> set ys. \<not> en_auth a)) \<longrightarrow> order_entries es = es)"
proof (rule order_entries_cases [of es])
  assume same: "order_entries es = es" "\<And>xs e ys. es = xs @ e # ys \<Longrightarrow> en_replay e \<Longrightarrow> \<not> en_auth e \<Longrightarrow> \<forall>a \<in> set ys. \<not> en_auth a"
  show ?thesis unfolding same(1) using same(2) by blast
next
  fix A S C r T a
  assume m: "es = A @ S @ C" "\<forall>x \<in> set A. \<not> en_replay x" "\<forall>x \<in> set C. \<not> en_auth x" "S = r # T @ [a]" "en_replay r" "en_auth a"
    and out: "order_entries es = A @ filter (\<lambda>e. \<not> en_replay e) S @ filter (\<lambda>e. en_replay e \<and> en_auth e) S
         @ filter (\<lambda>e. en_replay e \<and> \<not> en_auth e) S @ C"
  let ?pure = "filter (\<lambda>e. en_replay e \<and> \<not> en_auth e) S"
  have "mset (order_entries es) = mset es" by (rule replay_order_mset)
  moreover have "\<forall>b \<in> set ys. \<not> en_auth b" if "order_entries es = xs @ e # ys" "en_replay e" "\<not> en_auth e" for xs e ys
  proof -
    let ?front = "A @ filter (\<lambda>e. \<not> en_replay e) S @ filter (\<lambda>e. en_replay e \<and> en_auth e) S"
    have eq: "xs @ e # ys = ?front @ (?pure @ C)" using that(1) out by simp
    have "e \<notin> set ?front" using that(2,3) m(2) by auto
    then have "set ys \<subseteq> set (?pure @ C)" using behind_front [OF eq] by simp
    then show ?thesis using m(3) by auto
  qed
  moreover have "filter (\<lambda>e. \<not> en_replay e) (order_entries es) = filter (\<lambda>e. \<not> en_replay e) es"
    unfolding out unfolding m(1) by (simp add: filter_False cong: conj_cong)
  moreover have "filter (\<lambda>e. en_replay e \<and> \<not> en_auth e) (order_entries es) = filter (\<lambda>e. en_replay e \<and> \<not> en_auth e) es"
    unfolding out unfolding m(1) by (simp add: filter_False cong: conj_cong)
  moreover have "filter (\<lambda>e. en_replay e \<and> en_auth e) (order_entries es) = filter (\<lambda>e. en_replay e \<and> en_auth e) es"
    unfolding out unfolding m(1) by (simp add: filter_False cong: conj_cong)
  moreover have "\<not> (\<forall>xs e ys. es = xs @ e # ys \<longrightarrow> en_replay e \<longrightarrow> (\<forall>a \<in> set ys. \<not> en_auth a))"
  proof
    assume all: "\<forall>xs e ys. es = xs @ e # ys \<longrightarrow> en_replay e \<longrightarrow> (\<forall>a \<in> set ys. \<not> en_auth a)"
    from all [rule_format, of A r "T @ a # C" a] m show False by simp
  qed
  ultimately show ?thesis by blast
qed

definition sample_entry :: "bool \<Rightarrow> bool \<Rightarrow> (nat, nat, nat) entry" where
  "sample_entry r a = \<lparr> en_gate = ret None, en_replay = r, en_auth = a \<rparr>"

lemma replay_after_auth_witness:
  "order_entries [sample_entry True False, sample_entry False False, sample_entry False True]
     = [sample_entry False False, sample_entry False True, sample_entry True False]
   \<and> \<not> en_auth (sample_entry True False)"
proof -
  let ?es = "[sample_entry True False, sample_entry False False, sample_entry False True]"
  have o: "order_entries ?es = [sample_entry False False, sample_entry False True, sample_entry True False]"
    by (simp add: order_entries_def first_index_def last_index_def sample_entry_def)
  have "order_entries [sample_entry True False] = [sample_entry True False]"
    using replay_after_auth [of "[sample_entry True False]"] by (simp add: Cons_eq_append_conv)
  with o show ?thesis by (simp add: sample_entry_def)
qed

section \<open>\<open>some\<close> is a transaction\<close>

text \<open>Hooks keep the context of their request and take leases only by registering finalizers.\<close>

definition well_behaved :: "('e, ('s, 'u) hook_world, 'r) hook_gate \<Rightarrow> bool" where
  "well_behaved f \<longleftrightarrow> (\<forall>s c. ends (\<lambda>w w'. snd w' = snd w)
     (\<lambda>w r. \<exists>c'. snd w = Some c' \<and> (\<exists>ns. cx_finalizers c' = cx_finalizers c @ ns)) (f (s, Some c)))"

text \<open>Two contexts with the same \<open>ctx.state\<close> and the same leases.\<close>

definition same_state :: "'u ctx \<Rightarrow> 'u ctx \<Rightarrow> bool" where
  "same_state c c' \<longleftrightarrow> restoreState c c' = c' \<and> cx_finalizers c' = cx_finalizers c"

text \<open>The branch that starts where the snapshot was taken, except for what others left outside \<open>ctx.state\<close>.\<close>

definition branch_passes :: "'u ctx \<Rightarrow> ('e, ('s, 'u) hook_world, 'r) hook_gate \<Rightarrow> 'u ctx \<Rightarrow> bool" where
  "branch_passes c f c' \<longleftrightarrow> (\<exists>s c0 w. same_state c c0
     \<and> reaches (\<lambda>w w'. snd w' = snd w) (awaited f (s, Some c0)) w (Inr None) \<and> snd w = Some c')"

lemma same_state_refl [simp]: "same_state c c"
  by (simp add: same_state_def restoreState_def)

lemma awaited_ends:
  assumes "well_behaved f"
  shows "ends (\<lambda>w w'. snd w' = snd w) (\<lambda>w r. \<exists>c'. snd w = Some c' \<and> (\<exists>ns. cx_finalizers c' = cx_finalizers c @ ns))
    (awaited f (s, Some c))"
  using assms unfolding well_behaved_def by (intro ends_awaited) auto

lemma undo_branch_snd:
  assumes "snd w = Some c'" and "cx_finalizers c' = cx_finalizers c @ ns"
  shows "\<exists>c''. snd (undo_branch fin c w) = Some c'' \<and> same_state c c''"
  using assms by (simp add: undo_branch_def rollbackRequestFinalizers_def on_ctx_def restoreState_def same_state_def)

definition failure_of :: "'e + 'r option \<Rightarrow> ('e + 'r) option" where
  "failure_of r = (case r of Inl e \<Rightarrow> Some (Inl e) | Inr None \<Rightarrow> None | Inr (Some x) \<Rightarrow> Some (Inr x))"

lemma try_branch:
  "reaches R (catch (bind_comp (awaited f) (\<lambda>r. ret (case r of None \<Rightarrow> None | Some x \<Rightarrow> Some (Inr x))))
      (\<lambda>err. ret (Some (Inl err))) w) w1 r1
    \<longleftrightarrow> (\<exists>r0. reaches R (awaited f w) w1 r0 \<and> r1 = Inr (failure_of r0))"
proof -
  have "catch (bind_comp (awaited f) (\<lambda>r. ret (case r of None \<Rightarrow> None | Some x \<Rightarrow> Some (Inr x)))) (\<lambda>err. ret (Some (Inl err))) w
      = settle (awaited f w) (\<lambda>w' r. Settled w' (Inr (failure_of r)))"
    unfolding catch_def bind_comp_def settle_settle
    by (rule arg_cong [of _ _ "settle _"]) (auto simp: fun_eq_iff ret_def failure_of_def split: sum.splits option.splits)
  then show ?thesis by (simp add: reaches_settle)
qed

lemma candidate_step:
  "reaches R (run_candidates fin c (f # fs) first w) w2 r \<longleftrightarrow>
    (\<exists>w1 r0. reaches R (awaited f w) w1 r0 \<and> (case failure_of r0 of
        None \<Rightarrow> w2 = w1 \<and> r = Inr None
      | Some x \<Rightarrow> reaches R (run_candidates fin c fs (if first = None then Some x else first) (undo_branch fin c w1)) w2 r))"
proof -
  have ex: "(\<exists>w1 r1. (\<exists>r0. P w1 r0 \<and> r1 = Inr (g r0)) \<and> Q w1 r1) \<longleftrightarrow> (\<exists>w1 r0. P w1 r0 \<and> Q w1 (Inr (g r0)))" for P Q and g :: "'z \<Rightarrow> 'y"
    by blast
  have mod: "reaches R (bind_comp (modify u) (\<lambda>_. m) w1) w2 r \<longleftrightarrow> reaches R (m (u w1)) w2 r" for u m w1
    by (simp add: bind_comp_def modify_def)
  show ?thesis
    unfolding run_candidates.simps reaches_bind try_branch ex
    by (cases first; intro ex_cong1 conj_cong refl; simp add: mod split: option.split)
qed

lemma candidates_outcome:
  assumes "\<forall>f \<in> set fs. well_behaved f" and "first = None \<longrightarrow> fs \<noteq> []"
    and "same_state c c0" and "reaches (\<lambda>w w'. snd w' = snd w) (run_candidates fin c fs first (s, Some c0)) w r"
  shows "(r \<noteq> Inr None \<and> (\<exists>c'. snd w = Some c' \<and> same_state c c'))
    \<or> (r = Inr None \<and> (\<exists>f \<in> set fs. \<exists>c'. branch_passes c f c' \<and> snd w = Some c'))"
  using assms
proof (induction fs arbitrary: first s c0)
  case Nil
  then show ?case by (auto simp: ret_def throw_def split: sum.splits)
next
  case (Cons f fs)
  let ?R = "\<lambda>w w'. snd w' = snd w"
  let ?c = c0
  from Cons.prems(4) obtain w1 r0 where f: "reaches ?R (awaited f (s, Some ?c)) w1 r0"
    and rest: "case failure_of r0 of None \<Rightarrow> w = w1 \<and> r = Inr None
      | Some x \<Rightarrow> reaches ?R (run_candidates fin c fs (if first = None then Some x else first) (undo_branch fin c w1)) w r"
    unfolding candidate_step by blast
  from awaited_ends [of f ?c s] Cons.prems(1) f obtain c' ns where c': "snd w1 = Some c'" "cx_finalizers c' = cx_finalizers ?c @ ns"
    unfolding reaches_ends by fastforce
  have "cx_finalizers ?c = cx_finalizers c" using Cons.prems(3) by (simp add: same_state_def)
  then obtain c2 where undone: "undo_branch fin c w1 = (fst (undo_branch fin c w1), Some c2)" and c2: "same_state c c2"
    using undo_branch_snd [of w1 c' c ns fin] c' by (auto simp: prod_eq_iff)
  have deny: ?case if "reaches ?R (run_candidates fin c fs first' (undo_branch fin c w1)) w r" "first' \<noteq> None" for first'
    using Cons.IH [of first' c2 "fst (undo_branch fin c w1)"] that undone c2 Cons.prems(1) by auto
  show ?case
  proof (cases "failure_of r0")
    case None
    then have "r0 = Inr None" by (simp add: failure_of_def split: sum.splits option.splits)
    with f c'(1) Cons.prems(3) have "branch_passes c f c'" unfolding branch_passes_def by blast
    with rest None c'(1) show ?thesis by auto
  next
    case (Some x)
    with rest show ?thesis by (intro deny [of "if first = None then Some x else first"]) auto
  qed
qed


definition sample_ctx :: "nat ctx" where
  "sample_ctx = \<lparr> cx_requestId = [], cx_authRan = False, cx_authOptional = False, cx_scopes = [], cx_finalizers = [3],
     cx_state = 0, cx_headers = [], cx_params = Undefined, cx_query = Undefined, cx_reqHeaders = Undefined, cx_body = Undefined,
     cx_raw = None, cx_stream = NoStream \<rparr>"

text \<open>A branch that takes a lease, records an identity and denies; a branch that passes.\<close>

definition denying :: "(nat, (nat list, nat) hook_world, nat) hook_gate" where
  "denying w = Settled (on_ctx (\<lambda>c. registerRequestFinalizer 5 (c\<lparr>cx_authRan := True, cx_state := 9\<rparr>)) w) (Inr (Some 401))"

definition passing :: "(nat, (nat list, nat) hook_world, nat) hook_gate" where
  "passing w = Settled (on_ctx (\<lambda>c. c\<lparr>cx_scopes := [js ''read'']\<rparr>) w) (Inr None)"

lemma sample_branches: "well_behaved denying" "well_behaved passing"
  by (simp_all add: well_behaved_def denying_def passing_def on_ctx_def registerRequestFinalizer_def)


section \<open>Grouping\<close>

lemma pick_append [simp]: "pick key (xs @ ys) = pick key xs @ pick key ys"
  by (simp add: pick_def List.map_filter_def)

lemma pick_Cons: "pick key (h # hs) = (case key (base h) of None \<Rightarrow> pick key hs | Some f \<Rightarrow> f # pick key hs)"
  by (simp add: pick_def map_filter_simps split: option.splits)

lemma pick_Nil [simp]: "pick key [] = []"
  by (simp add: pick_def map_filter_simps)

lemma each_append: "each (fs @ gs) a = bind_comp (each fs a) (\<lambda>_. each gs a)"
  by (induction fs) (simp_all add: bind_assoc)

lemma pipe_append: "pipe (fs @ gs) v = bind_comp (pipe fs v) (pipe gs)"
  by (induction fs arbitrary: v) (simp_all add: bind_assoc)

lemma first_of_append: "first_of (fs @ gs) a = bind_comp (first_of fs a) (\<lambda>r. case r of Some x \<Rightarrow> ret (Some x) | None \<Rightarrow> first_of gs a)"
  by (induction fs) (auto simp: bind_assoc fun_eq_iff intro!: arg_cong2 [of _ _ _ _ bind_comp, THEN fun_cong] split: option.splits)

lemma run_each_group: "run (each (fs @ (\<lambda>a. async (each gs a)) # hs) a w) = run (each (fs @ gs @ hs) a w)"
  by (simp add: each_append run_simps split: prod.splits sum.splits)

lemma run_pipe_group:
  "run (pipe (fs @ (\<lambda>v. async (bind_comp (pipe gs v) (\<lambda>v'. ret (Some v')))) # hs) v w) = run (pipe (fs @ gs @ hs) v w)"
  by (simp add: pipe_append run_simps split: prod.splits sum.splits)

lemma run_first_group: "run (first_of (fs @ (\<lambda>a. async (first_of gs a)) # hs) a w) = run (first_of (fs @ gs @ hs) a w)"
  by (simp add: first_of_append run_simps split: prod.splits sum.splits option.splits)

lemma order_nonempty: "order_entries es = [] \<longleftrightarrow> es = []"
  by (metis replay_order_mset mset_zero_iff_right)

lemma collect_every: "collect (every_of i bs) = concat (map collect bs)"
  by (auto simp: every_of_def Let_def optional_def orderBeforeHandleForReplay_def order_nonempty)

text \<open>
  C34. Grouping layers with \<open>every()\<close> changes nothing about what runs: with \<open>every(bs)\<close> in the place of the
  layers \<open>bs\<close> among others, the gates are the same list in the same order, and the \<open>onRequest\<close>,
  \<open>afterHandle\<close>, \<open>onError\<close>, \<open>onSend\<close> and \<open>onResponse\<close> hooks compute the same, exceptions included.
\<close>

theorem every_flattens:
  fixes a b c :: "('e, 'w, 'r, 'v) hooks list" and w :: 'w
  shows "orderBeforeHandleForReplay (a @ every_of i b # c) = orderBeforeHandleForReplay (a @ b @ c)
    \<and> run (each (map (\<lambda>f _. f) (pick l_onRequest (a @ every_of i b # c))) () w) = run (each (map (\<lambda>f _. f) (pick l_onRequest (a @ b @ c))) () w)
    \<and> run (pipe (pick l_afterHandle (a @ every_of i b # c)) v w) = run (pipe (pick l_afterHandle (a @ b @ c)) v w)
    \<and> run (first_of (pick l_onError (a @ every_of i b # c)) err w) = run (first_of (pick l_onError (a @ b @ c)) err w)
    \<and> run (pipe (pick l_onSend (a @ every_of i b # c)) res w) = run (pipe (pick l_onSend (a @ b @ c)) res w)
    \<and> run (each (pick l_onResponse (a @ every_of i b # c)) res w) = run (each (pick l_onResponse (a @ b @ c)) res w)"
proof -
  have keys: "l_onRequest (base (every_of i b)) = optional (pick l_onRequest b) (async (each (map (\<lambda>f _. f) (pick l_onRequest b)) ()))"
    "l_afterHandle (base (every_of i b)) = optional (pick l_afterHandle b) (\<lambda>v. async (bind_comp (pipe (pick l_afterHandle b) v) (\<lambda>v'. ret (Some v'))))"
    "l_onError (base (every_of i b)) = optional (pick l_onError b) (\<lambda>e. async (first_of (pick l_onError b) e))"
    "l_onSend (base (every_of i b)) = optional (pick l_onSend b) (\<lambda>v. async (bind_comp (pipe (pick l_onSend b) v) (\<lambda>v'. ret (Some v'))))"
    "l_onResponse (base (every_of i b)) = optional (pick l_onResponse b) (\<lambda>r. async (each (pick l_onResponse b) r))"
    by (simp_all add: every_of_def Let_def)
  have request: "run (each (fs @ (\<lambda>_. async (each gs ())) # hs) () w) = run (each (fs @ gs @ hs) () w)" for fs gs hs :: "(unit \<Rightarrow> ('e, 'w, unit) comp) list"
    using run_each_group [of fs gs hs "()" w] by (simp add: unit_all_eq1)
  show ?thesis
    by (intro conjI)
      (simp_all add: orderBeforeHandleForReplay_def collect_every pick_Cons keys optional_def request run_pipe_group run_first_group run_each_group)
qed

end
