(* ===== verification/Http.thy ===== *)
theory Http
  imports HookChain Guards
begin

text \<open>
  Responses and how they are made: the \<open>Headers\<close> and \<open>Response\<close> objects of the Fetch standard as far as
  the framework uses them, the problem documents of \<open>errors.ts\<close>, the marks of \<open>internal-response.ts\<close>, and
  from \<open>app.ts\<close> the serialization of a handler's result (\<open>serializeResult\<close>), the context headers, the
  request id, the server fingerprint and the response hooks (\<open>finalizeResponse\<close>).

  A response is a value: a hook that changes the response it was given is one that answers with the
  changed response. Headers of a response that came from \<open>fetch\<close> or \<open>Response.redirect\<close> are immutable,
  and writing them throws.
\<close>

section \<open>Headers\<close>

text \<open>Names are in lower case, and only \<open>set-cookie\<close> can stand there twice.\<close>

definition hd_get :: "jstr \<Rightarrow> headers \<Rightarrow> jstr option" where
  "hd_get n h = map_of h (to_lower n)"

fun put_header :: "jstr \<Rightarrow> jstr \<Rightarrow> headers \<Rightarrow> headers" where
  "put_header n v [] = [(n, v)]"
| "put_header n v ((m, u) # h) = (if m = n then (n, v) # AList.delete n h else (m, u) # put_header n v h)"

lemma get_put: "map_of (put_header n v h) m = (if m = n then Some v else map_of h m)"
  by (induction h) (auto simp: delete_conv')

definition hd_set :: "jstr \<Rightarrow> jstr \<Rightarrow> headers \<Rightarrow> headers" where
  "hd_set n v h = put_header (to_lower n) v h"

definition hd_append :: "jstr \<Rightarrow> jstr \<Rightarrow> headers \<Rightarrow> headers" where
  "hd_append n v h = (case hd_get n h of
       Some u \<Rightarrow> if to_lower n = js ''set-cookie'' then h @ [(to_lower n, v)] else hd_set n (u @ js '', '' @ v) h
     | None \<Rightarrow> h @ [(to_lower n, v)])"

definition hd_delete :: "jstr \<Rightarrow> headers \<Rightarrow> headers" where
  "hd_delete n h = AList.delete (to_lower n) h"

definition http_space :: "nat \<Rightarrow> bool" where
  "http_space c \<longleftrightarrow> c = 9 \<or> c = 10 \<or> c = 13 \<or> c = 32"

definition normal_value :: "jstr \<Rightarrow> jstr" where
  "normal_value v = rev (dropWhile http_space (rev (dropWhile http_space v)))"

definition name_unit :: "nat \<Rightarrow> bool" where
  "name_unit c \<longleftrightarrow> is_digit c \<or> (65 \<le> c \<and> c \<le> 90) \<or> (97 \<le> c \<and> c \<le> 122)
     \<or> c \<in> {33, 35, 36, 37, 38, 39, 42, 43, 45, 46, 94, 95, 96, 124, 126}"

definition header_fits :: "jstr \<Rightarrow> jstr \<Rightarrow> bool" where
  "header_fits n v \<longleftrightarrow> n \<noteq> [] \<and> list_all name_unit n
     \<and> list_all (\<lambda>c. c \<noteq> 0 \<and> c \<noteq> 10 \<and> c \<noteq> 13 \<and> c < 256) (normal_value v)"

text \<open>\<open>headers.set(name, value)\<close> for each entry, and \<open>new Headers(record)\<close>, which appends.\<close>

fun set_all :: "(jstr, jstr) assoc \<Rightarrow> headers \<Rightarrow> headers option" where
  "set_all [] h = Some h"
| "set_all ((n, v) # es) h = (if header_fits n v then set_all es (hd_set n (normal_value v) h) else None)"

fun append_all :: "(jstr, jstr) assoc \<Rightarrow> headers \<Rightarrow> headers option" where
  "append_all [] h = Some h"
| "append_all ((n, v) # es) h =
     (if header_fits n v then append_all es (hd_append n (normal_value v) h) else None)"

section \<open>Errors\<close>

datatype http_error = HttpError (he_status: nat) (he_problem: "(jstr, json) assoc") (he_headers: "(jstr, jstr) assoc option")

text \<open>What can be thrown: an \<open>HttpError\<close>, another \<open>Error\<close> with its message, or something else.\<close>

datatype thrown = Http http_error | JsError jstr | NonError

text \<open>The constructor: \<open>type\<close> comes first, with the problem's own value if it has one, and \<open>status\<close> is set.\<close>

definition new_error :: "nat \<Rightarrow> (jstr, json) assoc \<Rightarrow> (jstr, jstr) assoc option \<Rightarrow> http_error" where
  "new_error status problem h = HttpError status
     (AList.update (js ''status'') (JNum (dec_str status))
       ((js ''type'', case map_of problem (js ''type'') of Some t \<Rightarrow> t
            | None \<Rightarrow> JStr (js ''https://httpstatuses.io/'' @ dec_str status))
        # AList.delete (js ''type'') problem)) h"

definition daloy_error :: "nat \<Rightarrow> jstr \<Rightarrow> jstr \<Rightarrow> jstr option \<Rightarrow> (jstr, jstr) assoc option \<Rightarrow> thrown" where
  "daloy_error status slug title detail h = Http (new_error status
     ((js ''type'', JStr (js ''https://daloyjs.dev/errors/'' @ slug)) # (js ''title'', JStr title)
      # (case detail of Some d \<Rightarrow> if d = [] then [] else [(js ''detail'', JStr d)] | None \<Rightarrow> [])) h)"

definition no_store :: "(jstr, jstr) assoc option" where
  "no_store = Some [(js ''cache-control'', js ''no-store'')]"

definition BadRequestError :: "jstr option \<Rightarrow> thrown" where
  "BadRequestError detail = daloy_error 400 (js ''bad-request'') (js ''Bad Request'') detail None"

definition UnauthorizedError :: "jstr option \<Rightarrow> thrown" where
  "UnauthorizedError detail = daloy_error 401 (js ''unauthorized'') (js ''Unauthorized'') detail no_store"

definition ForbiddenError :: "jstr option \<Rightarrow> thrown" where
  "ForbiddenError detail = daloy_error 403 (js ''forbidden'') (js ''Forbidden'') detail no_store"

definition NotFoundError :: "jstr option \<Rightarrow> thrown" where
  "NotFoundError detail = daloy_error 404 (js ''not-found'') (js ''Not Found'') detail None"

definition comma_list :: "jstr list \<Rightarrow> jstr" where
  "comma_list xs = (case xs of [] \<Rightarrow> [] | x # r \<Rightarrow> x @ concat (map (\<lambda>y. js '', '' @ y) r))"

definition MethodNotAllowedError :: "jstr list \<Rightarrow> thrown" where
  "MethodNotAllowedError allow = daloy_error 405 (js ''method-not-allowed'') (js ''Method Not Allowed'') None
     (Some [(js ''allow'', comma_list allow)])"

definition PayloadTooLargeError :: "nat \<Rightarrow> thrown" where
  "PayloadTooLargeError limit = daloy_error 413 (js ''payload-too-large'') (js ''Payload Too Large'')
     (Some (js ''Body exceeds '' @ dec_str limit @ js '' bytes'')) None"

definition UnsupportedMediaTypeError :: "jstr \<Rightarrow> jstr list \<Rightarrow> thrown" where
  "UnsupportedMediaTypeError got expected = daloy_error 415 (js ''unsupported-media-type'') (js ''Unsupported Media Type'')
     (Some (js ''Got '' @ 34 # got @ 34 # js '', expected one of: '' @ comma_list expected)) None"

definition RequestHeaderFieldsTooLargeError :: "jstr \<Rightarrow> thrown" where
  "RequestHeaderFieldsTooLargeError limit = daloy_error 431 (js ''request-header-fields-too-large'')
     (js ''Request Header Fields Too Large'') (Some (js ''Request carries more than '' @ limit @ js '' header fields'')) None"

definition InternalError :: "jstr option \<Rightarrow> thrown" where
  "InternalError detail = daloy_error 500 (js ''internal'') (js ''Internal Server Error'') detail None"

text \<open>\<open>ValidationError\<close>: the issues of a schema with their paths.\<close>

definition toIssues :: "(jstr \<times> jstr list) list \<Rightarrow> json" where
  "toIssues issues = JArr (map (\<lambda>(m, p). JObj [(js ''message'', JStr m), (js ''path'', JStr (join_on 46 p))]) issues)"

definition ValidationError :: "jstr \<Rightarrow> (jstr \<times> jstr list) list \<Rightarrow> thrown" where
  "ValidationError part issues = Http (new_error 422
     [(js ''type'', JStr (js ''https://daloyjs.dev/errors/validation'')), (js ''title'', JStr (js ''Request validation failed'')),
      (js ''detail'', JStr (js ''Invalid '' @ part)),
      (js ''errors'', toIssues issues)] None)"

section \<open>Responses\<close>

datatype payload = NoBody | BodyBytes "nat list" | BodyStream nat

record response =
  rs_status :: nat
  rs_headers :: headers
  rs_body :: payload
  rs_immutable :: bool
  rs_validated :: bool
  rs_disconnect :: bool

definition plain_response :: "nat \<Rightarrow> headers \<Rightarrow> payload \<Rightarrow> response" where
  "plain_response status h body = \<lparr> rs_status = status, rs_headers = h, rs_body = body, rs_immutable = False,
     rs_validated = False, rs_disconnect = False \<rparr>"

definition markSchemaValidatedResponse :: "response \<Rightarrow> response" where
  "markSchemaValidatedResponse res = res\<lparr>rs_validated := True\<rparr>"

definition isSchemaValidatedResponse :: "response \<Rightarrow> bool" where
  "isSchemaValidatedResponse res = rs_validated res"

definition markDisconnectResponse :: "response \<Rightarrow> response" where
  "markDisconnectResponse res = res\<lparr>rs_disconnect := True\<rparr>"

definition isDisconnectResponse :: "response \<Rightarrow> bool" where
  "isDisconnectResponse res = rs_disconnect res"

definition type_error :: thrown where
  "type_error = JsError (js ''TypeError'')"

text \<open>\<open>new Response(body, init)\<close>: the status is checked, and some statuses have no body.\<close>

definition new_response :: "nat \<Rightarrow> headers \<Rightarrow> payload \<Rightarrow> (thrown, 'w, response) comp" where
  "new_response status h body =
     (if status < 200 \<or> 599 < status then throw (JsError (js ''RangeError''))
      else if body \<noteq> NoBody \<and> status \<in> {204, 205, 304} then throw type_error
      else ret (plain_response status h body))"

definition write_headers :: "(headers \<Rightarrow> headers) \<Rightarrow> response \<Rightarrow> (thrown, 'w, response) comp" where
  "write_headers f res = (if rs_immutable res then throw type_error else ret (res\<lparr>rs_headers := f (rs_headers res)\<rparr>))"

definition json_bytes :: "json \<Rightarrow> nat list" where
  "json_bytes v = utf8_encode (render v)"

text \<open>\<open>HttpError.toResponse\<close>.\<close>

definition problem_document :: "bool \<Rightarrow> jstr \<Rightarrow> http_error \<Rightarrow> (jstr, json) assoc" where
  "problem_document production requestId e =
     (let p = (if production \<and> 500 \<le> he_status e then AList.delete (js ''detail'') (he_problem e) else he_problem e) in
      if requestId = [] then p else AList.update (js ''instance'') (JStr (js ''urn:request:'' @ requestId)) p)"

definition problem_type :: headers where
  "problem_type = [(js ''content-type'', js ''application/problem+json'')]"

definition toResponse :: "bool \<Rightarrow> jstr \<Rightarrow> http_error \<Rightarrow> (thrown, 'w, response) comp" where
  "toResponse production requestId e =
     (case set_all (case he_headers e of None \<Rightarrow> [] | Some h \<Rightarrow> h) problem_type of
        None \<Rightarrow> throw type_error
      | Some h \<Rightarrow> new_response (he_status e) h (BodyBytes (json_bytes (JObj (problem_document production requestId e)))))"

section \<open>Stamping a response\<close>

definition add_header :: "jstr \<Rightarrow> jstr \<Rightarrow> headers \<Rightarrow> headers" where
  "add_header n v h = (if hd_get n h = None then hd_set n v h else h)"

definition copyContextHeaders :: "headers \<Rightarrow> response \<Rightarrow> (thrown, 'w, response) comp" where
  "copyContextHeaders set_by_hooks res =
     (if list_all (\<lambda>(n, v). hd_get n (rs_headers res) \<noteq> None) set_by_hooks then ret res
      else write_headers (fold (\<lambda>(n, v). add_header n v) set_by_hooks) res)"

definition stamp_id :: "jstr \<Rightarrow> response \<Rightarrow> (thrown, 'w, response) comp" where
  "stamp_id requestId res =
     (if hd_get (js ''x-request-id'') (rs_headers res) \<noteq> None then ret res
      else write_headers (hd_set (js ''x-request-id'') requestId) res)"

datatype fingerprint = KeepFingerprint | StripFingerprint | PoweredBy jstr

definition applyFingerprint :: "fingerprint \<Rightarrow> headers \<Rightarrow> headers" where
  "applyFingerprint mode h =
     (case mode of
        KeepFingerprint \<Rightarrow> h
      | StripFingerprint \<Rightarrow> hd_delete (js ''x-powered-by'') (hd_delete (js ''server'') h)
      | PoweredBy name \<Rightarrow> hd_set (js ''x-powered-by'') name (hd_delete (js ''server'') h))"

definition finalizeFast :: "fingerprint \<Rightarrow> response \<Rightarrow> (thrown, 'w, response) comp" where
  "finalizeFast mode res = (if mode = KeepFingerprint then ret res else write_headers (applyFingerprint mode) res)"

definition finishFinalize :: "fingerprint \<Rightarrow> (response \<Rightarrow> (thrown, 'w, unit) comp) option \<Rightarrow> response \<Rightarrow>
    (thrown, 'w, response) comp" where
  "finishFinalize mode onResponse res =
     bind_comp (finalizeFast mode res) (\<lambda>final. case onResponse of
         None \<Rightarrow> ret final
       | Some f \<Rightarrow> bind_comp (f final) (\<lambda>_. ret final))"

definition finalizeResponse :: "fingerprint \<Rightarrow> (response \<Rightarrow> (thrown, 'w, response) hook_gate) option \<Rightarrow>
    (response \<Rightarrow> (thrown, 'w, unit) comp) option \<Rightarrow> response \<Rightarrow> (thrown, 'w, response) comp" where
  "finalizeResponse mode onSend onResponse res =
     bind_comp (case onSend of None \<Rightarrow> ret None | Some f \<Rightarrow> f res)
       (\<lambda>sent. finishFinalize mode onResponse (case sent of Some r \<Rightarrow> r | None \<Rightarrow> res))"

section \<open>Serializing a handler's result\<close>

text \<open>A Standard Schema: the issues (message, path) or the value it makes, perhaps after a while.\<close>

type_synonym 'w schema = "jvalue \<Rightarrow> (thrown, 'w, (jstr \<times> jstr list) list + jvalue) comp"

record 'w response_spec =
  sp_responses :: "(nat, 'w schema option) assoc"
  sp_deprecated :: bool
  sp_sunset :: "jstr option"
  sp_route :: jstr

record handler_result =
  hr_status :: nat
  hr_body :: jvalue
  hr_headers :: "(jstr, jstr) assoc"

definition lifecycle_headers :: "'w response_spec \<Rightarrow> headers \<Rightarrow> headers" where
  "lifecycle_headers d h =
     (if sp_deprecated d \<or> sp_sunset d \<noteq> None
      then (let h = add_header (js ''deprecation'') (js ''true'') h in
        case sp_sunset d of None \<Rightarrow> h | Some s \<Rightarrow> add_header (js ''sunset'') s h)
      else h)"

text \<open>\<open>text v\<close> is \<open>JSON.stringify v\<close> for what is no JSON value.\<close>

definition stringify_value :: "(jvalue \<Rightarrow> jstr) \<Rightarrow> jvalue \<Rightarrow> jstr" where
  "stringify_value to_text v = (case v of Value j \<Rightarrow> render j | _ \<Rightarrow> to_text v)"

definition wire_body :: "(jvalue \<Rightarrow> jstr) \<Rightarrow> bool \<Rightarrow> jvalue \<Rightarrow> payload" where
  "wire_body to_text treatAsJson v =
     (if v = Undefined \<or> v = Value JNull then NoBody
      else (case v of
          Value (JStr s) \<Rightarrow> if treatAsJson then BodyBytes (utf8_encode (stringify_value to_text v)) else BodyBytes (utf8_encode s)
        | Bytes b \<Rightarrow> if treatAsJson then BodyBytes (utf8_encode (stringify_value to_text v)) else BodyBytes b
        | Stream n \<Rightarrow> if treatAsJson then BodyBytes (utf8_encode (stringify_value to_text v)) else BodyStream n
        | _ \<Rightarrow> BodyBytes (utf8_encode (stringify_value to_text v))))"

definition serialize_value :: "(jvalue \<Rightarrow> jstr) \<Rightarrow> 'w response_spec \<Rightarrow> bool \<Rightarrow> handler_result \<Rightarrow> jvalue \<Rightarrow>
    (thrown, 'w, response) comp" where
  "serialize_value to_text d lightOk result outputBody =
     (case append_all (hr_headers result) [] of
        None \<Rightarrow> throw type_error
      | Some given \<Rightarrow>
          (let explicitCt = hd_get (js ''content-type'') given;
               treatAsJson = (case explicitCt of None \<Rightarrow> True | Some ct \<Rightarrow> ct = [] \<or> sublist (js ''application/json'') ct);
               h = lifecycle_headers d (if explicitCt = None \<or> explicitCt = Some [] then hd_set (js ''content-type'') (js ''application/json'') given else given);
               body = wire_body to_text treatAsJson outputBody;
               h = (case body of BodyBytes b \<Rightarrow> add_header (js ''content-length'') (dec_str (length b)) h | _ \<Rightarrow> h) in
           if lightOk \<and> (case body of BodyStream n \<Rightarrow> False | _ \<Rightarrow> True) then ret (plain_response (hr_status result) h body)
           else new_response (hr_status result) h body))"

definition issue_text :: "(jstr \<times> jstr list) list \<Rightarrow> jstr" where
  "issue_text issues = (case map fst issues of [] \<Rightarrow> [] | m # ms \<Rightarrow> m @ concat (map (\<lambda>x. js ''; '' @ x) ms))"

definition serializeResult :: "(jvalue \<Rightarrow> jstr) \<Rightarrow> 'w response_spec \<Rightarrow> bool \<Rightarrow> bool \<Rightarrow> handler_result \<Rightarrow>
    (thrown, 'w, response) comp" where
  "serializeResult to_text d validateResponses lightOk result =
     (case map_of (sp_responses d) (hr_status result) of
        None \<Rightarrow> throw (InternalError (Some (js ''Handler returned status '' @ dec_str (hr_status result)
          @ js '' which is not declared in responses for '' @ sp_route d)))
      | Some spec \<Rightarrow>
          (case (if validateResponses then spec else None) of
             None \<Rightarrow> serialize_value to_text d lightOk result (hr_body result)
           | Some validate \<Rightarrow> bind_comp (validate (hr_body result)) (\<lambda>r. case r of
                 Inl issues \<Rightarrow> throw (InternalError (Some (js ''Response body for '' @ sp_route d
                   @ js '' failed schema validation: '' @ issue_text issues)))
               | Inr v \<Rightarrow> serialize_value to_text d lightOk result v)))"

text \<open>
  Headers set by hooks are copied by name: of two cookies a hook appended, the second is lost, and both are when
  the response already sets one.
\<close>

lemma second_value_lost:
  assumes "hd_get n (rs_headers res) = None" and "\<not> rs_immutable res"
  shows "run (copyContextHeaders [(n, a), (n, b)] res w) = (w, Inr (res\<lparr>rs_headers := hd_set n a (rs_headers res)\<rparr>))"
proof -
  have put: "map_of (put_header n v h) n = Some v" for n v h by (induction h) auto
  have "hd_get n (hd_set n a (rs_headers res)) = Some a" unfolding hd_get_def hd_set_def by (rule put)
  with assms show ?thesis by (simp add: copyContextHeaders_def write_headers_def add_header_def)
qed

lemmas second_cookie_lost = second_value_lost [of "js ''set-cookie''"]

end
