(* ===== verification/RequestBody.thy ===== *)
theory RequestBody
  imports Http
begin

text \<open>
  What a handler is given: the body of the request, read under a byte limit (\<open>readBodyLimited\<close> of
  \<open>security.ts\<close>, \<open>readBodyBytesFast\<close>, \<open>readBody\<close> of \<open>app.ts\<close>), decoded by its media type, and the parts of
  the request passed through the schemas of the route (\<open>validateContext\<close>). The platform's parsers
  (\<open>JSON.parse\<close>, \<open>URLSearchParams\<close>, \<open>formData()\<close>) and the schemas are parameters.
\<close>

section \<open>\<open>Number\<close> of a header\<close>

datatype js_number = NaN | Infinite bool | Scaled int int

definition whole :: "jstr \<Rightarrow> bool" where
  "whole s \<longleftrightarrow> s \<noteq> [] \<and> list_all is_digit s"

definition signed_whole :: "jstr \<Rightarrow> int option" where
  "signed_whole s = (case s of [] \<Rightarrow> None
     | c # t \<Rightarrow> if c = 45 then (if whole t then Some (- int (dec_val t)) else None)
         else if c = 43 then (if whole t then Some (int (dec_val t)) else None)
         else if whole s then Some (int (dec_val s)) else None)"

text \<open>The largest double is below \<open>2 ^ 1024\<close>; what rounds up to that is infinite.\<close>

definition too_large :: "int \<Rightarrow> int \<Rightarrow> bool" where
  "too_large m e \<longleftrightarrow> (if 0 \<le> e then (2 ^ 1024 - 2 ^ 970) \<le> \<bar>m\<bar> * 10 ^ nat e else (2 ^ 1024 - 2 ^ 970) * 10 ^ nat (- e) \<le> \<bar>m\<bar>)"

definition decimal_literal :: "int \<Rightarrow> jstr \<Rightarrow> js_number" where
  "decimal_literal sign s =
     (let i = takeWhile is_digit s; r = dropWhile is_digit s;
          f = (case r of c # t \<Rightarrow> if c = 46 then takeWhile is_digit t else [] | [] \<Rightarrow> []);
          r = (case r of c # t \<Rightarrow> if c = 46 then dropWhile is_digit t else r | [] \<Rightarrow> []);
          e = (case r of [] \<Rightarrow> Some 0 | c # t \<Rightarrow> if c = 101 \<or> c = 69 then signed_whole t else None);
          m = sign * int (dec_val (i @ f)) in
      if s = js ''Infinity'' then Infinite (0 < sign)
      else if i @ f = [] then NaN
      else (case e of None \<Rightarrow> NaN
        | Some e \<Rightarrow> if too_large m (e - int (length f)) then Infinite (0 < m) else Scaled m (e - int (length f))))"

definition radix_val :: "nat \<Rightarrow> jstr \<Rightarrow> js_number" where
  "radix_val b s = (if s = [] \<or> list_ex (\<lambda>c. case hex_val c of None \<Rightarrow> True | Some d \<Rightarrow> b \<le> d) s then NaN
     else (let n = int (foldl (\<lambda>n c. n * b + the (hex_val c)) 0 s) in if too_large n 0 then Infinite True else Scaled n 0))"

definition js_Number :: "jstr \<Rightarrow> js_number" where
  "js_Number raw =
     (let s = js_trim raw in
      case s of [] \<Rightarrow> Scaled 0 0
      | c # t \<Rightarrow>
          if c = 48 \<and> t \<noteq> [] \<and> hd t \<in> {120, 88} then radix_val 16 (tl t)
          else if c = 48 \<and> t \<noteq> [] \<and> hd t \<in> {111, 79} then radix_val 8 (tl t)
          else if c = 48 \<and> t \<noteq> [] \<and> hd t \<in> {98, 66} then radix_val 2 (tl t)
          else if c = 45 then decimal_literal (- 1) t
          else if c = 43 then decimal_literal 1 t
          else decimal_literal 1 s)"

definition exceeds :: "js_number \<Rightarrow> nat \<Rightarrow> bool" where
  "exceeds n limit = (case n of Scaled m e \<Rightarrow> if 0 \<le> e then int limit < m * 10 ^ nat e else int limit * 10 ^ nat (- e) < m
     | Infinite positive \<Rightarrow> positive | NaN \<Rightarrow> False)"

definition finite_number :: "js_number \<Rightarrow> bool" where
  "finite_number n = (case n of Scaled m e \<Rightarrow> True | _ \<Rightarrow> False)"

definition bad_length :: "js_number \<Rightarrow> bool" where
  "bad_length n \<longleftrightarrow> \<not> finite_number n \<or> (case n of Scaled m e \<Rightarrow> m < 0 | _ \<Rightarrow> False)"

text \<open>The check of a declared length that every way to read a body starts with.\<close>

definition declared_error :: "headers \<Rightarrow> nat \<Rightarrow> thrown option" where
  "declared_error h limit =
     (case hd_get (js ''content-length'') h of None \<Rightarrow> None
      | Some cl \<Rightarrow> if cl = [] then None
          else if bad_length (js_Number cl) then Some (BadRequestError (Some (js ''Invalid Content-Length'')))
          else if exceeds (js_Number cl) limit then Some (PayloadTooLargeError limit) else None)"

section \<open>Reading the bytes\<close>

text \<open>One \<open>reader.read()\<close> per piece; the limit is checked before a piece is kept.\<close>

fun read_pieces :: "nat \<Rightarrow> nat list list \<Rightarrow> nat list \<Rightarrow> (thrown, 'w, nat list) comp" where
  "read_pieces limit [] got = awaited (ret got)"
| "read_pieces limit (c # cs) got =
     bind_comp (awaited (ret ())) (\<lambda>_.
       if limit < length got + length c then throw (PayloadTooLargeError limit) else read_pieces limit cs (got @ c))"

definition use_stream :: "('s, 'u) hook_world \<Rightarrow> ('s, 'u) hook_world" where
  "use_stream = on_ctx (\<lambda>c. c\<lparr>cx_stream := (case cx_stream c of NoStream \<Rightarrow> NoStream | _ \<Rightarrow> Disturbed)\<rparr>)"

definition read_stream :: "nat \<Rightarrow> body_stream \<Rightarrow> (thrown, ('s, 'u) hook_world, nat list) comp" where
  "read_stream limit s = (case s of
       NoStream \<Rightarrow> ret []
     | Unread cs \<Rightarrow> bind_comp (modify use_stream) (\<lambda>_. read_pieces limit cs [])
     | Disturbed \<Rightarrow> throw type_error)"

definition with_ctx :: "('u ctx \<Rightarrow> ('e, ('s, 'u) hook_world, 'a) comp) \<Rightarrow> 'a \<Rightarrow> ('e, ('s, 'u) hook_world, 'a) comp" where
  "with_ctx f a w = (case snd w of None \<Rightarrow> Settled w (Inr a) | Some c \<Rightarrow> f c w)"

definition readBodyLimited :: "headers \<Rightarrow> nat \<Rightarrow> (thrown, ('s, 'u) hook_world, nat list) comp" where
  "readBodyLimited h limit = async (with_ctx (\<lambda>c.
     case declared_error h limit of Some e \<Rightarrow> throw e
     | None \<Rightarrow> (case cx_raw c of
           Some bytes \<Rightarrow> if limit < length bytes then throw (PayloadTooLargeError limit) else ret bytes
         | None \<Rightarrow> read_stream limit (cx_stream c))) [])"

definition readBodyBytesFast :: "headers \<Rightarrow> nat \<Rightarrow> nat list option \<Rightarrow> thrown + nat list option" where
  "readBodyBytesFast h limit raw =
     (case declared_error h limit of Some e \<Rightarrow> Inl e
      | None \<Rightarrow> (case raw of None \<Rightarrow> Inr None
          | Some bytes \<Rightarrow> if limit < length bytes then Inl (PayloadTooLargeError limit) else Inr (Some bytes)))"

section \<open>Decoding by media type\<close>

datatype form_value = FormText jstr | FormFile nat nat

record body_parsers =
  bp_json :: "jstr \<Rightarrow> json option"
  bp_search :: "jstr \<Rightarrow> (jstr \<times> jstr) list"
  bp_form :: "jstr \<Rightarrow> nat list \<Rightarrow> (jstr \<times> form_value) list option"
  bp_object :: "(jstr \<times> form_value) list \<Rightarrow> jvalue"

record body_options =
  bo_allowed :: "jstr list option"
  bo_maxFileBytes :: "nat option"
  bo_maxFields :: "nat option"
  bo_maxFiles :: "nat option"
  bo_maxKeys :: int
  bo_maxDepth :: int

definition contentTypeAllowed :: "jstr \<Rightarrow> jstr list \<Rightarrow> bool" where
  "contentTypeAllowed contentType allowed =
     (let essence = mediaTypeEssence contentType in
      essence \<noteq> [] \<and> list_ex (\<lambda>e. mediaTypeEssence e = essence) allowed)"

definition decodeBodyUtf8 :: "nat list \<Rightarrow> thrown + jstr" where
  "decodeBodyUtf8 bytes = (case utf8_decode bytes of Some s \<Rightarrow> Inr s
     | None \<Rightarrow> Inl (BadRequestError (Some (js ''Request body is not valid UTF-8''))))"

definition json_failure :: "json_error \<Rightarrow> thrown" where
  "json_failure e = BadRequestError (Some (case e of InvalidJson \<Rightarrow> js ''Invalid JSON''
     | LimitExceeded TooDeep \<Rightarrow> js ''JSON exceeds maximum nesting depth''
     | LimitExceeded TooManyKeys \<Rightarrow> js ''JSON exceeds maximum key count''))"

definition parseJsonBodyBytes :: "body_parsers \<Rightarrow> body_options \<Rightarrow> nat list \<Rightarrow> thrown + jvalue" where
  "parseJsonBodyBytes p opts bytes =
     (if bytes = [] then Inr Undefined
      else (case decodeBodyUtf8 bytes of Inl e \<Rightarrow> Inl e
        | Inr text \<Rightarrow> (case safeJsonParseLimited (bp_json p) text (bo_maxKeys opts) (bo_maxDepth opts) of
              Inl e \<Rightarrow> Inl (json_failure e)
            | Inr None \<Rightarrow> Inr Undefined
            | Inr (Some v) \<Rightarrow> Inr (Value v))))"

definition kept :: "(jstr \<times> 'v) list \<Rightarrow> (jstr, 'v) assoc" where
  "kept entries = fold (\<lambda>(k, v) out. if isForbiddenObjectKey k then out else AList.update k v out) entries []"

definition parseUrlencodedBodyBytes :: "body_parsers \<Rightarrow> nat list \<Rightarrow> thrown + jvalue" where
  "parseUrlencodedBodyBytes p bytes =
     (case decodeBodyUtf8 bytes of Inl e \<Rightarrow> Inl e
      | Inr text \<Rightarrow> Inr (Value (JObj (map (\<lambda>(k, v). (k, JStr v)) (kept (bp_search p text))))))"

text \<open>A key that occurs once is a string, otherwise the list of its values, in the order of first occurrence.\<close>

definition queryToObject :: "(jstr \<times> jstr) list \<Rightarrow> jvalue" where
  "queryToObject ps = Value (JObj (map (\<lambda>k.
       (k, case map (\<lambda>(k', v). JStr v) (filter (\<lambda>(k', v). k' = k) ps) of [v] \<Rightarrow> v | vs \<Rightarrow> JArr vs))
     (filter (\<lambda>k. \<not> isForbiddenObjectKey k) (rev (remdups (rev (map fst ps)))))))"

definition headersToObject :: "headers \<Rightarrow> jvalue" where
  "headersToObject h = Value (JObj (map (\<lambda>(k, v). (k, JStr v)) (fold (\<lambda>(k, v) out. AList.update k v out) h [])))"

text \<open>The multipart fields: a file over its limit ends the walk, the counts are checked after it.\<close>

fun big_file :: "nat \<Rightarrow> (jstr \<times> form_value) list \<Rightarrow> bool" where
  "big_file limit [] = False"
| "big_file limit ((k, FormFile sz i) # fs) = (limit < sz \<or> big_file limit fs)"
| "big_file limit ((k, FormText v) # fs) = big_file limit fs"

definition over :: "nat \<Rightarrow> nat option \<Rightarrow> bool" where
  "over n limit = (case limit of None \<Rightarrow> False | Some m \<Rightarrow> m < n)"

definition form_files :: "(jstr \<times> form_value) list \<Rightarrow> nat" where
  "form_files fs = length (filter (\<lambda>(k, v). case v of FormFile sz i \<Rightarrow> True | _ \<Rightarrow> False) fs)"

definition many_message :: "string \<Rightarrow> nat \<Rightarrow> nat option \<Rightarrow> jstr" where
  "many_message what n limit = js ''Too many '' @ js what @ js '' ('' @ dec_str n @ js '' > '' @ dec_str (the limit) @ js '')''"

definition multipart_object :: "body_parsers \<Rightarrow> body_options \<Rightarrow> (jstr \<times> form_value) list \<Rightarrow> thrown + jvalue" where
  "multipart_object p opts fs =
     (if bo_maxFileBytes opts \<noteq> None \<and> big_file (the (bo_maxFileBytes opts)) fs
      then Inl (PayloadTooLargeError (the (bo_maxFileBytes opts)))
      else if over (length fs) (bo_maxFields opts)
      then Inl (BadRequestError (Some (many_message ''form fields'' (length fs) (bo_maxFields opts))))
      else if over (form_files fs) (bo_maxFiles opts)
      then Inl (BadRequestError (Some (many_message ''file uploads'' (form_files fs) (bo_maxFiles opts))))
      else Inr (bp_object p (kept fs)))"

definition of_result :: "'e + 'a \<Rightarrow> ('e, 'w, 'a) comp" where
  "of_result r = (case r of Inl e \<Rightarrow> throw e | Inr a \<Rightarrow> ret a)"

definition parse_multipart :: "body_parsers \<Rightarrow> body_options \<Rightarrow> jstr \<Rightarrow> nat list \<Rightarrow> thrown + jvalue" where
  "parse_multipart p opts rawContentType bytes =
     (case bp_form p rawContentType bytes of
        None \<Rightarrow> Inl (BadRequestError (Some (js ''Malformed multipart/form-data body'')))
      | Some fs \<Rightarrow> multipart_object p opts fs)"

definition read_multipart :: "body_parsers \<Rightarrow> body_options \<Rightarrow> headers \<Rightarrow> jstr \<Rightarrow> nat \<Rightarrow> (thrown, ('s, 'u) hook_world, jvalue) comp" where
  "read_multipart p opts h ct limit =
     bind_comp (readBodyLimited h limit) (\<lambda>bytes. awaited (of_result (parse_multipart p opts
       (case hd_get (js ''content-type'') h of Some t \<Rightarrow> t | None \<Rightarrow> ct) bytes)))"

definition readBodySlow :: "body_parsers \<Rightarrow> body_options \<Rightarrow> headers \<Rightarrow> jstr \<Rightarrow> nat \<Rightarrow> (thrown, ('s, 'u) hook_world, jvalue) comp" where
  "readBodySlow p opts h ct limit = async (
     if mediaTypeEssence ct = js ''multipart/form-data'' then
       (case hd_get (js ''content-length'') h of
          Some cl \<Rightarrow> if cl \<noteq> [] \<and> exceeds (js_Number cl) limit then throw (PayloadTooLargeError limit)
            else read_multipart p opts h ct limit
        | None \<Rightarrow> read_multipart p opts h ct limit)
     else bind_comp (readBodyLimited h limit)
       (\<lambda>bytes. of_result (case decodeBodyUtf8 bytes of Inl e \<Rightarrow> Inl e | Inr s \<Rightarrow> Inr (Value (JStr s)))))"

definition read_by :: "headers \<Rightarrow> nat \<Rightarrow> (nat list \<Rightarrow> thrown + jvalue) \<Rightarrow> (thrown, ('s, 'u) hook_world, jvalue) comp" where
  "read_by h limit parse = with_ctx (\<lambda>c. case readBodyBytesFast h limit (cx_raw c) of
       Inl e \<Rightarrow> throw e
     | Inr (Some bytes) \<Rightarrow> of_result (parse bytes)
     | Inr None \<Rightarrow> bind_comp (readBodyLimited h limit) (\<lambda>bytes. of_result (parse bytes))) Undefined"

definition readBody :: "body_parsers \<Rightarrow> body_options \<Rightarrow> headers \<Rightarrow> jstr \<Rightarrow> nat \<Rightarrow> (thrown, ('s, 'u) hook_world, jvalue) comp" where
  "readBody p opts h ct limit =
     (if isJsonMediaType ct then read_by h limit (parseJsonBodyBytes p opts)
      else if mediaTypeEssence ct = js ''application/x-www-form-urlencoded'' then read_by h limit (parseUrlencodedBodyBytes p)
      else readBodySlow p opts h ct limit)"

section \<open>Validating the parts of a request\<close>

record 'w request_spec =
  qs_params :: "'w schema option"
  qs_query :: "'w schema option"
  qs_headers :: "'w schema option"
  qs_body :: "'w schema option"
  qs_accepts :: "jstr list option"
  qs_limit :: nat

definition default_types :: "jstr list" where
  "default_types = [js ''application/json'', js ''application/x-www-form-urlencoded'', js ''multipart/form-data'']"

definition check_part :: "jstr \<Rightarrow> ('s, 'u) hook_world schema \<Rightarrow> (jvalue \<Rightarrow> 'u ctx \<Rightarrow> 'u ctx) \<Rightarrow> jvalue \<Rightarrow>
    (thrown, ('s, 'u) hook_world, unit) comp" where
  "check_part part validate store raw =
     bind_comp (validate raw) (\<lambda>r. case r of
         Inl issues \<Rightarrow> throw (ValidationError part issues)
       | Inr v \<Rightarrow> modify (on_ctx (store v)))"

definition part_step :: "jstr \<Rightarrow> ('s, 'u) hook_world schema option \<Rightarrow> ('u ctx \<Rightarrow> jvalue) \<Rightarrow> (jvalue \<Rightarrow> 'u ctx \<Rightarrow> 'u ctx) \<Rightarrow>
    (thrown, ('s, 'u) hook_world, unit) comp" where
  "part_step part sch raw store =
     (case sch of None \<Rightarrow> ret () | Some validate \<Rightarrow> with_ctx (\<lambda>c. check_part part validate store (raw c)) ())"

definition stepBody :: "body_parsers \<Rightarrow> body_options \<Rightarrow> headers \<Rightarrow> ('s, 'u) hook_world request_spec \<Rightarrow>
    (thrown, ('s, 'u) hook_world, unit) comp" where
  "stepBody p opts h spec =
     (case qs_body spec of None \<Rightarrow> ret ()
      | Some validate \<Rightarrow>
          (let ct = to_lower (case hd_get (js ''content-type'') h of Some t \<Rightarrow> t | None \<Rightarrow> []);
               allowed = (case qs_accepts spec of Some a \<Rightarrow> a
                 | None \<Rightarrow> (case bo_allowed opts of Some a \<Rightarrow> a | None \<Rightarrow> default_types)) in
           if \<not> contentTypeAllowed ct allowed
           then throw (UnsupportedMediaTypeError (if ct = [] then js ''(none)'' else ct) allowed)
           else if (case hd_get (js ''content-length'') h of Some cl \<Rightarrow> finite_number (js_Number cl) \<and> exceeds (js_Number cl) (qs_limit spec) | None \<Rightarrow> False)
           then throw (PayloadTooLargeError (qs_limit spec))
           else bind_comp (readBody p opts h ct (qs_limit spec))
             (check_part (js ''body'') validate (\<lambda>v c. c\<lparr>cx_body := v\<rparr>))))"

definition validateContext :: "body_parsers \<Rightarrow> body_options \<Rightarrow> headers \<Rightarrow> ('s, 'u) hook_world request_spec \<Rightarrow>
    (thrown, ('s, 'u) hook_world, unit) comp" where
  "validateContext p opts h spec =
     bind_comp (part_step (js ''params'') (qs_params spec) cx_params (\<lambda>v c. c\<lparr>cx_params := v\<rparr>)) (\<lambda>_.
     bind_comp (part_step (js ''query'') (qs_query spec) cx_query (\<lambda>v c. c\<lparr>cx_query := v\<rparr>)) (\<lambda>_.
     bind_comp (part_step (js ''headers'') (qs_headers spec) cx_reqHeaders (\<lambda>v c. c\<lparr>cx_reqHeaders := v\<rparr>)) (\<lambda>_.
       stepBody p opts h spec)))"

section \<open>What reading a body amounts to\<close>

text \<open>The body as a whole, however it arrives; no value when it was read before.\<close>

definition whole_body :: "'u ctx \<Rightarrow> nat list option" where
  "whole_body c = (case cx_raw c of Some b \<Rightarrow> Some b
     | None \<Rightarrow> (case cx_stream c of NoStream \<Rightarrow> Some [] | Unread cs \<Rightarrow> Some (concat cs) | Disturbed \<Rightarrow> None))"

definition body_verdict :: "headers \<Rightarrow> nat \<Rightarrow> 'u ctx \<Rightarrow> thrown + nat list" where
  "body_verdict h limit c =
     (case declared_error h limit of Some e \<Rightarrow> Inl e
      | None \<Rightarrow> (case whole_body c of None \<Rightarrow> Inl type_error
          | Some b \<Rightarrow> if limit < length b then Inl (PayloadTooLargeError limit) else Inr b))"

definition then_parse :: "thrown + 'a \<Rightarrow> ('a \<Rightarrow> thrown + 'b) \<Rightarrow> thrown + 'b" where
  "then_parse r f = (case r of Inl e \<Rightarrow> Inl e | Inr a \<Rightarrow> f a)"

lemma ends_of_result: "ends R Q (of_result r w) \<longleftrightarrow> Q w r"
  by (cases r) (simp_all add: of_result_def throw_def ret_def)

lemma ends_pieces:
  "length got \<le> limit \<Longrightarrow> ends R (\<lambda>_ r. r = (if limit < length (got @ concat cs) then Inl (PayloadTooLargeError limit) else Inr (got @ concat cs)))
     (read_pieces limit cs got w)"
proof (induction cs arbitrary: got w)
  case Nil
  then show ?case by (simp add: awaited_def ret_def)
next
  case (Cons c cs)
  have step: "ends R Q (read_pieces limit (c # cs) got w)"
    if "\<And>w'. ends R Q ((if limit < length got + length c then throw (PayloadTooLargeError limit) else read_pieces limit cs (got @ c)) w')" for Q
    using that by (auto simp: bind_comp_def awaited_def ret_def)
  show ?case
  proof (rule step)
    fix w'
    show "ends R (\<lambda>_ r. r = (if limit < length (got @ concat (c # cs)) then Inl (PayloadTooLargeError limit) else Inr (got @ concat (c # cs))))
      ((if limit < length got + length c then throw (PayloadTooLargeError limit) else read_pieces limit cs (got @ c)) w')"
      using Cons.IH [of "got @ c" w'] by (auto simp: throw_def simp del: read_pieces.simps split: if_splits)
  qed
qed

text \<open>Reading keeps the context, except that the stream is used up.\<close>

definition stream_only :: "'u ctx \<Rightarrow> 'u ctx \<Rightarrow> bool" where
  "stream_only c c' \<longleftrightarrow> (\<exists>s. c' = c\<lparr>cx_stream := s\<rparr>)"

lemma stream_only_refl [simp]: "stream_only c c"
  unfolding stream_only_def by (rule exI [of _ "cx_stream c"]) simp

lemma ends_and: "ends R P p \<Longrightarrow> ends R Q p \<Longrightarrow> ends R (\<lambda>w r. P w r \<and> Q w r) p"
  by (induction p) auto

lemma pieces_keep:
  fixes w :: "'s \<times> 'c"
  shows "ends (\<lambda>w w'. snd w' = snd w) (\<lambda>w' _. snd w' = snd w) (read_pieces limit cs got w)"
proof (induction cs arbitrary: got w)
  case Nil
  then show ?case by (simp add: awaited_def ret_def)
next
  case (Cons c cs)
  have "ends (\<lambda>w w'. snd w' = snd w) (\<lambda>w' _. snd w' = snd w) (read_pieces limit cs (got @ c) w1)" if "snd w1 = snd w" for w1 :: "'s \<times> 'c"
    using Cons.IH [of w1 "got @ c"] that by simp
  then show ?case by (auto simp: bind_comp_def awaited_def ret_def throw_def)
qed

lemma ends_read_stream:
  fixes s :: 's
  assumes "whole_body c = Some b \<or> cx_stream c = Disturbed" and "cx_raw c = None"
  shows "ends (\<lambda>w w'. snd w' = snd w) (\<lambda>w r. (\<exists>c'. snd w = Some c' \<and> stream_only c c')
     \<and> r = (case whole_body c of None \<Rightarrow> Inl type_error | Some b \<Rightarrow> if limit < length b then Inl (PayloadTooLargeError limit) else Inr b))
    (read_stream limit (cx_stream c) (s, Some c))"
proof (cases "cx_stream c")
  case (Unread cs)
  define w1 where "w1 = use_stream (s, Some c)"
  have w1: "snd w1 = Some (c\<lparr>cx_stream := Disturbed\<rparr>)" by (simp add: w1_def use_stream_def on_ctx_def Unread)
  have "ends (\<lambda>w w'. snd w' = snd w) (\<lambda>w r. snd w = snd w1 \<and>
      r = (if limit < length ([] @ concat cs) then Inl (PayloadTooLargeError limit) else Inr ([] @ concat cs))) (read_pieces limit cs [] w1)"
    by (intro ends_and pieces_keep ends_pieces) simp
  then have "ends (\<lambda>w w'. snd w' = snd w) (\<lambda>w r. (\<exists>c'. snd w = Some c' \<and> stream_only c c')
      \<and> r = (case whole_body c of None \<Rightarrow> Inl type_error | Some b \<Rightarrow> if limit < length b then Inl (PayloadTooLargeError limit) else Inr b))
     (read_pieces limit cs [] w1)"
    by (rule ends_mono) (auto simp: w1 whole_body_def assms(2) Unread stream_only_def)
  then show ?thesis by (simp add: read_stream_def Unread bind_comp_def modify_def w1_def)
qed (use assms(2) in \<open>simp_all add: read_stream_def whole_body_def ret_def throw_def\<close>)

lemma ends_readBodyLimited:
  fixes s :: 's and c :: "'u ctx"
  shows "ends (\<lambda>w w'. snd w' = snd w) (\<lambda>w r. (\<exists>c'. snd w = Some c' \<and> stream_only c c') \<and> r = body_verdict h limit c)
    (readBodyLimited h limit (s, Some c))"
  unfolding readBodyLimited_def
proof (rule ends_async)
  let ?Q = "\<lambda>w r. (\<exists>c'. snd w = Some c' \<and> stream_only c c') \<and> r = body_verdict h limit c"
  show "?Q w' r" if "?Q w r" "snd w' = snd w" for w w' :: "('s, 'u) hook_world" and r using that by simp
  show "ends (\<lambda>w w'. snd w' = snd w) ?Q (with_ctx (\<lambda>c. case declared_error h limit of Some e \<Rightarrow> throw e
     | None \<Rightarrow> (case cx_raw c of
           Some bytes \<Rightarrow> if limit < length bytes then throw (PayloadTooLargeError limit) else ret bytes
         | None \<Rightarrow> read_stream limit (cx_stream c))) [] (s, Some c))"
  proof (cases "declared_error h limit")
    case None
    note d = this
    show ?thesis
    proof (cases "cx_raw c")
      case None
      have "whole_body c = Some (the (whole_body c)) \<or> cx_stream c = Disturbed"
        by (simp add: whole_body_def None split: body_stream.split)
      from ends_read_stream [OF this None, of limit s] show ?thesis
        by (simp add: with_ctx_def d None body_verdict_def)
    qed (simp add: with_ctx_def d body_verdict_def whole_body_def throw_def ret_def)
  qed (simp add: with_ctx_def throw_def body_verdict_def)
qed

text \<open>The path without a suspension decides as the one that streams.\<close>

lemma ends_read_by:
  fixes s :: 's
  shows "ends (\<lambda>w w'. snd w' = snd w) (\<lambda>w r. (\<exists>c'. snd w = Some c' \<and> stream_only c c') \<and> r = then_parse (body_verdict h limit c) parse)
    (read_by h limit parse (s, Some c))"
proof (cases "cx_raw c")
  case None
  have "ends (\<lambda>w w'. snd w' = snd w) (\<lambda>w r. (\<exists>c'. snd w = Some c' \<and> stream_only c c') \<and> r = then_parse (body_verdict h limit c) parse)
    (bind_comp (readBodyLimited h limit) (\<lambda>bytes. of_result (parse bytes)) (s, Some c))"
    by (rule ends_bind, rule ends_mono [OF ends_readBodyLimited])
      (auto simp: then_parse_def ends_of_result split: sum.split)
  then show ?thesis
    by (cases "declared_error h limit")
      (simp_all add: read_by_def with_ctx_def readBodyBytesFast_def None throw_def body_verdict_def then_parse_def)
qed (simp add: read_by_def with_ctx_def readBodyBytesFast_def body_verdict_def whole_body_def then_parse_def throw_def ends_of_result
    split: option.split)

lemma stable_reach: "\<exists>w' r. reaches (\<lambda>w w'. snd w' = snd w) (m w) w' r"
  using reaches_run [where R = "\<lambda>w w'. snd w' = snd w"] by blast

lemma body_outcome:
  fixes s :: 's
  shows "(\<exists>w. reaches (\<lambda>w w'. snd w' = snd w) (readBodyLimited h limit (s, Some c)) w r) \<longleftrightarrow> r = body_verdict h limit c"
proof -
  have "r' = body_verdict h limit c" if "reaches (\<lambda>w w'. snd w' = snd w) (readBodyLimited h limit (s, Some c)) w r'" for w r'
    using ends_readBodyLimited [where h = h and limit = limit and c = c and s = s] that unfolding reaches_ends by blast
  with stable_reach [of "readBodyLimited h limit" "(s, Some c)"] show ?thesis by blast
qed

lemma parsed_outcome:
  fixes s :: 's
  shows "(\<exists>w. reaches (\<lambda>w w'. snd w' = snd w) (read_by h limit parse (s, Some c)) w r) \<longleftrightarrow> r = then_parse (body_verdict h limit c) parse"
proof -
  have "r' = then_parse (body_verdict h limit c) parse" if "reaches (\<lambda>w w'. snd w' = snd w) (read_by h limit parse (s, Some c)) w r'" for w r'
    using ends_read_by [where h = h and limit = limit and c = c and parse = parse and s = s] that unfolding reaches_ends by blast
  with stable_reach [of "read_by h limit parse" "(s, Some c)"] show ?thesis by blast
qed

text \<open>
  C31. Reading a request body has one outcome, whatever pieces it arrives in, whether the adapter buffered it
  and whatever other requests do between two pieces: the error of a bad or too large declared length, 413
  when the body is longer than the limit, and otherwise the whole body, which is then within the limit. The
  parsers of JSON and form bodies, on their fast and on their streaming path, get exactly these bytes.
\<close>

theorem body_read_exact:
  fixes s :: 's
  shows "((\<exists>w. reaches (\<lambda>w w'. snd w' = snd w) (readBodyLimited h limit (s, Some c)) w r) \<longleftrightarrow> r = body_verdict h limit c)
    \<and> ((\<exists>w. reaches (\<lambda>w w'. snd w' = snd w) (read_by h limit parse (s, Some c)) w v)
        \<longleftrightarrow> v = (case body_verdict h limit c of Inl e \<Rightarrow> Inl e | Inr b \<Rightarrow> parse b))
    \<and> (\<forall>b. body_verdict h limit c = Inr b \<longrightarrow> length b \<le> limit \<and> whole_body c = Some b)"
proof -
  have "\<forall>b. body_verdict h limit c = Inr b \<longrightarrow> length b \<le> limit \<and> whole_body c = Some b"
    by (auto simp: body_verdict_def split: option.splits if_splits)
  with body_outcome [where h = h and limit = limit and s = s and c = c] parsed_outcome [where h = h and limit = limit and parse = parse and s = s and c = c] show ?thesis
    unfolding then_parse_def by blast
qed

text \<open>A lying length: five bytes in two pieces behind a declared length of three, under a limit of four.\<close>

definition lying_ctx :: "nat ctx" where
  "lying_ctx = sample_ctx\<lparr>cx_stream := Unread [[1, 2, 3], [4, 5]]\<rparr>"

lemma body_read_exact_witness:
  "(\<exists>w. reaches (\<lambda>w w'. snd w' = snd w) (readBodyLimited [(js ''content-length'', js ''3'')] 4 (0 :: nat, Some lying_ctx)) w
      (Inl (PayloadTooLargeError 4)))
   \<and> length [1, 2, 3, 4, 5 :: nat] \<le> 5 \<and> whole_body lying_ctx = Some [1, 2, 3, 4, 5]"
proof -
  let ?h = "[(js ''content-length'', js ''3'')]"
  have n: "js_Number (js ''3'') = Scaled 3 0"
    by (simp add: js_Number_def js_trim_def is_js_space_def Let_def decimal_literal_def is_digit_def dec_val_def too_large_def)
  have v: "body_verdict ?h 4 lying_ctx = Inl (PayloadTooLargeError 4)" "body_verdict ?h 5 lying_ctx = Inr [1, 2, 3, 4, 5]"
    using n by (simp_all add: body_verdict_def declared_error_def hd_get_def to_lower_def lower_unit_def whole_body_def lying_ctx_def
        sample_ctx_def bad_length_def finite_number_def exceeds_def)
  from body_read_exact [where h = ?h and limit = 4 and s = "0 :: nat" and c = lying_ctx] v(1)
  have "\<exists>w. reaches (\<lambda>w w'. snd w' = snd w) (readBodyLimited ?h 4 (0 :: nat, Some lying_ctx)) w (Inl (PayloadTooLargeError 4))"
    by simp
  moreover from body_read_exact [where h = ?h and limit = 5 and s = "0 :: nat" and c = lying_ctx] v(2)
  have "length [1, 2, 3, 4, 5 :: nat] \<le> 5 \<and> whole_body lying_ctx = Some [1, 2, 3, 4, 5]" by blast
  ultimately show ?thesis by blast
qed

section \<open>What validation guarantees\<close>

text \<open>A schema gets the raw value only; a value it accepts is one it can answer with.\<close>

definition pure_schema :: "('s, 'u) hook_world schema \<Rightarrow> bool" where
  "pure_schema sch \<longleftrightarrow> (\<forall>raw w. ends (\<lambda>w w'. snd w' = snd w) (\<lambda>w' _. snd w' = snd w) (sch raw w))"

definition accepts :: "('s, 'u) hook_world schema \<Rightarrow> jvalue \<Rightarrow> jvalue \<Rightarrow> bool" where
  "accepts sch raw v \<longleftrightarrow> (\<exists>w w'. reaches (\<lambda>w w'. snd w' = snd w) (sch raw w) w' (Inr (Inr v)))"

definition request_type :: "headers \<Rightarrow> jstr" where
  "request_type h = to_lower (case hd_get (js ''content-type'') h of Some t \<Rightarrow> t | None \<Rightarrow> [])"

definition allowed_types :: "body_options \<Rightarrow> ('s, 'u) hook_world request_spec \<Rightarrow> jstr list" where
  "allowed_types opts spec = (case qs_accepts spec of Some a \<Rightarrow> a
     | None \<Rightarrow> (case bo_allowed opts of Some a \<Rightarrow> a | None \<Rightarrow> default_types))"

text \<open>The value of a body by its media type.\<close>

definition body_value :: "body_parsers \<Rightarrow> body_options \<Rightarrow> headers \<Rightarrow> nat list \<Rightarrow> thrown + jvalue" where
  "body_value p opts h bytes =
     (let ct = request_type h in
      if isJsonMediaType ct then parseJsonBodyBytes p opts bytes
      else if mediaTypeEssence ct = js ''application/x-www-form-urlencoded'' then parseUrlencodedBodyBytes p bytes
      else if mediaTypeEssence ct = js ''multipart/form-data''
        then parse_multipart p opts (case hd_get (js ''content-type'') h of Some t \<Rightarrow> t | None \<Rightarrow> ct) bytes
      else (case decodeBodyUtf8 bytes of Inl e \<Rightarrow> Inl e | Inr s \<Rightarrow> Inr (Value (JStr s))))"

abbreviation stable :: "'a \<times> 'b \<Rightarrow> 'a \<times> 'b \<Rightarrow> bool" where
  "stable \<equiv> (\<lambda>w w'. snd w' = snd w)"

definition reads_body :: "headers \<Rightarrow> nat \<Rightarrow> 'u ctx \<Rightarrow> (nat list \<Rightarrow> thrown + jvalue) \<Rightarrow> ('s, 'u) hook_world \<Rightarrow> thrown + jvalue \<Rightarrow> bool" where
  "reads_body h limit c parse w r \<longleftrightarrow> (\<exists>c'. snd w = Some c' \<and> stream_only c c')
     \<and> (\<forall>v. r = Inr v \<longrightarrow> (\<exists>b. body_verdict h limit c = Inr b \<and> parse b = Inr v))"

lemma reads_body_stable: "reads_body h limit c parse w r \<Longrightarrow> stable w w' \<Longrightarrow> reads_body h limit c parse w' r"
  by (simp add: reads_body_def)

lemma world_of: "snd w = x \<Longrightarrow> (fst w, x) = w"
  by (cases w) simp

lemma ends_read_then:
  fixes w :: "('s, 'u) hook_world"
  assumes "snd w = Some c"
  shows "ends stable (reads_body h limit c parse) (bind_comp (readBodyLimited h limit) (\<lambda>bytes. of_result (parse bytes)) w)"
    and "ends stable (reads_body h limit c parse) (bind_comp (readBodyLimited h limit) (\<lambda>bytes. awaited (of_result (parse bytes))) w)"
proof -
  have r: "ends stable (\<lambda>w r. (\<exists>c'. snd w = Some c' \<and> stream_only c c') \<and> r = body_verdict h limit c) (readBodyLimited h limit w)"
    using ends_readBodyLimited [where h = h and limit = limit and c = c and s = "fst w"] by (simp only: world_of [OF assms])
  show "ends stable (reads_body h limit c parse) (bind_comp (readBodyLimited h limit) (\<lambda>bytes. of_result (parse bytes)) w)"
    by (rule ends_bind, rule ends_mono [OF r]) (auto simp: ends_of_result reads_body_def split: sum.split)
  have "ends stable (reads_body h limit c parse) (awaited (of_result (parse b)) w')" if "body_verdict h limit c = Inr b"
    "snd w' = Some c'" "stream_only c c'" for b c' and w' :: "('s, 'u) hook_world"
    by (rule ends_awaited) (use that in \<open>auto simp: ends_of_result reads_body_def\<close>)
  then show "ends stable (reads_body h limit c parse) (bind_comp (readBodyLimited h limit) (\<lambda>bytes. awaited (of_result (parse bytes))) w)"
    by (intro ends_bind ends_mono [OF r]) (auto simp: reads_body_def split: sum.split)
qed

lemma ends_readBody:
  fixes w :: "('s, 'u) hook_world"
  assumes "snd w = Some c"
  shows "ends stable (reads_body h limit c (body_value p opts h)) (readBody p opts h (request_type h) limit w)"
proof -
  have parsed: "ends stable (reads_body h limit c parse) (read_by h limit parse w)" for parse :: "nat list \<Rightarrow> thrown + jvalue"
  proof (rule ends_mono [where Q = "\<lambda>w r. (\<exists>c'. snd w = Some c' \<and> stream_only c c') \<and> r = then_parse (body_verdict h limit c) parse"])
    show "ends stable (\<lambda>w r. (\<exists>c'. snd w = Some c' \<and> stream_only c c') \<and> r = then_parse (body_verdict h limit c) parse) (read_by h limit parse w)"
      using ends_read_by [where h = h and limit = limit and c = c and parse = parse and s = "fst w"] by (simp only: world_of [OF assms])
  qed (auto simp: reads_body_def then_parse_def split: sum.splits)
  have multi: "ends stable (reads_body h limit c (parse_multipart p opts t)) (read_multipart p opts h ct limit w)"
    if "t = (case hd_get (js ''content-type'') h of Some t \<Rightarrow> t | None \<Rightarrow> ct)" for t ct
    unfolding read_multipart_def that by (rule ends_read_then(2) [OF assms])
  have slow: "ends stable (reads_body h limit c (body_value p opts h)) (readBodySlow p opts h (request_type h) limit w)"
    if "\<not> isJsonMediaType (request_type h)" "mediaTypeEssence (request_type h) \<noteq> js ''application/x-www-form-urlencoded''"
    unfolding readBodySlow_def
  proof (rule ends_async)
    let ?ct = "request_type h" and ?t = "case hd_get (js ''content-type'') h of Some t \<Rightarrow> t | None \<Rightarrow> request_type h"
    show "ends stable (reads_body h limit c (body_value p opts h)) ((if mediaTypeEssence ?ct = js ''multipart/form-data'' then
       (case hd_get (js ''content-length'') h of
          Some cl \<Rightarrow> if cl \<noteq> [] \<and> exceeds (js_Number cl) limit then throw (PayloadTooLargeError limit)
            else read_multipart p opts h ?ct limit
        | None \<Rightarrow> read_multipart p opts h ?ct limit)
     else bind_comp (readBodyLimited h limit)
       (\<lambda>bytes. of_result (case decodeBodyUtf8 bytes of Inl e \<Rightarrow> Inl e | Inr s \<Rightarrow> Inr (Value (JStr s))))) w)"
    proof (cases "mediaTypeEssence ?ct = js ''multipart/form-data''")
      case True
      have "body_value p opts h = parse_multipart p opts ?t"
        using that True by (intro ext) (simp add: body_value_def Let_def)
      moreover have "reads_body h limit c (parse_multipart p opts ?t) w (Inl e)" for e using assms by (auto simp: reads_body_def)
      ultimately show ?thesis using multi [of ?t ?ct] True by (simp add: throw_def split: option.split)
    next
      case False
      have "body_value p opts h = (\<lambda>bytes. case decodeBodyUtf8 bytes of Inl e \<Rightarrow> Inl e | Inr s \<Rightarrow> Inr (Value (JStr s)))"
        using that False by (intro ext) (simp add: body_value_def Let_def)
      then show ?thesis using False ends_read_then(1) [OF assms] by simp
    qed
  qed (rule reads_body_stable)
  have "body_value p opts h = parseJsonBodyBytes p opts" if "isJsonMediaType (request_type h)"
    using that by (intro ext) (simp add: body_value_def Let_def)
  moreover have "body_value p opts h = parseUrlencodedBodyBytes p" if "\<not> isJsonMediaType (request_type h)"
    "mediaTypeEssence (request_type h) = js ''application/x-www-form-urlencoded''"
    using that by (intro ext) (simp add: body_value_def Let_def)
  ultimately show ?thesis using parsed slow by (simp add: readBody_def)
qed

lemma ends_schema:
  assumes "pure_schema sch" and "snd w = Some c"
  shows "ends stable (\<lambda>w' r. snd w' = Some c \<and> (\<forall>v. r = Inr (Inr v) \<longrightarrow> accepts sch raw v)) (sch raw w)"
  using assms unfolding reaches_ends pure_schema_def accepts_def by fastforce

lemma ends_check_part:
  assumes "pure_schema sch" and "snd w = Some c"
  shows "ends stable (\<lambda>w' r. r = Inr () \<longrightarrow> (\<exists>v. accepts sch raw v \<and> snd w' = Some (store v c))) (check_part part sch store raw w)"
  unfolding check_part_def
  by (rule ends_bind, rule ends_mono [OF ends_schema [OF assms, of raw]])
    (auto simp: throw_def modify_def on_ctx_def split: sum.split)

definition part_checked :: "('s, 'u) hook_world schema option \<Rightarrow> jvalue \<Rightarrow> jvalue \<Rightarrow> bool" where
  "part_checked sch raw v = (case sch of None \<Rightarrow> v = raw | Some f \<Rightarrow> accepts f raw v)"

lemma ends_part_step:
  assumes "\<And>f. sch = Some f \<Longrightarrow> pure_schema f" and "snd w = Some c" and "store (raw c) c = c"
  shows "ends stable (\<lambda>w' r. r = Inr () \<longrightarrow> (\<exists>v. part_checked sch (raw c) v \<and> snd w' = Some (store v c))) (part_step part sch raw store w)"
proof (cases sch)
  case None
  with assms(2,3) show ?thesis by (simp add: part_step_def ret_def part_checked_def)
next
  case (Some f)
  from ends_check_part [OF assms(1) [OF Some] assms(2), of "raw c" store part] show ?thesis
    by (simp add: part_step_def Some with_ctx_def assms(2) part_checked_def)
qed

definition body_checked :: "body_parsers \<Rightarrow> body_options \<Rightarrow> headers \<Rightarrow> ('s, 'u) hook_world request_spec \<Rightarrow> 'u ctx \<Rightarrow> 'u ctx \<Rightarrow> bool" where
  "body_checked p opts h spec c c' = (case qs_body spec of None \<Rightarrow> c' = c
     | Some f \<Rightarrow> contentTypeAllowed (request_type h) (allowed_types opts spec)
         \<and> (\<exists>bytes raw. whole_body c = Some bytes \<and> length bytes \<le> qs_limit spec \<and> body_value p opts h bytes = Inr raw
              \<and> accepts f raw (cx_body c')) \<and> stream_only (c\<lparr>cx_body := cx_body c'\<rparr>) c')"

lemma verdict_bytes: "body_verdict h limit c = Inr b \<Longrightarrow> whole_body c = Some b \<and> length b \<le> limit"
  by (auto simp: body_verdict_def split: option.splits if_splits)

lemma ends_stepBody:
  assumes "\<And>f. qs_body spec = Some f \<Longrightarrow> pure_schema f" and "snd w = Some c"
  shows "ends stable (\<lambda>w' r. r = Inr () \<longrightarrow> (\<exists>c'. snd w' = Some c' \<and> body_checked p opts h spec c c')) (stepBody p opts h spec w)"
proof (cases "qs_body spec")
  case None
  with assms(2) show ?thesis by (simp add: stepBody_def ret_def body_checked_def)
next
  case (Some f)
  let ?Q = "\<lambda>w' r. r = Inr () \<longrightarrow> (\<exists>c'. snd w' = Some c' \<and> body_checked p opts h spec c c')"
  have step: "ends stable ?Q (check_part part f (\<lambda>v c. c\<lparr>cx_body := v\<rparr>) raw w1)"
    if r: "reads_body h (qs_limit spec) c (body_value p opts h) w1 (Inr raw)"
      and allowed: "contentTypeAllowed (request_type h) (allowed_types opts spec)" for raw w1 part
  proof -
    from r obtain c1 b where c1: "snd w1 = Some c1" "stream_only c c1"
      and b: "body_verdict h (qs_limit spec) c = Inr b" "body_value p opts h b = Inr raw" by (auto simp: reads_body_def)
    have "body_checked p opts h spec c (c1\<lparr>cx_body := v\<rparr>)" if "accepts f raw v" for v
    proof -
      obtain s where "c1 = c\<lparr>cx_stream := s\<rparr>" using c1(2) by (auto simp: stream_only_def)
      then have "stream_only (c\<lparr>cx_body := v\<rparr>) (c1\<lparr>cx_body := v\<rparr>)" unfolding stream_only_def by (intro exI [of _ s]) simp
      with that verdict_bytes [OF b(1)] b(2) allowed show ?thesis by (auto simp: body_checked_def Some)
    qed
    then show ?thesis
      by (intro ends_mono [OF ends_check_part [OF assms(1) [OF Some] c1(1)]]) auto
  qed
  show ?thesis
    unfolding stepBody_def Some option.case Let_def
    unfolding request_type_def [symmetric] allowed_types_def [symmetric]
    by (auto simp: throw_def intro!: ends_bind ends_mono [OF ends_readBody [OF assms(2)]] step split: sum.split)
qed

lemma part_step_reached:
  assumes "reaches stable (part_step part sch raw store w) w' (Inr ())" and "\<And>f. sch = Some f \<Longrightarrow> pure_schema f"
    and "snd w = Some c" and "store (raw c) c = c"
  shows "\<exists>v. part_checked sch (raw c) v \<and> snd w' = Some (store v c)"
  using ends_part_step [where store = store and raw = raw, OF assms(2-4)] assms(1) unfolding reaches_ends by blast

lemma stepBody_reached:
  assumes "reaches stable (stepBody p opts h spec w) w' (Inr ())" and "\<And>f. qs_body spec = Some f \<Longrightarrow> pure_schema f"
    and "snd w = Some c"
  shows "\<exists>c'. snd w' = Some c' \<and> body_checked p opts h spec c c'"
  using ends_stepBody [OF assms(2,3)] assms(1) unfolding reaches_ends by blast

lemma reaches_seq:
  fixes m :: "('e, 'w, unit) comp"
  assumes "reaches R (bind_comp m (\<lambda>_. k) w) w2 (Inr ())"
  obtains w1 where "reaches R (m w) w1 (Inr ())" "reaches R (k w1) w2 (Inr ())"
proof -
  from assms obtain w1 r1 where r: "reaches R (m w) w1 r1"
    "case r1 of Inl e \<Rightarrow> w2 = w1 \<and> Inr () = Inl e | Inr a \<Rightarrow> reaches R (k w1) w2 (Inr ())"
    unfolding reaches_bind by blast
  then show thesis by (cases r1) (auto intro: that)
qed

text \<open>
  C30. A handler sees only what the schemas of its route accepted: when validation lets a request through,
  every part with a schema is a value that schema answered with for the raw part, every part without one is
  as it was, the media type of a declared body is one the route accepts, and its raw value is what the
  parser of that type makes of the whole body, which is within the limit of the route. Nothing else of the
  context has changed, whatever other requests do meanwhile.
\<close>

theorem handler_input_checked:
  assumes "\<And>f. Some f \<in> {qs_params spec, qs_query spec, qs_headers spec, qs_body spec} \<Longrightarrow> pure_schema f"
    and "reaches stable (validateContext p opts h spec (s, Some c)) w (Inr ())"
  shows "\<exists>params query hdrs c'. part_checked (qs_params spec) (cx_params c) params
    \<and> part_checked (qs_query spec) (cx_query c) query \<and> part_checked (qs_headers spec) (cx_reqHeaders c) hdrs
    \<and> body_checked p opts h spec (c\<lparr>cx_params := params, cx_query := query, cx_reqHeaders := hdrs\<rparr>) c' \<and> snd w = Some c'"
proof -
  have pure: "\<And>f. qs_params spec = Some f \<Longrightarrow> pure_schema f" "\<And>f. qs_query spec = Some f \<Longrightarrow> pure_schema f"
    "\<And>f. qs_headers spec = Some f \<Longrightarrow> pure_schema f" "\<And>f. qs_body spec = Some f \<Longrightarrow> pure_schema f"
    using assms(1) by auto
  obtain w1 where 1: "reaches stable (part_step (js ''params'') (qs_params spec) cx_params (\<lambda>v c. c\<lparr>cx_params := v\<rparr>) (s, Some c)) w1 (Inr ())"
    and rest1: "reaches stable (bind_comp (part_step (js ''query'') (qs_query spec) cx_query (\<lambda>v c. c\<lparr>cx_query := v\<rparr>)) (\<lambda>_.
     bind_comp (part_step (js ''headers'') (qs_headers spec) cx_reqHeaders (\<lambda>v c. c\<lparr>cx_reqHeaders := v\<rparr>)) (\<lambda>_.
       stepBody p opts h spec)) w1) w (Inr ())"
    using reaches_seq [OF assms(2) [unfolded validateContext_def]] .
  obtain w2 where 2: "reaches stable (part_step (js ''query'') (qs_query spec) cx_query (\<lambda>v c. c\<lparr>cx_query := v\<rparr>) w1) w2 (Inr ())"
    and rest2: "reaches stable (bind_comp (part_step (js ''headers'') (qs_headers spec) cx_reqHeaders (\<lambda>v c. c\<lparr>cx_reqHeaders := v\<rparr>)) (\<lambda>_.
       stepBody p opts h spec) w2) w (Inr ())"
    using reaches_seq [OF rest1] .
  obtain w3 where 3: "reaches stable (part_step (js ''headers'') (qs_headers spec) cx_reqHeaders (\<lambda>v c. c\<lparr>cx_reqHeaders := v\<rparr>) w2) w3 (Inr ())"
    and 4: "reaches stable (stepBody p opts h spec w3) w (Inr ())"
    using reaches_seq [OF rest2] .
  obtain params where p1: "part_checked (qs_params spec) (cx_params c) params" "snd w1 = Some (c\<lparr>cx_params := params\<rparr>)"
    using part_step_reached [OF 1 pure(1) snd_conv] by auto
  obtain query where p2: "part_checked (qs_query spec) (cx_query c) query" "snd w2 = Some (c\<lparr>cx_params := params, cx_query := query\<rparr>)"
    using part_step_reached [OF 2 pure(2) p1(2)] by auto
  obtain hdrs where p3: "part_checked (qs_headers spec) (cx_reqHeaders c) hdrs"
    "snd w3 = Some (c\<lparr>cx_params := params, cx_query := query, cx_reqHeaders := hdrs\<rparr>)"
    using part_step_reached [OF 3 pure(3) p2(2)] by auto
  obtain c' where "snd w = Some c'" "body_checked p opts h spec (c\<lparr>cx_params := params, cx_query := query, cx_reqHeaders := hdrs\<rparr>) c'"
    using stepBody_reached [OF 4 pure(4) p3(2)] by auto
  with p1(1) p2(1) p3(1) show ?thesis by blast
qed

text \<open>A route with a JSON body schema that answers with what it is given, and the body \<open>{}\<close> in two pieces.\<close>

definition echo_schema :: "(nat, nat) hook_world schema" where
  "echo_schema raw = ret (Inr raw)"

definition echo_spec :: "(nat, nat) hook_world request_spec" where
  "echo_spec = \<lparr> qs_params = None, qs_query = None, qs_headers = None, qs_body = Some echo_schema, qs_accepts = None, qs_limit = 8 \<rparr>"

definition echo_parsers :: body_parsers where
  "echo_parsers = \<lparr> bp_json = (\<lambda>t. if t = js ''{}'' then Some (JObj []) else None), bp_search = (\<lambda>_. []),
     bp_form = (\<lambda>_ _. None), bp_object = (\<lambda>_. Undefined) \<rparr>"

definition echo_options :: body_options where
  "echo_options = \<lparr> bo_allowed = None, bo_maxFileBytes = None, bo_maxFields = None, bo_maxFiles = None, bo_maxKeys = 5, bo_maxDepth = 5 \<rparr>"

definition json_headers :: headers where
  "json_headers = [(js ''content-type'', js ''application/json'')]"

definition brace_ctx :: "nat ctx" where
  "brace_ctx = sample_ctx\<lparr>cx_stream := Unread [[123], [125]]\<rparr>"

lemma json_headers_get:
  "hd_get (js ''content-length'') json_headers = None" "hd_get (js ''content-type'') json_headers = Some (js ''application/json'')"
  "request_type json_headers = js ''application/json''"
  by (simp_all add: request_type_def hd_get_def json_headers_def to_lower_def lower_unit_def)

lemma json_essence: "mediaTypeEssence (js ''application/json'') = js ''application/json''" "isJsonMediaType (js ''application/json'')"
  by (simp_all add: isJsonMediaType_def mediaTypeEssence_def to_lower_def lower_unit_def js_trim_def is_js_space_def Let_def)

lemma brace_value: "parseJsonBodyBytes echo_parsers echo_options [123, 125] = Inr (Value (JObj []))"
proof -
  have "decodeBodyUtf8 [123, 125] = Inr (js ''{}'')"
    by (simp add: decodeBodyUtf8_def utf8_decode_def utf16_def)
  moreover have "safeJsonParseLimited (bp_json echo_parsers) (js ''{}'') 5 5 = Inr (Some (JObj []))"
    by (simp add: safeJsonParseLimited_def safeJsonParse_def echo_parsers_def assertJsonTextStructure_def scan_start_def scan_unit_def Let_def)
  ultimately show ?thesis by (simp add: parseJsonBodyBytes_def echo_options_def)
qed

lemma echo_run: "run (validateContext echo_parsers echo_options json_headers echo_spec (0, Some brace_ctx))
    = ((0, Some (brace_ctx\<lparr>cx_stream := Disturbed, cx_body := Value (JObj [])\<rparr>)), Inr ())"
proof -
  have read: "run (readBody echo_parsers echo_options json_headers (js ''application/json'') 8 (0, Some brace_ctx))
      = ((0, Some (brace_ctx\<lparr>cx_stream := Disturbed\<rparr>)), Inr (Value (JObj [])))"
    by (simp add: readBody_def json_essence [simplified] read_by_def with_ctx_def readBodyBytesFast_def declared_error_def json_headers_get [simplified] brace_ctx_def sample_ctx_def
        run_simps readBodyLimited_def read_stream_def use_stream_def on_ctx_def of_result_def brace_value)
  have ok: "contentTypeAllowed (js ''application/json'') default_types"
    by (simp add: contentTypeAllowed_def json_essence [simplified] default_types_def)
  have step: "stepBody echo_parsers echo_options json_headers echo_spec
      = bind_comp (readBody echo_parsers echo_options json_headers (js ''application/json'') 8)
          (check_part (js ''body'') echo_schema (\<lambda>v c. c\<lparr>cx_body := v\<rparr>))"
    unfolding stepBody_def Let_def unfolding request_type_def [symmetric] unfolding json_headers_get
    by (simp add: echo_spec_def ok [simplified] echo_options_def)
  have "run (stepBody echo_parsers echo_options json_headers echo_spec (0, Some brace_ctx))
      = ((0, Some (brace_ctx\<lparr>cx_stream := Disturbed, cx_body := Value (JObj [])\<rparr>)), Inr ())"
    unfolding step by (simp only: run_bind read prod.case sum.case check_part_def echo_schema_def run_ret run_modify on_ctx_def fst_conv snd_conv option.map)
  then show ?thesis
    by (simp add: validateContext_def run_simps part_step_def echo_spec_def)
qed

lemma handler_input_checked_witness:
  "\<exists>bytes. length bytes \<le> 8 \<and> body_value echo_parsers echo_options json_headers bytes = Inr (Value (JObj []))"
proof -
  let ?p = "validateContext echo_parsers echo_options json_headers echo_spec (0, Some brace_ctx)"
  have "reaches stable ?p (fst (run ?p)) (snd (run ?p))" by (rule reaches_run) simp
  then have r: "reaches stable ?p (0, Some (brace_ctx\<lparr>cx_stream := Disturbed, cx_body := Value (JObj [])\<rparr>)) (Inr ())"
    unfolding echo_run by simp
  have pure: "pure_schema f" if "Some f \<in> {qs_params echo_spec, qs_query echo_spec, qs_headers echo_spec, qs_body echo_spec}" for f
    using that by (auto simp: echo_spec_def pure_schema_def echo_schema_def ret_def)
  have echo: "accepts echo_schema raw v \<longleftrightarrow> raw = v" for raw v by (auto simp: accepts_def echo_schema_def)
  from handler_input_checked [OF pure r] obtain c c' :: "nat ctx" where
    "body_checked echo_parsers echo_options json_headers echo_spec c c'" "cx_body c' = Value (JObj [])"
    by auto
  then show ?thesis by (auto simp: body_checked_def echo_spec_def echo)
qed

end
