(* ===== verification/HostGuard.thy ===== *)
theory HostGuard
  imports JsText
begin

text \<open>
  The parts of \<open>app.ts\<close> that look at the URL of a request without parsing it: the host allowlist with
  its one-entry memo, the fast pathname, the fast origin, and the cross-origin guard. \<open>new URL(...)\<close> is a
  parameter where the source falls back to it.
\<close>

section \<open>The host of a URL\<close>

text \<open>The text behind \<open>://\<close>, if there is one (\<open>indexOf\<close>).\<close>

fun after_scheme :: "jstr \<Rightarrow> jstr option" where
  "after_scheme [] = None"
| "after_scheme (c # s) = (if take 3 (c # s) = js ''://'' then Some (drop 3 (c # s)) else after_scheme s)"

definition authority_end :: "nat \<Rightarrow> bool" where
  "authority_end c \<longleftrightarrow> c = 47 \<or> c = 63 \<or> c = 35"

definition drop_port :: "jstr \<Rightarrow> jstr" where
  "drop_port host = (if 58 \<in> set host then rev (tl (dropWhile (\<lambda>c. c \<noteq> 58) (rev host))) else host)"

definition bracketed :: "jstr \<Rightarrow> jstr" where
  "bracketed host = (if 93 \<in> set host then takeWhile (\<lambda>c. c \<noteq> 93) host @ [93] else host)"

definition drop_dot :: "jstr \<Rightarrow> jstr" where
  "drop_dot host = (if host \<noteq> [] \<and> last host = 46 then butlast host else host)"

definition hostnameOfUrl :: "jstr \<Rightarrow> jstr" where
  "hostnameOfUrl url = (case after_scheme url of None \<Rightarrow> []
     | Some rest \<Rightarrow>
         (let host = takeWhile (\<lambda>c. \<not> authority_end c) rest in
          drop_dot (to_lower (if host \<noteq> [] \<and> hd host = 91 then bracketed host else drop_port host))))"

section \<open>The allowlist\<close>

definition ipv4_literal :: "jstr \<Rightarrow> bool" where
  "ipv4_literal s \<longleftrightarrow> (let ps = split_on 46 s in
     length ps = 4 \<and> list_all (\<lambda>p. p \<noteq> [] \<and> length p \<le> 3 \<and> list_all is_digit p) ps)"

definition ends_with :: "jstr \<Rightarrow> jstr \<Rightarrow> bool" where
  "ends_with host sfx \<longleftrightarrow> prefix (rev sfx) (rev host)"

definition isDevDefaultHost :: "jstr \<Rightarrow> bool" where
  "isDevDefaultHost host \<longleftrightarrow> host = js ''localhost'' \<or> ends_with host (js ''.localhost'') \<or> ipv4_literal host
     \<or> (host \<noteq> [] \<and> hd host = 91)"

definition label_unit :: "nat \<Rightarrow> bool" where
  "label_unit c \<longleftrightarrow> (97 \<le> c \<and> c \<le> 122) \<or> is_digit c"

definition host_label :: "jstr \<Rightarrow> bool" where
  "host_label l \<longleftrightarrow> l \<noteq> [] \<and> label_unit (hd l) \<and> label_unit (last l) \<and> list_all (\<lambda>c. label_unit c \<or> c = 45) l"

definition ip_literal_entry :: "jstr \<Rightarrow> bool" where
  "ip_literal_entry s \<longleftrightarrow> length s \<ge> 3 \<and> hd s = 91 \<and> last s = 93
     \<and> list_all (\<lambda>c. is_digit c \<or> (97 \<le> c \<and> c \<le> 102) \<or> c = 58 \<or> c = 46) (butlast (tl s))"

definition allowed_host_entry :: "jstr \<Rightarrow> bool" where
  "allowed_host_entry e \<longleftrightarrow> ip_literal_entry e
     \<or> list_all host_label (split_on 46 (if e \<noteq> [] \<and> hd e = 46 then tl e else e))"

datatype host_error = NoEntries | WildcardEntry | MalformedEntry jstr

definition normal_entry :: "jstr \<Rightarrow> jstr" where
  "normal_entry raw = drop_dot (to_lower (js_trim raw))"

text \<open>The exact names and the sfxs, in the order of the loop.\<close>

fun compile_hosts :: "jstr list \<Rightarrow> jstr list \<Rightarrow> jstr list \<Rightarrow> host_error + jstr list \<times> jstr list" where
  "compile_hosts [] exact sfxs = Inr (exact, sfxs)"
| "compile_hosts (raw # es) exact sfxs =
     (let e = normal_entry raw in
      if e = [42] then Inl WildcardEntry
      else if \<not> allowed_host_entry e then Inl (MalformedEntry raw)
      else if e \<noteq> [] \<and> hd e = 46 then compile_hosts es (exact @ [tl e]) (sfxs @ [e])
      else compile_hosts es (exact @ [e]) sfxs)"

definition host_matcher :: "jstr list \<Rightarrow> jstr list \<Rightarrow> jstr \<Rightarrow> bool" where
  "host_matcher exact sfxs host \<longleftrightarrow> host \<in> set exact \<or> list_ex (ends_with host) sfxs"

definition compileAllowedHosts :: "jstr list \<Rightarrow> host_error + (jstr \<Rightarrow> bool)" where
  "compileAllowedHosts entries = (if entries = [] then Inl NoEntries
     else (case compile_hosts entries [] [] of Inl e \<Rightarrow> Inl e | Inr (exact, sfxs) \<Rightarrow> Inr (host_matcher exact sfxs)))"

text \<open>\<open>hostAllowed\<close> with the memo: the last authority text and its verdict.\<close>

definition authority_text :: "jstr \<Rightarrow> jstr" where
  "authority_text url = takeWhile (\<lambda>c. c \<noteq> 47) (case after_scheme url of Some rest \<Rightarrow> rest | None \<Rightarrow> drop 2 url)"

definition hostAllowed :: "(jstr \<Rightarrow> bool) \<Rightarrow> (jstr \<times> bool) option \<Rightarrow> jstr \<Rightarrow> bool \<times> (jstr \<times> bool) option" where
  "hostAllowed matcher memo url =
     (let a = authority_text url; verdict = matcher (hostnameOfUrl url) in
      case memo of
        Some (b, v) \<Rightarrow> if a = b then (v, memo) else (verdict, Some (a, verdict))
      | None \<Rightarrow> (verdict, Some (a, verdict)))"

section \<open>Pathname and origin\<close>

definition getPathnameFast :: "(jstr \<Rightarrow> jstr option) \<Rightarrow> jstr \<Rightarrow> jstr option" where
  "getPathnameFast url_pathname url =
     (case after_scheme url of
        None \<Rightarrow> url_pathname url
      | Some rest \<Rightarrow>
          if list_ex (\<lambda>c. c = 92 \<or> c = 63 \<or> c = 35) (takeWhile (\<lambda>c. c \<noteq> 47) rest) then url_pathname url
          else (let path = dropWhile (\<lambda>c. c \<noteq> 47) rest in
            if path = [] then Some [47] else Some (takeWhile (\<lambda>c. c \<noteq> 63 \<and> c \<noteq> 35) path)))"

definition trivial_unit :: "nat \<Rightarrow> bool" where
  "trivial_unit c \<longleftrightarrow> \<not> ((65 \<le> c \<and> c \<le> 90) \<or> c = 64 \<or> c = 37 \<or> c = 91 \<or> c = 92 \<or> c \<le> 32 \<or> 127 \<le> c)"

definition trivial_port :: "bool \<Rightarrow> jstr \<Rightarrow> bool" where
  "trivial_port tls port \<longleftrightarrow> port \<noteq> [] \<and> 58 \<notin> set port \<and> port \<noteq> (if tls then js ''443'' else js ''80'')
     \<and> list_all is_digit port \<and> \<not> (1 < length port \<and> hd port = 48)
     \<and> \<not> (5 < length port \<or> (length port = 5 \<and> 65535 < dec_val port))"

definition split_scheme :: "jstr \<Rightarrow> (bool \<times> jstr) option" where
  "split_scheme url = (if prefix (js ''http://'') url then Some (False, drop 7 url)
     else if prefix (js ''https://'') url then Some (True, drop 8 url) else None)"

definition getOriginFast :: "jstr \<Rightarrow> jstr option" where
  "getOriginFast url =
     (case split_scheme url of None \<Rightarrow> None
      | Some (tls, rest) \<Rightarrow>
          (let authority = takeWhile (\<lambda>c. \<not> authority_end c) rest in
           if authority = [] \<or> list_ex (\<lambda>c. \<not> trivial_unit c) authority then None
           else if 58 \<in> set authority \<and> \<not> trivial_port tls (tl (dropWhile (\<lambda>c. c \<noteq> 58) authority)) then None
           else Some (take (length url - length rest + length authority) url)))"

section \<open>The cross-origin guard\<close>

datatype cross_verdict = Allowed | OpaqueOrigin | MalformedOrigin | CrossOrigin jstr

definition isStateChangingMethod :: "jstr \<Rightarrow> bool" where
  "isStateChangingMethod m \<longleftrightarrow> m \<in> {js ''POST'', js ''PUT'', js ''PATCH'', js ''DELETE''}"

text \<open>\<open>url_origin s\<close> is \<open>new URL(s).origin\<close>, or no value when the constructor throws.\<close>

definition assertCrossOriginAllowed :: "(jstr \<Rightarrow> jstr option) \<Rightarrow> bool \<Rightarrow> jstr \<Rightarrow> jstr \<Rightarrow> jstr option \<Rightarrow> (jstr \<Rightarrow> bool) list \<Rightarrow>
    cross_verdict" where
  "assertCrossOriginAllowed url_origin enabled url meth origin allows =
     (let allowed = (\<lambda>o'. list_ex (\<lambda>f. f o') allows) in
      if \<not> enabled \<or> \<not> isStateChangingMethod meth then Allowed
      else (case origin of
          None \<Rightarrow> Allowed
        | Some o' \<Rightarrow>
            if o' = [] then Allowed
            else if o' = js ''null'' then (if allowed o' then Allowed else OpaqueOrigin)
            else (case (getOriginFast o', getOriginFast url) of
                (Some h, Some r) \<Rightarrow> if h = r then Allowed else if allowed o' then Allowed else CrossOrigin h
              | _ \<Rightarrow> (case url_origin o' of
                    None \<Rightarrow> MalformedOrigin
                  | Some h \<Rightarrow> if url_origin url = Some h then Allowed else if allowed o' then Allowed else CrossOrigin h))))"

lemmas [eval] = hostnameOfUrl_def drop_port_def bracketed_def drop_dot_def authority_end_def isDevDefaultHost_def ends_with_def
  ipv4_literal_def label_unit_def host_label_def ip_literal_entry_def allowed_host_entry_def normal_entry_def host_matcher_def
  compileAllowedHosts_def authority_text_def hostAllowed_def getPathnameFast_def trivial_unit_def trivial_port_def
  split_scheme_def getOriginFast_def isStateChangingMethod_def assertCrossOriginAllowed_def

section \<open>What the allowlist accepts\<close>

lemma ends_with_iff: "ends_with host sfx \<longleftrightarrow> (\<exists>p. host = p @ sfx)"
  by (simp add: ends_with_def suffix_to_prefix [symmetric] suffix_def)

text \<open>A host is allowed by an entry: the name itself, and below an entry with a leading dot every subdomain.\<close>

definition covered_by :: "jstr \<Rightarrow> jstr \<Rightarrow> bool" where
  "covered_by host raw \<longleftrightarrow> (let e = normal_entry raw in
     if e \<noteq> [] \<and> hd e = 46 then host = tl e \<or> (\<exists>p. host = p @ e) else host = e)"

lemma compile_entries_spec:
  "compile_hosts es exact sfxs = Inr (ex, su) \<Longrightarrow>
    host_matcher ex su host \<longleftrightarrow> host_matcher exact sfxs host \<or> (\<exists>raw \<in> set es. covered_by host raw)"
proof (induction es arbitrary: exact sfxs)
  case (Cons raw es)
  let ?e = "normal_entry raw"
  show ?case
  proof (cases "?e \<noteq> [] \<and> hd ?e = 46")
    case True
    with Cons have "host_matcher ex su host \<longleftrightarrow> host_matcher (exact @ [tl ?e]) (sfxs @ [?e]) host \<or> (\<exists>raw \<in> set es. covered_by host raw)"
      by (auto simp: Let_def split: if_splits)
    with True show ?thesis by (auto simp: host_matcher_def covered_by_def ends_with_iff Let_def)
  next
    case False
    with Cons have "host_matcher ex su host \<longleftrightarrow> host_matcher (exact @ [?e]) sfxs host \<or> (\<exists>raw \<in> set es. covered_by host raw)"
      by (auto simp: Let_def split: if_splits)
    with False show ?thesis by (auto simp: host_matcher_def covered_by_def Let_def)
  qed
qed simp

lemma drop_port_plain: "58 \<notin> set host \<Longrightarrow> drop_port host = host"
  by (simp add: drop_port_def)

lemma drop_port_port: "58 \<notin> set port \<Longrightarrow> drop_port (host @ 58 # port) = host"
proof -
  assume p: "58 \<notin> set port"
  have "dropWhile (\<lambda>c. c \<noteq> 58) (rev port @ 58 # rev host) = 58 # rev host"
    by (subst dropWhile_append2) (use p in auto)
  then show ?thesis by (simp add: drop_port_def)
qed

text \<open>The memo never changes a verdict, for URLs with a scheme.\<close>

definition memo_ok :: "(jstr \<Rightarrow> bool) \<Rightarrow> (jstr \<times> bool) option \<Rightarrow> bool" where
  "memo_ok matcher memo \<longleftrightarrow> (\<forall>a v. memo = Some (a, v) \<longrightarrow>
     (\<forall>url. after_scheme url \<noteq> None \<longrightarrow> authority_text url = a \<longrightarrow> matcher (hostnameOfUrl url) = v))"

lemma hostname_authority:
  assumes "after_scheme u = Some r" and "after_scheme v = Some s" and "authority_text u = authority_text v"
  shows "hostnameOfUrl u = hostnameOfUrl v"
proof -
  have "takeWhile (\<lambda>c. \<not> authority_end c) (takeWhile (\<lambda>c. c \<noteq> 47) t) = takeWhile (\<lambda>c. \<not> authority_end c) t" for t
    by (induction t) (auto simp: authority_end_def)
  with assms show ?thesis by (metis (no_types, lifting) authority_text_def hostnameOfUrl_def option.simps(5))
qed

lemma memo_step:
  assumes "memo_ok matcher memo" and "after_scheme url \<noteq> None"
  shows "fst (hostAllowed matcher memo url) = matcher (hostnameOfUrl url) \<and> memo_ok matcher (snd (hostAllowed matcher memo url))"
proof (cases "\<exists>v. memo = Some (authority_text url, v)")
  case True
  with assms show ?thesis by (auto simp: hostAllowed_def memo_ok_def Let_def)
next
  case False
  then have r: "hostAllowed matcher memo url = (matcher (hostnameOfUrl url), Some (authority_text url, matcher (hostnameOfUrl url)))"
    by (auto simp: hostAllowed_def Let_def split: option.splits)
  have "matcher (hostnameOfUrl u) = matcher (hostnameOfUrl url)" if "after_scheme u \<noteq> None" "authority_text u = authority_text url" for u
    using hostname_authority that assms(2) by (metis option.exhaust)
  with r show ?thesis by (simp add: memo_ok_def)
qed

definition memo_after :: "(jstr \<Rightarrow> bool) \<Rightarrow> jstr list \<Rightarrow> (jstr \<times> bool) option" where
  "memo_after matcher urls = foldl (\<lambda>m u. snd (hostAllowed matcher m u)) None urls"

lemma memo_after_ok: "\<forall>u \<in> set urls. after_scheme u \<noteq> None \<Longrightarrow> memo_ok matcher (memo_after matcher urls)"
proof (induction urls rule: rev_induct)
  case Nil
  then show ?case by (simp add: memo_after_def memo_ok_def)
next
  case (snoc u us)
  then have "memo_ok matcher (memo_after matcher us)" by simp
  with memo_step snoc.prems show ?case by (simp add: memo_after_def)
qed

lemma after_scheme_app: "58 \<notin> set s \<Longrightarrow> after_scheme (s @ 58 # 47 # 47 # r) = Some r"
proof (induction s)
  case (Cons c s)
  then show ?case by (cases s) auto
qed simp

lemma takeWhile_stops: "\<forall>x \<in> set xs. P x \<Longrightarrow> ys = [] \<or> \<not> P (hd ys) \<Longrightarrow> takeWhile P (xs @ ys) = xs"
  by (induction xs) (cases ys, auto)

lemma hostname_plain:
  assumes "58 \<notin> set scheme" and "\<forall>c \<in> set host. \<not> authority_end c \<and> c \<noteq> 58 \<and> c \<noteq> 91"
    and "port = [] \<or> (\<exists>p. port = 58 # p \<and> (\<forall>c \<in> set p. is_digit c))" and "rest = [] \<or> authority_end (hd rest)"
  shows "hostnameOfUrl (scheme @ 58 # 47 # 47 # host @ port @ rest) = drop_dot (to_lower host)"
proof -
  have "\<not> authority_end c" if "is_digit c \<or> c = 58" for c
    using that by (auto simp: authority_end_def is_digit_def)
  then have "\<not> authority_end c" if "c \<in> set port" for c
    using assms(3) that by auto
  then have "\<forall>c \<in> set (host @ port). \<not> authority_end c" using assms(2) by auto
  then have t: "takeWhile (\<lambda>c. \<not> authority_end c) ((host @ port) @ rest) = host @ port"
    by (rule takeWhile_stops) (use assms(4) in blast)
  have "(if host @ port \<noteq> [] \<and> hd (host @ port) = 91 then bracketed (host @ port) else drop_port (host @ port)) = host"
  proof (cases "port = []")
    case True
    with assms(2) show ?thesis by (cases host) (auto simp: drop_port_plain)
  next
    case False
    have "\<not> is_digit 58" by (simp add: is_digit_def)
    with False assms(3) obtain p where p: "port = 58 # p" "58 \<notin> set p" by auto
    with assms(2) drop_port_port [OF p(2), of host] show ?thesis by (cases host) auto
  qed
  with t show ?thesis using after_scheme_app [OF assms(1), of "host @ port @ rest"]
    by (simp only: hostnameOfUrl_def Let_def option.case append_assoc)
qed

text \<open>
  C35. The host allowlist decides by the host alone: for a URL with a plain host, an optional port and any
  rest, after any sequence of earlier requests (the memo of the last verdict), the request is let through
  exactly when some entry covers the host, compared in lower case and without a final dot: the name
  itself, or with a leading dot the domain and everything below it.
\<close>

theorem host_allowlist_exact:
  assumes "compileAllowedHosts entries = Inr matcher" and "\<forall>u \<in> set urls. after_scheme u \<noteq> None"
    and "58 \<notin> set scheme" and "\<forall>c \<in> set host. \<not> authority_end c \<and> c \<noteq> 58 \<and> c \<noteq> 91"
    and "port = [] \<or> (\<exists>p. port = 58 # p \<and> (\<forall>c \<in> set p. is_digit c))" and "rest = [] \<or> authority_end (hd rest)"
  shows "fst (hostAllowed matcher (memo_after matcher urls) (scheme @ js ''://'' @ host @ port @ rest))
    \<longleftrightarrow> (\<exists>raw \<in> set entries. covered_by (drop_dot (to_lower host)) raw)"
proof -
  obtain exact sfxs where c: "compile_hosts entries [] [] = Inr (exact, sfxs)" "matcher = host_matcher exact sfxs"
    using assms(1) by (auto simp: compileAllowedHosts_def split: if_splits sum.splits)
  let ?url = "scheme @ 58 # 47 # 47 # host @ port @ rest"
  have m: "fst (hostAllowed matcher (memo_after matcher urls) ?url) = matcher (hostnameOfUrl ?url)"
    using memo_step [OF memo_after_ok [OF assms(2)], of ?url] after_scheme_app [OF assms(3)] by simp
  have h: "hostnameOfUrl ?url = drop_dot (to_lower host)" by (rule hostname_plain [OF assms(3-6)])
  have "\<not> host_matcher [] [] h" for h by (simp add: host_matcher_def)
  then have "matcher h = (\<exists>raw \<in> set entries. covered_by h raw)" for h
    using compile_entries_spec [OF c(1), of h] by (simp only: c(2)) blast
  with m h have "fst (hostAllowed matcher (memo_after matcher urls) ?url)
      = (\<exists>raw \<in> set entries. covered_by (drop_dot (to_lower host)) raw)" by (simp only:)
  moreover have "scheme @ js ''://'' @ host @ port @ rest = ?url" by simp
  ultimately show ?thesis by (simp only:)
qed

lemma host_allowlist_exact_witness:
  "fst (hostAllowed (host_matcher [js ''example.com'', js ''api.test''] [js ''.example.com''])
      (memo_after (host_matcher [js ''example.com'', js ''api.test''] [js ''.example.com'']) [js ''http://evil.com/'', js ''http://api.test/x''])
      (js ''https'' @ js ''://'' @ js ''Www.Example.COM.'' @ js '':8443'' @ js ''/a?b''))
    \<longleftrightarrow> (\<exists>raw \<in> set [js ''.Example.com'', js ''api.test''].
      covered_by (drop_dot (to_lower (js ''Www.Example.COM.''))) raw)"
  by (rule host_allowlist_exact)
    (simp_all add: eval js_trim_def is_js_space_def to_lower_def lower_unit_def is_digit_def)

text \<open>The fast origin is the scheme and authority the URL starts with, and the authority has no user part.\<close>

lemma getOriginFast_shape:
  assumes "getOriginFast url = Some orig"
  shows "\<exists>scheme authority rest. url = orig @ rest \<and> orig = scheme @ authority \<and> scheme \<in> {js ''http://'', js ''https://''}
    \<and> authority \<noteq> [] \<and> (\<forall>c \<in> set authority. trivial_unit c \<and> \<not> authority_end c) \<and> (rest = [] \<or> authority_end (hd rest))"
proof -
  obtain tls r where s: "split_scheme url = Some (tls, r)" using assms by (auto simp: getOriginFast_def split: option.splits)
  then obtain scheme where url: "url = scheme @ r" "scheme \<in> {js ''http://'', js ''https://''}"
    by (auto simp: split_scheme_def prefix_def split: if_splits)
  define a where "a = takeWhile (\<lambda>c. \<not> authority_end c) r"
  define t where "t = dropWhile (\<lambda>c. \<not> authority_end c) r"
  have r: "r = a @ t" by (simp add: a_def t_def)
  from assms s have a: "a \<noteq> []" "\<forall>c \<in> set a. trivial_unit c" "orig = take (length url - length r + length a) url"
    by (auto simp: getOriginFast_def Let_def a_def list_ex_iff split: if_splits)
  have "orig = scheme @ a" using a(3) url(1) r by simp
  moreover have "\<forall>c \<in> set a. \<not> authority_end c" using set_takeWhileD by (fastforce simp: a_def)
  moreover have "t = [] \<or> authority_end (hd t)" unfolding t_def using hd_dropWhile by blast
  ultimately show ?thesis using url r a by (intro exI [of _ scheme] exI [of _ a] exI [of _ t]) auto
qed

end
