(* ===== verification/Dispatch.thy ===== *)
theory Dispatch
  imports RequestBody HostGuard Router
begin

text \<open>
  The path of one request through the application: \<open>dispatch\<close> of \<open>app.ts\<close>, from the guards to the
  finalizers, for a request without a deadline (\<open>requestTimeoutMs\<close> 0) outside mock mode. Hooks, handlers and
  schemas are arbitrary computations over the state shared by all requests and the context of their own
  request; between two steps other requests may change everything that is shared. The world also holds the
  local variables of the dispatch and a log that no code reads: it records when a handler or an answering
  hook ran, for which the theorems need it, and when the request left.
\<close>

section \<open>Routes and applications\<close>

record request =
  rq_method :: jstr
  rq_url :: jstr
  rq_headers :: headers
  rq_raw :: "nat list option"
  rq_stream :: body_stream
  rq_light :: bool

datatype handler_outcome = RawResponse response | Result handler_result

type_synonym ('s, 'u) hook_layer = "(thrown, ('s, 'u) hook_world, response, handler_outcome) layer"
type_synonym ('s, 'u) hook_bundle = "(thrown, ('s, 'u) hook_world, response, handler_outcome) hooks"

record ('s, 'u) route =
  cr_method :: jstr
  cr_path :: jstr
  cr_internal :: bool
  cr_allowEncodedSlash :: bool
  cr_acknowledge :: bool
  cr_responses :: "('s, 'u) hook_world response_spec"
  cr_request :: "('s, 'u) hook_world request_spec"
  cr_handler :: "(thrown, ('s, 'u) hook_world, handler_outcome) comp"
  cr_onRequest :: "(thrown, ('s, 'u) hook_world, unit) comp option"
  cr_merged :: "('s, 'u) hook_layer"
  cr_corsAllows :: "(request \<Rightarrow> jstr \<Rightarrow> bool) list"
  cr_corsDecorate :: "(request \<Rightarrow> headers \<Rightarrow> headers) option"
  cr_requiresAuthRun :: bool
  cr_state :: 'u

record ('s, 'u) app =
  ap_hooks :: "('s, 'u) hook_bundle"
  ap_groupHooks :: "(bool \<times> ('s, 'u) hook_bundle) list"
  ap_router :: "('s, 'u) route router"
  ap_maxHeaderCount :: int
  ap_hostMatcher :: "(jstr \<Rightarrow> bool) option"
  ap_secureDefaults :: bool
  ap_proxyConfigured :: bool
  ap_production :: bool
  ap_bootError :: "thrown option"
  ap_crossOriginGuard :: bool
  ap_corsAllows :: "(request \<Rightarrow> jstr \<Rightarrow> bool) list"
  ap_corsDecorate :: "(request \<Rightarrow> headers \<Rightarrow> headers) option"
  ap_fingerprint :: fingerprint
  ap_redact :: bool
  ap_validateResponses :: bool
  ap_disconnectCode :: nat
  ap_aborted :: "'s \<Rightarrow> bool"
  ap_state :: 'u
  ap_finalizer :: "nat \<Rightarrow> 's \<Rightarrow> 's"
  ap_parsers :: body_parsers
  ap_bodyOptions :: body_options
  ap_pathname :: "jstr \<Rightarrow> jstr option"
  ap_origin :: "jstr \<Rightarrow> jstr option"
  ap_search :: "jstr \<Rightarrow> (jstr \<times> jstr) list"
  ap_text :: "jvalue \<Rightarrow> jstr"

text \<open>The merged hooks: of the application with its secure-header layers, and of all its layers.\<close>

definition globalHooks :: "('s, 'u) app \<Rightarrow> ('s, 'u) hook_layer" where
  "globalHooks a = base (mergeHooks 0 (ap_hooks a
     # map (\<lambda>(_, h). Hooks (no_hooks\<lparr>l_onSend := l_onSend (base h), l_onResponse := l_onResponse (base h)\<rparr>) None)
         (filter fst (ap_groupHooks a))))"

definition coldPathHooks :: "('s, 'u) app \<Rightarrow> ('s, 'u) hook_layer" where
  "coldPathHooks a = base (mergeHooks 0 (ap_hooks a # map snd (ap_groupHooks a)))"

section \<open>The request_world of a request\<close>

datatype request_event =
    Handled bool bool
  | Answered nat bool bool
  | Left

record ('s, 'u) request_world =
  wd_shared :: 's
  wd_draining :: bool
  wd_inflight :: int
  wd_hostMemo :: "(jstr \<times> bool) option"
  wd_main :: "'u ctx option"
  wd_preflight :: "'u ctx option"
  wd_bootstrap :: "'u ctx option"
  wd_requestId :: jstr
  wd_onRequestRan :: bool
  wd_route :: "('s, 'u) route option"
  wd_log :: "request_event list"

type_synonym ('s, 'u, 'a) request_step = "(thrown, ('s, 'u) request_world, 'a) comp"

datatype slot = NoContext | Main | Preflight | Bootstrap

definition context_of :: "slot \<Rightarrow> ('s, 'u) request_world \<Rightarrow> 'u ctx option" where
  "context_of sl w = (case sl of NoContext \<Rightarrow> None | Main \<Rightarrow> wd_main w | Preflight \<Rightarrow> wd_preflight w | Bootstrap \<Rightarrow> wd_bootstrap w)"

definition set_context :: "slot \<Rightarrow> 'u ctx option \<Rightarrow> ('s, 'u) request_world \<Rightarrow> ('s, 'u) request_world" where
  "set_context sl c w = (case sl of NoContext \<Rightarrow> w | Main \<Rightarrow> w\<lparr>wd_main := c\<rparr> | Preflight \<Rightarrow> w\<lparr>wd_preflight := c\<rparr>
     | Bootstrap \<Rightarrow> w\<lparr>wd_bootstrap := c\<rparr>)"

text \<open>A hook sees what is shared and one context, and can change both; it makes no context and drops none.\<close>

definition seen_by_hook :: "slot \<Rightarrow> ('s, 'u) request_world \<Rightarrow> ('s, 'u) hook_world" where
  "seen_by_hook sl w = (wd_shared w, context_of sl w)"

definition left_by_hook :: "slot \<Rightarrow> ('s, 'u) hook_world \<Rightarrow> ('s, 'u) request_world \<Rightarrow> ('s, 'u) request_world" where
  "left_by_hook sl h w = (set_context sl (case (context_of sl w, snd h) of (Some c, Some c') \<Rightarrow> Some c' | (c, _) \<Rightarrow> c) w)\<lparr>wd_shared := fst h\<rparr>"

primrec in_slot :: "slot \<Rightarrow> ('e, ('s, 'u) hook_world, 'a) proc \<Rightarrow> ('s, 'u) request_world \<Rightarrow> ('e, ('s, 'u) request_world, 'a) proc" where
  "in_slot sl (Settled h r) w = Settled (left_by_hook sl h w) r"
| "in_slot sl (Await h k) w = Await (left_by_hook sl h w) (\<lambda>w'. in_slot sl (k (seen_by_hook sl w')) w')"

definition call :: "slot \<Rightarrow> ('e, ('s, 'u) hook_world, 'a) comp \<Rightarrow> ('e, ('s, 'u) request_world, 'a) comp" where
  "call sl m w = in_slot sl (m (seen_by_hook sl w)) w"

definition with_world :: "(('s, 'u) request_world \<Rightarrow> ('e, ('s, 'u) request_world, 'a) comp) \<Rightarrow> ('e, ('s, 'u) request_world, 'a) comp" where
  "with_world f w = f w w"

definition log_event :: "request_event \<Rightarrow> ('e, ('s, 'u) request_world, unit) comp" where
  "log_event e = modify (\<lambda>w. w\<lparr>wd_log := wd_log w @ [e]\<rparr>)"

definition perhaps :: "bool \<Rightarrow> ('e, 'w, unit) comp \<Rightarrow> ('e, 'w, unit) comp" where
  "perhaps b m = (if b then m else ret ())"

section \<open>The guards before routing\<close>

definition guard_failure :: "int \<Rightarrow> guard_error \<Rightarrow> thrown" where
  "guard_failure limit e = (case e of
       DuplicateSingleton n \<Rightarrow> BadRequestError (Some (js ''Duplicate '' @ n @ js '' header rejected''))
     | ReservedHeader n \<Rightarrow> BadRequestError (Some (js ''Reserved internal header rejected: '' @ n))
     | TooManyHeaders \<Rightarrow> RequestHeaderFieldsTooLargeError (dec_str (nat limit)))"

definition proxy_headers :: "jstr list" where
  "proxy_headers = [js ''x-forwarded-for'', js ''x-forwarded-host'', js ''x-forwarded-proto'', js ''x-forwarded-port'',
     js ''x-real-ip'', js ''cf-connecting-ip'', js ''fly-client-ip'', js ''true-client-ip'']"

definition proxy_hint :: jstr where
  "proxy_hint = js ''Declare where requests come from: app({ behindProxy: { hops: 1 } }) on Vercel, Cloudflare Workers, Netlify, Fly.io, Render, Railway, Heroku, or behind one nginx / load balancer (add 1 per extra proxy, e.g. Cloudflare in front of Vercel is { hops: 2 }); app({ behindProxy: { cidrs: [...] } }) to trust only your proxies' addresses; app({ behindProxy: \"none\" }) only when clients connect directly and no proxy sets these headers. Do not disable this guard to make the error go away: without a correct behindProxy, rateLimit() cannot tell clients apart. See https://daloyjs.dev/docs/security/boot-guards.''"

definition proxy_refusal :: "jstr \<Rightarrow> jstr" where
  "proxy_refusal found = js ''Refusing to dispatch request: '' @ found @ js '' header is present but app({ behindProxy }) is unconfigured. Honouring a spoofable forwarded header would let a client forge its source IP for the rate limiter, audit log, and request-id propagation. '' @ proxy_hint"

definition assertTrustProxyConfigured :: "('s, 'u) app \<Rightarrow> request \<Rightarrow> thrown option" where
  "assertTrustProxyConfigured a rq =
     (if \<not> ap_secureDefaults a \<or> ap_proxyConfigured a \<or> \<not> ap_production a then None
      else (case filter (\<lambda>n. hd_get n (rq_headers rq) \<noteq> None) proxy_headers of
          [] \<Rightarrow> None
        | found # _ \<Rightarrow> Some (InternalError (Some (proxy_refusal found)))))"

definition throw_if :: "'e option \<Rightarrow> ('e, 'w, unit) comp" where
  "throw_if e = (case e of None \<Rightarrow> ret () | Some e \<Rightarrow> throw e)"

definition check_host :: "('s, 'u) app \<Rightarrow> request \<Rightarrow> ('s, 'u, unit) request_step" where
  "check_host a rq = (case ap_hostMatcher a of None \<Rightarrow> ret ()
     | Some m \<Rightarrow> with_world (\<lambda>w. case hostAllowed m (wd_hostMemo w) (rq_url rq) of (ok, memo) \<Rightarrow>
         bind_comp (modify (\<lambda>w. w\<lparr>wd_hostMemo := memo\<rparr>)) (\<lambda>_.
           if ok then ret () else throw (BadRequestError (Some (js ''Invalid Host header''))))))"

definition boundary_guards :: "('s, 'u) app \<Rightarrow> request \<Rightarrow> ('s, 'u, unit) request_step" where
  "boundary_guards a rq =
     bind_comp (throw_if (map_option (guard_failure (ap_maxHeaderCount a)) (assertInboundHeaderGuards (rq_headers rq) (ap_maxHeaderCount a)))) (\<lambda>_.
     bind_comp (check_host a rq) (\<lambda>_.
     bind_comp (throw_if (assertTrustProxyConfigured a rq)) (\<lambda>_.
       throw_if (ap_bootError a))))"

definition global_onRequest :: "('s, 'u) app \<Rightarrow> ('s, 'u, unit) request_step" where
  "global_onRequest a = (case l_onRequest (globalHooks a) of None \<Rightarrow> ret ()
     | Some f \<Rightarrow> bind_comp (modify (\<lambda>w. w\<lparr>wd_onRequestRan := True\<rparr>)) (\<lambda>_. call NoContext f))"

section \<open>Routing\<close>

definition match_route :: "('s, 'u) app \<Rightarrow> jstr \<Rightarrow> jstr \<Rightarrow> ('s, 'u) route route_match option" where
  "match_route a meth path = (case find_route (ap_router a) meth path of
       Some m \<Rightarrow> Some m
     | None \<Rightarrow> if meth = js ''HEAD'' then find_route (ap_router a) (js ''GET'') path else None)"

definition internal_hidden :: "bool \<Rightarrow> ('s, 'u) route route_match \<Rightarrow> bool" where
  "internal_hidden allowInternal m \<longleftrightarrow> (cr_internal (handler m) \<and> \<not> allowInternal)
     \<or> (encodedSeparator m \<and> \<not> cr_allowEncodedSlash (handler m))"

definition cross_origin :: "('s, 'u) app \<Rightarrow> request \<Rightarrow> (request \<Rightarrow> jstr \<Rightarrow> bool) list \<Rightarrow> ('s, 'u, unit) request_step" where
  "cross_origin a rq allows =
     (case assertCrossOriginAllowed (ap_origin a) (ap_secureDefaults a \<and> ap_crossOriginGuard a) (rq_url rq) (rq_method rq)
          (hd_get (js ''origin'') (rq_headers rq)) (map (\<lambda>f. f rq) allows) of
        Allowed \<Rightarrow> ret ()
      | OpaqueOrigin \<Rightarrow> throw (ForbiddenError (Some (js ''Cross-origin state-changing request rejected: opaque Origin requires an allowing cors() policy.'')))
      | MalformedOrigin \<Rightarrow> throw (ForbiddenError (Some (js ''Cross-origin state-changing request rejected: malformed Origin header.'')))
      | CrossOrigin orig \<Rightarrow> throw (ForbiddenError (Some (js ''Cross-origin '' @ rq_method rq @ js '' from '' @ 34 # orig @ 34 #
          js '' rejected: no registered cors() policy allows that origin. Register cors({ origin: [...] }) via app.use(...) to allow it, or pass app({ corsCrossOriginGuard: false }) / app({ secureDefaults: false }) to disable this guard.''))))"

definition allowed_methods :: "('s, 'u) app \<Rightarrow> bool \<Rightarrow> jstr \<Rightarrow> jstr list" where
  "allowed_methods a allowInternal path =
     (let raw = fst (allowedMethods (ap_router a) path) in
      if allowInternal then raw
      else filter (\<lambda>m. case find_route (ap_router a) m path of None \<Rightarrow> True | Some c \<Rightarrow> \<not> cr_internal (handler c)) raw)"

definition not_found :: "request \<Rightarrow> jstr \<Rightarrow> thrown" where
  "not_found rq path = NotFoundError (Some (js ''No route for '' @ rq_method rq @ js '' '' @ path))"

section \<open>Contexts\<close>

definition new_context :: "jstr \<Rightarrow> 'u \<Rightarrow> headers \<Rightarrow> request \<Rightarrow> jvalue \<Rightarrow> jvalue \<Rightarrow> 'u ctx" where
  "new_context requestId st set_headers rq ps query =
     \<lparr> cx_requestId = requestId, cx_authRan = False, cx_authOptional = False, cx_scopes = [], cx_finalizers = [], cx_state = st,
       cx_headers = set_headers, cx_params = ps, cx_query = query, cx_reqHeaders = headersToObject (rq_headers rq),
       cx_body = Undefined, cx_raw = rq_raw rq, cx_stream = rq_stream rq \<rparr>"

text \<open>A query is an object without the dangerous keys on a route, and of plain entries on the cold path.\<close>

definition entries_object :: "(jstr \<times> jstr) list \<Rightarrow> jvalue" where
  "entries_object ps = Value (JObj (map (\<lambda>(k, v). (k, JStr v)) (fold (\<lambda>(k, v) out. AList.update k v out) ps [])))"

definition coldPathContext :: "('s, 'u) app \<Rightarrow> request \<Rightarrow> bool \<Rightarrow> jstr \<Rightarrow> 'u ctx" where
  "coldPathContext a rq stampRequestId requestId =
     new_context requestId (ap_state a) (if stampRequestId then [(js ''x-request-id'', requestId)] else []) rq
       (Value (JObj [])) (entries_object (ap_search a (rq_url rq)))"

definition preflightContext :: "('s, 'u) app \<Rightarrow> request \<Rightarrow> jstr \<Rightarrow> 'u ctx" where
  "preflightContext a rq requestId =
     new_context requestId (ap_state a) [] rq (Value (JObj [])) (Value (JObj []))"

definition createPreBodyContext :: "('s, 'u) app \<Rightarrow> request \<Rightarrow> ('s, 'u) route \<Rightarrow> (jstr, jstr) assoc \<Rightarrow> jstr \<Rightarrow> 'u ctx" where
  "createPreBodyContext a rq r ps requestId =
     new_context requestId (cr_state r) (case cr_corsDecorate r of None \<Rightarrow> [] | Some d \<Rightarrow> d rq []) rq
       (Value (JObj (map (\<lambda>(k, v). (k, JStr v)) ps))) (queryToObject (ap_search a (rq_url rq)))"

definition adopt_id :: "('s, 'u, unit) request_step" where
  "adopt_id = modify (\<lambda>w. case wd_main w of None \<Rightarrow> w
     | Some c \<Rightarrow> if cx_requestId c \<noteq> [] then w\<lparr>wd_requestId := cx_requestId c\<rparr> else w)"

section \<open>Sending a response\<close>

definition copy_from :: "slot \<Rightarrow> response \<Rightarrow> ('s, 'u, response) request_step" where
  "copy_from sl res = with_world (\<lambda>w. case context_of sl w of None \<Rightarrow> ret res | Some c \<Rightarrow> copyContextHeaders (cx_headers c) res)"

definition stamped :: "response \<Rightarrow> ('s, 'u, response) request_step" where
  "stamped res = with_world (\<lambda>w. stamp_id (wd_requestId w) res)"

definition finalize :: "('s, 'u) app \<Rightarrow> slot \<Rightarrow> ('s, 'u) hook_layer \<Rightarrow> response \<Rightarrow> ('s, 'u, response) request_step" where
  "finalize a sl hs res = call sl (finalizeResponse (ap_fingerprint a) (l_onSend hs) (l_onResponse hs) res)"

definition send_answer :: "('s, 'u) app \<Rightarrow> slot \<Rightarrow> ('s, 'u) hook_layer \<Rightarrow> response \<Rightarrow> ('s, 'u, response) request_step" where
  "send_answer a sl hs res = bind_comp (copy_from sl res) (\<lambda>res. bind_comp (stamped res) (finalize a sl hs))"

text \<open>\<open>HEAD\<close>: status and headers of the response, no body.\<close>

definition head_only :: "request \<Rightarrow> response \<Rightarrow> ('s, 'u, response) request_step" where
  "head_only rq res = (if rq_method rq = js ''HEAD'' then new_response (rs_status res) (rs_headers res) NoBody else ret res)"

section \<open>No route\<close>

text \<open>A gate of the cold path: its response is the answer, else the walk goes on.\<close>

definition cold_gate :: "('s, 'u) app \<Rightarrow> slot \<Rightarrow> (thrown, ('s, 'u) hook_world, response) hook_gate option \<Rightarrow>
    ('s, 'u, response) request_step \<Rightarrow> ('s, 'u, response) request_step" where
  "cold_gate a sl g go_on = (case g of None \<Rightarrow> go_on
     | Some f \<Rightarrow> bind_comp (call sl f) (\<lambda>r. case r of Some res \<Rightarrow> send_answer a sl (coldPathHooks a) res | None \<Rightarrow> go_on))"

definition preflight_answer :: "('s, 'u) app \<Rightarrow> jstr list \<Rightarrow> ('s, 'u, response) request_step" where
  "preflight_answer a allowed =
     bind_comp (new_response 204 [(js ''allow'', comma_list allowed)] NoBody) (\<lambda>res.
     bind_comp (copy_from Preflight res) (\<lambda>res.
     bind_comp (with_world (\<lambda>w. write_headers (hd_set (js ''x-request-id'') (wd_requestId w)) res))
       (finalize a Preflight (coldPathHooks a))))"

definition no_route :: "('s, 'u) app \<Rightarrow> request \<Rightarrow> bool \<Rightarrow> jstr \<Rightarrow> ('s, 'u, response) request_step" where
  "no_route a rq allowInternal path =
     (let allowed = allowed_methods a allowInternal path; options = (rq_method rq = js ''OPTIONS''); cold = coldPathHooks a;
          coldPreBody = (if options then None else l_preBody cold);
          coldGuards = (if options then None else map_option snd (l_beforeHandle cold));
          needsCtx = (\<not> (allowed \<noteq> [] \<and> options) \<and> (l_onError (globalHooks a) \<noteq> None \<or> coldPreBody \<noteq> None \<or> coldGuards \<noteq> None)) in
      bind_comp (perhaps needsCtx (modify (\<lambda>w. w\<lparr>wd_main := Some (coldPathContext a rq True (wd_requestId w))\<rparr>))) (\<lambda>_.
      cold_gate a Main coldPreBody (cold_gate a Main coldGuards
        (if allowed = [] then throw (not_found rq path)
         else if \<not> options then throw (MethodNotAllowedError allowed)
         else bind_comp (modify (\<lambda>w. w\<lparr>wd_preflight := Some (preflightContext a rq (wd_requestId w))\<rparr>)) (\<lambda>_.
           cold_gate a Preflight (map_option snd (l_beforeHandle cold)) (preflight_answer a allowed))))))"

section \<open>A matched route\<close>

definition auth_ran :: "('s, 'u) request_world \<Rightarrow> bool" where
  "auth_ran w \<longleftrightarrow> (case wd_main w of None \<Rightarrow> False | Some c \<Rightarrow> cx_authRan c)"

definition refusal_message :: "('s, 'u) route \<Rightarrow> jstr" where
  "refusal_message r = js ''Route '' @ cr_method r @ js '' '' @ cr_path r @ js '' requires authentication (auth:, an MCP/A2A endpoint, or requireAuth) but no authentication hook ran for this request. An auth hook is in its chain, but except() exempted this path or a some() branch let the request through without it. Adjust the exemption, or mark the route public: true / remove its auth: declaration if it is meant to be open. See https://daloyjs.dev/docs/security/boot-guards.''"

definition refuseUnauthenticatedRoute :: "('s, 'u) app \<Rightarrow> ('s, 'u) route \<Rightarrow> ('s, 'u, unit) request_step" where
  "refuseUnauthenticatedRoute a r = with_world (\<lambda>w.
     if \<not> ap_secureDefaults a then ret ()
     else if (case wd_main w of None \<Rightarrow> False | Some c \<Rightarrow> cx_authOptional c) then throw (UnauthorizedError (Some (js ''Authentication required'')))
     else if ap_production a then throw (InternalError (Some (refusal_message r)))
     else ret ())"

definition require_auth :: "('s, 'u) app \<Rightarrow> ('s, 'u) route \<Rightarrow> bool \<Rightarrow> ('s, 'u, unit) request_step" where
  "require_auth a r applies = with_world (\<lambda>w.
     perhaps (applies \<and> cr_requiresAuthRun r \<and> \<not> auth_ran w) (refuseUnauthenticatedRoute a r))"

definition assertAcknowledgedSuccessfulHookResponse :: "('s, 'u) route \<Rightarrow> jstr \<Rightarrow> response \<Rightarrow> thrown option" where
  "assertAcknowledgedSuccessfulHookResponse r phase res =
     (if 400 \<le> rs_status res \<or> cr_acknowledge r \<or> isSchemaValidatedResponse res then None
      else Some (InternalError (Some (js ''Raw '' @ phase @ js '' Response refused: set acknowledgeNoResponseBodySchema: true on the route to explicitly accept that its successful response body bypasses schema validation.''))))"

definition hook_answer :: "('s, 'u) app \<Rightarrow> ('s, 'u) route \<Rightarrow> jstr \<Rightarrow> response \<Rightarrow> ('s, 'u, response) request_step" where
  "hook_answer a r phase res =
     bind_comp (require_auth a r (rs_status res < 400)) (\<lambda>_.
     bind_comp (with_world (\<lambda>w. log_event (Answered (rs_status res) (cr_requiresAuthRun r) (auth_ran w)))) (\<lambda>_.
     bind_comp (throw_if (assertAcknowledgedSuccessfulHookResponse r phase res)) (\<lambda>_.
       send_answer a Main (cr_merged r) res)))"

definition route_gate :: "('s, 'u) app \<Rightarrow> ('s, 'u) route \<Rightarrow> jstr \<Rightarrow> (thrown, ('s, 'u) hook_world, response) hook_gate option \<Rightarrow>
    ('s, 'u, response) request_step \<Rightarrow> ('s, 'u, response) request_step" where
  "route_gate a r phase g go_on = (case g of None \<Rightarrow> go_on
     | Some f \<Rightarrow> bind_comp (call Main f) (\<lambda>res. bind_comp adopt_id (\<lambda>_. case res of
           Some res \<Rightarrow> hook_answer a r phase res
         | None \<Rightarrow> go_on)))"

definition run_handler :: "('s, 'u) app \<Rightarrow> ('s, 'u) route \<Rightarrow> ('s, 'u, handler_outcome) request_step" where
  "run_handler a r =
     bind_comp (require_auth a r True) (\<lambda>_.
     bind_comp (with_world (\<lambda>w. log_event (Handled (cr_requiresAuthRun r) (auth_ran w)))) (\<lambda>_.
     bind_comp (call Main (cr_handler r)) (\<lambda>result.
       case l_afterHandle (cr_merged r) of
         None \<Rightarrow> ret result
       | Some f \<Rightarrow> bind_comp (call Main (f result)) (\<lambda>v. ret (case v of Some v \<Rightarrow> v | None \<Rightarrow> result)))))"

definition raw_refusal :: jstr where
  "raw_refusal = js ''Raw Response refused: set acknowledgeNoResponseBodySchema: true on the route to explicitly accept that its response body bypasses schema validation.''"

definition send_outcome :: "('s, 'u) app \<Rightarrow> request \<Rightarrow> ('s, 'u) route \<Rightarrow> handler_outcome \<Rightarrow> ('s, 'u, response) request_step" where
  "send_outcome a rq r result = (case result of
       RawResponse res \<Rightarrow>
         if \<not> cr_acknowledge r then throw (InternalError (Some raw_refusal))
         else bind_comp (send_answer a Main (cr_merged r) res) (head_only rq)
     | Result hr \<Rightarrow>
         bind_comp (call Main (serializeResult (ap_text a) (cr_responses r) (ap_validateResponses a) (rq_light rq) hr)) (\<lambda>res.
         bind_comp (copy_from Main res) (\<lambda>res.
         bind_comp (with_world (\<lambda>w. write_headers (hd_set (js ''x-request-id'') (wd_requestId w)) res)) (\<lambda>res.
         bind_comp (finalize a Main (cr_merged r) res) (head_only rq)))))"

definition routed :: "('s, 'u) app \<Rightarrow> request \<Rightarrow> ('s, 'u) route route_match \<Rightarrow> ('s, 'u, response) request_step" where
  "routed a rq m =
     (let r = handler m in
      bind_comp (modify (\<lambda>w. w\<lparr>wd_route := Some r\<rparr>)) (\<lambda>_.
      bind_comp (case cr_onRequest r of None \<Rightarrow> ret () | Some f \<Rightarrow> call NoContext f) (\<lambda>_.
      bind_comp (modify (\<lambda>w. w\<lparr>wd_main := Some (createPreBodyContext a rq r (params m) (wd_requestId w))\<rparr>)) (\<lambda>_.
      route_gate a r (js ''preBody'') (l_preBody (cr_merged r))
        (bind_comp (call Main (validateContext (ap_parsers a) (ap_bodyOptions a) (rq_headers rq) (cr_request r))) (\<lambda>_.
         route_gate a r (js ''beforeHandle'') (map_option snd (l_beforeHandle (cr_merged r)))
           (bind_comp (run_handler a r) (send_outcome a rq r))))))))"

section \<open>The whole request\<close>

definition try_part :: "('s, 'u) app \<Rightarrow> request \<Rightarrow> bool \<Rightarrow> ('s, 'u, response) request_step" where
  "try_part a rq allowInternal =
     bind_comp (boundary_guards a rq) (\<lambda>_.
     bind_comp (global_onRequest a) (\<lambda>_.
     case getPathnameFast (ap_pathname a) (rq_url rq) of
       None \<Rightarrow> throw type_error
     | Some path \<Rightarrow> (case match_route a (rq_method rq) path of
           None \<Rightarrow> bind_comp (cross_origin a rq (ap_corsAllows a)) (\<lambda>_. no_route a rq allowInternal path)
         | Some m \<Rightarrow>
             if internal_hidden allowInternal m
             then bind_comp (cross_origin a rq (ap_corsAllows a)) (\<lambda>_. throw (not_found rq path))
             else bind_comp (cross_origin a rq (cr_corsAllows (handler m))) (\<lambda>_. routed a rq m))))"

definition active_hooks :: "('s, 'u) app \<Rightarrow> ('s, 'u) request_world \<Rightarrow> ('s, 'u) hook_layer" where
  "active_hooks a w = (case wd_route w of None \<Rightarrow> globalHooks a | Some r \<Rightarrow> cr_merged r)"

definition as_http_error :: "thrown \<Rightarrow> http_error" where
  "as_http_error e = (case e of Http h \<Rightarrow> h
     | JsError m \<Rightarrow> (case InternalError (Some m) of Http h \<Rightarrow> h)
     | NonError \<Rightarrow> (case InternalError (Some (js ''Unexpected error'')) of Http h \<Rightarrow> h))"

definition is_http :: "thrown \<Rightarrow> bool" where
  "is_http e \<longleftrightarrow> (case e of Http h \<Rightarrow> True | _ \<Rightarrow> False)"

text \<open>The headers of the context, or the application's \<open>cors()\<close> policy when there is no context.\<close>

definition applyAppCorsPolicy :: "('s, 'u) app \<Rightarrow> request \<Rightarrow> response \<Rightarrow> response" where
  "applyAppCorsPolicy a rq res = (case ap_corsDecorate a of None \<Rightarrow> res
     | Some d \<Rightarrow> if rs_immutable res then res else res\<lparr>rs_headers := d rq (rs_headers res)\<rparr>)"

definition error_headers :: "('s, 'u) app \<Rightarrow> request \<Rightarrow> response \<Rightarrow> ('s, 'u, response) request_step" where
  "error_headers a rq res = with_world (\<lambda>w. if wd_main w \<noteq> None then copy_from Main res else ret (applyAppCorsPolicy a rq res))"

definition error_slot :: "('s, 'u) request_world \<Rightarrow> slot" where
  "error_slot w = (if wd_main w = None \<and> wd_bootstrap w \<noteq> None then Bootstrap else Main)"

definition error_response :: "('s, 'u) app \<Rightarrow> request \<Rightarrow> thrown \<Rightarrow> ('s, 'u, response) request_step" where
  "error_response a rq err = with_world (\<lambda>w.
     if \<not> is_http err \<and> 0 < ap_disconnectCode a \<and> ap_aborted a (wd_shared w)
     then bind_comp (new_response (ap_disconnectCode a)
         [(js ''content-type'', js ''application/problem+json''), (js ''x-request-id'', wd_requestId w)] NoBody)
       (\<lambda>res. error_headers a rq (markDisconnectResponse res))
     else bind_comp (toResponse (ap_redact a) (wd_requestId w) (as_http_error err)) (\<lambda>res.
       bind_comp (error_headers a rq res) stamped))"

definition catch_part :: "('s, 'u) app \<Rightarrow> request \<Rightarrow> thrown \<Rightarrow> ('s, 'u, response) request_step" where
  "catch_part a rq err =
     bind_comp (modify (\<lambda>w. if wd_main w = None \<and> wd_onRequestRan w
         then w\<lparr>wd_bootstrap := Some (coldPathContext a rq False (wd_requestId w))\<rparr> else w)) (\<lambda>_.
     bind_comp (with_world (\<lambda>w. case l_onError (active_hooks a w) of None \<Rightarrow> ret None | Some f \<Rightarrow> call (error_slot w) (f err))) (\<lambda>handled.
     case handled of
       Some res \<Rightarrow> bind_comp (error_headers a rq res) stamped
     | None \<Rightarrow> error_response a rq err))"

definition finish_error :: "('s, 'u) app \<Rightarrow> response \<Rightarrow> ('s, 'u, response) request_step" where
  "finish_error a res = with_world (\<lambda>w. finalize a (error_slot w) (active_hooks a w) res)"

definition run_finalizers :: "('s, 'u) app \<Rightarrow> slot \<Rightarrow> ('s, 'u) request_world \<Rightarrow> ('s, 'u) request_world" where
  "run_finalizers a sl w = left_by_hook sl (runRequestFinalizers (ap_finalizer a) (seen_by_hook sl w)) w"

definition leave :: "('s, 'u) app \<Rightarrow> ('s, 'u) request_world \<Rightarrow> ('s, 'u) request_world" where
  "leave a w = run_finalizers a Bootstrap (run_finalizers a Preflight (run_finalizers a Main
     (w\<lparr>wd_inflight := wd_inflight w - 1, wd_log := wd_log w @ [Left]\<rparr>)))"

definition enter_request :: "jstr \<Rightarrow> ('s, 'u) request_world \<Rightarrow> ('s, 'u) request_world" where
  "enter_request requestId w = w\<lparr>wd_inflight := wd_inflight w + 1, wd_main := None, wd_preflight := None, wd_bootstrap := None,
     wd_requestId := requestId, wd_onRequestRan := False, wd_route := None, wd_log := []\<rparr>"

definition shutting_down :: response where
  "shutting_down = plain_response 503 [(js ''content-type'', js ''application/problem+json''), (js ''retry-after'', js ''5''),
     (js ''connection'', js ''close'')]
     (BodyBytes (json_bytes (JObj [(js ''type'', JStr (js ''https://daloyjs.dev/errors/shutting-down'')),
       (js ''title'', JStr (js ''Service Unavailable'')), (js ''status'', JNum (js ''503''))])))"

text \<open>\<open>requestId\<close> is the answer of \<open>randomId()\<close>.\<close>

definition dispatch :: "('s, 'u) app \<Rightarrow> request \<Rightarrow> bool \<Rightarrow> jstr \<Rightarrow> ('s, 'u, response) request_step" where
  "dispatch a rq allowInternal requestId w =
     (if wd_draining w then Settled w (Inr shutting_down)
      else try_catch_finally (try_part a rq allowInternal) (catch_part a rq) (finish_error a) (leave a) (enter_request requestId w))"

section \<open>What a computation writes\<close>

text \<open>Other requests change what is shared, and nothing that belongs to this request.\<close>

definition others :: "('s, 'u) request_world \<Rightarrow> ('s, 'u) request_world \<Rightarrow> bool" where
  "others w w' \<longleftrightarrow> wd_main w' = wd_main w \<and> wd_preflight w' = wd_preflight w \<and> wd_bootstrap w' = wd_bootstrap w
     \<and> wd_requestId w' = wd_requestId w \<and> wd_onRequestRan w' = wd_onRequestRan w \<and> wd_route w' = wd_route w \<and> wd_log w' = wd_log w"

text \<open>From one suspension to the next: events of the kind \<open>E\<close> are appended, and no request is counted in or out.\<close>

definition adds :: "(request_event \<Rightarrow> bool) \<Rightarrow> ('s, 'u) request_world \<Rightarrow> ('s, 'u) request_world \<Rightarrow> bool" where
  "adds E w w' \<longleftrightarrow> wd_inflight w' = wd_inflight w \<and> (\<exists>es. wd_log w' = wd_log w @ es \<and> (\<forall>e \<in> set es. E e))"

primrec emits :: "(request_event \<Rightarrow> bool) \<Rightarrow> ('s, 'u) request_world \<Rightarrow> ('e, ('s, 'u) request_world, 'a) proc \<Rightarrow> bool" where
  "emits E w0 (Settled w r) = adds E w0 w"
| "emits E w0 (Await w k) = (adds E w0 w \<and> (\<forall>w'. emits E w' (k w')))"

definition emitting :: "(request_event \<Rightarrow> bool) \<Rightarrow> ('e, ('s, 'u) request_world, 'a) comp \<Rightarrow> bool" where
  "emitting E m \<longleftrightarrow> (\<forall>w. emits E w (m w))"

lemma adds_refl [simp]: "adds E w w"
  by (simp add: adds_def)

lemma adds_trans: "adds E w w1 \<Longrightarrow> adds E w1 w2 \<Longrightarrow> adds E w w2"
  by (fastforce simp: adds_def)

lemma emits_from: "adds E w0 w \<Longrightarrow> emits E w p \<Longrightarrow> emits E w0 p"
  by (cases p) (auto intro: adds_trans)

lemma emits_settle: "emits E w p \<Longrightarrow> (\<And>w r. emits E w (f w r)) \<Longrightarrow> emits E w (settle p f)"
  by (induction p arbitrary: w) (auto intro: emits_from)

lemma emitting_ret: "emitting E (ret a)"
  by (simp add: emitting_def ret_def)

lemma emitting_throw: "emitting E (throw e)"
  by (simp add: emitting_def throw_def)

lemma emitting_modify: "(\<And>w. adds E w (f w)) \<Longrightarrow> emitting E (modify f)"
  by (simp add: emitting_def modify_def)

lemma emitting_bind: "emitting E m \<Longrightarrow> (\<And>a. emitting E (f a)) \<Longrightarrow> emitting E (bind_comp m f)"
  unfolding emitting_def bind_comp_def by (intro allI emits_settle) (auto split: sum.split)

lemma emitting_with_world: "(\<And>w. emitting E (f w)) \<Longrightarrow> emitting E (with_world f)"
  by (simp add: emitting_def with_world_def)

lemma left_by_hook_adds: "adds E w (left_by_hook sl h w)"
  by (cases sl) (auto simp: adds_def left_by_hook_def set_context_def)

lemma emits_in_slot: "emits E w (in_slot sl p w)"
  by (induction p arbitrary: w) (auto simp: left_by_hook_adds)

lemma emitting_call: "emitting E (call sl m)"
  by (simp add: emitting_def call_def emits_in_slot)

lemma emitting_perhaps: "emitting E m \<Longrightarrow> emitting E (perhaps b m)"
  by (simp add: perhaps_def emitting_ret)

lemma emitting_throw_if: "emitting E (throw_if e)"
  by (simp add: throw_if_def emitting_ret emitting_throw split: option.split)

lemma emitting_new_response: "emitting E (new_response s h b)"
  by (simp add: new_response_def emitting_ret emitting_throw)

lemma emitting_write: "emitting E (write_headers f res)"
  by (simp add: write_headers_def emitting_ret emitting_throw)

lemmas emitting_basic = emitting_ret emitting_throw emitting_call emitting_throw_if emitting_new_response emitting_write

lemma emitting_copy: "emitting E (copy_from sl res)"
  unfolding copy_from_def copyContextHeaders_def
  by (intro emitting_with_world) (auto simp: emitting_basic split: option.split)

lemma emitting_stamped: "emitting E (stamped res)"
  unfolding stamped_def stamp_id_def by (intro emitting_with_world) (auto simp: emitting_basic)

lemma emitting_finalize: "emitting E (finalize a sl hs res)"
  by (simp add: finalize_def emitting_call)

lemma emitting_answer: "emitting E (send_answer a sl hs res)"
  unfolding send_answer_def by (intro emitting_bind emitting_copy emitting_stamped emitting_finalize)

lemma emitting_head: "emitting E (head_only rq res)"
  by (simp add: head_only_def emitting_basic)

lemma emitting_guards: "emitting E (boundary_guards a rq)"
proof -
  have "emitting E (check_host a rq)"
    unfolding check_host_def
    by (cases "ap_hostMatcher a")
      (auto simp: emitting_basic adds_def split: prod.split intro!: emitting_with_world emitting_bind emitting_modify)
  then show ?thesis unfolding boundary_guards_def by (intro emitting_bind emitting_throw_if)
qed

lemma emitting_onRequest: "emitting E (global_onRequest a)"
  unfolding global_onRequest_def
  by (auto simp: emitting_basic adds_def split: option.split intro!: emitting_bind emitting_modify)

lemma emitting_cross_origin: "emitting E (cross_origin a rq allows)"
  by (simp add: cross_origin_def emitting_basic split: cross_verdict.split)

lemma emitting_cold_gate: "emitting E m \<Longrightarrow> emitting E (cold_gate a sl g m)"
  unfolding cold_gate_def by (auto split: option.split intro!: emitting_bind emitting_call emitting_answer)

lemma emitting_no_route: "emitting E (no_route a rq i path)"
proof -
  have "emitting E (preflight_answer a allowed)" for allowed
    unfolding preflight_answer_def
    by (intro emitting_bind emitting_new_response emitting_copy emitting_with_world emitting_write emitting_finalize)
  then show ?thesis
    unfolding no_route_def Let_def
    by (auto simp: emitting_throw adds_def intro!: emitting_bind emitting_perhaps emitting_modify emitting_cold_gate)
qed

text \<open>What the log of a request may hold: no protected handler and no answer below 400 without authentication.\<close>

definition honest :: "('s, 'u) app \<Rightarrow> request_event \<Rightarrow> bool" where
  "honest a e \<longleftrightarrow> (case e of
       Handled needs authed \<Rightarrow> ap_production a \<and> ap_secureDefaults a \<and> needs \<longrightarrow> authed
     | Answered status needs authed \<Rightarrow> ap_production a \<and> ap_secureDefaults a \<and> needs \<and> status < 400 \<longrightarrow> authed
     | Left \<Rightarrow> False)"

lemma require_auth_cases:
  obtains e where "require_auth a r applies w = Settled w (Inl e)"
  | "require_auth a r applies w = Settled w (Inr ())"
    "ap_production a \<and> ap_secureDefaults a \<and> cr_requiresAuthRun r \<and> applies \<longrightarrow> auth_ran w"
proof -
  have "(\<exists>e. require_auth a r applies w = Settled w (Inl e)) \<or> (require_auth a r applies w = Settled w (Inr ())
      \<and> (ap_production a \<and> ap_secureDefaults a \<and> cr_requiresAuthRun r \<and> applies \<longrightarrow> auth_ran w))"
    by (simp add: require_auth_def refuseUnauthenticatedRoute_def with_world_def perhaps_def throw_def ret_def)
  with that show thesis by blast
qed

lemma emitting_audited:
  assumes "\<And>w. ap_production a \<and> ap_secureDefaults a \<and> cr_requiresAuthRun r \<and> applies \<longrightarrow> auth_ran w \<Longrightarrow> honest a (ev w)"
    and "emitting (honest a) m"
  shows "emitting (honest a) (bind_comp (require_auth a r applies) (\<lambda>_. bind_comp (with_world (\<lambda>w. log_event (ev w))) (\<lambda>_. m)))"
  unfolding emitting_def
proof
  fix w
  show "emits (honest a) w (bind_comp (require_auth a r applies) (\<lambda>_. bind_comp (with_world (\<lambda>w. log_event (ev w))) (\<lambda>_. m)) w)"
  proof (rule require_auth_cases [of a r applies w])
    fix e assume "require_auth a r applies w = Settled w (Inl e)"
    then show ?thesis by (simp add: bind_comp_def)
  next
    assume r: "require_auth a r applies w = Settled w (Inr ())"
      and "ap_production a \<and> ap_secureDefaults a \<and> cr_requiresAuthRun r \<and> applies \<longrightarrow> auth_ran w"
    then have "honest a (ev w)" by (intro assms(1))
    then have "adds (honest a) w (w\<lparr>wd_log := wd_log w @ [ev w]\<rparr>)" by (simp add: adds_def)
    moreover have "emits (honest a) (w\<lparr>wd_log := wd_log w @ [ev w]\<rparr>) (m (w\<lparr>wd_log := wd_log w @ [ev w]\<rparr>))"
      using assms(2) by (simp add: emitting_def)
    ultimately show ?thesis by (auto simp: bind_comp_def r with_world_def log_event_def modify_def intro: emits_from)
  qed
qed

lemma emitting_hook_answer: "emitting (honest a) (hook_answer a r phase res)"
  unfolding hook_answer_def
  by (rule emitting_audited) (auto simp: honest_def intro!: emitting_bind emitting_throw_if emitting_answer)

lemma emitting_route_gate: "emitting (honest a) m \<Longrightarrow> emitting (honest a) (route_gate a r phase g m)"
  unfolding route_gate_def adopt_id_def
  by (auto simp: adds_def split: option.split intro!: emitting_bind emitting_call emitting_modify emitting_hook_answer)

lemma emitting_run_handler: "emitting (honest a) (run_handler a r)"
  unfolding run_handler_def
  by (rule emitting_audited) (auto simp: honest_def split: option.split intro!: emitting_bind emitting_call emitting_ret)

lemma emitting_send_outcome: "emitting E (send_outcome a rq r result)"
  unfolding send_outcome_def
  by (auto split: handler_outcome.split
      intro!: emitting_bind emitting_throw emitting_answer emitting_head emitting_call emitting_copy emitting_with_world emitting_write emitting_finalize)

lemma emitting_routed: "emitting (honest a) (routed a rq m)"
proof -
  have start: "emitting E (case cr_onRequest r of None \<Rightarrow> ret () | Some f \<Rightarrow> call NoContext f)" for r :: "('a, 'b) route" and E
    by (simp add: emitting_basic split: option.split)
  show ?thesis
    unfolding routed_def Let_def
    by (intro emitting_bind emitting_route_gate start emitting_call emitting_run_handler emitting_send_outcome emitting_modify) (simp_all add: adds_def)
qed

lemma emitting_try: "emitting (honest a) (try_part a rq i)"
  unfolding try_part_def
  by (auto split: option.split
      intro!: emitting_bind emitting_guards emitting_onRequest emitting_cross_origin emitting_no_route emitting_throw emitting_routed)

lemma emitting_error_headers: "emitting E (error_headers a rq res)"
  unfolding error_headers_def by (intro emitting_with_world) (auto simp: emitting_basic emitting_copy)

lemma emitting_catch: "emitting E (catch_part a rq err)"
proof -
  have to: "emitting E (toResponse p i e)" for p i e
    by (simp add: toResponse_def emitting_basic split: option.split)
  have resp: "emitting E (error_response a rq err)"
    unfolding error_response_def
    by (intro emitting_with_world) (auto intro!: emitting_bind emitting_new_response emitting_error_headers emitting_stamped to)
  have hook: "emitting E (with_world (\<lambda>w. case l_onError (active_hooks a w) of None \<Rightarrow> ret None | Some f \<Rightarrow> call (error_slot w) (f err)))"
    by (intro emitting_with_world) (simp add: emitting_basic split: option.split)
  show ?thesis
    unfolding catch_part_def
    by (intro emitting_bind hook emitting_modify)
      (auto simp: adds_def split: option.split intro!: emitting_bind emitting_error_headers emitting_stamped resp)
qed

lemma emitting_finish: "emitting E (finish_error a res)"
  unfolding finish_error_def by (intro emitting_with_world emitting_finalize)

section \<open>Every request leaves once\<close>

lemma emits_ends:
  "emits E w0 p \<Longrightarrow> ends others (\<lambda>w r. \<exists>es. wd_log w = wd_log w0 @ es \<and> (\<forall>e \<in> set es. E e)) p"
proof (induction p arbitrary: w0)
  case (Settled w r)
  then show ?case by (auto simp: adds_def)
next
  case (Await w k)
  have "ends others (\<lambda>w r. \<exists>es. wd_log w = wd_log w0 @ es \<and> (\<forall>e \<in> set es. E e)) (k w')" if "others w w'" for w'
  proof (rule ends_mono [OF Await.IH [OF rangeI, of w' w']])
    show "emits E w' (k w')" using Await.prems by simp
    fix w2 r assume "\<exists>es. wd_log w2 = wd_log w' @ es \<and> (\<forall>e \<in> set es. E e)"
    moreover have "adds E w0 w" using Await.prems by simp
    ultimately show "\<exists>es. wd_log w2 = wd_log w0 @ es \<and> (\<forall>e \<in> set es. E e)"
      using that by (fastforce simp: adds_def others_def)
  qed
  then show ?case by simp
qed

lemma left_by_hook_log [simp]: "wd_log (left_by_hook sl h w) = wd_log w" "wd_inflight (left_by_hook sl h w) = wd_inflight w"
  by (cases sl; simp add: left_by_hook_def set_context_def)+

lemma leave_log [simp]: "wd_log (leave a w) = wd_log w @ [Left]" "wd_inflight (leave a w) = wd_inflight w - 1"
  by (simp_all add: leave_def run_finalizers_def)

lemma unawaited_leave:
  assumes "emits (\<lambda>_. False) w p" and "wd_log w = L"
  shows "ends others (\<lambda>w r. wd_log w = L @ [Left]) (unawaited (leave a) p)"
proof (cases p)
  case (Settled w1 r)
  with assms show ?thesis by (simp add: unawaited_def adds_def)
next
  case (Await w1 k)
  have log: "wd_log w1 = L" using assms by (simp add: Await adds_def)
  have "ends others (\<lambda>w r. wd_log w = L @ [Left]) (k w')" if "others (leave a w1) w'" for w'
  proof (rule ends_mono [OF emits_ends [of "\<lambda>_. False" w' "k w'"]])
    show "emits (\<lambda>_. False) w' (k w')" using assms(1) Await by simp
    show "wd_log w2 = L @ [Left]" if "\<exists>es. wd_log w2 = wd_log w' @ es \<and> (\<forall>e \<in> set es. False)" for w2 :: "('a, 'b) request_world" and r :: "'c + 'd"
      using that \<open>others (leave a w1) w'\<close> log by (auto simp: others_def)
  qed
  then show ?thesis by (simp add: unawaited_def Await)
qed

lemma dispatch_log:
  assumes "\<not> wd_draining w"
  shows "ends others (\<lambda>w r. \<exists>es. wd_log w = es @ [Left] \<and> (\<forall>e \<in> set es. honest a e)) (dispatch a rq i requestId w)"
proof -
  let ?Q = "\<lambda>w r. \<exists>es. wd_log w = es @ [Left] \<and> (\<forall>e \<in> set es. honest a e)"
  have body: "ends others (\<lambda>w r. \<forall>e \<in> set (wd_log w). honest a e) (try_part a rq i (enter_request requestId w))"
    using emits_ends [OF emitting_try [unfolded emitting_def, rule_format, of a "enter_request requestId w" rq i]]
    by (rule ends_mono) (simp add: enter_request_def)
  have rest: "ends others ?Q (settle (catch_part a rq e w1) (\<lambda>w2 r2. case r2 of Inl e' \<Rightarrow> Settled (leave a w2) (Inl e')
       | Inr b \<Rightarrow> unawaited (leave a) (finish_error a b w2)))" if w1: "\<forall>e \<in> set (wd_log w1). honest a e" for e w1
  proof (rule ends_settle)
    have "ends others (\<lambda>w r. wd_log w = wd_log w1) (catch_part a rq e w1)"
      using emits_ends [OF emitting_catch [unfolded emitting_def, rule_format, of "\<lambda>_. False" w1 a rq e]]
      by (rule ends_mono) simp
    then show "ends others (\<lambda>w2 r2. ends others ?Q (case r2 of Inl e' \<Rightarrow> Settled (leave a w2) (Inl e')
       | Inr b \<Rightarrow> unawaited (leave a) (finish_error a b w2))) (catch_part a rq e w1)"
    proof (rule ends_mono)
      fix w2 :: "('a, 'b) request_world" and r2 :: "thrown + response"
      assume log: "wd_log w2 = wd_log w1"
      show "ends others ?Q (case r2 of Inl e' \<Rightarrow> Settled (leave a w2) (Inl e') | Inr b \<Rightarrow> unawaited (leave a) (finish_error a b w2))"
      proof (cases r2)
        case (Inr b)
        have "emits (\<lambda>_. False) w2 (finish_error a b w2)" using emitting_finish unfolding emitting_def by blast
        from unawaited_leave [OF this log] show ?thesis
          unfolding Inr sum.case by (rule ends_mono) (use w1 in blast)
      qed (use log w1 in simp)
    qed
  qed
  show ?thesis
    unfolding dispatch_def try_catch_finally_def if_not_P [OF assms]
    by (rule ends_settle, rule ends_mono [OF body]) (auto simp: rest split: sum.split)
qed

lemma emits_run: "emits E w0 p \<Longrightarrow> adds E w0 (fst (run p))"
  by (induction p arbitrary: w0) (auto intro: adds_trans)

lemma run_unawaited_leave:
  assumes "emits E w p"
  shows "wd_inflight (fst (run (unawaited (leave a) p))) = wd_inflight w - 1"
proof (cases p)
  case (Settled w1 r)
  with assms show ?thesis by (simp add: unawaited_def adds_def)
next
  case (Await w1 k)
  then have "emits E (leave a w1) (k (leave a w1))" using assms by simp
  from emits_run [OF this] show ?thesis using assms by (simp add: unawaited_def Await adds_def)
qed

lemma run_inflight: "\<not> wd_draining w \<Longrightarrow> wd_inflight (fst (run (dispatch a rq i requestId w))) = wd_inflight w"
proof -
  assume w: "\<not> wd_draining w"
  have count: "wd_inflight (fst (run p)) = wd_inflight w0" if "emits E w0 p" for w0 E and p :: "(thrown, ('a, 'b) request_world, 'c) proc"
    using emits_run [OF that] by (simp add: adds_def)
  have body: "emits (honest a) (enter_request requestId w) (try_part a rq i (enter_request requestId w))" using emitting_try unfolding emitting_def by blast
  obtain w1 r1 where r1: "run (try_part a rq i (enter_request requestId w)) = (w1, r1)" by fastforce
  with count [OF body] have c1: "wd_inflight w1 = wd_inflight w + 1" by (simp add: enter_request_def)
  show ?thesis
  proof (cases r1)
    case (Inr res)
    with r1 c1 w show ?thesis by (simp add: dispatch_def try_catch_finally_def run_settle)
  next
    case (Inl e)
    obtain w2 r2 where r2: "run (catch_part a rq e w1) = (w2, r2)" by fastforce
    have "emits (\<lambda>_. True) w1 (catch_part a rq e w1)" using emitting_catch unfolding emitting_def by blast
    from count [OF this] r2 c1 have c2: "wd_inflight w2 = wd_inflight w + 1" by simp
    have "emits (\<lambda>_. True) w2 (finish_error a b w2)" for b using emitting_finish unfolding emitting_def by blast
    from run_unawaited_leave [OF this] c2 show ?thesis
      by (cases r2) (simp_all add: dispatch_def try_catch_finally_def run_settle w r1 Inl r2)
  qed
qed

lemma dispatch_reached:
  assumes "\<not> wd_draining w" and "reaches others (dispatch a rq i requestId w) w' r"
  obtains es where "wd_log w' = es @ [Left]" "\<forall>e \<in> set es. honest a e"
  using dispatch_log [OF assms(1)] assms(2) that unfolding reaches_ends by blast

text \<open>
  C28. In production with the secure defaults, the handler of a route that requires authentication runs only
  after an authentication hook let this very request through, and no hook answers such a route with a status
  below 400 before that, be it a cache or an idempotent replay: whatever the other hooks and handlers are,
  whatever path guards exempt, and however overlapping requests interleave.
\<close>

theorem handler_needs_auth:
  assumes "\<not> wd_draining w" and "ap_production a" and "ap_secureDefaults a"
    and "reaches others (dispatch a rq i requestId w) w' r"
  shows "Handled True False \<notin> set (wd_log w') \<and> (\<forall>status. status < 400 \<longrightarrow> Answered status True False \<notin> set (wd_log w'))"
proof -
  obtain es where "wd_log w' = es @ [Left]" "\<forall>e \<in> set es. honest a e" by (rule dispatch_reached [OF assms(1,4)])
  with assms(2,3) show ?thesis by (auto simp: honest_def)
qed


section \<open>What every response satisfies\<close>

text \<open>A property of the value alone holds under any interference.\<close>

definition yields :: "('a \<Rightarrow> bool) \<Rightarrow> ('e, 'w, 'a) comp \<Rightarrow> bool" where
  "yields Q m \<longleftrightarrow> (\<forall>w. ends (\<lambda>_ _. True) (\<lambda>_ r. \<forall>x. r = Inr x \<longrightarrow> Q x) (m w))"

lemma ends_always: "(\<And>w r. Q w r) \<Longrightarrow> ends R Q p"
  by (induction p) auto

lemma yields_bind:
  assumes "\<And>a. yields Q (f a)"
  shows "yields Q (bind_comp m f)"
  unfolding yields_def
proof
  fix w
  show "ends (\<lambda>_ _. True) (\<lambda>_ r. \<forall>x. r = Inr x \<longrightarrow> Q x) (bind_comp m f w)"
    by (rule ends_bind, rule ends_always) (use assms in \<open>auto simp: yields_def split: sum.split\<close>)
qed

lemma yields_throw: "yields Q (throw e)"
  by (simp add: yields_def throw_def)

lemma yields_ret: "Q a \<Longrightarrow> yields Q (ret a)"
  by (simp add: yields_def ret_def)

lemma yields_with_world: "(\<And>w. yields Q (f w)) \<Longrightarrow> yields Q (with_world f)"
  by (simp add: yields_def with_world_def)

lemma ends_in_slot: "ends (\<lambda>_ _. True) (\<lambda>_ r. P r) p \<Longrightarrow> ends (\<lambda>_ _. True) (\<lambda>_ r. P r) (in_slot sl p w)"
  by (induction p arbitrary: w) (auto simp del: split_paired_All)

lemma yields_call: "yields Q m \<Longrightarrow> yields Q (call sl m)"
  by (simp add: yields_def call_def ends_in_slot del: split_paired_All)

lemma ends_unawaited: "ends (\<lambda>_ _. True) (\<lambda>_ r. P r) p \<Longrightarrow> ends (\<lambda>_ _. True) (\<lambda>_ r. P r) (unawaited g p)"
  by (cases p) (auto simp: unawaited_def)

lemma yields_guarded:
  assumes "yields Q body" and "\<And>b. yields Q (finish b)"
  shows "yields Q (try_catch_finally body prepare finish g)"
proof -
  have rest: "ends (\<lambda>_ _. True) (\<lambda>_ r. \<forall>x. r = Inr x \<longrightarrow> Q x) (settle (prepare e w1) (\<lambda>w2 r2. case r2 of Inl e' \<Rightarrow> Settled (g w2) (Inl e')
      | Inr b \<Rightarrow> unawaited g (finish b w2)))" for e w1
    by (rule ends_settle, rule ends_always)
      (use assms(2) in \<open>auto simp: yields_def ends_unawaited split: sum.split\<close>)
  show ?thesis
    unfolding yields_def try_catch_finally_def
    by (intro allI ends_settle ends_mono [OF assms(1) [unfolded yields_def, rule_format]]) (auto simp: rest split: sum.split)
qed

text \<open>The server names itself in no response, or as it was told to.\<close>

definition unbranded :: "fingerprint \<Rightarrow> response \<Rightarrow> bool" where
  "unbranded mode res \<longleftrightarrow> (mode \<noteq> KeepFingerprint \<longrightarrow> hd_get (js ''server'') (rs_headers res) = None)
     \<and> (mode = StripFingerprint \<longrightarrow> hd_get (js ''x-powered-by'') (rs_headers res) = None)
     \<and> (\<forall>name. mode = PoweredBy name \<longrightarrow> hd_get (js ''x-powered-by'') (rs_headers res) = Some name)"

lemma get_delete: "map_of (AList.delete n h) m = (if m = n then None else map_of h m)"
  by (simp add: delete_conv')

lemma unbranded_fingerprint: "unbranded mode (res\<lparr>rs_headers := applyFingerprint mode h\<rparr>)"
proof -
  have n: "to_lower (js ''server'') \<noteq> to_lower (js ''x-powered-by'')" by (simp add: to_lower_def lower_unit_def)
  show ?thesis
    unfolding unbranded_def applyFingerprint_def hd_get_def hd_set_def hd_delete_def
    using n n [symmetric] by (cases mode) (simp_all add: get_put get_delete del: js_simps)
qed

lemma yields_then:
  assumes "yields P m" and "\<And>a. P a \<Longrightarrow> yields Q (f a)"
  shows "yields Q (bind_comp m f)"
  unfolding yields_def
proof
  fix w
  show "ends (\<lambda>_ _. True) (\<lambda>_ r. \<forall>x. r = Inr x \<longrightarrow> Q x) (bind_comp m f w)"
    by (rule ends_bind, rule ends_mono [OF assms(1) [unfolded yields_def, rule_format]])
      (use assms(2) in \<open>auto simp: yields_def split: sum.split\<close>)
qed

lemma unbranded_finalize: "yields (unbranded (ap_fingerprint a)) (finalize a sl hs res)"
proof -
  have fast: "yields (unbranded mode) (finalizeFast mode res)" for mode and res :: response
  proof -
    have "unbranded KeepFingerprint res" by (simp add: unbranded_def)
    then show ?thesis
      unfolding finalizeFast_def write_headers_def by (auto simp: unbranded_fingerprint intro!: yields_ret yields_throw)
  qed
  have "yields (unbranded mode) (finishFinalize mode f res)" for mode f and res :: response
    unfolding finishFinalize_def by (rule yields_then [OF fast]) (auto split: option.split intro: yields_ret yields_bind)
  then show ?thesis unfolding finalize_def finalizeResponse_def by (intro yields_call yields_bind)
qed

lemma unbranded_head: "unbranded mode res \<Longrightarrow> yields (unbranded mode) (head_only rq res)"
  unfolding head_only_def new_response_def
  by (auto simp: unbranded_def plain_response_def intro!: yields_ret yields_throw)

lemma unbranded_answer: "yields (unbranded (ap_fingerprint a)) (send_answer a sl hs res)"
  unfolding send_answer_def by (intro yields_bind unbranded_finalize)

lemma unbranded_no_route: "yields (unbranded (ap_fingerprint a)) (no_route a rq i path)"
proof -
  have hook_gate: "yields (unbranded (ap_fingerprint a)) (cold_gate a sl g m)" if "yields (unbranded (ap_fingerprint a)) m" for sl g m
    using that unfolding cold_gate_def by (auto split: option.split intro!: yields_bind unbranded_answer)
  have "yields (unbranded (ap_fingerprint a)) (preflight_answer a allowed)" for allowed
    unfolding preflight_answer_def by (intro yields_bind unbranded_finalize)
  then show ?thesis
    unfolding no_route_def Let_def by (auto intro!: yields_bind yields_throw hook_gate)
qed

lemma unbranded_routed: "yields (unbranded (ap_fingerprint a)) (routed a rq m)"
proof -
  have hook_gate: "yields (unbranded (ap_fingerprint a)) (route_gate a r phase g k)" if "yields (unbranded (ap_fingerprint a)) k" for r phase g k
    using that unfolding route_gate_def hook_answer_def
    by (auto split: option.split intro!: yields_bind unbranded_answer)
  have send: "yields (unbranded (ap_fingerprint a)) (send_outcome a rq r result)" for r result
    unfolding send_outcome_def
    by (auto split: handler_outcome.split
        intro!: yields_bind yields_throw yields_then [OF unbranded_answer unbranded_head] yields_then [OF unbranded_finalize unbranded_head])
  show ?thesis
    unfolding routed_def Let_def by (intro yields_bind hook_gate send)
qed

lemma unbranded_dispatch:
  assumes "\<not> wd_draining w" and "reaches others (dispatch a rq i requestId w) w' (Inr res)"
  shows "unbranded (ap_fingerprint a) res"
proof -
  have "yields (unbranded (ap_fingerprint a)) (try_part a rq i)"
    unfolding try_part_def by (auto split: option.split intro!: yields_bind yields_throw unbranded_no_route unbranded_routed)
  moreover have "yields (unbranded (ap_fingerprint a)) (finish_error a b)" for b
    unfolding finish_error_def by (intro yields_with_world unbranded_finalize)
  ultimately have "yields (unbranded (ap_fingerprint a)) (try_catch_finally (try_part a rq i) (catch_part a rq) (finish_error a) (leave a))"
    by (rule yields_guarded)
  then have e: "ends (\<lambda>_ _. True) (\<lambda>_ r. \<forall>x. r = Inr x \<longrightarrow> unbranded (ap_fingerprint a) x) (dispatch a rq i requestId w)"
    using assms(1) by (simp add: yields_def dispatch_def del: split_paired_All)
  have "reaches (\<lambda>_ _. True) p w2 r" if "reaches others p w2 r" for p w2 and r :: "thrown + response"
    using that by induction auto
  with e assms(2) show ?thesis unfolding reaches_ends by blast
qed

text \<open>
  C36. No response names the server: with the default setting neither \<open>Server\<close> nor \<open>X-Powered-By\<close> is on any
  response a request gets, with \<open>poweredBy\<close> exactly the name asked for, whether the route, a gate, a
  preflight, an error hook or the error path answered and whatever the handler and the \<open>onSend\<close> hooks set.
\<close>

theorem no_fingerprint:
  assumes "\<not> wd_draining w" and "reaches others (dispatch a rq i requestId w) w' (Inr res)"
  shows "case ap_fingerprint a of
      KeepFingerprint \<Rightarrow> True
    | StripFingerprint \<Rightarrow> hd_get (js ''server'') (rs_headers res) = None \<and> hd_get (js ''x-powered-by'') (rs_headers res) = None
    | PoweredBy name \<Rightarrow> hd_get (js ''server'') (rs_headers res) = None \<and> hd_get (js ''x-powered-by'') (rs_headers res) = Some name"
  using unbranded_dispatch [OF assms] by (cases "ap_fingerprint a") (simp_all add: unbranded_def del: js_simps)

section \<open>Hidden routes\<close>

lemma router_only:
  "globalHooks (a\<lparr>ap_router := r\<rparr>) = globalHooks a" "coldPathHooks (a\<lparr>ap_router := r\<rparr>) = coldPathHooks a"
  "check_host (a\<lparr>ap_router := r\<rparr>) rq = check_host a rq" "assertTrustProxyConfigured (a\<lparr>ap_router := r\<rparr>) rq = assertTrustProxyConfigured a rq"
  "cross_origin (a\<lparr>ap_router := r\<rparr>) rq allows = cross_origin a rq allows"
  "coldPathContext (a\<lparr>ap_router := r\<rparr>) rq stamp i = coldPathContext a rq stamp i"
  "finalize (a\<lparr>ap_router := r\<rparr>) sl hs res = finalize a sl hs res"
  "applyAppCorsPolicy (a\<lparr>ap_router := r\<rparr>) rq res = applyAppCorsPolicy a rq res"
  by (simp_all add: globalHooks_def coldPathHooks_def check_host_def assertTrustProxyConfigured_def cross_origin_def
      coldPathContext_def finalize_def applyAppCorsPolicy_def)

lemma router_only_parts:
  "boundary_guards (a\<lparr>ap_router := r\<rparr>) rq = boundary_guards a rq" "global_onRequest (a\<lparr>ap_router := r\<rparr>) = global_onRequest a"
  "catch_part (a\<lparr>ap_router := r\<rparr>) rq = catch_part a rq" "finish_error (a\<lparr>ap_router := r\<rparr>) = finish_error a"
  "leave (a\<lparr>ap_router := r\<rparr>) = leave a"
proof -
  have act: "active_hooks (a\<lparr>ap_router := r\<rparr>) = active_hooks a" by (simp add: fun_eq_iff active_hooks_def router_only split: option.split)
  have eh: "error_headers (a\<lparr>ap_router := r\<rparr>) = error_headers a" by (simp add: fun_eq_iff error_headers_def router_only cong: if_cong)
  have er: "error_response (a\<lparr>ap_router := r\<rparr>) = error_response a" by (intro ext) (simp add: error_response_def eh cong: if_cong)
  show "boundary_guards (a\<lparr>ap_router := r\<rparr>) rq = boundary_guards a rq" by (simp add: boundary_guards_def router_only)
  show "global_onRequest (a\<lparr>ap_router := r\<rparr>) = global_onRequest a" by (simp add: global_onRequest_def router_only)
  show "catch_part (a\<lparr>ap_router := r\<rparr>) rq = catch_part a rq" by (intro ext) (simp add: catch_part_def router_only act eh er cong: if_cong option.case_cong)
  show "finish_error (a\<lparr>ap_router := r\<rparr>) = finish_error a" by (intro ext) (simp add: finish_error_def router_only act)
  show "leave (a\<lparr>ap_router := r\<rparr>) = leave a" by (simp add: fun_eq_iff leave_def run_finalizers_def)
qed

text \<open>
  C37. An internal route, and a path with an encoded separator the route did not ask for, cannot be told from
  a path nothing is registered for when the application has no hooks for unmatched requests: for every
  state, every interleaving and every other part of the application, the public dispatch of the request is
  the same computation as with a router that knows neither the route nor another method of its path.
\<close>

theorem hidden_like_unknown:
  assumes "getPathnameFast (ap_pathname a) (rq_url rq) = Some path"
    and "match_route a (rq_method rq) path = Some m" and "internal_hidden False m"
    and "match_route (a\<lparr>ap_router := unaware\<rparr>) (rq_method rq) path = None"
    and "allowed_methods (a\<lparr>ap_router := unaware\<rparr>) False path = []"
    and "l_onError (globalHooks a) = None" and "l_preBody (coldPathHooks a) = None" and "l_beforeHandle (coldPathHooks a) = None"
  shows "dispatch a rq False requestId = dispatch (a\<lparr>ap_router := unaware\<rparr>) rq False requestId"
proof -
  have "no_route (a\<lparr>ap_router := unaware\<rparr>) rq False path = throw (not_found rq path)"
    by (simp add: no_route_def Let_def assms(5-8) router_only perhaps_def cold_gate_def)
  then have "try_part a rq False = try_part (a\<lparr>ap_router := unaware\<rparr>) rq False"
    using assms(1-4) by (simp add: try_part_def router_only_parts router_only)
  then show ?thesis by (intro ext) (simp add: dispatch_def router_only_parts)
qed

text \<open>With a gate for unmatched requests the two differ: the gate answers for the unknown path only.\<close>

lemma hidden_skips_gates:
  assumes "getPathnameFast (ap_pathname a) (rq_url rq) = Some path"
    and "boundary_guards a rq w = Settled w (Inr ())" and "global_onRequest a = ret ()" and "cross_origin a rq (ap_corsAllows a) = ret ()"
    and "l_preBody (coldPathHooks a) = Some (ret (Some res))" and "rq_method rq \<noteq> js ''OPTIONS''"
  shows "match_route a (rq_method rq) path = Some m \<Longrightarrow> internal_hidden False m \<Longrightarrow>
      try_part a rq False w = Settled w (Inl (not_found rq path))"
    and "match_route a (rq_method rq) path = None \<Longrightarrow>
      try_part a rq False w = bind_comp (modify (\<lambda>w. w\<lparr>wd_main := Some (coldPathContext a rq True (wd_requestId w))\<rparr>))
        (\<lambda>_. bind_comp (call Main (ret (Some res))) (\<lambda>r. send_answer a Main (coldPathHooks a) (the r))) w"
proof -
  have start: "try_part a rq False w = (\<lambda>_. case match_route a (rq_method rq) path of
        None \<Rightarrow> bind_comp (cross_origin a rq (ap_corsAllows a)) (\<lambda>_. no_route a rq False path)
      | Some m \<Rightarrow> if internal_hidden False m then bind_comp (cross_origin a rq (ap_corsAllows a)) (\<lambda>_. throw (not_found rq path))
          else bind_comp (cross_origin a rq (cr_corsAllows (handler m))) (\<lambda>_. routed a rq m)) () w"
    by (simp add: try_part_def bind_comp_def assms(1-3) ret_def)
  show "try_part a rq False w = Settled w (Inl (not_found rq path))" if "match_route a (rq_method rq) path = Some m" "internal_hidden False m"
    unfolding start using that by (simp add: assms(4) throw_def)
  have hook_gate: "bind_comp (call Main (ret (Some res))) (\<lambda>r. case r of Some res \<Rightarrow> f res | None \<Rightarrow> g) = bind_comp (call Main (ret (Some res))) (\<lambda>r. f (the r))"
    for f and g :: "('a, 'b, response) request_step"
    by (simp add: fun_eq_iff bind_comp_def call_def ret_def)
  show "try_part a rq False w = bind_comp (modify (\<lambda>w. w\<lparr>wd_main := Some (coldPathContext a rq True (wd_requestId w))\<rparr>))
        (\<lambda>_. bind_comp (call Main (ret (Some res))) (\<lambda>r. send_answer a Main (coldPathHooks a) (the r))) w"
    if "match_route a (rq_method rq) path = None"
    unfolding start that using assms(6) by (simp add: assms(4,5) no_route_def Let_def perhaps_def cold_gate_def hook_gate)
qed

section \<open>What an error tells\<close>

text \<open>
  In production an unexpected error tells its caller nothing: without an error hook the answer to an
  exception is the same computation whatever its message is, and no answer of status 500 or above has a
  \<open>detail\<close>, while the details of client errors are kept.
\<close>

lemma production_hides_errors:
  fixes a :: "('s, 'u) app"
  assumes "ap_redact a" and "l_onError (active_hooks a w) = None"
  shows "catch_part a rq (JsError m1) w = catch_part a rq (JsError m2) w
    \<and> map_of (problem_document (ap_redact a) requestId e) (js ''detail'')
        = (if 500 \<le> he_status e then None else map_of (he_problem e) (js ''detail''))"
proof -
  have doc: "problem_document True i (as_http_error (JsError m1)) = problem_document True i (as_http_error (JsError m2))" for i
    by (simp add: problem_document_def as_http_error_def InternalError_def daloy_error_def new_error_def)
  have same: "he_status (as_http_error (JsError m)) = 500" "he_headers (as_http_error (JsError m)) = None" for m
    by (simp_all add: as_http_error_def InternalError_def daloy_error_def new_error_def)
  have "(toResponse (ap_redact a) i (as_http_error (JsError m1)) :: ('s, 'u, response) request_step) = toResponse (ap_redact a) i (as_http_error (JsError m2))" for i
    using assms(1) by (simp add: toResponse_def same doc)
  then have "error_response a rq (JsError m1) = error_response a rq (JsError m2)"
    by (intro ext) (simp add: error_response_def is_http_def cong: if_cong)
  moreover have "active_hooks a (if b then w\<lparr>wd_bootstrap := c\<rparr> else w) = active_hooks a w" for b c by (simp add: active_hooks_def)
  ultimately have "catch_part a rq (JsError m1) w = catch_part a rq (JsError m2) w"
    using assms(2) by (simp add: catch_part_def bind_comp_def modify_def with_world_def active_hooks_def ret_def)
  moreover have "js ''instance'' \<noteq> js ''detail''" by simp
  then have "map_of (problem_document (ap_redact a) requestId e) (js ''detail'')
      = (if 500 \<le> he_status e then None else map_of (he_problem e) (js ''detail''))"
    using assms(1) by (simp add: problem_document_def Let_def update_conv' delete_conv' del: js_simps)
  ultimately show ?thesis by blast
qed

section \<open>An application: payments with a secure-headers layer and a reservation\<close>

text \<open>
  The shared state is the reservation of a payment: 0 free, 1 pending, 2 with a stored response. The
  reservation is pending from \<open>beforeHandle\<close> on; \<open>onSend\<close> stores a response below 500, and a finalizer
  frees a reservation that is still pending.
\<close>

definition identify_caller :: "(thrown, (nat, nat) hook_world, response) hook_gate" where
  "identify_caller w = Settled (on_ctx (\<lambda>c. c\<lparr>cx_authRan := True\<rparr>) w) (Inr None)"

definition reserve_payment :: "(thrown, (nat, nat) hook_world, response) hook_gate" where
  "reserve_payment w = Settled (1, map_option (registerRequestFinalizer 7) (snd w)) (Inr None)"

definition store_response :: "response \<Rightarrow> (thrown, (nat, nat) hook_world, response) hook_gate" where
  "store_response res = async (\<lambda>w. Settled (if fst w = 1 \<and> rs_status res < 500 then 2 else fst w, snd w) (Inr None))"

definition secure_headers :: "response \<Rightarrow> (thrown, (nat, nat) hook_world, response) hook_gate" where
  "secure_headers res = async (ret (Some (res\<lparr>rs_headers := add_header (js ''x-frame-options'') (js ''DENY'') (rs_headers res)\<rparr>)))"

definition free_reservation :: "nat \<Rightarrow> nat \<Rightarrow> nat" where
  "free_reservation n s = (if n = 7 \<and> s = 1 then 0 else s)"

definition pay_layers :: "(nat, nat) hook_bundle list" where
  "pay_layers = [Hooks (no_hooks\<lparr>l_preBody := Some identify_caller, l_auth := True\<rparr>) None,
     Hooks (no_hooks\<lparr>l_onSend := Some secure_headers\<rparr>) None,
     Hooks (no_hooks\<lparr>l_beforeHandle := Some (1, reserve_payment), l_onSend := Some store_response, l_replay := True\<rparr>) None]"

definition pay_route :: "(thrown, (nat, nat) hook_world, handler_outcome) comp \<Rightarrow> (nat, nat) route" where
  "pay_route h = \<lparr> cr_method = js ''POST'', cr_path = js ''/pay'', cr_internal = False, cr_allowEncodedSlash = False,
     cr_acknowledge = False, cr_responses = \<lparr> sp_responses = [(201, None)], sp_deprecated = False, sp_sunset = None, sp_route = js ''POST /pay'' \<rparr>,
     cr_request = \<lparr> qs_params = None, qs_query = None, qs_headers = None, qs_body = None, qs_accepts = None, qs_limit = 1024 \<rparr>,
     cr_handler = h, cr_onRequest = None, cr_merged = base (mergeHooks 2 pay_layers), cr_corsAllows = [], cr_corsDecorate = None,
     cr_requiresAuthRun = True, cr_state = 0 \<rparr>"

definition pay_app :: "(thrown, (nat, nat) hook_world, handler_outcome) comp \<Rightarrow> (nat, nat) app" where
  "pay_app h = \<lparr> ap_hooks = Hooks no_hooks None, ap_groupHooks = [],
     ap_router = snd (add_route new_router (js ''POST'') (js ''/pay'') (pay_route h) None), ap_maxHeaderCount = 100,
     ap_hostMatcher = None, ap_secureDefaults = True, ap_proxyConfigured = True, ap_production = True, ap_bootError = None,
     ap_crossOriginGuard = True, ap_corsAllows = [], ap_corsDecorate = None, ap_fingerprint = StripFingerprint, ap_redact = True,
     ap_validateResponses = True, ap_disconnectCode = 0, ap_aborted = (\<lambda>_. False), ap_state = 0, ap_finalizer = free_reservation,
     ap_parsers = echo_parsers, ap_bodyOptions = echo_options, ap_pathname = (\<lambda>_. None), ap_origin = (\<lambda>_. None), ap_search = (\<lambda>_. []),
     ap_text = (\<lambda>_. []) \<rparr>"

definition pay_request :: request where
  "pay_request = \<lparr> rq_method = js ''POST'', rq_url = js ''https://a.test/pay'', rq_headers = [], rq_raw = None, rq_stream = NoStream, rq_light = False \<rparr>"

definition unused_world :: "(nat, nat) request_world" where
  "unused_world = \<lparr> wd_shared = 0, wd_draining = False, wd_inflight = 0, wd_hostMemo = None, wd_main = None, wd_preflight = None,
     wd_bootstrap = None, wd_requestId = [], wd_onRequestRan = False, wd_route = None, wd_log = [] \<rparr>"

text \<open>The handler returns a receipt, or refuses with a conflict.\<close>

definition paid :: "(thrown, (nat, nat) hook_world, handler_outcome) comp" where
  "paid = ret (Result \<lparr> hr_status = 201, hr_body = Value JNull, hr_headers = [] \<rparr>)"

definition conflict :: "(thrown, (nat, nat) hook_world, handler_outcome) comp" where
  "conflict = throw (daloy_error 409 (js ''conflict'') (js ''Conflict'') None None)"

lemma pay_hooks:
  "l_preBody (cr_merged (pay_route h)) = Some (async (pre_body_walk pay_layers [] []))"
  "l_beforeHandle (cr_merged (pay_route h)) = Some (2, reserve_payment)"
  "l_afterHandle (cr_merged (pay_route h)) = None" "l_onError (cr_merged (pay_route h)) = None"
  "l_onSend (cr_merged (pay_route h)) = Some (\<lambda>v. async (bind_comp (pipe [secure_headers, store_response] v) (\<lambda>v'. ret (Some v'))))"
  "l_onResponse (cr_merged (pay_route h)) = None"
  by (simp_all add: pay_route_def mergeHooks_def Let_def pay_layers_def pick_def map_filter_simps no_hooks_def
      mergePreBodyWithEarlyRejections_def requiredScopesFromHooks_def add_scopes_def mergeBeforeHandle_def firstResponse_def
      orderBeforeHandleForReplay_def order_entries_def first_index_def last_index_def pipeline_def responsePipeline_def chain_def)

lemma pay_pre_body: "async (pre_body_walk pay_layers [] []) w
    = Await (on_ctx (\<lambda>c. c\<lparr>cx_authRan := True\<rparr>) w) (\<lambda>w'. Await w' (\<lambda>w''. Settled w'' (Inr None)))"
  by (simp add: pay_layers_def no_hooks_def Let_def async_def bind_comp_def run_guard_def catch_def awaited_def identify_caller_def ret_def)

lemma pay_match: "match_route (pay_app h) (js ''POST'') (js ''/pay'') = Some \<lparr> handler = pay_route h, params = [], encodedSeparator = False \<rparr>"
  by (simp add: match_route_def pay_app_def eval suffix_Cons sublist_Cons_right)

lemma pay_path: "getPathnameFast (ap_pathname (pay_app h)) (rq_url pay_request) = Some (js ''/pay'')"
  by (simp add: getPathnameFast_def pay_request_def)

lemma pay_guards: "boundary_guards (pay_app h) pay_request w = Settled w (Inr ())"
  by (simp add: boundary_guards_def bind_comp_def throw_if_def check_host_def assertTrustProxyConfigured_def pay_app_def pay_request_def
      assertInboundHeaderGuards_def ret_def)

lemma pay_global: "global_onRequest (pay_app h) = ret ()"
  by (simp add: global_onRequest_def globalHooks_def pay_app_def mergeHooks_def Let_def pick_def map_filter_simps no_hooks_def chain_def)

lemma pay_try: "try_part (pay_app h) pay_request False = routed (pay_app h) pay_request \<lparr> handler = pay_route h, params = [], encodedSeparator = False \<rparr>"
proof -
  have "cross_origin (pay_app h) pay_request allows = ret ()" for allows
    by (simp add: cross_origin_def assertCrossOriginAllowed_def pay_request_def hd_get_def)
  moreover have "\<not> internal_hidden False \<lparr> handler = pay_route h, params = [], encodedSeparator = False \<rparr>"
    by (simp add: internal_hidden_def pay_route_def)
  moreover have "rq_method pay_request = js ''POST''" by (simp add: pay_request_def)
  ultimately show ?thesis
    by (intro ext) (simp only: try_part_def bind_comp_def pay_guards pay_global ret_def settle.simps sum.case pay_path option.case pay_match if_False)
qed

lemma pay_fields: "cr_onRequest (pay_route h) = None" "cr_handler (pay_route h) = h" "cr_requiresAuthRun (pay_route h)"
  "cr_acknowledge (pay_route h) = False" "cr_corsDecorate (pay_route h) = None" "cr_state (pay_route h) = 0"
  "qs_params (cr_request (pay_route h)) = None" "qs_query (cr_request (pay_route h)) = None" "qs_headers (cr_request (pay_route h)) = None"
  "qs_body (cr_request (pay_route h)) = None"
  "ap_fingerprint (pay_app h) = StripFingerprint" "ap_finalizer (pay_app h) = free_reservation" "ap_disconnectCode (pay_app h) = 0"
  "ap_redact (pay_app h)" "ap_search (pay_app h) = (\<lambda>_. [])"
  by (simp_all add: pay_route_def pay_app_def)

definition pay_context :: "nat ctx" where
  "pay_context = new_context (js ''id'') 0 [] pay_request (Value (JObj [])) (queryToObject [])"

text \<open>The world in which the handler is called.\<close>

definition called_world :: "(thrown, (nat, nat) hook_world, handler_outcome) comp \<Rightarrow> (nat, nat) request_world" where
  "called_world h = (enter_request (js ''id'') unused_world)\<lparr>wd_shared := 1, wd_route := Some (pay_route h),
     wd_main := Some (pay_context\<lparr>cx_authRan := True, cx_finalizers := [7]\<rparr>), wd_log := [Handled True True]\<rparr>"

lemma pay_up_to_handler:
  "run (try_part (pay_app h) pay_request False (enter_request (js ''id'') unused_world))
    = run (bind_comp (call Main h) (send_outcome (pay_app h) pay_request (pay_route h)) (called_world h))"
  unfolding pay_try routed_def Let_def
  by (simp add: run_bind pay_fields pay_hooks route_gate_def call_def pay_pre_body adopt_id_def seen_by_hook_def
      left_by_hook_def set_context_def context_of_def enter_request_def unused_world_def validateContext_def part_step_def stepBody_def on_ctx_def
      reserve_payment_def run_handler_def require_auth_def perhaps_def with_world_def log_event_def auth_ran_def createPreBodyContext_def
      new_context_def registerRequestFinalizer_def called_world_def pay_context_def ret_def)

lemma run_dispatch:
  assumes "\<not> wd_draining w" and "run (try_part a rq i (enter_request requestId w)) = (w1, Inr res)"
  shows "run (dispatch a rq i requestId w) = (leave a w1, Inr res)"
  using assms by (simp add: dispatch_def try_catch_finally_def run_settle)

lemma run_dispatch_error:
  assumes "\<not> wd_draining w" and "run (try_part a rq i (enter_request requestId w)) = (w1, Inl e)" and "run (catch_part a rq e w1) = (w2, Inr res)"
  shows "run (dispatch a rq i requestId w) = run (unawaited (leave a) (finish_error a res w2))"
  using assms by (simp add: dispatch_def try_catch_finally_def run_settle)

definition receipt :: response where
  "receipt = plain_response 201 [(js ''content-type'', js ''application/json'')] NoBody"

lemma paid_serialized: "serializeResult t (cr_responses (pay_route h)) b (rq_light pay_request) \<lparr> hr_status = 201, hr_body = Value JNull, hr_headers = [] \<rparr>
    = ret receipt"
  by (simp add: serializeResult_def pay_route_def serialize_value_def hd_get_def Let_def wire_body_def lifecycle_headers_def
      hd_set_def to_lower_def lower_unit_def new_response_def receipt_def pay_request_def)

lemma call_on: "wd_main w = Some c \<Longrightarrow> seen_by_hook Main w = (wd_shared w, Some c)
    \<and> left_by_hook Main (s, Some c') w = w\<lparr>wd_main := Some c', wd_shared := s\<rparr>"
  by (simp add: seen_by_hook_def context_of_def left_by_hook_def set_context_def)

lemma same_world: "wd_main w = Some c \<Longrightarrow> w\<lparr>wd_main := Some c, wd_shared := s\<rparr> = w\<lparr>wd_shared := s\<rparr>"
  by simp

lemma pay_finalize:
  assumes "wd_main w = Some c" and "\<not> rs_immutable res"
  shows "\<exists>res'. run (finalize (pay_app g) Main (cr_merged (pay_route h)) res w)
      = (w\<lparr>wd_shared := (if wd_shared w = 1 \<and> rs_status res < 500 then 2 else wd_shared w)\<rparr>, Inr res') \<and> rs_status res' = rs_status res
    \<and> \<not> rs_immutable res'"
  using assms
  by (simp add: finalize_def finalizeResponse_def pay_hooks pay_fields call_def call_on async_def bind_comp_def secure_headers_def store_response_def
      ret_def awaited_def finishFinalize_def finalizeFast_def write_headers_def)

lemma call_paid: "call Main paid w = Settled (left_by_hook Main (seen_by_hook Main w) w) (Inr (Result \<lparr> hr_status = 201, hr_body = Value JNull, hr_headers = [] \<rparr>))"
  by (simp add: call_def paid_def ret_def)

lemma call_conflict: "call Main conflict w = Settled (left_by_hook Main (seen_by_hook Main w) w)
    (Inl (daloy_error 409 (js ''conflict'') (js ''Conflict'') None None))"
  by (simp add: call_def conflict_def throw_def)

lemma called_main: "wd_main (called_world h) = Some (pay_context\<lparr>cx_authRan := True, cx_finalizers := [7]\<rparr>)" "wd_shared (called_world h) = 1"
  "wd_preflight (called_world h) = None" "wd_bootstrap (called_world h) = None" "wd_route (called_world h) = Some (pay_route h)"
  "wd_onRequestRan (called_world h) = False" "wd_log (called_world h) = [Handled True True]" "cx_headers pay_context = []"
  by (simp_all add: called_world_def enter_request_def unused_world_def pay_context_def new_context_def)

lemma called_same: "left_by_hook Main (seen_by_hook Main (called_world h)) (called_world h) = called_world h"
  by (simp add: call_on called_main)

lemma serialized_in_slot: "call Main (ret res) (called_world h) = Settled (called_world h) (Inr res)"
  by (simp add: call_def ret_def called_same)

lemma no_context_headers: "wd_main w = Some c \<Longrightarrow> cx_headers c = [] \<Longrightarrow> copy_from Main res w = Settled w (Inr res)"
  by (simp add: copy_from_def with_world_def context_of_def copyContextHeaders_def ret_def)

lemma pay_head: "head_only pay_request res = ret res"
  by (simp add: head_only_def pay_request_def)

definition with_id :: "jstr \<Rightarrow> response \<Rightarrow> response" where
  "with_id i res = (if hd_get (js ''x-request-id'') (rs_headers res) \<noteq> None then res
     else res\<lparr>rs_headers := hd_set (js ''x-request-id'') i (rs_headers res)\<rparr>)"

lemma stamp_with_id: "\<not> rs_immutable res \<Longrightarrow> stamp_id i res = ret (with_id i res)"
  by (simp add: stamp_id_def with_id_def write_headers_def del: js_simps)

lemma paid_sent:
  "\<exists>res. run (bind_comp (call Main paid) (send_outcome (pay_app paid) pay_request (pay_route paid)) (called_world paid))
      = ((called_world paid)\<lparr>wd_shared := 2\<rparr>, Inr res) \<and> rs_status res = 201"
proof -
  let ?res = "receipt\<lparr>rs_headers := hd_set (js ''x-request-id'') (wd_requestId (called_world paid)) (rs_headers receipt)\<rparr>"
  have "\<not> rs_immutable ?res" "rs_status ?res = 201" by (simp_all add: receipt_def plain_response_def)
  with pay_finalize [OF called_main(1), of ?res paid paid paid] obtain res' where
    f: "run (finalize (pay_app paid) Main (cr_merged (pay_route paid)) ?res (called_world paid)) = ((called_world paid)\<lparr>wd_shared := 2\<rparr>, Inr res')"
    "rs_status res' = 201" by (auto simp: called_main)
  have w: "write_headers g receipt = ret (receipt\<lparr>rs_headers := g (rs_headers receipt)\<rparr>)" for g
    by (simp add: write_headers_def receipt_def plain_response_def)
  have "bind_comp (call Main paid) (send_outcome (pay_app paid) pay_request (pay_route paid)) (called_world paid)
      = bind_comp (finalize (pay_app paid) Main (cr_merged (pay_route paid)) ?res) (head_only pay_request) (called_world paid)"
    unfolding bind_comp_def [of "call Main paid"] call_paid called_same settle.simps sum.case send_outcome_def handler_outcome.case paid_serialized
      bind_comp_def [of "call Main (ret receipt)"] serialized_in_slot
      bind_comp_def [of "copy_from Main receipt"]
    by (simp add: no_context_headers [OF called_main(1)] called_main with_world_def w bind_comp_def ret_def del: js_simps)
  with f show ?thesis by (simp add: run_bind pay_head del: js_simps)
qed

lemma conflict_caught:
  "\<exists>res. run (catch_part (pay_app conflict) pay_request (daloy_error 409 (js ''conflict'') (js ''Conflict'') None None) (called_world conflict))
      = (called_world conflict, Inr res) \<and> rs_status res = 409 \<and> \<not> rs_immutable res"
proof -
  let ?e = "daloy_error 409 (js ''conflict'') (js ''Conflict'') None None"
  have hooks: "l_onError (active_hooks (pay_app conflict) (called_world conflict)) = None"
    by (simp add: active_hooks_def called_main pay_hooks)
  obtain res0 where r: "(toResponse True i (as_http_error ?e) :: (nat, nat, response) request_step) = ret (res0 i)"
    "rs_status (res0 i) = 409" "\<not> rs_immutable (res0 i)" for i
    by (intro that [of "\<lambda>i. plain_response 409 problem_type (BodyBytes (json_bytes (JObj (problem_document True i (as_http_error ?e)))))"])
      (simp_all add: toResponse_def as_http_error_def daloy_error_def new_error_def new_response_def plain_response_def)
  let ?i = "wd_requestId (called_world conflict)"
  have res: "rs_status (with_id ?i (res0 ?i)) = 409" "\<not> rs_immutable (with_id ?i (res0 ?i))" using r by (simp_all add: with_id_def del: js_simps)
  have "catch_part (pay_app conflict) pay_request ?e (called_world conflict) = Settled (called_world conflict) (Inr (with_id ?i (res0 ?i)))"
    by (simp add: catch_part_def bind_comp_def modify_def called_main with_world_def hooks ret_def error_response_def is_http_def
        daloy_error_def pay_fields)
      (simp add: r [unfolded daloy_error_def, simplified] ret_def error_headers_def with_world_def called_main
        no_context_headers [OF called_main(1)] stamped_def stamp_with_id r)
  with res show ?thesis by simp
qed

lemma leave_called: "wd_main (leave (pay_app g) (called_world h)) = Some (pay_context\<lparr>cx_authRan := True, cx_finalizers := []\<rparr>)"
  "wd_shared (leave (pay_app g) (called_world h)) = 0"
  by (simp_all add: leave_def run_finalizers_def seen_by_hook_def context_of_def called_main left_by_hook_def set_context_def
      runRequestFinalizers_def pay_fields free_reservation_def)

lemma leave_sent: "wd_shared (leave (pay_app g) ((called_world h)\<lparr>wd_shared := 2\<rparr>)) = 2"
  by (simp add: leave_def run_finalizers_def seen_by_hook_def context_of_def called_main left_by_hook_def set_context_def
      runRequestFinalizers_def pay_fields free_reservation_def)

lemma called_again: "(called_world h)\<lparr>wd_main := Some (pay_context\<lparr>cx_authRan := True, cx_finalizers := [7]\<rparr>), wd_shared := Suc 0\<rparr> = called_world h"
  by (simp add: called_world_def)

lemma conflict_sent:
  assumes "\<not> rs_immutable res"
  shows "\<exists>w res'. run (unawaited (leave (pay_app conflict)) (finish_error (pay_app conflict) res (called_world conflict))) = (w, Inr res')
    \<and> wd_shared w = 0 \<and> rs_status res' = rs_status res"
proof -
  have f: "finish_error (pay_app conflict) res (called_world conflict)
      = finalize (pay_app conflict) Main (cr_merged (pay_route conflict)) res (called_world conflict)"
    by (simp add: finish_error_def with_world_def error_slot_def active_hooks_def called_main)
  show ?thesis
    unfolding f using assms
    by (simp add: finalize_def finalizeResponse_def pay_hooks pay_fields call_def call_on called_main async_def bind_comp_def secure_headers_def
        store_response_def ret_def awaited_def finishFinalize_def finalizeFast_def write_headers_def unawaited_def called_again call_on [OF leave_called(1)] leave_called)
qed


lemma reaches_end: "reaches others (m w) (fst (run (m w))) (snd (run (m w)))"
  by (rule reaches_run) (simp add: others_def)

lemma handler_needs_auth_witness:
  "Handled True False \<notin> set (wd_log (fst (run (dispatch (pay_app paid) pay_request False (js ''id'') unused_world))))"
proof -
  have "ap_production (pay_app paid)" "ap_secureDefaults (pay_app paid)" by (simp_all add: pay_app_def)
  moreover have "\<not> wd_draining unused_world" by (simp add: unused_world_def)
  ultimately show ?thesis
    using handler_needs_auth [OF _ _ _ reaches_end [of "dispatch (pay_app paid) pay_request False (js ''id'')" unused_world]] by blast
qed


lemma no_fingerprint_witness:
  "\<exists>res. snd (run (dispatch (pay_app conflict) pay_request False (js ''id'') unused_world)) = Inr res \<and> rs_status res = 409
     \<and> hd_get (js ''server'') (rs_headers res) = None \<and> hd_get (js ''x-powered-by'') (rs_headers res) = None"
proof -
  let ?p = "dispatch (pay_app conflict) pay_request False (js ''id'') unused_world"
  have w: "\<not> wd_draining unused_world" by (simp add: unused_world_def)
  let ?e = "daloy_error 409 (js ''conflict'') (js ''Conflict'') None None"
  have t: "run (try_part (pay_app conflict) pay_request False (enter_request (js ''id'') unused_world)) = (called_world conflict, Inl ?e)"
    unfolding pay_up_to_handler by (simp add: bind_comp_def call_conflict called_same del: js_simps)
  obtain b where b: "run (catch_part (pay_app conflict) pay_request ?e (called_world conflict)) = (called_world conflict, Inr b)"
    "rs_status b = 409" "\<not> rs_immutable b" using conflict_caught by blast
  obtain w' res where r: "run ?p = (w', Inr res)" "rs_status res = 409"
    using run_dispatch_error [OF w t b(1)] conflict_sent [OF b(3)] b(2) by metis
  with reaches_end [of "dispatch (pay_app conflict) pay_request False (js ''id'')" unused_world]
  have "reaches others ?p w' (Inr res)" by simp
  from no_fingerprint [OF w this] r show ?thesis by (simp add: pay_fields del: js_simps)
qed

text \<open>The same application with an internal route, and with an empty router.\<close>

definition hidden_app :: "(nat, nat) app" where
  "hidden_app = (pay_app paid)\<lparr>ap_router := snd (add_route new_router (js ''POST'') (js ''/pay'') ((pay_route paid)\<lparr>cr_internal := True\<rparr>) None)\<rparr>"

lemma hidden_like_unknown_witness:
  "dispatch hidden_app pay_request False (js ''id'') = dispatch (hidden_app\<lparr>ap_router := new_router\<rparr>) pay_request False (js ''id'')"
proof (rule hidden_like_unknown)
  let ?m = "\<lparr> handler = (pay_route paid)\<lparr>cr_internal := True\<rparr>, params = [], encodedSeparator = False \<rparr>"
  show "getPathnameFast (ap_pathname hidden_app) (rq_url pay_request) = Some (js ''/pay'')"
    by (simp add: getPathnameFast_def pay_request_def)
  show "match_route hidden_app (rq_method pay_request) (js ''/pay'') = Some ?m"
    by (simp add: match_route_def hidden_app_def pay_request_def eval suffix_Cons sublist_Cons_right)
  show "internal_hidden False ?m" by (simp add: internal_hidden_def)
  show "match_route (hidden_app\<lparr>ap_router := new_router\<rparr>) (rq_method pay_request) (js ''/pay'') = None"
    by (simp add: match_route_def pay_request_def eval suffix_Cons sublist_Cons_right)
  show "allowed_methods (hidden_app\<lparr>ap_router := new_router\<rparr>) False (js ''/pay'') = []"
    by (simp add: allowed_methods_def eval suffix_Cons sublist_Cons_right)
qed (simp_all add: globalHooks_def coldPathHooks_def hidden_app_def pay_app_def mergeHooks_def Let_def pick_def map_filter_simps no_hooks_def
    firstResponse_def mergePreBodyWithEarlyRejections_def mergeBeforeHandle_def requiredScopesFromHooks_def add_scopes_def
    orderBeforeHandleForReplay_def order_entries_def first_index_def)

lemma production_hides_errors_example:
  "catch_part (pay_app paid) pay_request (JsError (js ''secret'')) (called_world paid) = catch_part (pay_app paid) pay_request (JsError []) (called_world paid)
   \<and> map_of (problem_document True [] (HttpError 503 [(js ''detail'', JNull)] None)) (js ''detail'') = None"
proof -
  have "ap_redact (pay_app paid)" "l_onError (active_hooks (pay_app paid) (called_world paid)) = None"
    by (simp_all add: pay_fields active_hooks_def called_main pay_hooks)
  from production_hides_errors [OF this, of pay_request "js ''secret''" "[]" "[]" "HttpError 503 [(js ''detail'', JNull)] None"]
  show ?thesis by (simp add: pay_fields del: js_simps)
qed

text \<open>
  A path with an encoded separator is refused for the method of the route (\<open>internal_hidden\<close>), but it counts for
  the methods of the path, so another method is answered 405 and told which method there is.
\<close>

definition files_router :: "nat router" where
  "files_router = snd (add_route new_router (js ''GET'') (js ''/f/:n'') 1 None)"

lemma encoded_path_probed:
  "map_option encodedSeparator (find_route files_router (js ''GET'') (js ''/f/a%2Fb'')) = Some True"
  "find_route files_router (js ''POST'') (js ''/f/a%2Fb'') = None"
  "fst (allowedMethods files_router (js ''/f/a%2Fb'')) = [js ''GET'']"
  by code_simp+

lemma probed_with_405:
  assumes "match_route a (rq_method rq) path = None" and "allowed_methods a False path = [m]" and "rq_method rq \<noteq> js ''OPTIONS''"
    and "l_onError (globalHooks a) = None" and "l_preBody (coldPathHooks a) = None" and "l_beforeHandle (coldPathHooks a) = None"
  shows "no_route a rq False path = throw (MethodNotAllowedError [m])"
  using assms by (simp add: no_route_def Let_def perhaps_def cold_gate_def)

end
