(* ===== verification/FetchGuard.thy ===== *)
theory FetchGuard
  imports RequestBody IpMatch
begin

text \<open>
  \<open>fetch-guard.ts\<close>: the guard around outbound calls.  The address policy with its hard floor, the
  checks of one destination, the redirect loop with re-validation at every hop, the headers and the
  body a hop carries, the pinned connection and the cap on the response.

  A parsed URL is a record; the parser, the resolver, the serializer of bodies and what the network
  answers are parameters.  The resolver is asked at every hop and may answer differently each time.
  Signals and the deadline are not modelled.
\<close>

unbundle bit_operations_syntax

section \<open>Policy\<close>

datatype ssrf_reason = ProtocolNotAllowed | HostNotAllowed | DnsResolutionFailed | AddressNotAllowed | TooManyRedirects
  | CredentialsInUrl | InvalidUrl | BodyNotReplayable | PortNotAllowed | ResponseTooLarge | ProtocolDowngrade

datatype guard_refusal = SsrfBlocked jstr ssrf_reason "jstr option" | RedirectRefused | NetworkFailure

record guard_options =
  go_protocols :: "jstr list"
  go_allowAddresses :: "jstr list"
  go_denyAddresses :: "jstr list"
  go_allowHosts :: "jstr list"
  go_allowPorts :: "nat list option"
  go_maxResponse :: "nat option"
  go_sensitive :: "jstr list"
  go_loopback :: bool
  go_private :: bool
  go_linkLocal :: bool
  go_uniqueLocal :: bool
  go_maxRedirects :: int
  go_downgrade :: bool
  go_maxReplay :: nat
  go_pinDns :: bool

definition always_deny :: "jstr list" where
  "always_deny = [js ''0.0.0.0/8'', js ''100.64.0.0/10'', js ''169.254.169.254/32'', js ''169.254.170.2/32'',
     js ''169.254.170.23/32'', js ''192.0.0.0/24'', js ''192.0.2.0/24'', js ''198.18.0.0/15'', js ''198.51.100.0/24'',
     js ''203.0.113.0/24'', js ''224.0.0.0/4'', js ''240.0.0.0/4'', js ''::/128'', js ''ff00::/8'', js ''fd00:ec2::254/128'']"

definition bad_ports :: "nat list" where
  "bad_ports = [0, 1, 7, 9, 11, 13, 15, 17, 19, 20, 21, 22, 23, 25, 37, 42, 43, 53, 69, 77, 79, 87, 95, 101,
     102, 103, 104, 109, 110, 111, 113, 115, 117, 119, 123, 135, 137, 139, 143, 161, 179, 389, 427,
     465, 512, 513, 514, 515, 526, 530, 531, 532, 540, 548, 554, 556, 563, 587, 601, 636, 989, 990,
     993, 995, 1719, 1720, 1723, 2049, 3659, 4045, 4190, 5060, 5061, 6000, 6566, 6665, 6666, 6667,
     6668, 6669, 6679, 6697, 10080]"

definition loopback_ranges :: "jstr list" where
  "loopback_ranges = [js ''127.0.0.0/8'', js ''::1/128'']"

definition link_local_ranges :: "jstr list" where
  "link_local_ranges = [js ''169.254.0.0/16'', js ''fe80::/10'']"

definition private_ranges :: "jstr list" where
  "private_ranges = [js ''10.0.0.0/8'', js ''172.16.0.0/12'', js ''192.168.0.0/16'']"

definition unique_local_ranges :: "jstr list" where
  "unique_local_ranges = [js ''fc00::/7'']"

definition local_nat64 :: "jstr list" where
  "local_nat64 = [js ''64:ff9b:1::/48'']"

text \<open>The address policy: what no option lifts, what \<open>allowAddresses\<close> lifts, and the lifted ranges.\<close>

record address_policy =
  ad_hard :: "ip_matcher list"
  ad_soft :: "ip_matcher list"
  ad_allow :: "ip_matcher list"

definition soft_ranges :: "guard_options \<Rightarrow> jstr list" where
  "soft_ranges o' = (if go_loopback o' then [] else loopback_ranges) @ (if go_private o' then [] else private_ranges)
     @ (if go_linkLocal o' then [] else link_local_ranges) @ (if go_uniqueLocal o' then [] else unique_local_ranges)
     @ local_nat64"

definition compile_policy :: "guard_options \<Rightarrow> cidr_error + address_policy" where
  "compile_policy o' =
     (case compile_all (always_deny @ go_denyAddresses o') of Inl e \<Rightarrow> Inl e | Inr hard \<Rightarrow>
     (case compile_all (soft_ranges o') of Inl e \<Rightarrow> Inl e | Inr soft \<Rightarrow>
     (case compile_all (go_allowAddresses o') of Inl e \<Rightarrow> Inl e | Inr al \<Rightarrow>
       Inr \<lparr> ad_hard = hard, ad_soft = soft, ad_allow = al \<rparr>)))"

section \<open>Embedded addresses\<close>

definition v4_at :: "8 word list \<Rightarrow> nat \<Rightarrow> 8 word \<Rightarrow> parsed_ip" where
  "v4_at b i x = \<lparr> ip_bytes = map (\<lambda>y. y XOR x) (take 4 (drop i b)), ip_family = V4 \<rparr>"

definition zero_bytes :: "8 word list \<Rightarrow> nat \<Rightarrow> nat \<Rightarrow> bool" where
  "zero_bytes b i j = list_all (\<lambda>x. x = 0) (take (j - i) (drop i b))"

definition group_at :: "8 word list \<Rightarrow> nat \<Rightarrow> nat" where
  "group_at b i = unat (b ! i) * 256 + unat (b ! Suc i)"

definition embeddedIPv4s :: "parsed_ip \<Rightarrow> parsed_ip list option" where
  "embeddedIPv4s ip =
     (if ip_family ip \<noteq> V6 then None
      else (let b = ip_bytes ip; g0 = group_at b 0; g1 = group_at b 2 in
        if g0 = 0 \<and> g1 = 0 \<and> zero_bytes b 4 8 then
          (let g4 = group_at b 8; g5 = group_at b 10 in
            if (g4 = 0 \<and> g5 = 65535) \<or> (g4 = 65535 \<and> g5 = 0) then Some [v4_at b 12 0]
            else if g4 = 0 \<and> g5 = 0 then
              (if b ! 12 = 0 \<and> b ! 13 = 0 \<and> b ! 14 = 0 \<and> unat (b ! 15) \<le> 1 then None else Some [v4_at b 12 0])
            else None)
        else if g0 = 100 \<and> g1 = 65435 \<and> zero_bytes b 4 12 then Some [v4_at b 12 0]
        else if g0 = 100 \<and> g1 = 65435 \<and> b ! 4 = 0 \<and> b ! 5 = 1 then Some [v4_at b 12 0]
        else if g0 = 8194 then Some [v4_at b 2 0]
        else if g0 = 8193 \<and> g1 = 0 then Some [v4_at b 4 0, v4_at b 12 255]
        else None))"

definition isSingleAddressAllowed :: "address_policy \<Rightarrow> parsed_ip \<Rightarrow> bool" where
  "isSingleAddressAllowed p ip =
     (if list_ex (matchesMatcher ip) (ad_hard p) then False
      else if list_ex (matchesMatcher ip) (ad_allow p) then True
      else \<not> list_ex (matchesMatcher ip) (ad_soft p))"

definition isAddressAllowed :: "address_policy \<Rightarrow> parsed_ip \<Rightarrow> bool" where
  "isAddressAllowed p ip =
     (if \<not> isSingleAddressAllowed p ip then False
      else (case embeddedIPv4s ip of None \<Rightarrow> True | Some es \<Rightarrow> list_all (isSingleAddressAllowed p) es))"

section \<open>Destinations\<close>

record url =
  ur_text :: jstr
  ur_protocol :: jstr
  ur_userinfo :: bool
  ur_bare :: jstr
  ur_hostname :: jstr
  ur_port :: jstr
  ur_host :: jstr
  ur_path :: jstr
  ur_origin :: jstr

text \<open>The host name without the brackets of an IPv6 literal, and the port.\<close>

definition bare_hostname :: "url \<Rightarrow> jstr" where
  "bare_hostname u = (let raw = ur_hostname u in
     if raw \<noteq> [] \<and> hd raw = 91 \<and> last raw = 93 then butlast (tl raw) else raw)"

definition effective_port :: "url \<Rightarrow> nat" where
  "effective_port u = (if ur_port u \<noteq> [] then dec_val (ur_port u)
     else if to_lower (ur_protocol u) = js ''https:'' then 443 else 80)"

definition host_trusted :: "guard_options \<Rightarrow> url \<Rightarrow> bool" where
  "host_trusted o' u = (let hosts = map to_lower (go_allowHosts o'); rawLower = to_lower (ur_hostname u) in
     rawLower \<in> set hosts \<or> to_lower (bare_hostname u) \<in> set hosts
     \<or> rawLower @ 58 # dec_str (effective_port u) \<in> set hosts)"

text \<open>The first address the policy refuses, or that is none.\<close>

fun refused_address :: "address_policy \<Rightarrow> jstr list \<Rightarrow> (ssrf_reason \<times> jstr) option" where
  "refused_address p [] = None"
| "refused_address p (a # as) = (case parseIp a of
       None \<Rightarrow> Some (DnsResolutionFailed, a)
     | Some ip \<Rightarrow> if isAddressAllowed p ip then refused_address p as else Some (AddressNotAllowed, a))"

text \<open>\<open>resolve\<close> answers None when the lookup fails.  The result is the address to pin, if any.\<close>

definition validateUrl :: "guard_options \<Rightarrow> address_policy \<Rightarrow> (jstr \<Rightarrow> jstr list option) \<Rightarrow> url \<Rightarrow> guard_refusal + jstr option" where
  "validateUrl o' p resolve u =
     (let blocked = (\<lambda>r a. Inl (SsrfBlocked (ur_text u) r a)); host = bare_hostname u; port = effective_port u in
      if to_lower (ur_protocol u) \<notin> set (map to_lower (go_protocols o')) then blocked ProtocolNotAllowed None
      else if ur_hostname u = [] then blocked InvalidUrl None
      else if port \<in> set bad_ports \<or> (case go_allowPorts o' of None \<Rightarrow> False | Some ps \<Rightarrow> port \<notin> set ps)
      then blocked PortNotAllowed None
      else if host_trusted o' u then Inr None
      else (case parseIp host of
          Some ip \<Rightarrow> if isAddressAllowed p ip then Inr None else blocked AddressNotAllowed (Some host)
        | None \<Rightarrow> (case resolve host of
              None \<Rightarrow> blocked DnsResolutionFailed (Some host)
            | Some [] \<Rightarrow> blocked DnsResolutionFailed (Some host)
            | Some (a # as) \<Rightarrow> (case refused_address p (a # as) of
                  Some (r, x) \<Rightarrow> blocked r (Some x)
                | None \<Rightarrow> Inr (Some a)))))"

section \<open>Requests and connections\<close>

text \<open>A body is absent, buffered for replay, or a stream that can be sent once.\<close>

datatype send_body = NoSendBody | Replayable "nat list" | Streamed "nat list"

record outgoing =
  og_url :: url
  og_method :: jstr
  og_headers :: headers
  og_body :: send_body

record hop_sent =
  sn_request :: outgoing
  sn_address :: "jstr option"
  sn_port :: nat
  sn_servername :: "jstr option"
  sn_path :: jstr
  sn_headers :: headers

definition baseFetch :: "outgoing \<Rightarrow> hop_sent" where
  "baseFetch rq = \<lparr> sn_request = rq, sn_address = None, sn_port = effective_port (og_url rq), sn_servername = None,
     sn_path = ur_path (og_url rq), sn_headers = og_headers rq \<rparr>"

definition pinned_headers :: "outgoing \<Rightarrow> headers" where
  "pinned_headers rq =
     (let h = hd_set (js ''accept-encoding'') (js ''identity'') (hd_set (js ''host'') (ur_host (og_url rq)) (og_headers rq)) in
      case og_body rq of Replayable b \<Rightarrow> hd_set (js ''content-length'') (dec_str (length b)) h | _ \<Rightarrow> h)"

definition pinnedHttpFetch :: "outgoing \<Rightarrow> jstr \<Rightarrow> hop_sent" where
  "pinnedHttpFetch rq ip =
     (let u = og_url rq; secure = (ur_protocol u = js ''https:'') in
      \<lparr> sn_request = rq, sn_address = Some ip,
        sn_port = (if ur_port u \<noteq> [] then dec_val (ur_port u) else if secure then 443 else 80),
        sn_servername = (if secure then Some (ur_hostname u) else None), sn_path = ur_path u, sn_headers = pinned_headers rq \<rparr>)"

definition connect :: "guard_options \<Rightarrow> outgoing \<Rightarrow> jstr option \<Rightarrow> hop_sent" where
  "connect o' rq pin = (case pin of
       Some ip \<Rightarrow> if go_pinDns o' \<and> ur_protocol (og_url rq) \<in> {js ''http:'', js ''https:''} then pinnedHttpFetch rq ip else baseFetch rq
     | None \<Rightarrow> baseFetch rq)"

section \<open>Responses\<close>

text \<open>A response body is a list of chunks; a delivered one may end in an error.\<close>

record hop_answer =
  an_status :: nat
  an_headers :: headers
  an_chunks :: "nat list list option"

datatype delivered = Delivered nat headers "nat list list option" bool

fun count_chunks :: "nat \<Rightarrow> nat \<Rightarrow> nat list list \<Rightarrow> nat list list \<times> bool" where
  "count_chunks max' got [] = ([], False)"
| "count_chunks max' got (c # cs) =
     (if max' < got + length c then ([], True)
      else (case count_chunks max' (got + length c) cs of (out, failed) \<Rightarrow> (c # out, failed)))"

definition capResponse :: "nat option \<Rightarrow> url \<Rightarrow> hop_answer \<Rightarrow> guard_refusal + delivered" where
  "capResponse max' u res =
     (case (max', an_chunks res) of
        (Some m, Some cs) \<Rightarrow>
          (let declared = js_Number (case hd_get (js ''content-length'') (an_headers res) of None \<Rightarrow> [] | Some s \<Rightarrow> s) in
           if finite_number declared \<and> exceeds declared m then Inl (SsrfBlocked (ur_text u) ResponseTooLarge None)
           else (case count_chunks m 0 cs of (out, failed) \<Rightarrow> Inr (Delivered (an_status res) (an_headers res) (Some out) failed)))
      | (_, cs) \<Rightarrow> Inr (Delivered (an_status res) (an_headers res) cs False))"

definition isRedirect :: "nat \<Rightarrow> bool" where
  "isRedirect status \<longleftrightarrow> status \<in> {301, 302, 303, 307, 308}"

section \<open>The redirect loop\<close>

datatype redirect_mode = Follow | Refuse | Manual

record hop_network =
  nw_parse :: "url option \<Rightarrow> jstr \<Rightarrow> url option"
  nw_resolve :: "nat \<Rightarrow> jstr \<Rightarrow> jstr list option"
  nw_answer :: "nat \<Rightarrow> hop_sent \<Rightarrow> hop_answer option"

definition stripBodyHeaders :: "headers \<Rightarrow> headers" where
  "stripBodyHeaders h = fold hd_delete [js ''content-length'', js ''content-type'', js ''content-encoding'',
     js ''content-language'', js ''content-location''] h"

definition credential_headers :: "guard_options \<Rightarrow> jstr list" where
  "credential_headers o' = [js ''authorization'', js ''cookie'', js ''proxy-authorization'', js ''host'']
     @ map to_lower (go_sensitive o')"

definition becomes_get :: "nat \<Rightarrow> jstr \<Rightarrow> bool" where
  "becomes_get status meth \<longleftrightarrow> status = 303
     \<or> ((status = 301 \<or> status = 302) \<and> to_upper meth \<noteq> js ''GET'' \<and> to_upper meth \<noteq> js ''HEAD'')"

definition next_request :: "guard_options \<Rightarrow> nat \<Rightarrow> outgoing \<Rightarrow> url \<Rightarrow> outgoing" where
  "next_request o' status rq u =
     (let h = (if becomes_get status (og_method rq) then stripBodyHeaders (og_headers rq) else og_headers rq) in
      \<lparr> og_url = u,
        og_method = (if becomes_get status (og_method rq) then js ''GET'' else og_method rq),
        og_headers = (if ur_origin u \<noteq> ur_origin (og_url rq) then fold hd_delete (credential_headers o') h else h),
        og_body = (if becomes_get status (og_method rq) then NoSendBody else og_body rq) \<rparr>)"

definition streaming :: "send_body \<Rightarrow> bool" where
  "streaming b \<longleftrightarrow> (case b of Streamed x \<Rightarrow> True | _ \<Rightarrow> False)"

text \<open>What one answer leads to: the end of the call, or the next request and whether it leaves TLS.\<close>

definition follow :: "guard_options \<Rightarrow> hop_network \<Rightarrow> outgoing \<Rightarrow> jstr \<Rightarrow> nat \<Rightarrow> guard_refusal + outgoing \<times> bool" where
  "follow o' nw rq loc status =
     (case nw_parse nw (Some (og_url rq)) loc of
        None \<Rightarrow> Inl (SsrfBlocked loc InvalidUrl None)
      | Some u \<Rightarrow>
          if ur_userinfo u then Inl (SsrfBlocked (ur_bare u) CredentialsInUrl None)
          else if streaming (og_body rq) \<and> \<not> becomes_get status (og_method rq)
          then Inl (SsrfBlocked (ur_text u) BodyNotReplayable None)
          else Inr (next_request o' status rq u, ur_protocol (og_url rq) = js ''https:'' \<and> ur_protocol u = js ''http:''))"

datatype hop_result = Finished "guard_refusal + delivered" | Hop outgoing bool

definition after_answer :: "guard_options \<Rightarrow> hop_network \<Rightarrow> redirect_mode \<Rightarrow> nat \<Rightarrow> outgoing \<Rightarrow> hop_answer \<Rightarrow> hop_result" where
  "after_answer o' nw mode hop rq res =
     (let cap = Finished (capResponse (go_maxResponse o') (og_url rq) res) in
      if \<not> isRedirect (an_status res) then cap
      else if mode = Refuse then Finished (Inl RedirectRefused)
      else if mode = Manual \<or> go_maxRedirects o' = 0 then cap
      else if go_maxRedirects o' \<le> int hop then Finished (Inl (SsrfBlocked (ur_text (og_url rq)) TooManyRedirects None))
      else (case hd_get (js ''location'') (an_headers res) of
          None \<Rightarrow> cap
        | Some loc \<Rightarrow> if loc = [] then cap
            else (case follow o' nw rq loc (an_status res) of
                Inl e \<Rightarrow> Finished (Inl e)
              | Inr (rq', downgrade) \<Rightarrow> Hop rq' downgrade)))"

definition check_hop :: "guard_options \<Rightarrow> address_policy \<Rightarrow> hop_network \<Rightarrow> nat \<Rightarrow> outgoing \<Rightarrow> bool \<Rightarrow> guard_refusal + jstr option" where
  "check_hop o' p nw hop rq downgradeHop =
     (case validateUrl o' p (nw_resolve nw hop) (og_url rq) of
        Inl e \<Rightarrow> Inl e
      | Inr pin \<Rightarrow> if downgradeHop \<and> \<not> go_downgrade o' then Inl (SsrfBlocked (ur_text (og_url rq)) ProtocolDowngrade None)
          else Inr pin)"

lemma hop_within: "after_answer o' nw mode hop rq res = Hop rq' d \<Longrightarrow> int hop < go_maxRedirects o'"
  by (auto simp: after_answer_def Let_def split: if_splits option.splits sum.splits)

function guard_hops :: "guard_options \<Rightarrow> address_policy \<Rightarrow> hop_network \<Rightarrow> redirect_mode \<Rightarrow> nat \<Rightarrow> outgoing \<Rightarrow> bool \<Rightarrow>
    hop_sent list \<times> (guard_refusal + delivered)" where
  "guard_hops o' p nw mode hop rq downgradeHop =
     (case check_hop o' p nw hop rq downgradeHop of
        Inl e \<Rightarrow> ([], Inl e)
      | Inr pin \<Rightarrow>
          (case nw_answer nw hop (connect o' rq pin) of
             None \<Rightarrow> ([connect o' rq pin], Inl NetworkFailure)
           | Some res \<Rightarrow>
               (case after_answer o' nw mode hop rq res of
                  Finished r \<Rightarrow> ([connect o' rq pin], r)
                | Hop rq' d \<Rightarrow>
                    (case guard_hops o' p nw mode (Suc hop) rq' d of (rest, r) \<Rightarrow> (connect o' rq pin # rest, r)))))"
  by pat_completeness auto
termination
  by (relation "measure (\<lambda>(o', p, nw, mode, hop, rq, d). nat (go_maxRedirects o' - int hop))") (auto dest: hop_within)

declare guard_hops.simps [simp del]

section \<open>The body of the call\<close>

datatype init_body = TextInit jstr | BytesInit "nat list" | BlobInit "nat list" | ParamsInit jstr
  | FormInit "(jstr \<times> (jstr + jstr \<times> nat)) list" | StreamInit "nat list"

text \<open>\<open>inMemoryBodySize\<close>; a form field is a string, or a file with its name and size.\<close>

fun form_size :: "(jstr \<times> (jstr + jstr \<times> nat)) list \<Rightarrow> nat" where
  "form_size [] = 0"
| "form_size ((name, Inl v) # fs) = length name * 3 + 0 + 256 + length v * 3 + form_size fs"
| "form_size ((name, Inr (filename, sz)) # fs) = length name * 3 + length filename * 3 + 256 + sz + form_size fs"

definition inMemoryBodySize :: "init_body \<Rightarrow> nat option" where
  "inMemoryBodySize b = (case b of
       TextInit s \<Rightarrow> Some (length s * 3)
     | BytesInit x \<Rightarrow> Some (length x)
     | BlobInit x \<Rightarrow> Some (length x)
     | ParamsInit s \<Rightarrow> Some (length s)
     | FormInit fs \<Rightarrow> Some (form_size fs)
     | StreamInit x \<Rightarrow> None)"

text \<open>\<open>serialize\<close> is the body the platform makes of it.\<close>

definition prepare_body :: "nat \<Rightarrow> (init_body \<Rightarrow> nat list) \<Rightarrow> init_body option \<Rightarrow> send_body" where
  "prepare_body maxReplay serialize b = (case b of
       None \<Rightarrow> NoSendBody
     | Some i \<Rightarrow> (case inMemoryBodySize i of
           None \<Rightarrow> Streamed (serialize i)
         | Some n \<Rightarrow> if n \<le> maxReplay \<and> length (serialize i) \<le> maxReplay then Replayable (serialize i) else Streamed (serialize i)))"

text \<open>The guarded fetch of a URL text; \<open>h\<close> are the headers of the request made of it.\<close>

definition fetchGuard :: "guard_options \<Rightarrow> address_policy \<Rightarrow> hop_network \<Rightarrow> (init_body \<Rightarrow> nat list) \<Rightarrow> redirect_mode \<Rightarrow>
    jstr \<Rightarrow> jstr \<Rightarrow> headers \<Rightarrow> init_body option \<Rightarrow> hop_sent list \<times> (guard_refusal + delivered)" where
  "fetchGuard o' p nw serialize mode input meth h b =
     (case nw_parse nw None input of
        None \<Rightarrow> ([], Inl (SsrfBlocked (js ''[invalid URL]'') InvalidUrl None))
      | Some u \<Rightarrow> if ur_userinfo u then ([], Inl (SsrfBlocked (ur_bare u) CredentialsInUrl None))
          else guard_hops o' p nw mode 0 \<lparr> og_url = u, og_method = meth, og_headers = h,
            og_body = prepare_body (go_maxReplay o') serialize b \<rparr> False)"

section \<open>The floor\<close>

text \<open>The ranges no option lifts, as the numbers the comments of the source give.\<close>

definition floor_v4 :: "8 word list \<Rightarrow> bool" where
  "floor_v4 d \<longleftrightarrow> (let a = unat (d ! 0); b = unat (d ! 1); c = unat (d ! 2); e = unat (d ! 3) in
     a = 0 \<or> (a = 100 \<and> 64 \<le> b \<and> b \<le> 127) \<or> (a = 169 \<and> b = 254 \<and> c = 169 \<and> e = 254)
     \<or> (a = 169 \<and> b = 254 \<and> c = 170 \<and> (e = 2 \<or> e = 23)) \<or> (a = 192 \<and> b = 0 \<and> (c = 0 \<or> c = 2))
     \<or> (a = 198 \<and> (b = 18 \<or> b = 19)) \<or> (a = 198 \<and> b = 51 \<and> c = 100) \<or> (a = 203 \<and> b = 0 \<and> c = 113) \<or> 224 \<le> a)"

text \<open>Loopback, private and link-local addresses, denied unless an option says otherwise.\<close>

definition internal_v4 :: "8 word list \<Rightarrow> bool" where
  "internal_v4 d \<longleftrightarrow> (let a = unat (d ! 0); b = unat (d ! 1) in
     a = 127 \<or> a = 10 \<or> (a = 172 \<and> 16 \<le> b \<and> b \<le> 31) \<or> (a = 192 \<and> b = 168) \<or> (a = 169 \<and> b = 254))"

definition v4_matcher :: "nat \<Rightarrow> 8 word list \<Rightarrow> ip_matcher" where
  "v4_matcher n b = \<lparr> m_family = V4, m_prefix = n, m_bytes = b \<rparr>"

definition v6_matcher :: "nat \<Rightarrow> 8 word list \<Rightarrow> ip_matcher" where
  "v6_matcher n b = \<lparr> m_family = V6, m_prefix = n, m_bytes = b \<rparr>"

lemma masked_drop: "(x XOR y) AND push_bit k (- 1) = 0 \<longleftrightarrow> drop_bit k x = drop_bit k (y :: 8 word)"
proof
  assume "(x XOR y) AND push_bit k (- 1) = 0"
  then have z: "\<not> bit ((x XOR y) AND push_bit k (- 1)) n" for n by simp
  have "bit x (k + n) = bit y (k + n)" for n
    using z [of "k + n"] bit_imp_le_length [of x "k + n"] bit_imp_le_length [of y "k + n"]
    by (auto simp: bit_simps)
  then show "drop_bit k x = drop_bit k y"
    by (intro bit_word_eqI) (simp add: bit_simps)
next
  assume e: "drop_bit k x = drop_bit k y"
  have "bit x n = bit y n" if "k \<le> n" for n
    using arg_cong [OF e, of "\<lambda>w. bit w (n - k)"] that by (simp add: bit_simps)
  then show "(x XOR y) AND push_bit k (- 1) = 0"
    by (intro bit_word_eqI) (auto simp: bit_simps)
qed

lemma masked_bytes:
  "(x XOR y) AND high_mask r = 0 \<longleftrightarrow> unat x div 2 ^ (8 - r) = unat y div 2 ^ (8 - r)"
proof -
  have u: "unat (drop_bit n w) = unat w div 2 ^ n" for n and w :: "8 word"
    by (subst unat_drop_bit_eq) (rule drop_bit_eq_div)
  have m: "(255 :: 8 word) = - 1" by simp
  have "(x XOR y) AND high_mask r = 0 \<longleftrightarrow> drop_bit (8 - r) x = drop_bit (8 - r) y"
    unfolding high_mask_def m by (rule masked_drop)
  also have "\<dots> \<longleftrightarrow> unat (drop_bit (8 - r) x) = unat (drop_bit (8 - r) y)" by (rule word_unat_eq_iff)
  finally show ?thesis unfolding u .
qed

definition floor_matchers :: "ip_matcher list" where
  "floor_matchers = [v4_matcher 8 [0, 0, 0, 0], v4_matcher 10 [100, 64, 0, 0],
     v4_matcher 32 [169, 254, 169, 254], v4_matcher 32 [169, 254, 170, 2], v4_matcher 32 [169, 254, 170, 23],
     v4_matcher 24 [192, 0, 0, 0], v4_matcher 24 [192, 0, 2, 0], v4_matcher 15 [198, 18, 0, 0],
     v4_matcher 24 [198, 51, 100, 0], v4_matcher 24 [203, 0, 113, 0], v4_matcher 4 [224, 0, 0, 0],
     v4_matcher 4 [240, 0, 0, 0], v6_matcher 128 [0, 0, 0, 0, 0, 0, 0, 0, 0, 0, 0, 0, 0, 0, 0, 0],
     v6_matcher 8 [255, 0, 0, 0, 0, 0, 0, 0, 0, 0, 0, 0, 0, 0, 0, 0],
     v6_matcher 128 [253, 0, 14, 194, 0, 0, 0, 0, 0, 0, 0, 0, 0, 0, 2, 84]]"

definition internal_matchers :: "ip_matcher list" where
  "internal_matchers = [v4_matcher 8 [127, 0, 0, 0], v6_matcher 128 [0, 0, 0, 0, 0, 0, 0, 0, 0, 0, 0, 0, 0, 0, 0, 1],
     v4_matcher 8 [10, 0, 0, 0], v4_matcher 12 [172, 16, 0, 0], v4_matcher 16 [192, 168, 0, 0],
     v4_matcher 16 [169, 254, 0, 0], v6_matcher 10 [254, 128, 0, 0, 0, 0, 0, 0, 0, 0, 0, 0, 0, 0, 0, 0]]"

lemma hard_floor_compiled: "compile_all always_deny = Inr floor_matchers"
  unfolding always_deny_def floor_matchers_def v4_matcher_def v6_matcher_def by (simp add: eval)

lemma internal_compiled: "compile_all (loopback_ranges @ private_ranges @ link_local_ranges) = Inr internal_matchers"
  unfolding loopback_ranges_def private_ranges_def link_local_ranges_def internal_matchers_def v4_matcher_def v6_matcher_def
  by (simp add: eval)

lemma v4_matches:
  assumes "length d = 4"
  shows "matchesMatcher \<lparr> ip_bytes = d, ip_family = V4 \<rparr> (v4_matcher n b) \<longleftrightarrow>
    (\<forall>i \<in> set [0..<min n 32 div 8]. d ! i = b ! i) \<and>
      (min n 32 mod 8 = 0 \<or> unat (d ! (min n 32 div 8)) div 2 ^ (8 - min n 32 mod 8) = unat (b ! (min n 32 div 8)) div 2 ^ (8 - min n 32 mod 8))"
proof -
  define q where "q = min n 32 mod 8"
  have r: "min n 32 - min n 32 div 8 * 8 = q" by (simp add: modulo_nat_def q_def)
  from assms show ?thesis unfolding q_def [symmetric]
    by (simp only: matchesMatcher_def normalizeFamily_def v4_matcher_def Let_def masked_bytes ip_matcher.simps
        parsed_ip.simps if_True option.case r list_all_iff) (simp add: list_all_iff r del: One_nat_def)
qed

lemma v6_no_match: "\<not> matchesMatcher \<lparr> ip_bytes = d, ip_family = V4 \<rparr> (v6_matcher n b)"
  by (simp add: matchesMatcher_def normalizeFamily_def v6_matcher_def)

lemma byte_is: "x = (numeral k :: 8 word) \<longleftrightarrow> unat x = unat (numeral k :: 8 word)" "x = (0 :: 8 word) \<longleftrightarrow> unat x = 0"
  "x = (1 :: 8 word) \<longleftrightarrow> unat x = 1"
  by (simp_all add: word_unat_eq_iff)

lemma floor_denied:
  assumes d: "length d = 4" and f: "floor_v4 d"
  shows "list_ex (matchesMatcher \<lparr> ip_bytes = d, ip_family = V4 \<rparr>) floor_matchers"
proof -
  obtain a b c e where d': "d = [a, b, c, e]" using d by (auto simp: numeral_eq_Suc length_Suc_conv)
  have lt: "unat a < 256" "unat b < 256" by (rule byte_lt)+
  have mid: "64 \<le> unat b \<Longrightarrow> unat b \<le> 127 \<Longrightarrow> unat b div 64 = 1" by linarith
  have top: "224 \<le> unat a \<Longrightarrow> unat a div 16 = 14 \<or> unat a div 16 = 15" using lt(1) by linarith
  from f consider "unat a = 0" | "unat a = 100" "unat b div 64 = 1"
    | "unat a = 169" "unat b = 254" "unat c = 169" "unat e = 254" | "unat a = 169" "unat b = 254" "unat c = 170" "unat e = 2"
    | "unat a = 169" "unat b = 254" "unat c = 170" "unat e = 23" | "unat a = 192" "unat b = 0" "unat c = 0"
    | "unat a = 192" "unat b = 0" "unat c = 2" | "unat a = 198" "unat b div 2 = 9" | "unat a = 198" "unat b = 51" "unat c = 100"
    | "unat a = 203" "unat b = 0" "unat c = 113" | "unat a div 16 = 14" | "unat a div 16 = 15"
    using lt top mid by (auto simp: floor_v4_def d' Let_def)
  then show ?thesis
    unfolding d' floor_matchers_def by cases (simp_all add: v4_matches v6_no_match byte_is upt_rec)
qed

lemma internal_denied:
  assumes d: "length d = 4" and f: "internal_v4 d"
  shows "list_ex (matchesMatcher \<lparr> ip_bytes = d, ip_family = V4 \<rparr>) internal_matchers"
proof -
  obtain a b c e where d': "d = [a, b, c, e]" using d by (auto simp: numeral_eq_Suc length_Suc_conv)
  have "16 \<le> unat b \<Longrightarrow> unat b \<le> 31 \<Longrightarrow> unat b div 16 = 1" by linarith
  with f consider "unat a = 127" | "unat a = 10" | "unat a = 172" "unat b div 16 = 1" | "unat a = 192" "unat b = 168"
    | "unat a = 169" "unat b = 254"
    by (auto simp: internal_v4_def d' Let_def)
  then show ?thesis
    unfolding d' internal_matchers_def by cases (simp_all add: v4_matches v6_no_match byte_is upt_rec)
qed

text \<open>The forms of an IPv6 address that a translator, relay or stack turns into a connection to an IPv4 host.\<close>

inductive carries :: "8 word list \<Rightarrow> parsed_ip \<Rightarrow> bool" for d where
  itself: "carries d \<lparr> ip_bytes = d, ip_family = V4 \<rparr>"
| mapped: "carries d \<lparr> ip_bytes = [0, 0, 0, 0, 0, 0, 0, 0, 0, 0, 255, 255] @ d, ip_family = V6 \<rparr>"
| siit: "carries d \<lparr> ip_bytes = [0, 0, 0, 0, 0, 0, 0, 0, 255, 255, 0, 0] @ d, ip_family = V6 \<rparr>"
| compatible: "d \<noteq> [0, 0, 0, 0] \<Longrightarrow> d \<noteq> [0, 0, 0, 1] \<Longrightarrow>
    carries d \<lparr> ip_bytes = [0, 0, 0, 0, 0, 0, 0, 0, 0, 0, 0, 0] @ d, ip_family = V6 \<rparr>"
| nat64: "carries d \<lparr> ip_bytes = [0, 100, 255, 155, 0, 0, 0, 0, 0, 0, 0, 0] @ d, ip_family = V6 \<rparr>"
| local64: "length x = 6 \<Longrightarrow> carries d \<lparr> ip_bytes = [0, 100, 255, 155, 0, 1] @ x @ d, ip_family = V6 \<rparr>"
| six_to_four: "length x = 10 \<Longrightarrow> carries d \<lparr> ip_bytes = [32, 2] @ d @ x, ip_family = V6 \<rparr>"
| teredo_server: "length x = 8 \<Longrightarrow> carries d \<lparr> ip_bytes = [32, 1, 0, 0] @ d @ x, ip_family = V6 \<rparr>"
| teredo_client: "length x = 8 \<Longrightarrow> carries d \<lparr> ip_bytes = [32, 1, 0, 0] @ x @ map (\<lambda>y. y XOR 255) d, ip_family = V6 \<rparr>"

lemma xor_id: "map (\<lambda>y. y XOR 0) d = (d :: 8 word list)" "map (\<lambda>y. (y XOR 255) XOR 255) d = (d :: 8 word list)"
  by (simp_all add: xor.assoc)

lemma carried_embedded:
  assumes "length d = 4" and "carries d ip" and "ip_family ip = V6"
  shows "\<exists>es. embeddedIPv4s ip = Some es \<and> \<lparr> ip_bytes = d, ip_family = V4 \<rparr> \<in> set es"
  using assms(2,1,3)
proof (cases rule: carries.cases)
  case compatible
  obtain a b c e where d: "d = [a, b, c, e]" using assms(1) by (auto simp: numeral_eq_Suc length_Suc_conv)
  have "e \<noteq> 0 \<Longrightarrow> e \<noteq> 1 \<Longrightarrow> \<not> unat e \<le> Suc 0"
    by (metis le_SucE le_zero_eq unat_eq_zero One_nat_def unat_1 word_unat_eq_iff)
  with compatible show ?thesis
    by (auto simp: embeddedIPv4s_def Let_def group_at_def zero_bytes_def v4_at_def xor_id d unat_eq_zero)
next
  case (local64 x)
  then obtain x1 x2 x3 x4 x5 x6 where "x = [x1, x2, x3, x4, x5, x6]"
    by (auto simp: numeral_eq_Suc length_Suc_conv)
  then have "v4_at (ip_bytes ip) 12 0 = \<lparr> ip_bytes = d, ip_family = V4 \<rparr>"
    using local64 assms(1) by (simp add: v4_at_def xor_id)
  moreover have "embeddedIPv4s ip = Some [v4_at (ip_bytes ip) 12 0]"
    using local64 by (simp add: embeddedIPv4s_def Let_def group_at_def zero_bytes_def)
  ultimately show ?thesis by simp
next
  case (teredo_client x)
  then have "take 4 (drop 12 (ip_bytes ip)) = map (\<lambda>y. y XOR 255) d"
    using assms(1) by simp
  then have "v4_at (ip_bytes ip) 12 255 = \<lparr> ip_bytes = d, ip_family = V4 \<rparr>"
    unfolding v4_at_def by (simp only: list.map_comp comp_def xor.assoc xor_self_eq xor.right_neutral) simp
  moreover have "embeddedIPv4s ip = Some [v4_at (ip_bytes ip) 4 0, v4_at (ip_bytes ip) 12 255]"
    using teredo_client by (simp add: embeddedIPv4s_def Let_def group_at_def zero_bytes_def)
  ultimately show ?thesis by simp
qed (simp_all add: embeddedIPv4s_def Let_def group_at_def zero_bytes_def v4_at_def xor_id)

lemma compile_all_append:
  "compile_all (xs @ ys) = Inr ms \<Longrightarrow> \<exists>a b. compile_all xs = Inr a \<and> compile_all ys = Inr b \<and> ms = a @ b"
  by (induction xs arbitrary: ms) (fastforce split: sum.splits)+

lemma compile_all_appendI: "compile_all xs = Inr a \<Longrightarrow> compile_all ys = Inr b \<Longrightarrow> compile_all (xs @ ys) = Inr (a @ b)"
  by (induction xs arbitrary: a) (auto split: sum.splits)

text \<open>No allowed address carries an address of the floor, whatever the options lift.\<close>

lemma single_floor:
  assumes "compile_policy o' = Inr p" "length d = 4" "floor_v4 d"
  shows "\<not> isSingleAddressAllowed p \<lparr> ip_bytes = d, ip_family = V4 \<rparr>"
proof -
  from assms(1) obtain hard where "compile_all (always_deny @ go_denyAddresses o') = Inr hard" "ad_hard p = hard"
    by (auto simp: compile_policy_def split: sum.splits)
  then obtain b where "ad_hard p = floor_matchers @ b"
    using hard_floor_compiled by (auto dest: compile_all_append)
  with floor_denied [OF assms(2,3)] show ?thesis by (simp add: isSingleAddressAllowed_def)
qed

lemma single_internal:
  assumes "compile_policy o' = Inr p" "length d = 4" "internal_v4 d"
    and "go_allowAddresses o' = []" "\<not> go_loopback o'" "\<not> go_private o'" "\<not> go_linkLocal o'"
  shows "\<not> isSingleAddressAllowed p \<lparr> ip_bytes = d, ip_family = V4 \<rparr>"
proof -
  from assms obtain soft where s: "compile_all (soft_ranges o') = Inr soft" "ad_soft p = soft" "ad_allow p = []"
    by (auto simp: compile_policy_def split: sum.splits)
  have "soft_ranges o' = (loopback_ranges @ private_ranges @ link_local_ranges)
      @ ((if go_uniqueLocal o' then [] else unique_local_ranges) @ local_nat64)"
    using assms(5-7) by (simp add: soft_ranges_def)
  with s obtain b where "ad_soft p = internal_matchers @ b"
    using internal_compiled by (metis compile_all_append sum.inject(2))
  with s(3) internal_denied [OF assms(2,3)] show ?thesis by (simp add: isSingleAddressAllowed_def)
qed

lemma allowed_carries:
  assumes "isAddressAllowed p ip" "length d = 4" "carries d ip"
  shows "isSingleAddressAllowed p \<lparr> ip_bytes = d, ip_family = V4 \<rparr>"
proof (cases "ip_family ip")
  case V4
  with assms(3) have "ip = \<lparr> ip_bytes = d, ip_family = V4 \<rparr>" by (cases rule: carries.cases) auto
  with assms(1) show ?thesis by (auto simp: isAddressAllowed_def split: if_splits)
next
  case V6
  from carried_embedded [OF assms(2,3) this] assms(1) show ?thesis
    by (auto simp: isAddressAllowed_def list_all_iff split: if_splits)
qed

section \<open>Every hop of a call\<close>

text \<open>Properties of all hops follow from one induction: the first hop is checked, and a later one is checked with its flag.\<close>

lemma guard_hops_cases:
  assumes "guard_hops o' p nw mode hop rq d = (t, r)"
  obtains (refused) e where "check_hop o' p nw hop rq d = Inl e" "t = []" "r = Inl e"
  | (last) pin where "check_hop o' p nw hop rq d = Inr pin" "t = [connect o' rq pin]"
  | (hop) pin rq' d' rest res where "check_hop o' p nw hop rq d = Inr pin" "t = connect o' rq pin # rest"
      "nw_answer nw hop (connect o' rq pin) = Some res" "after_answer o' nw mode hop rq res = Hop rq' d'"
      "guard_hops o' p nw mode (Suc hop) rq' d' = (rest, r)"
  using assms by (subst (asm) guard_hops.simps) (auto split: sum.splits option.splits hop_result.splits prod.splits)

lemma connect_request [simp]: "sn_request (connect o' rq pin) = rq"
  by (auto simp: connect_def baseFetch_def pinnedHttpFetch_def Let_def split: option.splits)

text \<open>The host a socket is opened to: the pinned address, else the name or literal of the URL.\<close>

definition socket_host :: "hop_sent \<Rightarrow> jstr" where
  "socket_host s = (case sn_address s of Some a \<Rightarrow> a | None \<Rightarrow> bare_hostname (og_url (sn_request s)))"

lemma refused_address_None: "refused_address p as = None \<Longrightarrow> a \<in> set as \<Longrightarrow> \<exists>ip. parseIp a = Some ip \<and> isAddressAllowed p ip"
  by (induction as) (auto split: option.splits if_splits)

lemma checked_answers:
  assumes "check_hop o' p nw hop rq d = Inr pin" and "\<not> host_trusted o' (og_url rq)"
    and "parseIp (bare_hostname (og_url rq)) = None"
  shows "\<exists>as. nw_resolve nw hop (bare_hostname (og_url rq)) = Some as \<and> as \<noteq> [] \<and> refused_address p as = None"
  using assms by (auto simp: check_hop_def validateUrl_def Let_def split: sum.splits if_splits option.splits list.splits prod.splits)

lemma checked_socket:
  assumes "check_hop o' p nw hop rq d = Inr pin" and "\<not> host_trusted o' (og_url rq)"
    and "go_pinDns o'" and "ur_protocol (og_url rq) \<in> {js ''http:'', js ''https:''}"
  shows "\<exists>ip. parseIp (socket_host (connect o' rq pin)) = Some ip \<and> isAddressAllowed p ip"
proof -
  from assms(1) have v: "validateUrl o' p (nw_resolve nw hop) (og_url rq) = Inr pin"
    by (auto simp: check_hop_def split: sum.splits if_splits)
  show ?thesis
  proof (cases "parseIp (bare_hostname (og_url rq))")
    case None
    with v assms(2) obtain a ip where "pin = Some a" "parseIp a = Some ip" "isAddressAllowed p ip"
      by (auto simp: validateUrl_def Let_def split: if_splits option.splits list.splits prod.splits)
    with assms(3,4) show ?thesis
      by (auto simp: socket_host_def connect_def pinnedHttpFetch_def Let_def)
  next
    case (Some ip)
    with v assms(2) have "pin = None" "isAddressAllowed p ip"
      by (auto simp: validateUrl_def Let_def split: if_splits)
    with Some show ?thesis by (simp add: socket_host_def connect_def baseFetch_def)
  qed
qed

lemma hops_sockets:
  assumes "guard_hops o' p nw mode hop rq d = (t, r)" and "s \<in> set t" and "go_pinDns o'"
    and "\<not> host_trusted o' (og_url (sn_request s))" and "ur_protocol (og_url (sn_request s)) \<in> {js ''http:'', js ''https:''}"
  shows "\<exists>ip. parseIp (socket_host s) = Some ip \<and> isAddressAllowed p ip"
  using assms
proof (induction o' p nw mode hop rq d arbitrary: t r rule: guard_hops.induct)
  case (1 o' p nw mode hop rq d)
  from "1.prems"(1) show ?case
  proof (cases rule: guard_hops_cases)
    case (hop pin rq' d' rest res)
    from "1.prems"(2) hop(2) consider "s = connect o' rq pin" | "s \<in> set rest" by auto
    then show ?thesis
    proof cases
      case 1
      with checked_socket [OF hop(1)] "1.prems"(3-5) show ?thesis by simp
    next
      case 2
      with "1.IH" [OF hop(1) hop(3) hop(4) hop(5)] "1.prems"(3-5) show ?thesis by blast
    qed
  next
    case (last pin)
    with checked_socket [OF last(1)] "1.prems"(2-5) show ?thesis by simp
  qed (use "1.prems" in simp)
qed

lemma fetchGuard_hops:
  assumes "fetchGuard o' p nw ser mode input meth h b = (t, r)" and "t \<noteq> []"
  obtains u where "nw_parse nw None input = Some u" "\<not> ur_userinfo u"
    "guard_hops o' p nw mode 0 \<lparr> og_url = u, og_method = meth, og_headers = h,
       og_body = prepare_body (go_maxReplay o') ser b \<rparr> False = (t, r)"
  using assms by (auto simp: fetchGuard_def split: option.splits if_splits)


definition strict_options :: guard_options where
  "strict_options = \<lparr> go_protocols = [js ''http:'', js ''https:''], go_allowAddresses = [], go_denyAddresses = [],
     go_allowHosts = [], go_allowPorts = None, go_maxResponse = Some 10485760, go_sensitive = [js ''X-Api-Key''],
     go_loopback = False, go_private = False, go_linkLocal = False, go_uniqueLocal = False, go_maxRedirects = 5,
     go_downgrade = False, go_maxReplay = 1048576, go_pinDns = True \<rparr>"

definition web_url :: "jstr \<Rightarrow> url" where
  "web_url host = \<lparr> ur_text = js ''http://'' @ host @ js ''/'', ur_protocol = js ''http:'', ur_userinfo = False,
     ur_bare = js ''http://'' @ host @ js ''/'', ur_hostname = host, ur_port = [], ur_host = host, ur_path = js ''/'',
     ur_origin = js ''http://'' @ host \<rparr>"

text \<open>A name that answers with a public address and redirects to the metadata service, written as a mapped address.\<close>

definition rebinding :: hop_network where
  "rebinding = \<lparr> nw_parse = (\<lambda>base t. if base = None then Some (web_url (js ''a.example'')) else Some (web_url (js ''[::ffff:169.254.169.254]''))),
     nw_resolve = (\<lambda>hop n. if hop = 0 then Some [js ''93.184.216.34''] else Some [js ''127.0.0.1'']),
     nw_answer = (\<lambda>hop s. Some \<lparr> an_status = 302, an_headers = [(js ''location'', js ''http://[::ffff:169.254.169.254]/'')],
       an_chunks = None \<rparr>) \<rparr>"

definition strict_soft :: "ip_matcher list" where
  "strict_soft = internal_matchers @ [v6_matcher 7 [252, 0, 0, 0, 0, 0, 0, 0, 0, 0, 0, 0, 0, 0, 0, 0],
     v6_matcher 48 [0, 100, 255, 155, 0, 1, 0, 0, 0, 0, 0, 0, 0, 0, 0, 0]]"

lemma strict_policy: "compile_policy strict_options = Inr \<lparr> ad_hard = floor_matchers, ad_soft = strict_soft, ad_allow = [] \<rparr>"
proof -
  have "compile_all (unique_local_ranges @ local_nat64) = Inr [v6_matcher 7 [252, 0, 0, 0, 0, 0, 0, 0, 0, 0, 0, 0, 0, 0, 0, 0],
      v6_matcher 48 [0, 100, 255, 155, 0, 1, 0, 0, 0, 0, 0, 0, 0, 0, 0, 0]]"
    unfolding unique_local_ranges_def local_nat64_def v6_matcher_def by (simp add: eval)
  from compile_all_appendI [OF internal_compiled this] have "compile_all (soft_ranges strict_options) = Inr strict_soft"
    by (simp add: soft_ranges_def strict_options_def strict_soft_def)
  moreover have "compile_all (always_deny @ go_denyAddresses strict_options) = Inr floor_matchers"
    by (simp add: strict_options_def hard_floor_compiled)
  moreover have "compile_all (go_allowAddresses strict_options) = Inr []" by (simp add: strict_options_def)
  ultimately show ?thesis by (simp add: compile_policy_def)
qed

lemma public_allowed: "isAddressAllowed \<lparr> ad_hard = floor_matchers, ad_soft = strict_soft, ad_allow = [] \<rparr>
    \<lparr> ip_bytes = [93, 184, 216, 34], ip_family = V4 \<rparr>"
  by (simp add: isAddressAllowed_def isSingleAddressAllowed_def embeddedIPv4s_def floor_matchers_def strict_soft_def
      internal_matchers_def v6_no_match v4_matches upt_rec)

definition strict_addresses :: address_policy where
  "strict_addresses = \<lparr> ad_hard = floor_matchers, ad_soft = strict_soft, ad_allow = [] \<rparr>"

definition first_get :: outgoing where
  "first_get = \<lparr> og_url = web_url (js ''a.example''), og_method = js ''GET'', og_headers = [], og_body = NoSendBody \<rparr>"

definition second_get :: outgoing where
  "second_get = first_get\<lparr>og_url := web_url (js ''[::ffff:169.254.169.254]'')\<rparr>"

lemma metadata_denied: "\<not> isAddressAllowed strict_addresses \<lparr> ip_bytes = [0, 0, 0, 0, 0, 0, 0, 0, 0, 0, 255, 255, 169, 254, 169, 254], ip_family = V6 \<rparr>"
proof
  assume a: "isAddressAllowed strict_addresses \<lparr> ip_bytes = [0, 0, 0, 0, 0, 0, 0, 0, 0, 0, 255, 255, 169, 254, 169, 254], ip_family = V6 \<rparr>"
  have "carries [169, 254, 169, 254] \<lparr> ip_bytes = [0, 0, 0, 0, 0, 0, 0, 0, 0, 0, 255, 255, 169, 254, 169, 254], ip_family = V6 \<rparr>"
    using mapped [of "[169, 254, 169, 254]"] by simp
  from allowed_carries [OF a _ this] single_floor [OF strict_policy, of "[169, 254, 169, 254]"] show False
    by (simp add: strict_addresses_def floor_v4_def)
qed

lemma first_checked: "check_hop strict_options strict_addresses rebinding 0 first_get False = Inr (Some (js ''93.184.216.34''))"
proof -
  have n: "parseIp (js ''a.example'') = None" by (simp add: eval)
  have y: "parseIp (js ''93.184.216.34'') = Some \<lparr> ip_bytes = [93, 184, 216, 34], ip_family = V4 \<rparr>" by (simp add: eval)
  show ?thesis
    using n y public_allowed
    by (simp add: check_hop_def validateUrl_def first_get_def web_url_def rebinding_def strict_options_def strict_addresses_def
        bare_hostname_def effective_port_def host_trusted_def bad_ports_def eval)
qed

lemma second_checked: "check_hop strict_options strict_addresses rebinding (Suc 0) second_get False
    = Inl (SsrfBlocked (js ''http://[::ffff:169.254.169.254]/'') AddressNotAllowed (Some (js ''::ffff:169.254.169.254'')))"
proof -
  have "parseIp (js ''::ffff:169.254.169.254'')
      = Some \<lparr> ip_bytes = [0, 0, 0, 0, 0, 0, 0, 0, 0, 0, 255, 255, 169, 254, 169, 254], ip_family = V6 \<rparr>" by (simp add: eval)
  with metadata_denied show ?thesis
    by (simp add: check_hop_def validateUrl_def first_get_def second_get_def web_url_def rebinding_def strict_options_def
        bare_hostname_def effective_port_def host_trusted_def bad_ports_def to_lower_def lower_unit_def)
qed

lemma rebinding_blocked:
  "fetchGuard strict_options strict_addresses rebinding (\<lambda>b. []) Follow (js ''http://a.example/'') (js ''GET'') [] None
   = ([pinnedHttpFetch first_get (js ''93.184.216.34'')],
      Inl (SsrfBlocked (js ''http://[::ffff:169.254.169.254]/'') AddressNotAllowed (Some (js ''::ffff:169.254.169.254''))))"
proof -
  have c: "connect strict_options first_get (Some (js ''93.184.216.34'')) = pinnedHttpFetch first_get (js ''93.184.216.34'')"
    by (simp add: connect_def strict_options_def first_get_def web_url_def)
  have a: "after_answer strict_options rebinding Follow 0 first_get \<lparr> an_status = 302,
      an_headers = [(js ''location'', js ''http://[::ffff:169.254.169.254]/'')], an_chunks = None \<rparr> = Hop second_get False"
    by (simp add: after_answer_def isRedirect_def strict_options_def rebinding_def follow_def hd_get_def first_get_def
        second_get_def web_url_def streaming_def next_request_def becomes_get_def Let_def credential_headers_def hd_delete_def eval)
  have s: "guard_hops strict_options strict_addresses rebinding Follow (Suc 0) second_get False = ([],
      Inl (SsrfBlocked (js ''http://[::ffff:169.254.169.254]/'') AddressNotAllowed (Some (js ''::ffff:169.254.169.254''))))"
    by (subst guard_hops.simps) (simp add: second_checked)
  have n: "nw_answer rebinding 0 x = Some \<lparr> an_status = 302,
      an_headers = [(js ''location'', js ''http://[::ffff:169.254.169.254]/'')], an_chunks = None \<rparr>" for x
    by (simp add: rebinding_def)
  have "guard_hops strict_options strict_addresses rebinding Follow 0 first_get False = ([pinnedHttpFetch first_get (js ''93.184.216.34'')],
      Inl (SsrfBlocked (js ''http://[::ffff:169.254.169.254]/'') AddressNotAllowed (Some (js ''::ffff:169.254.169.254''))))"
    by (subst guard_hops.simps) (simp only: first_checked sum.case option.case n c a s hop_result.case prod.case)
  moreover have "nw_parse rebinding None x = Some (web_url (js ''a.example''))" for x by (simp add: rebinding_def)
  ultimately show ?thesis
    by (simp add: fetchGuard_def web_url_def first_get_def prepare_body_def)
qed


section \<open>What a redirect carries\<close>

lemma lower_lower [simp]: "to_lower (to_lower s) = to_lower s"
  by (simp add: to_lower_def lower_unit_def)

lemma delete_all: "map_of (fold hd_delete ns h) n = (if n \<in> to_lower ` set ns then None else map_of h n)"
  by (induction ns arbitrary: h) (auto simp: hd_delete_def delete_conv')

lemma credentials_lower: "n \<in> set (credential_headers o') \<Longrightarrow> to_lower n = n"
  by (auto simp: credential_headers_def to_lower_def lower_unit_def)

lemma strip_lacks: "map_of h n = None \<Longrightarrow> map_of (stripBodyHeaders h) n = None"
  unfolding stripBodyHeaders_def delete_all by simp

lemma next_lacks:
  "map_of (og_headers rq) n = None \<Longrightarrow> map_of (og_headers (next_request o' st rq u)) n = None"
  by (simp add: next_request_def Let_def delete_all strip_lacks)

lemma crossing_lacks:
  assumes "ur_origin u \<noteq> ur_origin (og_url rq)" and "n \<in> set (credential_headers o')"
  shows "map_of (og_headers (next_request o' st rq u)) n = None"
proof -
  have "n \<in> to_lower ` set (credential_headers o')" using credentials_lower [OF assms(2)] assms(2) by force
  with assms(1) show ?thesis by (simp add: next_request_def Let_def delete_all)
qed

lemma hop_next:
  assumes "after_answer o' nw mode hop rq res = Hop rq' d'"
  obtains u where "rq' = next_request o' (an_status res) rq u" "\<not> ur_userinfo u"
    "d' \<longleftrightarrow> ur_protocol (og_url rq) = js ''https:'' \<and> ur_protocol u = js ''http:''"
    "streaming (og_body rq) \<Longrightarrow> becomes_get (an_status res) (og_method rq)"
  using assms by (auto simp: after_answer_def follow_def Let_def split: if_splits option.splits sum.splits)

lemma next_url [simp]: "og_url (next_request o' st rq u) = u"
  by (simp add: next_request_def Let_def)

text \<open>The header the wire carries is the request's, but for what pinning sets.\<close>

lemma wire_header:
  assumes "n \<notin> {js ''host'', js ''accept-encoding'', js ''content-length''}"
  shows "map_of (sn_headers (connect o' rq pin)) n = map_of (og_headers rq) n"
proof -
  have l: "to_lower (js ''host'') = js ''host''" "to_lower (js ''accept-encoding'') = js ''accept-encoding''"
    "to_lower (js ''content-length'') = js ''content-length''" by (simp_all add: to_lower_def lower_unit_def)
  show ?thesis using assms
    by (auto simp: connect_def pinnedHttpFetch_def baseFetch_def pinned_headers_def hd_set_def l get_put Let_def
        simp del: js_simps split: option.splits send_body.splits)
qed

lemma hops_lack:
  assumes "guard_hops o' p nw mode hop rq d = (t, r)" and "map_of (og_headers rq) n = None" and "s \<in> set t"
  shows "map_of (og_headers (sn_request s)) n = None"
  using assms
proof (induction o' p nw mode hop rq d arbitrary: t r rule: guard_hops.induct)
  case (1 o' p nw mode hop rq d)
  from "1.prems"(1) show ?case
  proof (cases rule: guard_hops_cases)
    case (hop pin rq' d' rest res)
    from hop(4) obtain u where "rq' = next_request o' (an_status res) rq u" by (rule hop_next)
    with next_lacks "1.prems"(2) have "map_of (og_headers rq') n = None" by simp
    with "1.IH" [OF hop(1) hop(3) hop(4) hop(5)] "1.prems" hop(2) show ?thesis by auto
  qed (use "1.prems" in auto)
qed

lemma hops_home:
  assumes "guard_hops o' p nw mode hop rq d = (t, r)" and "n \<in> set (credential_headers o')"
    and "i < length t" and "map_of (og_headers (sn_request (t ! i))) n \<noteq> None" and "j \<le> i"
  shows "ur_origin (og_url (sn_request (t ! j))) = ur_origin (og_url rq)"
  using assms
proof (induction o' p nw mode hop rq d arbitrary: t r i j rule: guard_hops.induct)
  case (1 o' p nw mode hop rq d)
  from "1.prems"(1) show ?case
  proof (cases rule: guard_hops_cases)
    case (hop pin rq' d' rest res)
    show ?thesis
    proof (cases j)
      case 0
      then show ?thesis by (simp add: hop(2))
    next
      case (Suc j')
      with "1.prems"(5) obtain i' where i: "i = Suc i'" "j' \<le> i'" by (cases i) auto
      from hop(4) obtain u where u: "rq' = next_request o' (an_status res) rq u" by (rule hop_next)
      have m: "i' < length rest" "map_of (og_headers (sn_request (rest ! i'))) n \<noteq> None"
        using "1.prems"(3,4) by (simp_all add: hop(2) i(1))
      from hops_lack [OF hop(5), of n "rest ! i'"] m have "map_of (og_headers rq') n \<noteq> None" by auto
      with crossing_lacks "1.prems"(2) u have "ur_origin u = ur_origin (og_url rq)" by metis
      with "1.IH" [OF hop(1) hop(3) hop(4) hop(5) "1.prems"(2) m i(2)] u show ?thesis by (simp add: hop(2) Suc)
    qed
  qed (use "1.prems" in auto)
qed

lemma hops_connect:
  assumes "guard_hops o' p nw mode hop rq d = (t, r)" and "s \<in> set t"
  shows "\<exists>pin. s = connect o' (sn_request s) pin"
  using assms
proof (induction o' p nw mode hop rq d arbitrary: t r rule: guard_hops.induct)
  case (1 o' p nw mode hop rq d)
  from "1.prems"(1) show ?case
  proof (cases rule: guard_hops_cases)
    case (hop pin rq' d' rest res)
    with "1.IH" [OF hop(1) hop(3) hop(4) hop(5)] "1.prems"(2) show ?thesis by auto
  qed (use "1.prems" in auto)
qed

text \<open>
  C40. Credentials stay at home: a hop that puts an authorization, cookie, proxy authorization or
  configured sensitive header on the wire is part of a chain that has not left the origin of the call;
  once a redirect crossed origins, no later hop carries such a header, also not on the way back.
\<close>

theorem credentials_stay_home:
  assumes "fetchGuard o' p nw ser mode input meth h b = (t, r)" and "n \<in> set (credential_headers o')"
    and "n \<notin> {js ''host'', js ''accept-encoding'', js ''content-length''}"
    and "i < length t" and "map_of (sn_headers (t ! i)) n \<noteq> None" and "j \<le> i"
  shows "ur_origin (og_url (sn_request (t ! j))) = ur_origin (og_url (sn_request (t ! 0)))"
proof -
  from assms(4) have "t \<noteq> []" by auto
  with assms(1) obtain u where g: "guard_hops o' p nw mode 0 \<lparr> og_url = u, og_method = meth, og_headers = h,
       og_body = prepare_body (go_maxReplay o') ser b \<rparr> False = (t, r)" by (rule fetchGuard_hops)
  from hops_connect [OF g nth_mem [OF assms(4)]] wire_header [OF assms(3)] assms(5)
  have m: "map_of (og_headers (sn_request (t ! i))) n \<noteq> None" by metis
  show ?thesis
    using hops_home [OF g assms(2,4) m assms(6)] hops_home [OF g assms(2,4) m le0] by simp
qed

definition same_site :: hop_network where
  "same_site = \<lparr> nw_parse = (\<lambda>base t. Some (web_url (js ''a.example''))), nw_resolve = (\<lambda>hop n. Some [js ''93.184.216.34'']),
     nw_answer = (\<lambda>hop s. Some (if hop = 0
       then \<lparr> an_status = 307, an_headers = [(js ''location'', js ''/next'')], an_chunks = None \<rparr>
       else \<lparr> an_status = 204, an_headers = [], an_chunks = None \<rparr>)) \<rparr>"

definition secret_get :: outgoing where
  "secret_get = first_get\<lparr>og_headers := [(js ''x-api-key'', js ''k'')]\<rparr>"

lemma same_site_call:
  "fetchGuard strict_options strict_addresses same_site (\<lambda>b. []) Follow (js ''http://a.example/'') (js ''GET'')
     [(js ''x-api-key'', js ''k'')] None
   = (let s = pinnedHttpFetch secret_get (js ''93.184.216.34'') in ([s, s], Inr (Delivered 204 [] None False)))"
proof -
  have n: "parseIp (js ''a.example'') = None" by (simp add: eval)
  have y: "parseIp (js ''93.184.216.34'') = Some \<lparr> ip_bytes = [93, 184, 216, 34], ip_family = V4 \<rparr>" by (simp add: eval)
  have k: "check_hop strict_options strict_addresses same_site hop secret_get False = Inr (Some (js ''93.184.216.34''))" for hop
    using n y public_allowed
    by (simp add: check_hop_def validateUrl_def secret_get_def first_get_def web_url_def same_site_def strict_options_def
        strict_addresses_def bare_hostname_def effective_port_def host_trusted_def bad_ports_def eval)
  have c: "connect strict_options secret_get (Some (js ''93.184.216.34'')) = pinnedHttpFetch secret_get (js ''93.184.216.34'')"
    by (simp add: connect_def strict_options_def secret_get_def first_get_def web_url_def)
  have a: "after_answer strict_options same_site Follow 0 secret_get \<lparr> an_status = 307,
      an_headers = [(js ''location'', js ''/next'')], an_chunks = None \<rparr> = Hop secret_get False"
    by (simp add: after_answer_def isRedirect_def strict_options_def same_site_def follow_def hd_get_def first_get_def
        secret_get_def web_url_def streaming_def next_request_def becomes_get_def Let_def eval)
  have z: "after_answer strict_options same_site Follow (Suc 0) secret_get \<lparr> an_status = 204, an_headers = [], an_chunks = None \<rparr>
      = Finished (Inr (Delivered 204 [] None False))"
    by (simp add: after_answer_def isRedirect_def capResponse_def strict_options_def)
  have w: "nw_answer same_site 0 x = Some \<lparr> an_status = 307, an_headers = [(js ''location'', js ''/next'')], an_chunks = None \<rparr>"
    "nw_answer same_site (Suc 0) x = Some \<lparr> an_status = 204, an_headers = [], an_chunks = None \<rparr>" for x
    by (simp_all add: same_site_def)
  have "guard_hops strict_options strict_addresses same_site Follow (Suc 0) secret_get False
      = ([pinnedHttpFetch secret_get (js ''93.184.216.34'')], Inr (Delivered 204 [] None False))"
    by (subst guard_hops.simps) (simp only: k sum.case option.case w c z hop_result.case)
  then have "guard_hops strict_options strict_addresses same_site Follow 0 secret_get False
      = (let s = pinnedHttpFetch secret_get (js ''93.184.216.34'') in ([s, s], Inr (Delivered 204 [] None False)))"
    by (subst guard_hops.simps) (simp only: k sum.case option.case w c a hop_result.case prod.case Let_def)
  moreover have "nw_parse same_site None x = Some (web_url (js ''a.example''))" for x by (simp add: same_site_def)
  ultimately show ?thesis
    by (simp add: fetchGuard_def web_url_def first_get_def secret_get_def prepare_body_def)
qed

theorem credentials_stay_home_witness:
  "ur_origin (og_url (sn_request (pinnedHttpFetch secret_get (js ''93.184.216.34'')))) = js ''http://a.example''"
proof -
  have "to_lower (js ''X-Api-Key'') = js ''x-api-key''" by (simp add: eval)
  then have n: "js ''x-api-key'' \<in> set (credential_headers strict_options)"
    by (simp add: credential_headers_def strict_options_def)
  have m: "map_of (sn_headers (pinnedHttpFetch secret_get (js ''93.184.216.34''))) (js ''x-api-key'') \<noteq> None"
    by (simp add: pinnedHttpFetch_def pinned_headers_def hd_set_def get_put secret_get_def first_get_def Let_def)
  have "ur_origin (og_url (sn_request ([pinnedHttpFetch secret_get (js ''93.184.216.34''), pinnedHttpFetch secret_get (js ''93.184.216.34'')] ! 1)))
      = ur_origin (og_url (sn_request ([pinnedHttpFetch secret_get (js ''93.184.216.34''), pinnedHttpFetch secret_get (js ''93.184.216.34'')] ! 0)))"
    by (rule credentials_stay_home [OF same_site_call [unfolded Let_def] n, where i = 1]) (use m in simp_all)
  moreover have "ur_origin (og_url (sn_request (pinnedHttpFetch secret_get a))) = js ''http://a.example''" for a
    by (simp add: pinnedHttpFetch_def secret_get_def first_get_def web_url_def Let_def)
  ultimately show ?thesis by simp
qed

text \<open>A call makes at most one hop more than it may follow redirects, and ends.\<close>

lemma hops_bounded:
  assumes "guard_hops o' p nw mode hop rq d = (t, r)"
  shows "length t \<le> Suc (nat (go_maxRedirects o' - int hop))"
  using assms
proof (induction o' p nw mode hop rq d arbitrary: t r rule: guard_hops.induct)
  case (1 o' p nw mode hop rq d)
  from "1.prems"(1) show ?case
  proof (cases rule: guard_hops_cases)
    case (hop pin rq' d' rest res)
    with "1.IH" [OF hop(1) hop(3) hop(4) hop(5)] hop_within [OF hop(4)] show ?thesis by simp
  qed auto
qed

text \<open>No redirect leads from TLS to plain text unless the option allows it.\<close>

lemma refused_downgrade: "guard_hops o' p nw mode hop rq True = (t, r) \<Longrightarrow> \<not> go_downgrade o' \<Longrightarrow> t = []"
  by (erule guard_hops_cases) (auto simp: check_hop_def split: sum.splits)

lemma hops_keep_tls:
  assumes "guard_hops o' p nw mode hop rq d = (t, r)" and "\<not> go_downgrade o'" and "Suc i < length t"
    and "ur_protocol (og_url (sn_request (t ! i))) = js ''https:''"
  shows "ur_protocol (og_url (sn_request (t ! Suc i))) \<noteq> js ''http:''"
  using assms
proof (induction o' p nw mode hop rq d arbitrary: t r i rule: guard_hops.induct)
  case (1 o' p nw mode hop rq d)
  from "1.prems"(1) show ?case
  proof (cases rule: guard_hops_cases)
    case (hop pin rq' d' rest res)
    show ?thesis
    proof (cases i)
      case 0
      from hop(4) obtain u where u: "rq' = next_request o' (an_status res) rq u"
        "d' \<longleftrightarrow> ur_protocol (og_url rq) = js ''https:'' \<and> ur_protocol u = js ''http:''" by (rule hop_next)
      from "1.prems"(3) 0 have "rest \<noteq> []" by (auto simp: hop(2))
      have "\<not> d'"
      proof
        assume d'
        with hop(5) have "guard_hops o' p nw mode (Suc hop) rq' True = (rest, r)" by simp
        from refused_downgrade [OF this "1.prems"(2)] \<open>rest \<noteq> []\<close> show False by simp
      qed
      moreover from hop(5) have "sn_request (rest ! 0) = rq'"
        by (cases rule: guard_hops_cases) (use \<open>rest \<noteq> []\<close> in auto)
      ultimately show ?thesis using u "1.prems"(4) by (simp add: hop(2) 0 del: js_simps)
    next
      case (Suc k)
      with "1.IH" [OF hop(1) hop(3) hop(4) hop(5) "1.prems"(2), of k] "1.prems"(3,4) show ?thesis by (simp add: hop(2) del: js_simps)
    qed
  qed (use "1.prems" in auto)
qed

text \<open>A stream is sent once; a replayed body is the one of the first hop, or none after the method became GET.\<close>

lemma hops_bodies:
  assumes "guard_hops o' p nw mode hop rq d = (t, r)" and "s \<in> set t"
  shows "og_body (sn_request s) = og_body rq \<or> og_body (sn_request s) = NoSendBody"
  using assms
proof (induction o' p nw mode hop rq d arbitrary: t r rule: guard_hops.induct)
  case (1 o' p nw mode hop rq d)
  from "1.prems"(1) show ?case
  proof (cases rule: guard_hops_cases)
    case (hop pin rq' d' rest res)
    from hop(4) obtain u where "rq' = next_request o' (an_status res) rq u" by (rule hop_next)
    then have "og_body rq' = og_body rq \<or> og_body rq' = NoSendBody" by (simp add: next_request_def Let_def)
    with "1.IH" [OF hop(1) hop(3) hop(4) hop(5)] "1.prems"(2) hop(2) show ?thesis by auto
  qed (use "1.prems" in auto)
qed

lemma stream_sent_once:
  assumes "guard_hops o' p nw mode hop rq d = (t, r)" and "streaming (og_body rq)" and "s \<in> set (tl t)"
  shows "og_body (sn_request s) = NoSendBody"
  using assms(1)
proof (cases rule: guard_hops_cases)
  case (hop pin rq' d' rest res)
  from hop(4) assms(2) obtain u where "rq' = next_request o' (an_status res) rq u"
    "becomes_get (an_status res) (og_method rq)" by (elim hop_next) blast
  then have "og_body rq' = NoSendBody" by (simp add: next_request_def Let_def)
  with hops_bodies [OF hop(5)] assms(3) hop(2) show ?thesis by auto
qed (use assms(3) in auto)

text \<open>The caller never gets more bytes than the limit, and all bytes of a body that fits.\<close>

lemma counted: "count_chunks m got cs = (out, failed) \<Longrightarrow> got \<le> m \<Longrightarrow>
    got + length (concat out) \<le> m \<and> (\<not> failed \<longleftrightarrow> out = cs) \<and> (failed \<longleftrightarrow> m < got + length (concat cs))"
proof (induction m got cs arbitrary: out failed rule: count_chunks.induct)
  case (2 m got c cs)
  show ?case
  proof (cases "m < got + length c")
    case False
    obtain out' f where "count_chunks m (got + length c) cs = (out', f)" by fastforce
    with "2.IH" [OF False this] "2.prems" False show ?thesis by auto
  qed (use "2.prems" in auto)
qed auto

lemma capped:
  assumes "capResponse (Some m) u res = Inr (Delivered st h (Some out) failed)" and "an_chunks res = Some cs"
  shows "length (concat out) \<le> m" and "\<not> failed \<longleftrightarrow> out = cs" and "failed \<longleftrightarrow> m < length (concat cs)"
  using assms counted [of m 0 cs out failed] by (auto simp: capResponse_def Let_def split: if_splits prod.splits)

text \<open>A \<open>HEAD\<close> that is answered with 303 goes on as \<open>GET\<close>.\<close>

lemma head_becomes_get: "becomes_get 303 (js ''HEAD'')"
  by (simp add: becomes_get_def)

end
