(* ===== verification/Spec2Isabelle.thy ===== *)
theory Spec2Isabelle
  imports Router IpMatch WsRoute WsSink JobWorker Resilience ConcurrencyLimit Idempotency Scheduler SafeRedirect RateLimit SessionRotation FileNames WebhookDelivery Dispatch FetchGuard
begin

text \<open>
  A verification development for Daloy (\<open>src/src\<close>), a TypeScript web framework with no run-time
  dependencies.  A request enters through a runtime adapter, is matched by the router, passes the
  hooks of the installed middleware (each reads and writes state of its own that overlapping
  requests share), reaches the handler and leaves through the \<open>onSend\<close> hooks.  Beside the
  request path stand the WebSocket engine, the durable job queue, the cron scheduler and the
  outbound client.  The development models the logic of these parts: the data they keep, the
  operations on it, their error paths, and how overlapping requests interleave.

  \<^bold>\<open>Conventions.\<close>  A string is a list of UTF-16 code units, a \<open>Map\<close> an insertion-ordered
  association list, an object a record, an exception the left of a sum.  Numbers that are integers
  in every state of the program are \<open>nat\<close> or \<open>int\<close>, bytes are \<open>8 word\<close> where the code uses bit
  operations.  Times are integer milliseconds; the clock is an argument.  Concurrency is the event
  loop's: code between two \<open>await\<close>s is one atomic step, and the reachable states of a component
  are those any interleaving of steps leads to.  Code outside the repository (digests, the time
  zone database, the URL parser, random sources) is a parameter of the functions that use it.

  \<^bold>\<open>Shared vocabulary.\<close>  \<open>Prelude\<close>: strings, association lists, splitting and joining.
  \<open>JsText\<close>: trimming, case mapping, numerals, UTF-8, \<open>encodeURIComponent\<close> and its inverse.
  \<open>Bytes\<close>: bytes as words.  \<open>Base64\<close>: \<open>btoa\<close>, \<open>atob\<close> and their round trip.  \<open>Json\<close>: JSON values,
  their text, and that the text determines the value.  \<open>Security\<close>: the forbidden object keys.

  \<^bold>\<open>Router\<close> (\<open>Router\<close>, \<open>router.ts\<close>).  The trie, its static fast path, registration, matching, the
  allowed-methods cache and the traversal-safe capture decoding.  Lemmas: registration is atomic and
  refines the abstract route table \<open>routes_at\<close>; matching finds what the table holds, by the
  precedence of the source; no capture smuggles a separator or a dot segment; the cache agrees with
  the table.

  \<^bold>\<open>The event loop\<close> (\<open>EventLoop\<close>).  Asynchronous code as a process that is settled or awaits: at an
  \<open>await\<close> other requests may change the shared world, and the rest goes on from what they left.
  \<open>run\<close> is the execution nothing interleaves with, \<open>ends\<close> and \<open>reaches\<close> speak of every interleaving,
  and \<open>try_catch_finally\<close> is the statement with a \<open>catch\<close> that returns a promise it does not await.

  \<^bold>\<open>Hooks\<close> (\<open>HookChain\<close>; \<open>combine.ts\<close>, \<open>request-finalizers.ts\<close>, the merge functions of
  \<open>app.ts\<close> and \<open>middleware.ts\<close>).  Bundles of life-cycle hooks, their merge, \<open>every\<close>, \<open>some\<close>,
  \<open>except\<close>, the order of \<open>beforeHandle\<close> gates and the request finalizers.  Lemmas: a replay never runs
  before a later authentication gate, a failed branch of \<open>some\<close> leaves nothing behind, nesting does not
  change the order of gates.

  \<^bold>\<open>Dispatch\<close> (\<open>HostGuard\<close>, \<open>Http\<close>, \<open>RequestBody\<close>, \<open>Dispatch\<close>; \<open>app.ts\<close>, \<open>errors.ts\<close>,
  \<open>internal-response.ts\<close>, \<open>security.ts\<close>).  The host allow-list and the cross-origin guard; header lists,
  problem documents, responses and their serialization; reading a body within its limit, decoding it and
  validating the parts of a request; and \<open>App.dispatch\<close> as one process over the world of a request: its
  contexts, the in-flight count and what hooks share.  Lemmas: a protected handler never runs before
  authentication, every request leaves once, stripped headers stay stripped, the handler sees what the
  schemas accepted, and the error path does not wait for its own final hooks.

  \<^bold>\<open>Client identity\<close> (\<open>IpMatch\<close>, \<open>ConnInfo\<close>; \<open>ip-match.ts\<close>, \<open>ip-restriction.ts\<close>,
  \<open>conn-info.ts\<close>).  Addresses, CIDR prefixes, the allow/deny gate, the forwarding headers and the
  proxy trust policies.  Lemmas: prefix matching is equality of the leading bits; a header a client
  wrote never changes the address a declared chain of proxies establishes.

  \<^bold>\<open>Rate limiting\<close> (\<open>RateLimit\<close>, \<open>middleware.ts\<close>).  \<open>MemoryStore\<close>, \<open>rateLimit\<close>,
  \<open>loginThrottle\<close>, over a heap, because a hit returns the shared bucket and the caller reads it after
  an \<open>await\<close>.  The locale \<open>rate_store\<close> is the store's contract, interpreted as \<open>memory_rate\<close>.

  \<^bold>\<open>WebSockets\<close> (\<open>WsCodec\<close>, \<open>WsSink\<close>, \<open>WsRoute\<close>; \<open>websocket.ts\<close>).  The frame codec, the stream
  assembler \<open>FrameSink\<close> with its growing buffers, the registry, the handshake and the origin
  policy.  The sink refines an assembler without buffers, is insensitive to how the stream is cut
  and bounded in memory.  The locale \<open>flagged_lookup\<close> is what the registry needs of the router.

  \<^bold>\<open>Jobs\<close> (\<open>Jobs\<close>, \<open>JobWorker\<close>; \<open>jobs.ts\<close>).  The in-memory store with leases and attempts, the queue
  and the settlement of a run.  Lemmas: the well-formedness of the store is invariant, an attempt is
  settled at most once, claiming picks the due job of highest priority.  The locale \<open>job_spi\<close> is the
  store as the worker sees it, interpreted on the in-memory store.

  \<^bold>\<open>Scheduler\<close> (\<open>Cron\<close>, \<open>Scheduler\<close>; \<open>scheduler.ts\<close>).  The cron parser, the search for the next
  matching minute and the \<open>Scheduler\<close> class over timers.  The search is bounded by
  \<open>max_lookahead\<close> (the source's bound of five years in minutes); time zones are the parameter
  \<open>wall\<close>.  Lemmas: the search returns the first match, parsed fields stay in range, a task never
  overlaps itself.

  \<^bold>\<open>Outbound calls\<close> (\<open>Resilience\<close>, \<open>FetchGuard\<close>; \<open>fetch-resilience.ts\<close>).  The circuit breaker as a transition
  system and the retry loop with its budget; jitter and the answers of the network are arguments.
  \<open>FetchGuard\<close> (\<open>fetch-guard.ts\<close>) is the guard of outbound calls: destinations checked at every hop of
  a redirect chain against an address policy, pinned sockets, stripped credentials, replayed bodies and a
  capped response.  \<open>guard_hops\<close> ends because a hop is followed only below \<open>go_maxRedirects\<close>.

  \<^bold>\<open>Bulkhead\<close> (\<open>ConcurrencyLimit\<close>, \<open>concurrency-limit.ts\<close>).  Buckets, the waiting queue, aborts and
  timeouts as turns of the event loop; the limit holds in every reachable state.

  \<^bold>\<open>Idempotency\<close> (\<open>Idempotency\<close>, \<open>idempotency.ts\<close>).  The store, the fingerprint and the hooks of
  overlapping requests.  SHA-256 is the parameter \<open>sha\<close>; its collision freedom is a hypothesis where
  it is used.  The locale \<open>idem_backend\<close> is the store's contract, interpreted as \<open>memory_idem\<close>.

  \<^bold>\<open>Redirects\<close> (\<open>SafeRedirect\<close>, \<open>safe-redirect.ts\<close>).  Classification of a target; the parser of
  absolute URLs is a parameter and a browser's reading of \<open>Location\<close> the specification.
  \<open>encoded_prefix_rounds\<close> is the source's bound on nested percent-encodings.

  \<^bold>\<open>Cookies and sessions\<close> (\<open>Cookie\<close>, \<open>Session\<close>, \<open>SessionRotation\<close>; \<open>cookie.ts\<close>,
  \<open>session.ts\<close>).  Serialization and the request parser, against what a browser sends back; the
  signed session cookie, the in-memory store, tombstones, and \<open>beforeHandle\<close>, the session API and
  \<open>onSend\<close> of overlapping requests as steps of a world; \<open>rotateSession\<close>.  The locale
  \<open>session_contract\<close> is what the hooks need of the store, interpreted as \<open>memory_sessions\<close>.  HMAC is
  the parameter \<open>hmac\<close>, the id generator's answers are arguments of the steps.

  \<^bold>\<open>Request guards and file names\<close> (\<open>Guards\<close>, \<open>FileNames\<close>; \<open>security.ts\<close>).  Header guards in the
  one walk of the source and as the sequence of guards they stand for, constant-time comparison,
  media types, the JSON structure limits, prototype keys, \<open>sanitizeFilename\<close>,
  \<open>contentDisposition\<close>, relative paths.

  \<^bold>\<open>Webhooks\<close> (\<open>Webhook\<close>, \<open>WebhookDelivery\<close>; \<open>security.ts\<close>, \<open>webhook-delivery.ts\<close>).  Signing and
  verification of a payload with its id and time, and the sender with retries, backoff, the deadline
  of \<open>Retry-After\<close> and dead letters.

  \<^bold>\<open>Not modelled.\<close>  Socket and file I/O (the runtime adapters, the static file server, the
  command line tool), document generation (OpenAPI, AsyncAPI), telemetry exporters, the fraction of
  the middleware that only sets headers, and the servers built on the framework (MCP, A2A).  Of the
  application: registration of routes and plugins (a route of the model is the compiled route), request
  deadlines, mock mode and logging.
\<close>

end
